(* ===== verification/Prelude.thy ===== *)
theory Prelude
  imports Main "HOL-Library.Word"
begin

text \<open>
  Shared ground of the development: names for the machine integers of the kernel, the
  checked and saturating arithmetic of Rust's \<open>core\<close>, the iterator idioms the sources use
  (\<open>position\<close>, \<open>min_by_key\<close>, index loops over fixed arrays) and the lemmas the component
  theories rely on.

  Conventions. A \<open>uN\<close> of the source is an \<open>N word\<close>, so \<open>+\<close>, \<open>-\<close> and \<open>*\<close> wrap: the kernel is
  built with \<open>cargo build --release\<close>, which leaves overflow checks and debug assertions off.
  A \<open>usize\<close> that is an index into a fixed array, a length or a slot number is a \<open>nat\<close>. A fixed array is a list; its length is part of the
  component's well-formedness predicate.
\<close>

unbundle bit_operations_syntax

type_synonym u8 = "8 word"
type_synonym u16 = "16 word"
type_synonym u32 = "32 word"
type_synonym u64 = "64 word"

named_theorems array_length \<open>operations keep the length of the fixed arrays\<close>
named_theorems kernel_wf \<open>operations keep the component's well-formedness\<close>

section \<open>Rust integer arithmetic\<close>

definition saturating_add :: "'a::len word \<Rightarrow> 'a word \<Rightarrow> 'a word" where
  "saturating_add a b = (if unat a + unat b < 2 ^ LENGTH('a) then a + b else - 1)"

definition saturating_sub :: "'a::len word \<Rightarrow> 'a word \<Rightarrow> 'a word" where
  "saturating_sub a b = (if b \<le> a then a - b else 0)"

definition checked_add :: "'a::len word \<Rightarrow> 'a word \<Rightarrow> 'a word option" where
  "checked_add a b = (if unat a + unat b < 2 ^ LENGTH('a) then Some (a + b) else None)"

lemma unat_saturating_add:
  "unat (saturating_add a b) = min (unat a + unat b) (2 ^ LENGTH('a) - 1)"
  for a b :: "'a::len word"
proof (cases "unat a + unat b < 2 ^ LENGTH('a)")
  case True
  then show ?thesis by (simp add: saturating_add_def unat_word_ariths)
next
  case False
  then show ?thesis by (simp add: saturating_add_def unsigned_minus_1_eq_mask mask_eq_exp_minus_1)
qed

lemma unat_saturating_sub:
  "unat (saturating_sub a b) = unat a - unat b" for a b :: "'a::len word"
  by (auto simp: saturating_sub_def unat_sub word_le_nat_alt)

lemma checked_add_eq_Some:
  "checked_add a b = Some c \<longleftrightarrow> unat a + unat b < 2 ^ LENGTH('a) \<and> c = a + b"
  for a b c :: "'a::len word"
  by (auto simp: checked_add_def)

lemma checked_add_unat:
  "checked_add a b = Some c \<Longrightarrow> unat c = unat a + unat b" for a b c :: "'a::len word"
  by (auto simp: checked_add_def unat_word_ariths split: if_splits)

lemma unat_inc: "n \<noteq> - 1 \<Longrightarrow> unat (n + 1) = unat n + 1" for n :: "'a::len word"
proof -
  assume n: "n \<noteq> - 1"
  have "unat n \<noteq> 2 ^ LENGTH('a) - 1"
    using n by (metis mask_eq_exp_minus_1 unsigned_minus_1_eq_mask unsigned_word_eqI)
  then have "unat n + 1 < 2 ^ LENGTH('a)" using unsigned_less [of n, where ?'a = nat] by linarith
  then show ?thesis by (simp add: unat_word_ariths)
qed

lemma word_less_inc: "n \<noteq> - 1 \<Longrightarrow> n < n + 1" for n :: "'a::len word"
  by (simp add: word_less_nat_alt unat_inc)

lemma unat_u8_less: "unat (w :: u8) < 256"
  and unat_u16_less: "unat (x :: u16) < 65536"
  and unat_u32_less: "unat (y :: u32) < 4294967296"
  and unat_u64_less: "unat (z :: u64) < 18446744073709551616"
  using unsigned_less [of w] unsigned_less [of x] unsigned_less [of y] unsigned_less [of z]
  by simp_all

lemmas unat_less = unat_u8_less unat_u16_less unat_u32_less unat_u64_less

section \<open>Iterator idioms\<close>

text \<open>\<open>iter().position(p)\<close>: the index of the first element satisfying \<open>p\<close>.\<close>

fun position :: "('a \<Rightarrow> bool) \<Rightarrow> 'a list \<Rightarrow> nat option" where
  "position p [] = None"
| "position p (x # xs) = (if p x then Some 0 else map_option Suc (position p xs))"

lemma position_Some:
  "position p xs = Some i \<Longrightarrow> i < length xs \<and> p (xs ! i) \<and> (\<forall>j < i. \<not> p (xs ! j))"
proof (induction xs arbitrary: i)
  case (Cons x xs)
  then show ?case
    by (cases i) (auto simp: less_Suc_eq_0_disj split: if_splits)
qed simp

lemma position_None: "position p xs = None \<longleftrightarrow> (\<forall>x \<in> set xs. \<not> p x)"
  by (induction xs) auto

lemma position_complete: "i < length xs \<Longrightarrow> p (xs ! i) \<Longrightarrow> position p xs \<noteq> None"
  by (auto simp: position_None)

text \<open>\<open>Iterator::min_by_key\<close> returns the first element with the least key.\<close>

fun min_by_key_from :: "('a \<Rightarrow> 'k::linorder) \<Rightarrow> 'a \<Rightarrow> 'a list \<Rightarrow> 'a" where
  "min_by_key_from f m [] = m"
| "min_by_key_from f m (x # xs) = min_by_key_from f (if f x < f m then x else m) xs"

fun min_by_key :: "('a \<Rightarrow> 'k::linorder) \<Rightarrow> 'a list \<Rightarrow> 'a option" where
  "min_by_key f [] = None"
| "min_by_key f (x # xs) = Some (min_by_key_from f x xs)"

lemma min_by_key_from_least:
  "min_by_key_from f m xs \<in> insert m (set xs) \<and>
   (\<forall>y \<in> insert m (set xs). f (min_by_key_from f m xs) \<le> f y)"
proof (induction xs arbitrary: m)
  case (Cons x xs)
  let ?m = "if f x < f m then x else m"
  have "f ?m \<le> f m" "f ?m \<le> f x" by auto
  moreover have "f (min_by_key_from f ?m xs) \<le> f ?m"
    using Cons.IH [of ?m] by blast
  ultimately show ?case
    using Cons.IH [of ?m] by (auto intro: order.trans split: if_splits)
qed simp

lemma min_by_key_Some:
  "min_by_key f xs = Some m \<Longrightarrow> m \<in> set xs \<and> (\<forall>y \<in> set xs. f m \<le> f y)"
  by (cases xs) (use min_by_key_from_least in fastforce)+

lemma min_by_key_None [simp]: "min_by_key f xs = None \<longleftrightarrow> xs = []"
  by (cases xs) auto

section \<open>Positions in a circle\<close>

lemma ring_index_inj:
  assumes "i < n" "n < cap"
  shows "(start + i) mod cap \<noteq> (start + n) mod (cap :: nat)"
proof
  assume "(start + i) mod cap = (start + n) mod cap"
  then have "cap dvd (start + n) - (start + i)"
    using assms by (metis mod_eq_dvd_iff_nat add_le_mono le_refl less_imp_le)
  then have "cap dvd n - i" by simp
  then show False using assms by (auto dest: dvd_imp_le)
qed

lemma circle_covers:
  assumes "i < n"
  shows "\<exists>s \<in> {0..<n}. (start + s) mod n = (i :: nat)"
proof -
  let ?s = "(i + n - start mod n) mod n"
  have "start mod n < n" using assms by simp
  then have "start mod n + (i + n - start mod n) = i + n" by simp
  then have "(start mod n + (i + n - start mod n)) mod n = i" using assms by simp
  then have "(start + ?s) mod n = i" by (metis mod_add_left_eq mod_add_right_eq)
  then show ?thesis using assms by (intro bexI [of _ ?s]) simp_all
qed

lemma circle_distinct: "distinct (map (\<lambda>s. (start + s) mod n) [0..<n :: nat])"
proof -
  have "inj_on (\<lambda>s. (start + s) mod n) {0..<n}"
    by (rule inj_onI) (metis atLeastLessThan_iff linorder_neqE_nat ring_index_inj)
  then show ?thesis by (simp add: distinct_map)
qed

section \<open>Index loops over a fixed array\<close>

text \<open>
  \<open>for id in 0..n { if p(id) { a[id] = f(id, a[id]) } }\<close>: each round touches its own slot
  only, so the loop is a pointwise update.
\<close>

definition for_each_slot :: "nat \<Rightarrow> (nat \<Rightarrow> bool) \<Rightarrow> (nat \<Rightarrow> 'a \<Rightarrow> 'a) \<Rightarrow> 'a list \<Rightarrow> 'a list" where
  "for_each_slot n p f a = fold (\<lambda>id a. if p id then a[id := f id (a ! id)] else a) [0..<n] a"

lemma for_each_slot_Suc:
  "for_each_slot (Suc n) p f a =
     (let b = for_each_slot n p f a in if p n then b[n := f n (b ! n)] else b)"
  by (simp add: for_each_slot_def Let_def)

lemma length_for_each_slot [simp, array_length]: "length (for_each_slot n p f a) = length a"
  by (induction n) (simp_all add: for_each_slot_Suc Let_def, simp add: for_each_slot_def)

lemma nth_for_each_slot [simp]:
  "i < length a \<Longrightarrow> for_each_slot n p f a ! i = (if i < n \<and> p i then f i (a ! i) else a ! i)"
proof (induction n)
  case (Suc n)
  then show ?case
    by (auto simp: for_each_slot_Suc Let_def nth_list_update less_Suc_eq)
qed (simp add: for_each_slot_def)


section \<open>Invariants\<close>

text \<open>What holds at the start and is kept by every step holds in every reachable state.\<close>

locale invariant =
  fixes start :: "'s \<Rightarrow> bool" and step :: "'s \<Rightarrow> 's \<Rightarrow> bool" and inv :: "'s \<Rightarrow> bool"
  assumes at_start: "start s \<Longrightarrow> inv s"
    and kept: "inv s \<Longrightarrow> step s s' \<Longrightarrow> inv s'"
begin

lemma reached: "start s \<Longrightarrow> step\<^sup>*\<^sup>* s s' \<Longrightarrow> inv s'"
  by (rotate_tac, induction rule: rtranclp_induct) (auto intro: at_start kept)

lemma kept_by_many: "inv s \<Longrightarrow> step\<^sup>*\<^sup>* s s' \<Longrightarrow> inv s'"
  by (rotate_tac, induction rule: rtranclp_induct) (auto intro: kept)

end

end
