(* ===== verification/Task_State.thy ===== *)
theory Task_State
  imports Prelude
begin

text \<open>
  The data of \<open>kernel/src/task.rs\<close>: task states, wait reasons, descriptors, the work of a
  kernel task and the task record itself. The policies of \<open>sched.rs\<close> read this table and the
  operations of \<open>task.rs\<close> change it.

  The boxed stack a task stands on (\<open>_stack : Option<Box<[u8]>>\<close>) is represented by the base
  address of the allocation: the code never reads the bytes through this field.
\<close>

abbreviation (input) MAX_TASKS :: nat where "MAX_TASKS \<equiv> 8"
abbreviation (input) MAX_PRIORITY :: u8 where "MAX_PRIORITY \<equiv> 15"
abbreviation (input) DEFAULT_PRIORITY :: u8 where "DEFAULT_PRIORITY \<equiv> 8"
abbreviation (input) SHELL_PRIORITY :: u8 where "SHELL_PRIORITY \<equiv> 0"
abbreviation (input) STACK_SIZE :: u64 where "STACK_SIZE \<equiv> 65536"
abbreviation (input) MAX_FILES :: nat where "MAX_FILES \<equiv> 8"
abbreviation (input) MAX_SIGNALS :: nat where "MAX_SIGNALS \<equiv> 16"

datatype Reason = Until u64 | Channel u64

datatype State = Free | Ready | Blocked Reason | Finished

datatype Descriptor = FdFree | Console | PipeRead nat | PipeWrite nat

datatype Work =
    Generate "u8 list"
  | Worker nat
  | Ticker (ticker_times: u64) (ticker_gap: u64)
  | Hog u64
  | Spinner
  | Burn (burn_until: u64)
  | Interactive (interactive_until: u64) (interactive_gap: u64)

record Task =
  state :: State
  tname :: "u8 list"
  name_len :: nat
  stack_pointer :: u64
  stack_box :: "u64 option"
  switches :: u64
  priority :: u8
  exit_code :: u64
  address_space :: "u64 option"
  parent :: "nat option"
  kernel_stack_top :: u64
  work :: "Work option"
  files :: "Descriptor list"
  pending :: u32
  handlers :: "u64 list"
  restorer :: u64
  stack_top :: u64
  stack_limit :: u64
  stack_faults :: u64

definition Task_empty :: Task where
  "Task_empty = \<lparr> state = Free, tname = replicate 24 0, name_len = 0, stack_pointer = 0,
     stack_box = None, switches = 0, priority = DEFAULT_PRIORITY, exit_code = 0,
     address_space = None, parent = None, kernel_stack_top = 0, work = None,
     files = replicate MAX_FILES FdFree, pending = 0, handlers = replicate MAX_SIGNALS 0,
     restorer = 0, stack_top = 0, stack_limit = 0, stack_faults = 0 \<rparr>"

type_synonym Tasks = "Task list"

text \<open>The table used to interrogate a policy: (state, priority) for slot 0 upwards, the rest free.\<close>

definition test_table :: "(State \<times> u8) list \<Rightarrow> Tasks" where
  "test_table spec =
     map (\<lambda>id. if id < length spec
       then Task_empty\<lparr> state := fst (spec ! id), priority := snd (spec ! id),
                        tname := [116, 101, 115, 116] @ replicate 20 0, name_len := 4 \<rparr>
       else Task_empty) [0..<MAX_TASKS]"

lemma length_test_table [simp, array_length]: "length (test_table spec) = MAX_TASKS"
  by (simp add: test_table_def)

end
