(* ===== verification/Sched.thy ===== *)
theory Sched
  imports Task_State
begin

text \<open>
  \<open>kernel/src/sched.rs\<close>: the five scheduling policies, the registry that dispatches to the
  installed one, and the mechanism around them (quanta, accounting, trace, watchdog,
  installation). A policy sees a read-only \<open>RunQueue\<close> and answers who runs next; the trait
  methods of a policy are functions over its own state, and the trait object is the
  dispatch on \<open>Policy\<close>. The mutable statics of the module are the fields of \<open>Sched\<close>.
\<close>

section \<open>What a policy may see\<close>

record RunQueue =
  rq_tasks :: Tasks
  rq_current :: nat
  rq_now :: u64

definition RunQueue_new :: "Tasks \<Rightarrow> nat \<Rightarrow> u64 \<Rightarrow> RunQueue" where
  "RunQueue_new tasks current now = \<lparr> rq_tasks = tasks, rq_current = current, rq_now = now \<rparr>"

definition is_ready :: "RunQueue \<Rightarrow> nat \<Rightarrow> bool" where
  "is_ready q tid \<longleftrightarrow> tid < MAX_TASKS \<and> state (rq_tasks q ! tid) = Ready"

definition rq_priority :: "RunQueue \<Rightarrow> nat \<Rightarrow> u8" where
  "rq_priority q tid = (if tid \<ge> MAX_TASKS then MAX_PRIORITY else priority (rq_tasks q ! tid))"

definition is_user :: "RunQueue \<Rightarrow> nat \<Rightarrow> bool" where
  "is_user q tid \<longleftrightarrow> tid < MAX_TASKS \<and> address_space (rq_tasks q ! tid) \<noteq> None"

definition ready :: "RunQueue \<Rightarrow> nat list" where
  "ready q = filter (is_ready q) [0..<MAX_TASKS]"

section \<open>The policies\<close>

text \<open>The candidates in the order every rotating policy scans them: from just after the current task.\<close>

definition scan_order :: "nat \<Rightarrow> nat list" where
  "scan_order current = map (\<lambda>offset. (current + offset) mod MAX_TASKS) [1..<MAX_TASKS + 1]"

text \<open>The loop shared by the priority policies: skip what is not ready, keep a strictly better key.\<close>

fun scan_best :: "(nat \<Rightarrow> bool) \<Rightarrow> (nat \<Rightarrow> 'k::linorder) \<Rightarrow> nat list \<Rightarrow> 'k \<Rightarrow> nat option \<Rightarrow> nat option" where
  "scan_best rdy key [] best chosen = chosen"
| "scan_best rdy key (candidate # rest) best chosen =
     (if \<not> rdy candidate then scan_best rdy key rest best chosen
      else if key candidate < best then scan_best rdy key rest (key candidate) (Some candidate)
      else scan_best rdy key rest best chosen)"

subsection \<open>Round robin\<close>

definition rr_pick :: "RunQueue \<Rightarrow> nat option" where
  "rr_pick q = List.find (is_ready q) (scan_order (rq_current q))"

subsection \<open>First come, first served\<close>

record Fifo =
  arrived :: "u64 list"
  stamp :: u64

definition Fifo_new :: Fifo where
  "Fifo_new = \<lparr> arrived = replicate MAX_TASKS 0, stamp = 0 \<rparr>"

definition fifo_pick :: "Fifo \<Rightarrow> RunQueue \<Rightarrow> nat option" where
  "fifo_pick s q =
     (let current = rq_current q in
      if is_ready q current then Some current
      else min_by_key (\<lambda>tid. arrived s ! tid) (ready q))"

definition fifo_on_ready :: "Fifo \<Rightarrow> nat \<Rightarrow> Fifo" where
  "fifo_on_ready s tid =
     (if tid < MAX_TASKS
      then (let n = stamp s + 1 in s\<lparr> stamp := n, arrived := (arrived s)[tid := n] \<rparr>)
      else s)"

definition fifo_on_exit :: "Fifo \<Rightarrow> nat \<Rightarrow> Fifo" where
  "fifo_on_exit s tid =
     (if tid < MAX_TASKS then s\<lparr> arrived := (arrived s)[tid := 0] \<rparr> else s)"

definition fifo_reset :: "Fifo \<Rightarrow> Fifo" where
  "fifo_reset s = s\<lparr> arrived := replicate MAX_TASKS 0, stamp := 0 \<rparr>"

subsection \<open>Strict priority\<close>

definition prio_pick :: "RunQueue \<Rightarrow> nat option" where
  "prio_pick q =
     scan_best (is_ready q) (\<lambda>c. ucast (rq_priority q c) :: u16)
       (scan_order (rq_current q)) 0xFFFF None"

subsection \<open>Priority with aging\<close>

record Aging =
  waited :: "u16 list"

definition Aging_new :: Aging where
  "Aging_new = \<lparr> waited = replicate MAX_TASKS 0 \<rparr>"

text \<open>The score is an \<open>i32\<close>; the operands are a \<open>u8\<close> and a \<open>u16\<close>, so the subtraction cannot overflow.\<close>

definition effective :: "Aging \<Rightarrow> RunQueue \<Rightarrow> nat \<Rightarrow> int" where
  "effective s q c = uint (rq_priority q c) - uint (waited s ! c)"

definition aging_pick :: "Aging \<Rightarrow> RunQueue \<Rightarrow> nat option \<times> Aging" where
  "aging_pick s q =
     (let current = rq_current q;
          chosen = scan_best (is_ready q) (effective s q) (scan_order current) 0x7FFFFFFF None;
          winner = (case chosen of Some tid \<Rightarrow> tid | None \<Rightarrow> current);
          aged = for_each_slot MAX_TASKS (\<lambda>tid. is_ready q tid \<and> tid \<noteq> winner)
                   (\<lambda>tid w. saturating_add w 1) (waited s)
      in (chosen, s\<lparr> waited := aged[winner := 0] \<rparr>))"

definition aging_on_ready :: "Aging \<Rightarrow> nat \<Rightarrow> Aging" where
  "aging_on_ready s tid =
     (if tid < MAX_TASKS then s\<lparr> waited := (waited s)[tid := 0] \<rparr> else s)"

definition aging_on_exit :: "Aging \<Rightarrow> nat \<Rightarrow> Aging" where
  "aging_on_exit s tid =
     (if tid < MAX_TASKS then s\<lparr> waited := (waited s)[tid := 0] \<rparr> else s)"

definition aging_reset :: "Aging \<Rightarrow> Aging" where
  "aging_reset s = s\<lparr> waited := replicate MAX_TASKS 0 \<rparr>"

subsection \<open>Multi-level feedback queue\<close>

record Mlfq =
  level :: "u8 list"
  boost_at :: u64

abbreviation (input) LEVELS :: u8 where "LEVELS \<equiv> 4"
abbreviation (input) BOOST :: u64 where "BOOST \<equiv> 25"

definition Mlfq_new :: Mlfq where
  "Mlfq_new = \<lparr> level = replicate MAX_TASKS 0, boost_at = 0 \<rparr>"

definition mlfq_pick :: "Mlfq \<Rightarrow> RunQueue \<Rightarrow> nat option \<times> Mlfq" where
  "mlfq_pick s q =
     (let now = rq_now q;
          s' = (if boost_at s \<le> now
                then s\<lparr> level := replicate MAX_TASKS 0, boost_at := now + BOOST \<rparr> else s)
      in (scan_best (is_ready q) (\<lambda>c. level s' ! c) (scan_order (rq_current q)) 0xFF None, s'))"

definition mlfq_quantum :: "Mlfq \<Rightarrow> nat \<Rightarrow> u32" where
  "mlfq_quantum s tid = push_bit (unat (level s ! min tid (MAX_TASKS - 1))) 2"

definition mlfq_on_yield :: "Mlfq \<Rightarrow> nat \<Rightarrow> bool \<Rightarrow> Mlfq" where
  "mlfq_on_yield s tid used_full_quantum =
     (if tid \<ge> MAX_TASKS then s
      else if used_full_quantum \<and> level s ! tid + 1 < LEVELS
      then s\<lparr> level := (level s)[tid := level s ! tid + 1] \<rparr>
      else s)"

definition mlfq_on_ready :: "Mlfq \<Rightarrow> nat \<Rightarrow> Mlfq" where
  "mlfq_on_ready s tid = (if tid < MAX_TASKS then s\<lparr> level := (level s)[tid := 0] \<rparr> else s)"

definition mlfq_on_exit :: "Mlfq \<Rightarrow> nat \<Rightarrow> Mlfq" where
  "mlfq_on_exit s tid = (if tid < MAX_TASKS then s\<lparr> level := (level s)[tid := 0] \<rparr> else s)"

definition mlfq_reset :: "Mlfq \<Rightarrow> Mlfq" where
  "mlfq_reset s = s\<lparr> level := replicate MAX_TASKS 0, boost_at := 0 \<rparr>"

section \<open>The registry\<close>

text \<open>\<open>RR\<close> and \<open>PRIO\<close> are unit structs and carry no state.\<close>

datatype Policy = Rr | FifoPolicy | Prio | AgingPolicy | MlfqPolicy

record Bricks =
  FIFO :: Fifo
  AGING :: Aging
  MLFQ :: Mlfq

abbreviation (input) COUNT :: nat where "COUNT \<equiv> 5"
abbreviation (input) SAFE :: nat where "SAFE \<equiv> 3"

definition policy_at :: "nat \<Rightarrow> Policy" where
  "policy_at index =
     (if index = 0 then Rr else if index = 1 then FifoPolicy else if index = 2 then Prio
      else if index = 4 then MlfqPolicy else AgingPolicy)"

fun policy_name :: "Policy \<Rightarrow> string" where
  "policy_name Rr = ''rr''"
| "policy_name FifoPolicy = ''fifo''"
| "policy_name Prio = ''prio''"
| "policy_name AgingPolicy = ''aging''"
| "policy_name MlfqPolicy = ''mlfq''"

definition name_at :: "nat \<Rightarrow> string" where
  "name_at index = policy_name (policy_at (min index (COUNT - 1)))"

fun pick :: "Policy \<Rightarrow> Bricks \<Rightarrow> RunQueue \<Rightarrow> nat option \<times> Bricks" where
  "pick Rr b q = (rr_pick q, b)"
| "pick FifoPolicy b q = (fifo_pick (FIFO b) q, b)"
| "pick Prio b q = (prio_pick q, b)"
| "pick AgingPolicy b q = (let (r, s) = aging_pick (AGING b) q in (r, b\<lparr> AGING := s \<rparr>))"
| "pick MlfqPolicy b q = (let (r, s) = mlfq_pick (MLFQ b) q in (r, b\<lparr> MLFQ := s \<rparr>))"

fun quantum :: "Policy \<Rightarrow> Bricks \<Rightarrow> nat \<Rightarrow> u32" where
  "quantum MlfqPolicy b tid = mlfq_quantum (MLFQ b) tid"
| "quantum _ b tid = 1"

fun on_ready :: "Policy \<Rightarrow> Bricks \<Rightarrow> nat \<Rightarrow> Bricks" where
  "on_ready FifoPolicy b tid = b\<lparr> FIFO := fifo_on_ready (FIFO b) tid \<rparr>"
| "on_ready AgingPolicy b tid = b\<lparr> AGING := aging_on_ready (AGING b) tid \<rparr>"
| "on_ready MlfqPolicy b tid = b\<lparr> MLFQ := mlfq_on_ready (MLFQ b) tid \<rparr>"
| "on_ready _ b tid = b"

fun on_yield :: "Policy \<Rightarrow> Bricks \<Rightarrow> nat \<Rightarrow> bool \<Rightarrow> Bricks" where
  "on_yield MlfqPolicy b tid used_full_quantum =
     b\<lparr> MLFQ := mlfq_on_yield (MLFQ b) tid used_full_quantum \<rparr>"
| "on_yield _ b tid used_full_quantum = b"

fun on_exit :: "Policy \<Rightarrow> Bricks \<Rightarrow> nat \<Rightarrow> Bricks" where
  "on_exit FifoPolicy b tid = b\<lparr> FIFO := fifo_on_exit (FIFO b) tid \<rparr>"
| "on_exit AgingPolicy b tid = b\<lparr> AGING := aging_on_exit (AGING b) tid \<rparr>"
| "on_exit MlfqPolicy b tid = b\<lparr> MLFQ := mlfq_on_exit (MLFQ b) tid \<rparr>"
| "on_exit _ b tid = b"

fun reset :: "Policy \<Rightarrow> Bricks \<Rightarrow> Bricks" where
  "reset FifoPolicy b = b\<lparr> FIFO := fifo_reset (FIFO b) \<rparr>"
| "reset AgingPolicy b = b\<lparr> AGING := aging_reset (AGING b) \<rparr>"
| "reset MlfqPolicy b = b\<lparr> MLFQ := mlfq_reset (MLFQ b) \<rparr>"
| "reset _ b = b"

section \<open>The mechanism\<close>

record Starvation =
  st_task :: nat
  st_ticks :: u32
  st_policy :: nat
  st_reverted :: bool

abbreviation (input) TRACE_LENGTH :: nat where "TRACE_LENGTH \<equiv> 1024"
abbreviation (input) STARVATION_TICKS :: u32 where "STARVATION_TICKS \<equiv> 100"

record Sched =
  bricks :: Bricks
  ACTIVE :: nat
  REMAINING :: u32
  SLICES :: "u64 list"
  FIRST_RUN :: "u64 list"
  WORST :: "u32 list"
  SWITCHES :: u64
  START_TICK :: u64
  UNPICKED :: "u32 list"
  TRACE_RAN :: "u8 list"
  TRACE_READY :: "u8 list"
  TRACE_LAST :: u64
  TRACE_COUNT :: u64
  WATCHDOG :: bool
  REPORT :: "Starvation option"

definition Sched_boot :: Sched where
  "Sched_boot = \<lparr> bricks = \<lparr> FIFO = Fifo_new, AGING = Aging_new, MLFQ = Mlfq_new \<rparr>,
     ACTIVE = SAFE, REMAINING = 0,
     SLICES = replicate MAX_TASKS 0, FIRST_RUN = replicate MAX_TASKS (- 1),
     WORST = replicate MAX_TASKS 0, SWITCHES = 0, START_TICK = 0,
     UNPICKED = replicate MAX_TASKS 0,
     TRACE_RAN = replicate TRACE_LENGTH 0xFF, TRACE_READY = replicate TRACE_LENGTH 0,
     TRACE_LAST = 0, TRACE_COUNT = 0, WATCHDOG = True, REPORT = None \<rparr>"

definition active_name :: "Sched \<Rightarrow> string" where
  "active_name s = policy_name (policy_at (ACTIVE s))"

text \<open>\<open>who\<close> is \<open>None\<close> for the \<open>usize::MAX\<close> the caller passes on an idle tick.\<close>

definition trace_push :: "Sched \<Rightarrow> u64 \<Rightarrow> nat option \<Rightarrow> u8 \<Rightarrow> Sched" where
  "trace_push s tick who rdy =
     (let count = TRACE_COUNT s; index = unat count mod TRACE_LENGTH;
          r = (case who of Some tid \<Rightarrow> if tid < MAX_TASKS then word_of_nat tid else 0xFF | None \<Rightarrow> 0xFF)
      in s\<lparr> TRACE_RAN := (TRACE_RAN s)[index := r],
            TRACE_READY := (TRACE_READY s)[index := rdy],
            TRACE_COUNT := count + 1, TRACE_LAST := tick \<rparr>)"

definition trace_at :: "Sched \<Rightarrow> u64 \<Rightarrow> (nat \<times> u8) option" where
  "trace_at s tick =
     (let count = TRACE_COUNT s; last = TRACE_LAST s in
      if count = 0 \<or> last < tick then None
      else let back = unat (last - tick) in
        if TRACE_LENGTH \<le> back \<or> unat count \<le> back then None
        else let index = (unat count - 1 - back) mod TRACE_LENGTH
             in Some (unat (TRACE_RAN s ! index), TRACE_READY s ! index))"

definition trace_window :: "Sched \<Rightarrow> u64 \<times> u64" where
  "trace_window s = (TRACE_LAST s, word_of_nat (min (unat (TRACE_COUNT s)) TRACE_LENGTH))"

text \<open>\<open>ready_mask |= 1 << tid\<close> over the ready tasks.\<close>

definition ready_mask :: "RunQueue \<Rightarrow> u8" where
  "ready_mask q = fold (\<lambda>tid m. if is_ready q tid then m OR push_bit tid 1 else m) [0..<MAX_TASKS] 0"

definition account :: "Sched \<Rightarrow> RunQueue \<Rightarrow> nat \<Rightarrow> nat \<Rightarrow> u64 \<Rightarrow> Sched" where
  "account s q next current now =
     (let idle = \<not> is_ready q next;
          s1 = (if \<not> idle
                then s\<lparr> SLICES := (SLICES s)[next := saturating_add (SLICES s ! next) 1],
                        FIRST_RUN := (if FIRST_RUN s ! next = - 1
                          then (FIRST_RUN s)[next := saturating_sub now (START_TICK s)]
                          else FIRST_RUN s) \<rparr>
                else s);
          s2 = (if \<not> idle \<and> next \<noteq> current
                then s1\<lparr> SWITCHES := saturating_add (SWITCHES s1) 1 \<rparr> else s1);
          up = for_each_slot MAX_TASKS (\<lambda>_. True)
                 (\<lambda>tid u. if tid = next \<or> \<not> is_ready q tid then 0 else saturating_add u 1)
                 (UNPICKED s2);
          wo = for_each_slot MAX_TASKS (\<lambda>tid. tid \<noteq> next \<and> is_ready q tid)
                 (\<lambda>tid w. if w < up ! tid then up ! tid else w) (WORST s2);
          s3 = s2\<lparr> UNPICKED := up, WORST := wo \<rparr>
      in trace_push s3 now (if idle then None else Some next) (ready_mask q))"

definition reset_stats :: "Sched \<Rightarrow> u64 \<Rightarrow> Sched" where
  "reset_stats s now = s\<lparr> SLICES := replicate MAX_TASKS 0,
     FIRST_RUN := replicate MAX_TASKS (- 1), WORST := replicate MAX_TASKS 0,
     UNPICKED := replicate MAX_TASKS 0, SWITCHES := 0, START_TICK := now \<rparr>"

definition slices :: "Sched \<Rightarrow> nat \<Rightarrow> u64" where
  "slices s tid = (if tid \<ge> MAX_TASKS then 0 else SLICES s ! tid)"

definition first_run :: "Sched \<Rightarrow> nat \<Rightarrow> u64 option" where
  "first_run s tid =
     (if tid \<ge> MAX_TASKS then None
      else if FIRST_RUN s ! tid = - 1 then None else Some (FIRST_RUN s ! tid))"

definition worst_wait_of :: "Sched \<Rightarrow> nat \<Rightarrow> u32" where
  "worst_wait_of s tid = (if tid \<ge> MAX_TASKS then 0 else WORST s ! tid)"

fun worst_wait_loop :: "u32 list \<Rightarrow> nat \<Rightarrow> nat \<Rightarrow> u32 \<Rightarrow> nat \<times> u32" where
  "worst_wait_loop [] tid worst longest = (worst, longest)"
| "worst_wait_loop (w # ws) tid worst longest =
     (if longest < w then worst_wait_loop ws (Suc tid) tid w
      else worst_wait_loop ws (Suc tid) worst longest)"

definition worst_wait :: "Sched \<Rightarrow> nat \<times> u32" where
  "worst_wait s = worst_wait_loop (UNPICKED s) 0 0 0"

definition install :: "Sched \<Rightarrow> nat \<Rightarrow> Tasks \<Rightarrow> nat \<Rightarrow> u64 \<Rightarrow> bool \<times> Sched" where
  "install s index tasks current now =
     (if index \<ge> COUNT then (False, s)
      else let q = RunQueue_new tasks current now;
               p = policy_at index;
               b = fold (\<lambda>tid b. on_ready p b tid) (ready q) (reset p (bricks s))
           in (True, s\<lparr> bricks := b, ACTIVE := index, REMAINING := 0,
                        UNPICKED := replicate MAX_TASKS 0 \<rparr>))"

fun install_by_name_loop :: "Sched \<Rightarrow> string \<Rightarrow> Tasks \<Rightarrow> nat \<Rightarrow> u64 \<Rightarrow> nat list \<Rightarrow> bool \<times> Sched" where
  "install_by_name_loop s name tasks current now [] = (False, s)"
| "install_by_name_loop s name tasks current now (index # rest) =
     (if name_at index = name then install s index tasks current now
      else install_by_name_loop s name tasks current now rest)"

definition install_by_name :: "Sched \<Rightarrow> string \<Rightarrow> Tasks \<Rightarrow> nat \<Rightarrow> u64 \<Rightarrow> bool \<times> Sched" where
  "install_by_name s name tasks current now =
     install_by_name_loop s name tasks current now [0..<COUNT]"

definition set_watchdog :: "Sched \<Rightarrow> bool \<Rightarrow> Sched" where
  "set_watchdog s enabled = s\<lparr> WATCHDOG := enabled \<rparr>"

definition watchdog :: "Sched \<Rightarrow> nat \<Rightarrow> Tasks \<Rightarrow> nat \<Rightarrow> u64 \<Rightarrow> Sched" where
  "watchdog s active tasks current now =
     (if \<not> WATCHDOG s then s
      else let (worst, longest) = worst_wait s in
        if longest < STARVATION_TICKS then s
        else if REPORT s \<noteq> None then s
        else let reverted = (active \<noteq> SAFE);
                 s1 = s\<lparr> REPORT := Some \<lparr> st_task = worst, st_ticks = longest,
                                          st_policy = active, st_reverted = reverted \<rparr> \<rparr>
             in if reverted then snd (install s1 SAFE tasks current now) else s1)"

text \<open>The report is taken out by the shell, which prints it.\<close>

definition report_starvation :: "Sched \<Rightarrow> Starvation option \<times> Sched" where
  "report_starvation s = (REPORT s, s\<lparr> REPORT := None \<rparr>)"

definition task_created :: "Sched \<Rightarrow> nat \<Rightarrow> Sched" where
  "task_created s tid = s\<lparr> bricks := on_ready (policy_at (ACTIVE s)) (bricks s) tid \<rparr>"

definition task_exited :: "Sched \<Rightarrow> nat \<Rightarrow> Sched" where
  "task_exited s tid = s\<lparr> bricks := on_exit (policy_at (ACTIVE s)) (bricks s) tid \<rparr>"

definition sched_choose :: "Sched \<Rightarrow> Tasks \<Rightarrow> nat \<Rightarrow> u64 \<Rightarrow> nat \<times> Sched" where
  "sched_choose s tasks current now =
     (let q = RunQueue_new tasks current now;
          remaining = saturating_sub (REMAINING s) 1;
          s1 = s\<lparr> REMAINING := remaining \<rparr>
      in if 0 < remaining \<and> is_ready q current then (current, s1)
         else let active = ACTIVE s1; p = policy_at active;
                  b1 = on_yield p (bricks s1) current (remaining = 0);
                  (picked, b2) = pick p b1 q;
                  (next, left) = (case picked of
                      Some tid \<Rightarrow> (tid, max (quantum p b2 tid) 1)
                    | None \<Rightarrow> (current, 0));
                  s2 = s1\<lparr> bricks := b2, REMAINING := left \<rparr>;
                  s3 = account s2 q next current now
              in (next, watchdog s3 active tasks current now))"

section \<open>The scan\<close>

lemma length_scan_order [simp]: "length (scan_order c) = 8"
  by (simp add: scan_order_def)

lemma nth_scan_order [simp]: "k < 8 \<Longrightarrow> scan_order c ! k = (c + k + 1) mod 8"
  by (simp add: scan_order_def del: upt_Suc)

lemma set_scan_order [simp]: "set (scan_order c) = {..<8}"
proof -
  have rot: "(c + y mod 8 + 1) mod 8 = (c mod 8 + y + 1) mod 8" for y
    by (metis mod_add_left_eq mod_add_right_eq)
  have "x \<in> set (scan_order c)" if "x < 8" for x
  proof -
    let ?k = "(x + (7 - c mod 8)) mod 8"
    have "(c + ?k + 1) mod 8 = (c mod 8 + (x + (7 - c mod 8)) + 1) mod 8"
      by (rule rot)
    also have "c mod 8 + (x + (7 - c mod 8)) + 1 = x + 8" by (simp add: less_Suc_eq_le [symmetric])
    also have "(x + 8) mod 8 = x" using that by simp
    finally show ?thesis by (auto simp: in_set_conv_nth intro!: exI [of _ ?k])
  qed
  then show ?thesis by (auto simp: in_set_conv_nth)
qed

lemma in_set_ready [simp]: "i \<in> set (ready q) \<longleftrightarrow> is_ready q i"
  by (auto simp: ready_def is_ready_def)

lemma ready_Nil: "ready q = [] \<longleftrightarrow> (\<forall>i. \<not> is_ready q i)"
  using in_set_ready [of _ q] by (metis list.set_intros(1) neq_Nil_conv empty_iff empty_set)

lemma is_ready_less: "is_ready q i \<Longrightarrow> i < 8"
  by (simp add: is_ready_def)

lemma scan_best_unchanged:
  "(\<And>c. c \<in> set cs \<Longrightarrow> rdy c \<Longrightarrow> \<not> key c < best) \<Longrightarrow> scan_best rdy key cs best ch = ch"
  by (induction cs) auto

lemma scan_best_least:
  "c \<in> set cs \<Longrightarrow> rdy c \<Longrightarrow> key c < best \<Longrightarrow>
   \<exists>m \<in> set cs. scan_best rdy key cs best ch = Some m \<and> rdy m \<and> key m < best \<and>
     (\<forall>d \<in> set cs. rdy d \<longrightarrow> key m \<le> key d)"
proof (induction cs arbitrary: best ch c)
  case (Cons x cs)
  show ?case
  proof (cases "rdy x \<and> key x < best")
    case x: True
    show ?thesis
    proof (cases "\<exists>d \<in> set cs. rdy d \<and> key d < key x")
      case True
      then obtain d where d: "d \<in> set cs" "rdy d" "key d < key x" by blast
      from Cons.IH [OF d, of "Some x"] x show ?thesis
        by (auto intro: less_trans)
    next
      case False
      then have "scan_best rdy key cs (key x) (Some x) = Some x"
        by (intro scan_best_unchanged) auto
      with x False show ?thesis by (auto simp: not_less)
    qed
  next
    case False
    with Cons.prems have "c \<in> set cs" by auto
    from Cons.IH [OF this Cons.prems(2,3), of ch] False show ?thesis
      by (auto simp: not_less)
  qed
qed simp

text \<open>With a starting bound above every key the scan is total on the ready set and returns a least key.\<close>

lemma scan_best_spec:
  assumes "\<And>c. c < 8 \<Longrightarrow> rdy c \<Longrightarrow> key c < best"
  shows "scan_best rdy key (scan_order cur) best None = None \<longleftrightarrow> (\<forall>c < 8. \<not> rdy c)"
    and "scan_best rdy key (scan_order cur) best None = Some m \<Longrightarrow>
      m < 8 \<and> rdy m \<and> (\<forall>d < 8. rdy d \<longrightarrow> key m \<le> key d)"
proof -
  let ?r = "scan_best rdy key (scan_order cur) best None"
  have none: "\<forall>c < 8. \<not> rdy c \<Longrightarrow> ?r = None"
    by (rule scan_best_unchanged) simp
  have some: "\<exists>m < 8. ?r = Some m \<and> rdy m \<and> (\<forall>d < 8. rdy d \<longrightarrow> key m \<le> key d)"
    if "c < 8" "rdy c" for c
    using scan_best_least [of c "scan_order cur" rdy key best None] that assms by auto
  show "?r = None \<longleftrightarrow> (\<forall>c < 8. \<not> rdy c)" using none some by fastforce
  show "?r = Some m \<Longrightarrow> m < 8 \<and> rdy m \<and> (\<forall>d < 8. rdy d \<longrightarrow> key m \<le> key d)"
    using none some by fastforce
qed

section \<open>The policy contract\<close>

locale scheduling_policy =
  fixes pick :: "'s \<Rightarrow> RunQueue \<Rightarrow> nat option \<times> 's"
    and on_ready :: "'s \<Rightarrow> nat \<Rightarrow> 's"
    and on_exit :: "'s \<Rightarrow> nat \<Rightarrow> 's"
    and on_yield :: "'s \<Rightarrow> nat \<Rightarrow> bool \<Rightarrow> 's"
    and reset :: "'s \<Rightarrow> 's"
    and inv :: "'s \<Rightarrow> bool"
  assumes pick_sound: "inv s \<Longrightarrow> fst (pick s q) = Some i \<Longrightarrow> is_ready q i"
    and pick_complete: "inv s \<Longrightarrow> fst (pick s q) = None \<Longrightarrow> ready q = []"
    and inv_pick: "inv s \<Longrightarrow> inv (snd (pick s q))"
    and inv_on_ready: "inv s \<Longrightarrow> inv (on_ready s i)"
    and inv_on_exit: "inv s \<Longrightarrow> inv (on_exit s i)"
    and inv_on_yield: "inv s \<Longrightarrow> inv (on_yield s i full)"
    and inv_reset: "inv s \<Longrightarrow> inv (reset s)"
begin

lemma pick_None: "inv s \<Longrightarrow> fst (pick s q) = None \<longleftrightarrow> ready q = []"
  using pick_complete pick_sound by (fastforce simp: ready_Nil)

lemma pick_cases:
  assumes "inv s"
  obtains (idle) s' where "pick s q = (None, s')" "ready q = []" "inv s'"
    | (run) i s' where "pick s q = (Some i, s')" "is_ready q i" "i < 8" "inv s'"
proof (cases "pick s q")
  case (Pair r s')
  then show ?thesis
    using assms inv_pick [of s q] pick_sound [of s q] pick_complete [of s q] is_ready_less that
    by (cases r) auto
qed

lemma inv_replay: "inv s \<Longrightarrow> inv (fold (\<lambda>i s. on_ready s i) ids s)"
  by (induction ids arbitrary: s) (auto intro: inv_on_ready)

end

section \<open>Every policy keeps the contract\<close>

definition fifo_wf :: "Fifo \<Rightarrow> bool" where
  "fifo_wf s \<longleftrightarrow> length (arrived s) = MAX_TASKS"

definition aging_wf :: "Aging \<Rightarrow> bool" where
  "aging_wf s \<longleftrightarrow> length (waited s) = MAX_TASKS"

definition mlfq_wf :: "Mlfq \<Rightarrow> bool" where
  "mlfq_wf s \<longleftrightarrow> length (level s) = MAX_TASKS \<and> (\<forall>l \<in> set (level s). l < LEVELS)"

lemma rr_pick_None: "rr_pick q = None \<longleftrightarrow> ready q = []"
  by (auto simp: rr_pick_def find_None_iff ready_Nil dest: is_ready_less)

lemma rr_pick_Some: "rr_pick q = Some i \<Longrightarrow> is_ready q i"
  by (auto simp: rr_pick_def find_Some_iff)

lemma prio_key: "ucast (p :: u8) < (0xFFFF :: u16)"
proof -
  have "unat p < 256" by (rule unat_u8_less)
  then show ?thesis by (simp add: word_less_nat_alt unsigned_ucast_eq take_bit_eq_mod)
qed

lemma prio_pick_spec:
  "prio_pick q = None \<longleftrightarrow> ready q = []"
  "prio_pick q = Some m \<Longrightarrow>
     is_ready q m \<and> (\<forall>d. is_ready q d \<longrightarrow> unat (rq_priority q m) \<le> unat (rq_priority q d))"
proof -
  note spec = scan_best_spec [where rdy = "is_ready q" and
      key = "\<lambda>c. ucast (rq_priority q c) :: u16" and best = "0xFFFF" and cur = "rq_current q",
      folded prio_pick_def, OF prio_key]
  show "prio_pick q = None \<longleftrightarrow> ready q = []"
    using spec(1) by (auto simp: ready_Nil dest: is_ready_less)
  have "(ucast a :: u16) \<le> ucast b \<longleftrightarrow> unat a \<le> unat b" for a b :: u8
    using unat_u8_less [of a] unat_u8_less [of b]
    by (simp add: word_le_nat_alt unsigned_ucast_eq take_bit_eq_mod)
  then show "prio_pick q = Some m \<Longrightarrow>
     is_ready q m \<and> (\<forall>d. is_ready q d \<longrightarrow> unat (rq_priority q m) \<le> unat (rq_priority q d))"
    using spec(2) by (auto dest: is_ready_less)
qed

lemma effective_bound: "effective s q c < 0x7FFFFFFF"
proof -
  have "uint (rq_priority q c) < 256" using uint_lt2p [of "rq_priority q c"] by simp
  then show ?thesis by (simp add: effective_def) (smt (verit) uint_ge_0)
qed

lemma aging_pick_spec:
  "fst (aging_pick s q) = None \<longleftrightarrow> ready q = []"
  "fst (aging_pick s q) = Some m \<Longrightarrow>
     is_ready q m \<and> (\<forall>d. is_ready q d \<longrightarrow> effective s q m \<le> effective s q d)"
proof -
  note spec = scan_best_spec [where rdy = "is_ready q" and key = "effective s q" and
      best = "0x7FFFFFFF" and cur = "rq_current q", OF effective_bound]
  show "fst (aging_pick s q) = None \<longleftrightarrow> ready q = []"
    using spec(1) by (auto simp: aging_pick_def Let_def ready_Nil dest: is_ready_less)
  show "fst (aging_pick s q) = Some m \<Longrightarrow>
     is_ready q m \<and> (\<forall>d. is_ready q d \<longrightarrow> effective s q m \<le> effective s q d)"
    using spec(2) by (auto simp: aging_pick_def Let_def dest: is_ready_less)
qed

lemma mlfq_pick_spec:
  assumes "mlfq_wf s"
  shows "fst (mlfq_pick s q) = None \<longleftrightarrow> ready q = []"
    and "fst (mlfq_pick s q) = Some m \<Longrightarrow> is_ready q m \<and>
      (\<forall>d. is_ready q d \<longrightarrow> level (snd (mlfq_pick s q)) ! m \<le> level (snd (mlfq_pick s q)) ! d)"
    and "mlfq_wf (snd (mlfq_pick s q))"
proof -
  let ?s = "snd (mlfq_pick s q)"
  show wf: "mlfq_wf ?s"
    using assms by (auto simp: mlfq_pick_def mlfq_wf_def Let_def)
  have "level ?s ! c < 0xFF" if "c < 8" for c
  proof -
    have "level ?s ! c < 4" using wf that by (auto simp: mlfq_wf_def)
    then show ?thesis by (rule less_trans) simp
  qed
  note spec = scan_best_spec [where rdy = "is_ready q" and key = "\<lambda>c. level ?s ! c" and
      best = "0xFF" and cur = "rq_current q", OF this]
  have eq: "fst (mlfq_pick s q) =
      scan_best (is_ready q) (\<lambda>c. level ?s ! c) (scan_order (rq_current q)) 0xFF None"
    by (simp add: mlfq_pick_def Let_def)
  show "fst (mlfq_pick s q) = None \<longleftrightarrow> ready q = []"
    using spec(1) by (auto simp: eq ready_Nil dest: is_ready_less)
  show "fst (mlfq_pick s q) = Some m \<Longrightarrow> is_ready q m \<and>
      (\<forall>d. is_ready q d \<longrightarrow> level ?s ! m \<le> level ?s ! d)"
    using spec(2) [of m] by (auto simp: eq dest: is_ready_less)
qed

lemma mlfq_wf_level: "mlfq_wf s \<Longrightarrow> i < 8 \<Longrightarrow> level s ! i < 4"
  by (simp add: mlfq_wf_def)

lemma mlfq_wf_set: "mlfq_wf s \<Longrightarrow> l < 4 \<Longrightarrow> mlfq_wf (s\<lparr>level := (level s)[i := l]\<rparr>)"
  by (auto simp: mlfq_wf_def dest!: set_update_subset_insert [THEN subsetD])

lemma fifo_pick_spec:
  "fifo_pick s q = None \<longleftrightarrow> ready q = []"
  "fifo_pick s q = Some m \<Longrightarrow> is_ready q m"
  by (auto simp: fifo_pick_def Let_def ready_Nil dest!: min_by_key_Some split: if_splits)

interpretation rr: scheduling_policy
  "\<lambda>(s::unit) q. (rr_pick q, s)" "\<lambda>s _. s" "\<lambda>s _. s" "\<lambda>s _ _. s" "\<lambda>s. s" "\<lambda>_. True"
  by unfold_locales (auto simp: rr_pick_None rr_pick_Some)

interpretation fifo: scheduling_policy
  "\<lambda>s q. (fifo_pick s q, s)" fifo_on_ready fifo_on_exit "\<lambda>s _ _. s" fifo_reset fifo_wf
  by unfold_locales
    (auto simp: fifo_pick_spec fifo_wf_def fifo_on_ready_def fifo_on_exit_def fifo_reset_def Let_def)

interpretation prio: scheduling_policy
  "\<lambda>(s::unit) q. (prio_pick q, s)" "\<lambda>s _. s" "\<lambda>s _. s" "\<lambda>s _ _. s" "\<lambda>s. s" "\<lambda>_. True"
  by unfold_locales (auto simp: prio_pick_spec)

lemma aging_wf_pick: "aging_wf s \<Longrightarrow> aging_wf (snd (aging_pick s q))"
  by (simp add: aging_wf_def aging_pick_def Let_def)

interpretation aging: scheduling_policy
  aging_pick aging_on_ready aging_on_exit "\<lambda>s _ _. s" aging_reset aging_wf
  by unfold_locales
    (simp_all add: aging_pick_spec aging_wf_pick,
     simp_all add: aging_wf_def aging_on_ready_def aging_on_exit_def aging_reset_def)

interpretation mlfq: scheduling_policy
  mlfq_pick mlfq_on_ready mlfq_on_exit mlfq_on_yield mlfq_reset mlfq_wf
proof unfold_locales
  fix s i full assume wf: "mlfq_wf s"
  show "mlfq_wf (mlfq_on_ready s i)" "mlfq_wf (mlfq_on_exit s i)"
    using wf by (simp_all add: mlfq_on_ready_def mlfq_on_exit_def mlfq_wf_set)
  show "mlfq_wf (mlfq_on_yield s i full)"
    using wf by (simp add: mlfq_on_yield_def mlfq_wf_set)
  show "mlfq_wf (mlfq_reset s)"
    by (simp add: mlfq_reset_def mlfq_wf_def)
qed (simp_all add: mlfq_pick_spec)

definition bricks_wf :: "Bricks \<Rightarrow> bool" where
  "bricks_wf b \<longleftrightarrow> fifo_wf (FIFO b) \<and> aging_wf (AGING b) \<and> mlfq_wf (MLFQ b)"

text \<open>The trait object: whichever policy is installed, the dispatch keeps the contract.\<close>

interpretation brick: scheduling_policy
  "pick p" "on_ready p" "on_exit p" "on_yield p" "reset p" bricks_wf for p
proof unfold_locales
  fix s q i assume wf: "bricks_wf s"
  show "fst (pick p s q) = Some i \<Longrightarrow> is_ready q i"
    using wf by (cases p) (auto simp: bricks_wf_def rr_pick_Some fifo_pick_spec prio_pick_spec
        case_prod_beta dest: aging.pick_sound mlfq.pick_sound)
  show "fst (pick p s q) = None \<Longrightarrow> ready q = []"
    using wf by (cases p) (auto simp: bricks_wf_def rr_pick_None fifo_pick_spec prio_pick_spec
        case_prod_beta dest: aging.pick_complete mlfq.pick_complete)
  show "bricks_wf (snd (pick p s q))"
    using wf by (cases p) (auto simp: bricks_wf_def case_prod_beta
        intro: aging.inv_pick mlfq.inv_pick)
next
  fix s i full assume wf: "bricks_wf s"
  show "bricks_wf (on_ready p s i)"
    using wf by (cases p) (auto simp: bricks_wf_def
        intro: fifo.inv_on_ready aging.inv_on_ready mlfq.inv_on_ready)
  show "bricks_wf (on_exit p s i)"
    using wf by (cases p) (auto simp: bricks_wf_def
        intro: fifo.inv_on_exit aging.inv_on_exit mlfq.inv_on_exit)
  show "bricks_wf (on_yield p s i full)"
    using wf by (cases p) (auto simp: bricks_wf_def intro: mlfq.inv_on_yield)
  show "bricks_wf (reset p s)"
    using wf by (cases p) (auto simp: bricks_wf_def
        intro: fifo.inv_reset aging.inv_reset mlfq.inv_reset)
qed

section \<open>Well-formedness of the scheduler\<close>

definition sched_wf :: "Sched \<Rightarrow> bool" where
  "sched_wf s \<longleftrightarrow> bricks_wf (bricks s) \<and> ACTIVE s < COUNT \<and>
     length (SLICES s) = MAX_TASKS \<and> length (FIRST_RUN s) = MAX_TASKS \<and>
     length (WORST s) = MAX_TASKS \<and> length (UNPICKED s) = MAX_TASKS \<and>
     length (TRACE_RAN s) = TRACE_LENGTH \<and> length (TRACE_READY s) = TRACE_LENGTH"

lemma sched_wf_boot [kernel_wf]: "sched_wf Sched_boot"
  by (simp add: sched_wf_def Sched_boot_def bricks_wf_def fifo_wf_def aging_wf_def mlfq_wf_def
      Fifo_new_def Aging_new_def Mlfq_new_def)

lemma sched_wf_account [kernel_wf]: "sched_wf s \<Longrightarrow> sched_wf (account s q next current now)"
  by (simp add: sched_wf_def account_def trace_push_def Let_def)

lemma sched_wf_install [kernel_wf]:
  "sched_wf s \<Longrightarrow> sched_wf (snd (install s index tasks current now))"
  by (simp add: sched_wf_def install_def Let_def brick.inv_replay brick.inv_reset)

lemma sched_wf_watchdog [kernel_wf]:
  assumes "sched_wf s"
  shows "sched_wf (watchdog s active tasks current now)"
proof -
  have "sched_wf (s\<lparr>REPORT := r\<rparr>)" for r using assms by (simp add: sched_wf_def)
  then show ?thesis
    using assms by (auto simp: watchdog_def Let_def case_prod_beta sched_wf_install)
qed

lemma sched_wf_notify [kernel_wf]:
  "sched_wf s \<Longrightarrow> sched_wf (task_created s i)"
  "sched_wf s \<Longrightarrow> sched_wf (task_exited s i)"
  "sched_wf s \<Longrightarrow> sched_wf (reset_stats s now)"
  "sched_wf s \<Longrightarrow> sched_wf (set_watchdog s e)"
  "sched_wf s \<Longrightarrow> sched_wf (snd (report_starvation s))"
  by (simp_all add: sched_wf_def task_created_def task_exited_def reset_stats_def
      set_watchdog_def report_starvation_def brick.inv_on_ready brick.inv_on_exit)

lemma sched_wf_remaining: "sched_wf s \<Longrightarrow> sched_wf (s\<lparr>REMAINING := r\<rparr>)"
  by (simp add: sched_wf_def)

lemma sched_wf_decision:
  "sched_wf s \<Longrightarrow> bricks_wf b \<Longrightarrow> sched_wf (s\<lparr>bricks := b, REMAINING := r\<rparr>)"
  by (simp add: sched_wf_def)

text \<open>
  The decision of a tick, as one equation per branch: the quantum still stands, the policy
  names a task, or nobody is runnable.
\<close>

definition keeps_quantum :: "Sched \<Rightarrow> RunQueue \<Rightarrow> bool" where
  "keeps_quantum s q \<longleftrightarrow> 0 < saturating_sub (REMAINING s) 1 \<and> is_ready q (rq_current q)"

lemma choose_keep:
  "keeps_quantum s (RunQueue_new tasks current now) \<Longrightarrow>
   sched_choose s tasks current now = (current, s\<lparr> REMAINING := saturating_sub (REMAINING s) 1 \<rparr>)"
  by (simp add: sched_choose_def keeps_quantum_def Let_def RunQueue_new_def)

lemma choose_decide:
  assumes "\<not> keeps_quantum s (RunQueue_new tasks current now)"
    and "pick (policy_at (ACTIVE s))
      (on_yield (policy_at (ACTIVE s)) (bricks s) current (saturating_sub (REMAINING s) 1 = 0))
      (RunQueue_new tasks current now) = (r, b)"
  shows "sched_choose s tasks current now =
    (let nxt = (case r of Some i \<Rightarrow> i | None \<Rightarrow> current);
         left = (case r of Some i \<Rightarrow> max (quantum (policy_at (ACTIVE s)) b i) 1 | None \<Rightarrow> 0);
         s1 = s\<lparr> bricks := b, REMAINING := left \<rparr>
     in (nxt, watchdog (account s1 (RunQueue_new tasks current now) nxt current now)
                (ACTIVE s) tasks current now))"
  using assms
  by (cases r) (auto simp: sched_choose_def keeps_quantum_def Let_def RunQueue_new_def)

lemma choose_cases:
  assumes wf: "sched_wf s" and q: "q = RunQueue_new tasks current now" and "current < 8"
    and ch: "sched_choose s tasks current now = (nxt, s')"
  shows "sched_wf s' \<and> nxt < 8 \<and> (if ready q = [] then nxt = current else is_ready q nxt)"
proof (cases "keeps_quantum s q")
  case True
  have cur: "rq_current q = current" by (simp add: q RunQueue_new_def)
  from True ch have "nxt = current" "s' = s\<lparr> REMAINING := saturating_sub (REMAINING s) 1 \<rparr>"
    by (simp_all add: choose_keep q)
  moreover have "is_ready q current" using True by (simp add: keeps_quantum_def cur)
  ultimately show ?thesis
    using wf \<open>current < 8\<close> by (auto simp: sched_wf_remaining ready_Nil)
next
  case False
  let ?p = "policy_at (ACTIVE s)"
  let ?b = "on_yield ?p (bricks s) current (saturating_sub (REMAINING s) 1 = 0)"
  have b: "bricks_wf ?b" using wf by (simp add: sched_wf_def brick.inv_on_yield)
  from b show ?thesis
  proof (cases rule: brick.pick_cases [where p = ?p and q = q])
    case (idle b')
    from choose_decide [OF False [unfolded q] idle(1) [unfolded q]] ch idle wf \<open>current < 8\<close>
    show ?thesis by (auto simp: Let_def intro!: kernel_wf sched_wf_decision)
  next
    case (run i b')
    from choose_decide [OF False [unfolded q] run(1) [unfolded q]] ch run wf
    show ?thesis by (auto simp: Let_def ready_Nil intro!: kernel_wf sched_wf_decision)
  qed
qed

end
