(* ===== verification/Ring_Buffer.thy ===== *)
theory Ring_Buffer
  imports Prelude
begin

text \<open>
  Ring buffers over a fixed array: the part of the array that is occupied, what appending and
  removing do to it, and the contract of a bounded first-in first-out queue that drops the
  newest element when it is full. The keyboard and the serial input queues provide the
  contract, the pipe shares the lemmas on the occupied part.
\<close>

section \<open>The occupied part of a ring\<close>

definition ring_slice :: "'a list \<Rightarrow> nat \<Rightarrow> nat \<Rightarrow> nat \<Rightarrow> 'a list" where
  "ring_slice buf cap start n = map (\<lambda>i. buf ! ((start + i) mod cap)) [0..<n]"

lemma length_ring_slice [simp]: "length (ring_slice buf cap start n) = n"
  by (simp add: ring_slice_def)

lemma ring_slice_0 [simp]: "ring_slice buf cap start 0 = []"
  by (simp add: ring_slice_def)

lemma ring_slice_push:
  assumes "n < cap" "length buf = cap"
  shows "ring_slice (buf[(start + n) mod cap := x]) cap start (Suc n) =
         ring_slice buf cap start n @ [x]"
proof -
  have "ring_slice (buf[(start + n) mod cap := x]) cap start n = ring_slice buf cap start n"
    unfolding ring_slice_def
  proof (rule map_cong [OF refl])
    fix i assume "i \<in> set [0..<n]"
    then have "(start + i) mod cap \<noteq> (start + n) mod cap"
      using assms by (intro ring_index_inj) auto
    then show "buf[(start + n) mod cap := x] ! ((start + i) mod cap) = buf ! ((start + i) mod cap)"
      by simp
  qed
  moreover have "(start + n) mod cap < length buf" using assms by simp
  ultimately show ?thesis by (simp add: ring_slice_def)
qed

lemma ring_slice_pop:
  assumes "start < cap"
  shows "ring_slice buf cap start (Suc n) =
         buf ! start # ring_slice buf cap (Suc start mod cap) n"
proof -
  have "(Suc start mod cap + i) mod cap = (start + Suc i) mod cap" for i
    by (simp add: mod_add_left_eq)
  then have "ring_slice buf cap (Suc start mod cap) n =
      map ((\<lambda>i. buf ! ((start + i) mod cap)) \<circ> Suc) [0..<n]"
    unfolding ring_slice_def by simp
  moreover have "[0..<Suc n] = 0 # map Suc [0..<n]"
    by (simp add: upt_conv_Cons map_Suc_upt del: upt_Suc)
  ultimately show ?thesis
    using assms unfolding ring_slice_def by (simp del: upt_Suc)
qed

lemma ring_slice_drop:
  assumes "start < cap" "k \<le> n"
  shows "ring_slice buf cap start n =
         ring_slice buf cap start k @ ring_slice buf cap ((start + k) mod cap) (n - k)"
  using assms
proof (induction k arbitrary: start n)
  case (Suc k)
  then obtain m where n: "n = Suc m" by (cases n) auto
  have "0 < cap" using Suc.prems by simp
  then have "ring_slice buf cap (Suc start mod cap) m =
    ring_slice buf cap (Suc start mod cap) k @
    ring_slice buf cap ((Suc start mod cap + k) mod cap) (m - k)"
    using Suc.IH [of "Suc start mod cap" m] Suc.prems by (simp add: n)
  then show ?case
    using Suc.prems by (simp add: n ring_slice_pop mod_add_left_eq)
qed simp

text \<open>The length of the occupied part when it is given by a read and a write index.\<close>

definition ring_gap :: "nat \<Rightarrow> nat \<Rightarrow> nat \<Rightarrow> nat" where
  "ring_gap cap rd wr = (wr + cap - rd) mod cap"

lemma ring_gap_self [simp]: "ring_gap cap r r = 0"
  by (simp add: ring_gap_def)

lemma ring_gap_less: "0 < cap \<Longrightarrow> ring_gap cap rd wr < cap"
  by (simp add: ring_gap_def)

lemma ring_gap_cases:
  "rd < cap \<Longrightarrow> wr < cap \<Longrightarrow> ring_gap cap rd wr = (if rd \<le> wr then wr - rd else wr + cap - rd)"
proof (cases "rd \<le> wr")
  case True
  assume "wr < cap"
  then have "(wr + cap - rd) mod cap = (cap + (wr - rd)) mod cap" using True by (simp add: add.commute)
  also have "\<dots> = wr - rd" using \<open>wr < cap\<close> by (simp only: mod_add_self1) simp
  finally show ?thesis using True by (simp add: ring_gap_def)
qed (simp add: ring_gap_def)

lemma ring_gap_end: "rd < cap \<Longrightarrow> wr < cap \<Longrightarrow> (rd + ring_gap cap rd wr) mod cap = wr"
  by (auto simp: ring_gap_cases)

lemma ring_gap_0: "rd < cap \<Longrightarrow> wr < cap \<Longrightarrow> ring_gap cap rd wr = 0 \<longleftrightarrow> rd = wr"
  by (auto simp: ring_gap_cases)

lemma ring_gap_push:
  "rd < cap \<Longrightarrow> wr < cap \<Longrightarrow> Suc wr mod cap \<noteq> rd \<Longrightarrow>
   ring_gap cap rd (Suc wr mod cap) = Suc (ring_gap cap rd wr) \<and> Suc (ring_gap cap rd wr) < cap"
  by (auto simp: ring_gap_cases mod_Suc split: if_splits)

lemma ring_gap_full:
  "rd < cap \<Longrightarrow> wr < cap \<Longrightarrow> Suc wr mod cap = rd \<Longrightarrow> Suc (ring_gap cap rd wr) = cap"
  by (auto simp: ring_gap_cases mod_Suc split: if_splits)

lemma ring_gap_pop:
  "rd < cap \<Longrightarrow> wr < cap \<Longrightarrow> rd \<noteq> wr \<Longrightarrow>
   ring_gap cap rd wr = Suc (ring_gap cap (Suc rd mod cap) wr)"
  by (auto simp: ring_gap_cases mod_Suc split: if_splits)

section \<open>Bounded queues\<close>

text \<open>
  An interleaving of the two sides: the interrupt handler puts an element in, the consumer
  takes one out. Both sides of the source are critical sections, so an execution is a sequence
  of these steps.
\<close>

datatype 'a queue_op = Put 'a | Take

fun queue_run ::
  "('q \<Rightarrow> 'a \<Rightarrow> 'q) \<Rightarrow> ('q \<Rightarrow> 'a option \<times> 'q) \<Rightarrow> 'a queue_op list \<Rightarrow> 'q \<Rightarrow> 'a list \<times> 'q" where
  "queue_run push pop [] q = ([], q)"
| "queue_run push pop (Put x # ops) q = queue_run push pop ops (push q x)"
| "queue_run push pop (Take # ops) q =
     (let (r, q') = pop q; (out, q'') = queue_run push pop ops q'
      in (case r of None \<Rightarrow> out | Some x \<Rightarrow> x # out, q''))"

text \<open>
  The specification: a list that takes an element at its end while it is shorter than the
  bound. \<open>fifo_accepted\<close> are the elements that found room, in order.
\<close>

definition fifo_push :: "nat \<Rightarrow> 'a list \<Rightarrow> 'a \<Rightarrow> 'a list" where
  "fifo_push bound xs x = (if length xs < bound then xs @ [x] else xs)"

fun fifo_pop :: "'a list \<Rightarrow> 'a option \<times> 'a list" where
  "fifo_pop [] = (None, [])"
| "fifo_pop (x # xs) = (Some x, xs)"

fun fifo_accepted :: "nat \<Rightarrow> 'a queue_op list \<Rightarrow> 'a list \<Rightarrow> 'a list" where
  "fifo_accepted bound [] xs = []"
| "fifo_accepted bound (Put x # ops) xs =
     (if length xs < bound then x # fifo_accepted bound ops (xs @ [x]) else fifo_accepted bound ops xs)"
| "fifo_accepted bound (Take # ops) xs = fifo_accepted bound ops (tl xs)"

lemma fifo_stream:
  "queue_run (fifo_push bound) fifo_pop ops xs = (out, ys) \<Longrightarrow>
   out @ ys = xs @ fifo_accepted bound ops xs \<and> length ys \<le> max bound (length xs)"
proof (induction ops arbitrary: xs out ys)
  case (Cons op ops)
  show ?case
  proof (cases op)
    case (Put x)
    then show ?thesis
      using Cons.prems Cons.IH [of "fifo_push bound xs x" out ys]
      by (auto simp: fifo_push_def split: if_splits)
  next
    case Take
    then show ?thesis
    proof (cases xs)
      case Nil
      then show ?thesis using Take Cons.prems Cons.IH [of "[]"] by (auto split: prod.splits)
    next
      case (Cons a as)
      then show ?thesis
        using Take Cons.prems Cons.IH [of as] by (fastforce split: prod.splits)
    qed
  qed
qed simp

locale bounded_queue =
  fixes push :: "'q \<Rightarrow> 'a \<Rightarrow> 'q"
    and pop :: "'q \<Rightarrow> 'a option \<times> 'q"
    and contents :: "'q \<Rightarrow> 'a list"
    and wf :: "'q \<Rightarrow> bool"
    and bound :: nat
  assumes push_wf: "wf q \<Longrightarrow> wf (push q x)"
    and pop_wf: "wf q \<Longrightarrow> wf (snd (pop q))"
    and contents_push: "wf q \<Longrightarrow> contents (push q x) = fifo_push bound (contents q) x"
    and contents_pop: "wf q \<Longrightarrow> (fst (pop q), contents (snd (pop q))) = fifo_pop (contents q)"
begin

lemma run_refines:
  "wf q \<Longrightarrow> queue_run push pop ops q = (out, q') \<Longrightarrow>
   wf q' \<and> queue_run (fifo_push bound) fifo_pop ops (contents q) = (out, contents q')"
proof (induction ops arbitrary: q out)
  case (Cons op ops)
  show ?case
  proof (cases op)
    case (Put x)
    then show ?thesis
      using Cons.IH [of "push q x" out] Cons.prems by (simp add: push_wf contents_push)
  next
    case Take
    then show ?thesis
      using Cons.IH [of "snd (pop q)"] Cons.prems contents_pop [of q, symmetric]
      by (auto simp: pop_wf split: prod.splits option.splits)
  qed
qed auto

lemma run_stream:
  assumes "wf q" "queue_run push pop ops q = (out, q')" "length (contents q) \<le> bound"
  shows "out @ contents q' = contents q @ fifo_accepted bound ops (contents q) \<and>
         length (contents q') \<le> bound"
  using run_refines [OF assms(1,2)] assms(3) fifo_stream by fastforce

lemma pop_shrinks:
  "wf q \<Longrightarrow> pop q = (Some x, q') \<Longrightarrow> length (contents q') < length (contents q)"
  using contents_pop [of q] by (cases "contents q") auto

lemma pop_None_iff: "wf q \<Longrightarrow> fst (pop q) = None \<longleftrightarrow> contents q = []"
  using contents_pop [of q] by (cases "contents q") auto

lemma push_then_drained:
  assumes "wf q" "contents q = []" "0 < bound"
  shows "fst (pop (push q x)) = Some x \<and> contents (snd (pop (push q x))) = []"
  using contents_pop [OF push_wf [OF assms(1)], of x] contents_push [OF assms(1), of x] assms(2,3)
  by (simp add: fifo_push_def)

end

end
