(* ===== verification/Pipe.thy ===== *)
theory Pipe
  imports Ring_Buffer
begin

text \<open>
  \<open>kernel/src/pipe.rs\<close>: the table of pipes with their reference counts, the two critical
  sections of \<open>read\<close> and \<open>write\<close>, and the calls themselves as threads that run these sections,
  test, park and wake in the order of the code. A section is what the source runs inside
  \<open>without_interrupts\<close>; between two sections any other thread may run.

  An index outside the table panics in the source; the operations on the table return \<open>None\<close>
  there.
\<close>

abbreviation (input) PIPE_CAPACITY :: nat where "PIPE_CAPACITY \<equiv> 512"
abbreviation (input) MAX_PIPES :: nat where "MAX_PIPES \<equiv> 8"

record Pipe =
  buffer :: "u8 list"
  head :: nat
  tail :: nat
  plen :: nat
  readers :: u32
  writers :: u32
  used :: bool

definition Pipe_empty :: Pipe where
  "Pipe_empty = \<lparr> buffer = replicate PIPE_CAPACITY 0, head = 0, tail = 0, plen = 0,
     readers = 0, writers = 0, used = False \<rparr>"

type_synonym Pipes = "Pipe list"

definition PIPES_init :: Pipes where
  "PIPES_init = replicate MAX_PIPES Pipe_empty"

definition readable_channel :: "nat \<Rightarrow> u64" where
  "readable_channel i = 0x90000000 + word_of_nat i"

definition writable_channel :: "nat \<Rightarrow> u64" where
  "writable_channel i = 0x91000000 + word_of_nat i"

section \<open>Reference counts and the table\<close>

definition create :: "Pipes \<Rightarrow> (nat \<times> Pipes) option" where
  "create ps = (case position (\<lambda>p. \<not> used p) ps of
     None \<Rightarrow> None
   | Some i \<Rightarrow> Some (i, ps[i := Pipe_empty\<lparr> readers := 1, writers := 1, used := True \<rparr>]))"

definition at_pipe :: "nat \<Rightarrow> (Pipe \<Rightarrow> Pipe) \<Rightarrow> Pipes \<Rightarrow> Pipes option" where
  "at_pipe i f ps = (if i < length ps then Some (ps[i := f (ps ! i)]) else None)"

definition inc_readers :: "Pipe \<Rightarrow> Pipe" where
  "inc_readers p = p\<lparr> readers := readers p + 1 \<rparr>"

definition inc_writers :: "Pipe \<Rightarrow> Pipe" where
  "inc_writers p = p\<lparr> writers := writers p + 1 \<rparr>"

definition drop_reader :: "Pipe \<Rightarrow> Pipe" where
  "drop_reader p =
     (let p = p\<lparr> readers := saturating_sub (readers p) 1 \<rparr>
      in if readers p = 0 \<and> writers p = 0 then p\<lparr> used := False \<rparr> else p)"

definition drop_writer :: "Pipe \<Rightarrow> Pipe" where
  "drop_writer p =
     (let p = p\<lparr> writers := saturating_sub (writers p) 1 \<rparr>
      in if readers p = 0 \<and> writers p = 0 then p\<lparr> used := False \<rparr> else p)"

text \<open>The counting half of the four calls; the closing calls also return the channel they wake.\<close>

definition add_reader :: "nat \<Rightarrow> Pipes \<Rightarrow> Pipes option" where
  "add_reader i ps = at_pipe i inc_readers ps"

definition add_writer :: "nat \<Rightarrow> Pipes \<Rightarrow> Pipes option" where
  "add_writer i ps = at_pipe i inc_writers ps"

definition close_reader :: "nat \<Rightarrow> Pipes \<Rightarrow> (Pipes \<times> u64) option" where
  "close_reader i ps = map_option (\<lambda>ps'. (ps', writable_channel i)) (at_pipe i drop_reader ps)"

definition close_writer :: "nat \<Rightarrow> Pipes \<Rightarrow> (Pipes \<times> u64) option" where
  "close_writer i ps = map_option (\<lambda>ps'. (ps', readable_channel i)) (at_pipe i drop_writer ps)"

definition stats :: "nat \<Rightarrow> Pipes \<Rightarrow> (nat \<times> u32 \<times> u32) option" where
  "stats i ps =
     (if i < length ps then Some (plen (ps ! i), readers (ps ! i), writers (ps ! i)) else None)"

definition in_use :: "nat \<Rightarrow> Pipes \<Rightarrow> bool option" where
  "in_use i ps = (if i < length ps then Some (used (ps ! i)) else None)"

section \<open>The two critical sections\<close>

fun copy_out :: "u8 list \<Rightarrow> nat \<Rightarrow> nat \<Rightarrow> u8 list \<times> nat" where
  "copy_out buf t 0 = ([], t)"
| "copy_out buf t (Suc n) =
     (let (out, t') = copy_out buf ((t + 1) mod PIPE_CAPACITY) n in (buf ! t # out, t'))"

fun copy_in :: "u8 list \<Rightarrow> u8 list \<Rightarrow> nat \<Rightarrow> u8 list \<times> nat" where
  "copy_in [] buf h = (buf, h)"
| "copy_in (byte # data) buf h = copy_in data (buf[h := byte]) ((h + 1) mod PIPE_CAPACITY)"

text \<open>\<open>None\<close>: empty, but a writer exists. \<open>Some out\<close>: the bytes stored at the front of the caller's buffer.\<close>

definition take_section :: "nat \<Rightarrow> Pipe \<Rightarrow> u8 list option \<times> Pipe" where
  "take_section out_len p =
     (if plen p = 0 then (if writers p = 0 then (Some [], p) else (None, p))
      else let count = min (plen p) out_len; (out, t) = copy_out (buffer p) (tail p) count
           in (Some out, p\<lparr> tail := t, plen := plen p - count \<rparr>))"

text \<open>\<open>None\<close>: nobody is left to read. \<open>Some n\<close>: \<open>n\<close> bytes were placed, 0 when the pipe is full.\<close>

definition place_section :: "u8 list \<Rightarrow> nat \<Rightarrow> Pipe \<Rightarrow> nat option \<times> Pipe" where
  "place_section data written p =
     (if readers p = 0 then (None, p)
      else let room = PIPE_CAPACITY - plen p
           in if room = 0 then (Some 0, p)
              else let count = min room (length data - written);
                       (buf, h) = copy_in (take count (drop written data)) (buffer p) (head p)
                   in (Some count, p\<lparr> buffer := buf, head := h, plen := plen p + count \<rparr>))"

definition read_ready :: "Pipe \<Rightarrow> bool" where
  "read_ready p \<longleftrightarrow> plen p > 0 \<or> writers p = 0"

definition write_ready :: "Pipe \<Rightarrow> bool" where
  "write_ready p \<longleftrightarrow> plen p < PIPE_CAPACITY \<or> readers p = 0"

section \<open>Well-formedness and contents\<close>

definition pipe_wf :: "Pipe \<Rightarrow> bool" where
  "pipe_wf p \<longleftrightarrow> length (buffer p) = PIPE_CAPACITY \<and> tail p < PIPE_CAPACITY \<and>
     plen p \<le> PIPE_CAPACITY \<and> head p = (tail p + plen p) mod PIPE_CAPACITY"

definition contents :: "Pipe \<Rightarrow> u8 list" where
  "contents p = ring_slice (buffer p) PIPE_CAPACITY (tail p) (plen p)"

lemma length_contents [simp]: "length (contents p) = plen p"
  by (simp add: contents_def)

lemma copy_out_slice:
  "t < 512 \<Longrightarrow> copy_out buf t n = (ring_slice buf 512 t n, (t + n) mod 512)"
proof (induction n arbitrary: t)
  case (Suc n)
  then show ?case
    by (simp add: Suc.IH [of "Suc t mod 512"] ring_slice_pop mod_add_left_eq)
qed simp

lemma copy_in_slice:
  "length buf = 512 \<Longrightarrow> t < 512 \<Longrightarrow> n + length data \<le> 512 \<Longrightarrow>
   copy_in data buf ((t + n) mod 512) = (buf', h) \<Longrightarrow>
   length buf' = 512 \<and> h = (t + n + length data) mod 512 \<and>
   ring_slice buf' 512 t (n + length data) = ring_slice buf 512 t n @ data"
proof (induction data arbitrary: buf n)
  case (Cons x xs)
  let ?buf = "buf[(t + n) mod 512 := x]"
  have "Suc ((t + n) mod 512) mod 512 = (t + Suc n) mod 512"
    by (simp add: mod_Suc_eq)
  then have "copy_in xs ?buf ((t + Suc n) mod 512) = (buf', h)"
    using Cons.prems(4) by simp
  moreover have "ring_slice ?buf 512 t (Suc n) = ring_slice buf 512 t n @ [x]"
    by (rule ring_slice_push) (use Cons.prems in auto)
  ultimately show ?case
    using Cons.IH [of ?buf "Suc n"] Cons.prems by simp
qed simp

lemma take_section_empty:
  "plen p = 0 \<Longrightarrow> take_section n p = (if writers p = 0 then Some [] else None, p)"
  by (simp add: take_section_def)

lemma take_section_wf:
  assumes "pipe_wf p"
  shows "pipe_wf (snd (take_section n p)) \<and>
    contents p = (case fst (take_section n p) of None \<Rightarrow> [] | Some out \<Rightarrow> out) @
                 contents (snd (take_section n p))"
proof (cases "plen p = 0")
  case True
  then show ?thesis
    using assms by (simp add: take_section_empty flip: length_0_conv)
next
  case False
  let ?c = "min (plen p) n"
  have t: "tail p < 512" using assms by (simp add: pipe_wf_def)
  have "take_section n p = (Some (ring_slice (buffer p) 512 (tail p) ?c),
      p\<lparr> tail := (tail p + ?c) mod 512, plen := plen p - ?c \<rparr>)"
    using False by (simp add: take_section_def copy_out_slice [OF t] Let_def)
  moreover have "((tail p + ?c) mod 512 + (plen p - ?c)) mod 512 = (tail p + plen p) mod 512"
    by (simp only: mod_add_left_eq) simp
  moreover have "contents p = ring_slice (buffer p) 512 (tail p) ?c @
      ring_slice (buffer p) 512 ((tail p + ?c) mod 512) (plen p - ?c)"
    unfolding contents_def by (rule ring_slice_drop [OF t]) simp
  ultimately show ?thesis
    using assms by (auto simp: pipe_wf_def contents_def)
qed

lemma place_section_wf:
  assumes "pipe_wf p"
  shows "pipe_wf (snd (place_section data w p)) \<and>
    contents (snd (place_section data w p)) =
      contents p @ take (case fst (place_section data w p) of None \<Rightarrow> 0 | Some c \<Rightarrow> c) (drop w data)"
proof (cases "readers p = 0 \<or> plen p \<ge> 512")
  case True
  then show ?thesis using assms by (auto simp: place_section_def)
next
  case False
  let ?c = "min (512 - plen p) (length data - w)"
  let ?d = "take ?c (drop w data)"
  obtain buf h where c: "copy_in ?d (buffer p) (head p) = (buf, h)" by fastforce
  then have "length buf = 512 \<and> h = (tail p + plen p + length ?d) mod 512 \<and>
      ring_slice buf 512 (tail p) (plen p + length ?d) = ring_slice (buffer p) 512 (tail p) (plen p) @ ?d"
    using assms False by (intro copy_in_slice) (auto simp: pipe_wf_def)
  moreover have "length ?d = ?c" by simp
  ultimately show ?thesis
    using assms False c by (auto simp: place_section_def pipe_wf_def contents_def Let_def add.assoc)
qed

section \<open>Calls in progress\<close>

text \<open>
  A call in progress on one pipe. \<open>ReadTake\<close> is about to enter the critical section of \<open>read\<close>,
  \<open>ReadTest\<close> about to run the test of \<open>block_until\<close> (test and park are one section there),
  \<open>ReadParked\<close> is blocked on the readable channel, \<open>ReadWake\<close> has taken bytes and is about to
  wake the writers; likewise for \<open>write\<close>, whose data and progress are carried along. A closing
  call first drops its count and then wakes the other side.
\<close>

datatype Thread =
    Returned nat
  | ReadTake nat | ReadTest nat | ReadParked nat | ReadWake nat
  | WritePlace "u8 list" nat | WriteFullWake "u8 list" nat | WriteTest "u8 list" nat
  | WriteParked "u8 list" nat | WriteWake nat
  | CloseReader | CloseReaderWake | CloseWriter | CloseWriterWake

datatype Wake = WakeNone | WakeReaders | WakeWriters

text \<open>What a step moved through the pipe; used to state what a pipe is for.\<close>

datatype Moved = Nothing | Took "u8 list" | Placed "u8 list"

text \<open>The head of the \<open>while\<close> loop of \<open>write\<close>, and its end.\<close>

definition write_break :: "nat \<Rightarrow> Thread" where
  "write_break written = (if written > 0 then WriteWake written else Returned written)"

definition write_loop :: "u8 list \<Rightarrow> nat \<Rightarrow> Thread" where
  "write_loop data written =
     (if written < length data then WritePlace data written else write_break written)"

fun thread_step :: "Thread \<Rightarrow> Pipe \<Rightarrow> Thread \<times> Pipe \<times> Wake \<times> Moved" where
  "thread_step (ReadTake n) p = (case take_section n p of
     (None, p') \<Rightarrow> (ReadTest n, p', WakeNone, Nothing)
   | (Some out, p') \<Rightarrow>
       (if length out > 0 then ReadWake (length out) else Returned (length out), p', WakeNone, Took out))"
| "thread_step (ReadWake n) p = (Returned n, p, WakeWriters, Nothing)"
| "thread_step (ReadTest n) p =
     (if read_ready p then ReadTake n else ReadParked n, p, WakeNone, Nothing)"
| "thread_step (WritePlace data w) p = (case place_section data w p of
     (None, p') \<Rightarrow> (write_break w, p', WakeNone, Nothing)
   | (Some count, p') \<Rightarrow>
       if count = 0 then (WriteFullWake data w, p', WakeNone, Nothing)
       else (write_loop data (w + count), p', WakeNone, Placed (take count (drop w data))))"
| "thread_step (WriteFullWake data w) p = (WriteTest data w, p, WakeReaders, Nothing)"
| "thread_step (WriteTest data w) p =
     (if write_ready p then WritePlace data w else WriteParked data w, p, WakeNone, Nothing)"
| "thread_step (WriteWake w) p = (Returned w, p, WakeReaders, Nothing)"
| "thread_step CloseReader p = (CloseReaderWake, drop_reader p, WakeNone, Nothing)"
| "thread_step CloseReaderWake p = (Returned 0, p, WakeWriters, Nothing)"
| "thread_step CloseWriter p = (CloseWriterWake, drop_writer p, WakeNone, Nothing)"
| "thread_step CloseWriterWake p = (Returned 0, p, WakeReaders, Nothing)"
| "thread_step t p = (t, p, WakeNone, Nothing)"

text \<open>\<open>wake_all\<close> on one of the two channels: a woken task goes round the loop of \<open>block_until\<close>.\<close>

fun wake_thread :: "Wake \<Rightarrow> Thread \<Rightarrow> Thread" where
  "wake_thread WakeReaders (ReadParked n) = ReadTest n"
| "wake_thread WakeWriters (WriteParked data w) = WriteTest data w"
| "wake_thread _ t = t"

fun runnable :: "Thread \<Rightarrow> bool" where
  "runnable (Returned _) = False"
| "runnable (ReadParked _) = False"
| "runnable (WriteParked _ _) = False"
| "runnable _ = True"

record PipeSys =
  pipe :: Pipe
  threads :: "nat \<Rightarrow> Thread"
  sent :: "u8 list"
  received :: "u8 list"

definition sys_step :: "nat \<Rightarrow> PipeSys \<Rightarrow> PipeSys" where
  "sys_step i s = (case thread_step (threads s i) (pipe s) of (t', p', wake, moved) \<Rightarrow>
     \<lparr> pipe = p', threads = (\<lambda>j. wake_thread wake (if j = i then t' else threads s j)),
       sent = (case moved of Placed bs \<Rightarrow> sent s @ bs | _ \<Rightarrow> sent s),
       received = (case moved of Took bs \<Rightarrow> received s @ bs | _ \<Rightarrow> received s) \<rparr>)"

fun fresh_call :: "Thread \<Rightarrow> bool" where
  "fresh_call (ReadTake n) = True"
| "fresh_call (WritePlace data w) = (w = 0 \<and> data \<noteq> [])"
| "fresh_call CloseReader = True"
| "fresh_call CloseWriter = True"
| "fresh_call _ = False"

text \<open>
  Executions of one pipe from its creation: any runnable thread runs its next section, a thread
  that is not inside a call starts one (a \<open>write\<close> of no bytes returns at once and is left out),
  and a \<open>fork\<close> or \<open>dup\<close> adds an end. The counts are \<open>u32\<close> and are assumed not to wrap: the
  kernel has at most 64 descriptors.
\<close>

definition sys_init :: PipeSys where
  "sys_init = \<lparr> pipe = Pipe_empty\<lparr> readers := 1, writers := 1, used := True \<rparr>,
     threads = (\<lambda>_. Returned 0), sent = [], received = [] \<rparr>"

inductive reachable :: "PipeSys \<Rightarrow> bool" where
  init: "reachable sys_init"
| run: "reachable s \<Longrightarrow> runnable (threads s i) \<Longrightarrow> reachable (sys_step i s)"
| call: "reachable s \<Longrightarrow> threads s i = Returned n \<Longrightarrow> fresh_call t \<Longrightarrow>
    reachable (s\<lparr> threads := (threads s)(i := t) \<rparr>)"
| more_readers: "reachable s \<Longrightarrow> readers (pipe s) \<noteq> - 1 \<Longrightarrow> reachable (s\<lparr> pipe := inc_readers (pipe s) \<rparr>)"
| more_writers: "reachable s \<Longrightarrow> writers (pipe s) \<noteq> - 1 \<Longrightarrow> reachable (s\<lparr> pipe := inc_writers (pipe s) \<rparr>)"

text \<open>Threads that have still to wake the readers, and those that have still to wake the writers.\<close>

fun will_wake_readers :: "Thread \<Rightarrow> bool" where
  "will_wake_readers (WritePlace data w) = (w > 0)"
| "will_wake_readers (WriteFullWake data w) = True"
| "will_wake_readers (WriteWake w) = True"
| "will_wake_readers CloseWriterWake = True"
| "will_wake_readers _ = False"

fun will_wake_writers :: "Thread \<Rightarrow> bool" where
  "will_wake_writers (ReadWake n) = True"
| "will_wake_writers CloseReaderWake = True"
| "will_wake_writers _ = False"

fun parked_reader :: "Thread \<Rightarrow> bool" where
  "parked_reader (ReadParked n) = True"
| "parked_reader _ = False"

fun parked_writer :: "Thread \<Rightarrow> bool" where
  "parked_writer (WriteParked data w) = True"
| "parked_writer _ = False"

definition no_lost_wakeup :: "PipeSys \<Rightarrow> bool" where
  "no_lost_wakeup s \<longleftrightarrow>
     (read_ready (pipe s) \<longrightarrow> (\<exists>i. parked_reader (threads s i)) \<longrightarrow> (\<exists>j. will_wake_readers (threads s j))) \<and>
     (write_ready (pipe s) \<longrightarrow> (\<exists>i. parked_writer (threads s i)) \<longrightarrow> (\<exists>j. will_wake_writers (threads s j)))"

definition stream_ok :: "PipeSys \<Rightarrow> bool" where
  "stream_ok s \<longleftrightarrow> pipe_wf (pipe s) \<and> sent s = received s @ contents (pipe s)"

lemma pipe_counts_irrelevant [simp]:
  "pipe_wf (p\<lparr> readers := r \<rparr>) = pipe_wf p" "pipe_wf (p\<lparr> writers := w \<rparr>) = pipe_wf p"
  "pipe_wf (p\<lparr> used := u \<rparr>) = pipe_wf p"
  "contents (p\<lparr> readers := r \<rparr>) = contents p" "contents (p\<lparr> writers := w \<rparr>) = contents p"
  "contents (p\<lparr> used := u \<rparr>) = contents p"
  by (simp_all add: pipe_wf_def contents_def)

lemma drop_wf [simp]:
  "pipe_wf (drop_reader p) = pipe_wf p" "contents (drop_reader p) = contents p"
  "pipe_wf (drop_writer p) = pipe_wf p" "contents (drop_writer p) = contents p"
  "pipe_wf (inc_readers p) = pipe_wf p" "contents (inc_readers p) = contents p"
  "pipe_wf (inc_writers p) = pipe_wf p" "contents (inc_writers p) = contents p"
  by (simp_all add: drop_reader_def drop_writer_def inc_readers_def inc_writers_def Let_def)

lemma thread_step_stream:
  assumes "pipe_wf p" "thread_step t p = (t', p', wake, moved)"
  shows "pipe_wf p' \<and>
    (case moved of Nothing \<Rightarrow> contents p' = contents p
     | Took bs \<Rightarrow> contents p = bs @ contents p'
     | Placed bs \<Rightarrow> contents p' = contents p @ bs)"
  using assms(2)
proof (cases t)
  case (ReadTake n)
  then show ?thesis
    using assms take_section_wf [OF assms(1), of n]
    by (auto split: prod.splits option.splits)
next
  case (WritePlace data w)
  then show ?thesis
    using assms place_section_wf [OF assms(1), of data w]
    by (auto split: prod.splits option.splits if_splits)
qed (use assms(1) in auto)

lemma sys_step_stream: "stream_ok s \<Longrightarrow> stream_ok (sys_step i s)"
  using thread_step_stream [of "pipe s" "threads s i"]
  by (auto simp: stream_ok_def sys_step_def split: prod.splits Moved.splits)

lemma reachable_stream: "reachable s \<Longrightarrow> stream_ok s"
proof (induction rule: reachable.induct)
  case init
  show ?case
    by (simp add: stream_ok_def sys_init_def Pipe_empty_def pipe_wf_def contents_def)
next
  case (run s i)
  then show ?case by (intro sys_step_stream)
qed (simp_all add: stream_ok_def)

lemma length_copy_out: "length (fst (copy_out buf t k)) = k"
  by (induction k arbitrary: t) (simp_all add: case_prod_beta)

lemma take_section_counts:
  "readers (snd (take_section n p)) = readers p" "writers (snd (take_section n p)) = writers p"
  "plen (snd (take_section n p)) =
     plen p - (case fst (take_section n p) of None \<Rightarrow> 0 | Some out \<Rightarrow> length out)"
  by (simp_all add: take_section_def Let_def case_prod_beta length_copy_out)

lemma place_section_counts:
  "readers (snd (place_section data w p)) = readers p" "writers (snd (place_section data w p)) = writers p"
  "plen (snd (place_section data w p)) =
     plen p + (case fst (place_section data w p) of None \<Rightarrow> 0 | Some c \<Rightarrow> c)"
  by (auto simp: place_section_def Let_def split: prod.splits)

lemma drop_ready [simp]:
  "read_ready (drop_reader p) = read_ready p" "write_ready (drop_writer p) = write_ready p"
  by (simp_all add: drop_reader_def drop_writer_def read_ready_def write_ready_def Let_def)

lemma thread_step_readers:
  assumes "thread_step t p = (t', p', wake, moved)" "runnable t" "wake \<noteq> WakeReaders"
    "\<not> will_wake_readers t'"
  shows "\<not> will_wake_readers t \<and> (parked_reader t' \<longrightarrow> \<not> read_ready p') \<and>
    (read_ready p' \<longrightarrow> read_ready p)"
proof (cases t)
  case (ReadTake n)
  then show ?thesis
    using assms take_section_counts [of n p]
    by (auto simp: read_ready_def split: prod.splits option.splits if_splits)
next
  case (WritePlace data w)
  then show ?thesis
    using assms place_section_counts [of data w p]
    by (auto simp: read_ready_def write_loop_def write_break_def
        split: prod.splits option.splits if_splits)
qed (use assms in \<open>auto split: if_splits\<close>)

lemma thread_step_writers:
  assumes "thread_step t p = (t', p', wake, moved)" "runnable t" "wake \<noteq> WakeWriters"
    "\<not> will_wake_writers t'"
  shows "\<not> will_wake_writers t \<and> (parked_writer t' \<longrightarrow> \<not> write_ready p') \<and>
    (write_ready p' \<longrightarrow> write_ready p)"
proof (cases t)
  case (ReadTake n)
  then show ?thesis
    using assms take_section_counts [of n p]
    by (auto simp: write_ready_def split: prod.splits option.splits if_splits)
next
  case (WritePlace data w)
  then show ?thesis
    using assms place_section_counts [of data w p]
    by (auto simp: write_ready_def write_loop_def write_break_def
        split: prod.splits option.splits if_splits)
qed (use assms in \<open>auto split: if_splits\<close>)

lemma wake_thread_simps [simp]:
  "\<not> parked_reader (wake_thread WakeReaders t)"
  "\<not> parked_writer (wake_thread WakeWriters t)"
  "wake \<noteq> WakeReaders \<Longrightarrow> parked_reader (wake_thread wake t) = parked_reader t"
  "wake \<noteq> WakeWriters \<Longrightarrow> parked_writer (wake_thread wake t) = parked_writer t"
  "will_wake_readers (wake_thread wake t) = will_wake_readers t"
  "will_wake_writers (wake_thread wake t) = will_wake_writers t"
  by (cases wake; cases t; simp)+

lemma sys_step_no_lost_wakeup:
  assumes "no_lost_wakeup s" "runnable (threads s i)"
  shows "no_lost_wakeup (sys_step i s)"
proof -
  obtain t' p' wake moved where st: "thread_step (threads s i) (pipe s) = (t', p', wake, moved)"
    by (cases "thread_step (threads s i) (pipe s)")
  let ?th = "threads (sys_step i s)"
  have th: "?th j = wake_thread wake (if j = i then t' else threads s j)" for j
    by (simp add: sys_step_def st)
  have p: "pipe (sys_step i s) = p'" by (simp add: sys_step_def st)
  have "\<exists>j. will_wake_readers (?th j)" if "read_ready p'" "parked_reader (?th k)" for k
  proof (cases "wake = WakeReaders \<or> will_wake_readers t'")
    case True
    then show ?thesis using that(2) by (auto simp: th intro: exI [of _ i])
  next
    case False
    then have *: "\<not> will_wake_readers (threads s i)" "parked_reader t' \<longrightarrow> \<not> read_ready p'"
        "read_ready (pipe s)"
      using thread_step_readers [OF st assms(2)] that(1) by auto
    then have "k \<noteq> i" "parked_reader (threads s k)"
      using that False by (auto simp: th split: if_splits)
    then obtain j where "will_wake_readers (threads s j)"
      using assms(1) *(3) by (auto simp: no_lost_wakeup_def)
    then show ?thesis using *(1) by (auto simp: th intro!: exI [of _ j])
  qed
  moreover have "\<exists>j. will_wake_writers (?th j)" if "write_ready p'" "parked_writer (?th k)" for k
  proof (cases "wake = WakeWriters \<or> will_wake_writers t'")
    case True
    then show ?thesis using that(2) by (auto simp: th intro: exI [of _ i])
  next
    case False
    then have *: "\<not> will_wake_writers (threads s i)" "parked_writer t' \<longrightarrow> \<not> write_ready p'"
        "write_ready (pipe s)"
      using thread_step_writers [OF st assms(2)] that(1) by auto
    then have "k \<noteq> i" "parked_writer (threads s k)"
      using that False by (auto simp: th split: if_splits)
    then obtain j where "will_wake_writers (threads s j)"
      using assms(1) *(3) by (auto simp: no_lost_wakeup_def)
    then show ?thesis using *(1) by (auto simp: th intro!: exI [of _ j])
  qed
  ultimately show ?thesis by (auto simp: no_lost_wakeup_def p)
qed

lemma fresh_call_simps:
  "fresh_call t \<Longrightarrow> \<not> parked_reader t \<and> \<not> parked_writer t"
  by (cases t) auto

lemma inc_ready:
  "readers p \<noteq> - 1 \<Longrightarrow> write_ready (inc_readers p) \<Longrightarrow> write_ready p"
  "writers p \<noteq> - 1 \<Longrightarrow> read_ready (inc_writers p) \<Longrightarrow> read_ready p"
  "read_ready (inc_readers p) = read_ready p" "write_ready (inc_writers p) = write_ready p"
  by (auto simp: write_ready_def read_ready_def inc_readers_def inc_writers_def add_eq_0_iff)
     (metis add_eq_0_iff add.commute)+

lemma reachable_no_lost_wakeup: "reachable s \<Longrightarrow> no_lost_wakeup s"
proof (induction rule: reachable.induct)
  case init
  show ?case by (simp add: no_lost_wakeup_def sys_init_def)
next
  case (run s i)
  then show ?case by (intro sys_step_no_lost_wakeup)
next
  case (call s i n t)
  have i: "\<not> will_wake_readers (threads s i)" "\<not> will_wake_writers (threads s i)" using call(2) by simp_all
  let ?th = "(threads s)(i := t)"
  have p: "parked_reader (?th j) \<Longrightarrow> parked_reader (threads s j)" "parked_writer (?th j) \<Longrightarrow> parked_writer (threads s j)" for j
    using fresh_call_simps [OF call(3)] by (auto split: if_splits)
  have w: "will_wake_readers (threads s j) \<Longrightarrow> will_wake_readers (?th j)" "will_wake_writers (threads s j) \<Longrightarrow> will_wake_writers (?th j)" for j
    using i by auto
  have f: "pipe (s\<lparr> threads := ?th \<rparr>) = pipe s" "threads (s\<lparr> threads := ?th \<rparr>) = ?th" by simp_all
  show ?case using call.IH p w unfolding no_lost_wakeup_def f by blast
next
  case (more_readers s)
  then show ?case by (auto simp: no_lost_wakeup_def inc_ready dest: inc_ready(1))
next
  case (more_writers s)
  then show ?case by (auto simp: no_lost_wakeup_def inc_ready dest: inc_ready(2))
qed

fun wake_distance :: "Thread \<Rightarrow> nat" where
  "wake_distance (WritePlace data w) = length data - w + 2"
| "wake_distance _ = 1"

lemma waker_progress:
  assumes "will_wake_readers t \<or> will_wake_writers t" "thread_step t p = (t', p', wake, moved)"
  shows "(will_wake_readers t \<longrightarrow> wake = WakeReaders \<or> will_wake_readers t' \<and> wake_distance t' < wake_distance t) \<and>
    (will_wake_writers t \<longrightarrow> wake = WakeWriters)"
proof (cases t)
  case (WritePlace data w)
  then show ?thesis
    using assms
    by (auto simp: write_loop_def write_break_def place_section_def Let_def
        split: prod.splits option.splits if_splits)
qed (use assms in auto)

lemma will_wake_runnable: "will_wake_readers t \<or> will_wake_writers t \<Longrightarrow> runnable t"
  by (cases t) auto

text \<open>
  C1: Stream integrity. In every reachable state of a pipe, under any interleaving of readers,
  writers and closers, the bytes written so far are the bytes read so far followed by the bytes
  in the ring: nothing is lost, duplicated or reordered, and the ring never holds more than its
  capacity.
\<close>

theorem pipe_stream_integrity:
  assumes "reachable s"
  shows "sent s = received s @ contents (pipe s) \<and> length (contents (pipe s)) \<le> PIPE_CAPACITY"
  using reachable_stream [OF assms] by (simp add: stream_ok_def pipe_wf_def)

theorem pipe_stream_integrity_witness:
  "let s = sys_step 3 (sys_init\<lparr> threads := (threads sys_init)(3 := WritePlace [7, 9] 0) \<rparr>)
   in sent s = [7, 9] \<and> sent s = received s @ contents (pipe s) \<and>
      length (contents (pipe s)) \<le> PIPE_CAPACITY"
proof -
  let ?s = "sys_init\<lparr> threads := (threads sys_init)(3 := WritePlace [7, 9] 0) \<rparr>"
  have "reachable ?s"
    by (rule reachable.call [OF reachable.init, of 3 0]) (simp_all add: sys_init_def)
  then have "reachable (sys_step 3 ?s)"
    by (rule reachable.run) simp
  moreover have "sent (sys_step 3 ?s) = [7, 9]"
    by (simp add: sys_step_def sys_init_def Pipe_empty_def place_section_def)
  ultimately show ?thesis
    using pipe_stream_integrity [of "sys_step 3 ?s"] by (simp add: Let_def)
qed

text \<open>
  C8: No lost wakeup. Whenever a task is parked in \<open>read\<close> although there is data or no writer
  is left, some other call is on its way to wake the readers and can run; whenever a task is
  parked in \<open>write\<close> although there is room or no reader is left, some other call is on its way
  to wake the writers.
\<close>

theorem pipe_no_lost_wakeup:
  assumes "reachable s"
  shows "(read_ready (pipe s) \<and> threads s i = ReadParked n \<longrightarrow>
      (\<exists>j. will_wake_readers (threads s j) \<and> runnable (threads s j))) \<and>
    (write_ready (pipe s) \<and> threads s i = WriteParked data w \<longrightarrow>
      (\<exists>j. will_wake_writers (threads s j) \<and> runnable (threads s j)))"
proof -
  have "parked_reader (ReadParked n)" "parked_writer (WriteParked data w)" by simp_all
  then show ?thesis
    using reachable_no_lost_wakeup [OF assms] will_wake_runnable
    unfolding no_lost_wakeup_def by metis
qed

definition parked_demo :: PipeSys where
  "parked_demo = sys_step 4 (sys_init\<lparr> threads := (threads sys_init)(4 := ReadTake 8) \<rparr>)"

lemma parked_demo_reachable:
  "reachable parked_demo" "threads parked_demo 4 = ReadTest 8"
  "pipe parked_demo = pipe sys_init"
proof -
  have "reachable (sys_init\<lparr> threads := (threads sys_init)(4 := ReadTake 8) \<rparr>)"
    by (rule reachable.call [OF reachable.init, of 4 0]) (simp_all add: sys_init_def)
  then show "reachable parked_demo"
    unfolding parked_demo_def by (rule reachable.run) simp
  show "threads parked_demo 4 = ReadTest 8" "pipe parked_demo = pipe sys_init"
    by (simp_all add: parked_demo_def sys_step_def sys_init_def Pipe_empty_def take_section_def)
qed

text \<open>
  The wakeup that is on its way arrives. Whatever the other calls do to the pipe in between,
  each step of a call that has still to wake the readers either wakes them or brings it strictly
  closer to doing so, and the next step of a call that has still to wake the writers wakes them.
\<close>

theorem pipe_wakeup_arrives:
  assumes "thread_step t p = (t', p', wake, moved)"
  shows "(will_wake_readers t \<longrightarrow>
      wake = WakeReaders \<or> will_wake_readers t' \<and> wake_distance t' < wake_distance t) \<and>
    (will_wake_writers t \<longrightarrow> wake = WakeWriters)"
  using waker_progress [OF _ assms] by blast

theorem pipe_wakeup_arrives_witness:
  "will_wake_readers (WriteWake 5) \<and> wake_distance (WriteWake 5) = 1 \<and>
   fst (snd (snd (thread_step (WriteWake 5) Pipe_empty))) = WakeReaders"
  using pipe_wakeup_arrives [of "WriteWake 5" Pipe_empty "Returned 5" Pipe_empty WakeReaders Nothing]
  by simp

text \<open>
  C32: No deadlock on a pipe. When no call can run, a task parked in \<open>read\<close> faces an empty pipe
  that still has a writer, a task parked in \<open>write\<close> faces a full pipe that still has a reader,
  and so tasks are never parked on both sides.
\<close>

theorem pipe_quiescent:
  assumes "reachable s" "\<forall>j. \<not> runnable (threads s j)"
  shows "(threads s i = ReadParked n \<longrightarrow> contents (pipe s) = [] \<and> writers (pipe s) \<noteq> 0) \<and>
    (threads s k = WriteParked data w \<longrightarrow>
       length (contents (pipe s)) = PIPE_CAPACITY \<and> readers (pipe s) \<noteq> 0) \<and>
    \<not> (threads s i = ReadParked n \<and> threads s k = WriteParked data w)"
proof -
  have p: "parked_reader (ReadParked n)" "parked_writer (WriteParked data w)" by simp_all
  have w: "plen (pipe s) \<le> 512" using reachable_stream [OF assms(1)] by (simp add: stream_ok_def pipe_wf_def)
  have "\<not> read_ready (pipe s)" if "threads s i = ReadParked n"
    using reachable_no_lost_wakeup [OF assms(1)] assms(2) will_wake_runnable that p(1)
    unfolding no_lost_wakeup_def by metis
  moreover have "\<not> write_ready (pipe s)" if "threads s k = WriteParked data w"
    using reachable_no_lost_wakeup [OF assms(1)] assms(2) will_wake_runnable that p(2)
    unfolding no_lost_wakeup_def by metis
  ultimately show ?thesis
    using w by (auto simp: read_ready_def write_ready_def simp flip: length_0_conv)
qed

theorem pipe_quiescent_witness:
  "let s = sys_step 4 parked_demo
   in threads s 4 = ReadParked 8 \<and> contents (pipe s) = [] \<and> writers (pipe s) \<noteq> 0"
proof -
  let ?s = "sys_step 4 parked_demo"
  have "reachable ?s"
    by (rule reachable.run) (simp_all add: parked_demo_reachable)
  moreover have th: "threads ?s = (threads parked_demo)(4 := ReadParked 8)"
    by (auto simp: sys_step_def parked_demo_reachable(2,3) read_ready_def sys_init_def Pipe_empty_def)
  moreover have "threads parked_demo j = Returned 0" if "j \<noteq> 4" for j
    using that by (simp add: parked_demo_def sys_step_def sys_init_def take_section_def Pipe_empty_def)
  then have "\<forall>j. \<not> runnable (threads ?s j)"
    by (simp add: th)
  ultimately show ?thesis
    using pipe_quiescent [of ?s 4 8] by (simp add: Let_def)
qed

text \<open>A reader is parked and the last writer has just closed its end: the wakeup is on its way.\<close>

definition closing_demo :: PipeSys where
  "closing_demo = (let s = sys_step 4 parked_demo in sys_step 5 (s\<lparr> threads := (threads s)(5 := CloseWriter) \<rparr>))"

lemma closing_demo_reachable:
  "reachable closing_demo" "threads closing_demo 4 = ReadParked 8" "read_ready (pipe closing_demo)"
proof -
  let ?s = "sys_step 4 parked_demo"
  have r: "reachable ?s" by (rule reachable.run) (simp_all add: parked_demo_reachable)
  have th: "threads ?s 4 = ReadParked 8" "threads ?s 5 = Returned 0" "pipe ?s = pipe sys_init"
    by (simp_all add: sys_step_def parked_demo_reachable(2,3) read_ready_def)
      (simp_all add: parked_demo_def sys_step_def sys_init_def take_section_def Pipe_empty_def)
  have "reachable (?s\<lparr> threads := (threads ?s)(5 := CloseWriter) \<rparr>)"
    by (rule reachable.call [OF r th(2)]) simp
  then show "reachable closing_demo"
    unfolding closing_demo_def Let_def by (rule reachable.run) simp
  show "threads closing_demo 4 = ReadParked 8" "read_ready (pipe closing_demo)"
    using th
    by (simp_all add: closing_demo_def Let_def sys_step_def [of 5] read_ready_def drop_writer_def sys_init_def Pipe_empty_def saturating_sub_def)
qed

theorem pipe_no_lost_wakeup_witness:
  "read_ready (pipe closing_demo) \<and> threads closing_demo 4 = ReadParked 8 \<and>
   (\<exists>j. will_wake_readers (threads closing_demo j) \<and> runnable (threads closing_demo j))"
  using pipe_no_lost_wakeup [OF closing_demo_reachable(1), of 4 8] closing_demo_reachable(2,3) by blast

text \<open>
  \<open>read\<close> returns 0 exactly at end of file, that is, when the pipe is empty and no writer is
  left, or when it is called with an empty buffer while there is data.
\<close>

theorem read_zero_iff:
  "fst (thread_step (ReadTake n) p) = Returned 0 \<longleftrightarrow>
     plen p = 0 \<and> writers p = 0 \<or> plen p \<noteq> 0 \<and> n = 0"
proof -
  have "fst (copy_out (buffer p) (tail p) k) = [] \<longleftrightarrow> k = 0" for k
    using length_copy_out [of "buffer p" "tail p" k] by (metis length_0_conv)
  then show ?thesis
    by (auto simp: take_section_def Let_def case_prod_beta)
qed

section \<open>Life of a pipe\<close>

definition table_ok :: "Pipes \<Rightarrow> bool" where
  "table_ok ps \<longleftrightarrow> length ps = MAX_PIPES \<and>
     (\<forall>i < MAX_PIPES. used (ps ! i) = (readers (ps ! i) \<noteq> 0 \<or> writers (ps ! i) \<noteq> 0))"

text \<open>Handing out ends: creation, \<open>fork\<close> and \<open>dup\<close> on an open pipe, and the two closing calls.\<close>

inductive pipe_op :: "Pipes \<Rightarrow> Pipes \<Rightarrow> bool" where
  "create ps = Some (i, ps') \<Longrightarrow> pipe_op ps ps'"
| "add_reader i ps = Some ps' \<Longrightarrow> used (ps ! i) \<Longrightarrow> readers (ps ! i) \<noteq> - 1 \<Longrightarrow> pipe_op ps ps'"
| "add_writer i ps = Some ps' \<Longrightarrow> used (ps ! i) \<Longrightarrow> writers (ps ! i) \<noteq> - 1 \<Longrightarrow> pipe_op ps ps'"
| "close_reader i ps = Some (ps', c) \<Longrightarrow> pipe_op ps ps'"
| "close_writer i ps = Some (ps', c) \<Longrightarrow> pipe_op ps ps'"

lemma inc_not_zero: "(w :: u32) \<noteq> - 1 \<Longrightarrow> w + 1 \<noteq> 0"
  by (metis add_diff_cancel diff_0)

lemma pipe_op_table_ok: "pipe_op ps ps' \<Longrightarrow> table_ok ps \<Longrightarrow> table_ok ps'"
proof (induction rule: pipe_op.induct)
  case (1 ps i ps')
  then obtain k where "position (\<lambda>p. \<not> used p) ps = Some k"
      "ps' = ps[k := Pipe_empty\<lparr> readers := 1, writers := 1, used := True \<rparr>]"
    by (auto simp: create_def split: option.splits)
  then show ?case
    using 1(2) position_Some [of "\<lambda>p. \<not> used p" ps k] by (simp add: table_ok_def nth_list_update)
next
  case (2 i ps ps')
  then show ?case
    using inc_not_zero
    by (auto simp: add_reader_def at_pipe_def inc_readers_def table_ok_def nth_list_update split: if_splits)
next
  case (3 i ps ps')
  then show ?case
    using inc_not_zero
    by (auto simp: add_writer_def at_pipe_def inc_writers_def table_ok_def nth_list_update split: if_splits)
next
  case (4 i ps ps' c)
  then show ?case
    by (auto simp: close_reader_def at_pipe_def drop_reader_def table_ok_def nth_list_update Let_def
        saturating_sub_def split: if_splits)
next
  case (5 i ps ps' c)
  then show ?case
    by (auto simp: close_writer_def at_pipe_def drop_writer_def table_ok_def nth_list_update Let_def
        saturating_sub_def split: if_splits)
qed

lemma pipe_ops_table_ok: "pipe_op\<^sup>*\<^sup>* ps ps' \<Longrightarrow> table_ok ps \<Longrightarrow> table_ok ps'"
  by (induction rule: rtranclp_induct) (auto intro: pipe_op_table_ok)

lemma PIPES_init_ok: "table_ok PIPES_init"
  by (simp add: table_ok_def PIPES_init_def Pipe_empty_def)

text \<open>
  A pipe lives exactly as long as one of its ends is open. After any sequence of creations,
  duplications and closings, \<open>create\<close> hands out a slot with no reader and no writer left, as an
  empty pipe with one of each, and touches no other slot; it fails only when every slot has an
  open end.
\<close>

theorem pipe_lifetime:
  assumes "pipe_op\<^sup>*\<^sup>* PIPES_init ps"
  shows "case create ps of
      None \<Rightarrow> \<forall>p \<in> set ps. readers p \<noteq> 0 \<or> writers p \<noteq> 0
    | Some (i, ps') \<Rightarrow> i < MAX_PIPES \<and> readers (ps ! i) = 0 \<and> writers (ps ! i) = 0 \<and>
        contents (ps' ! i) = [] \<and> readers (ps' ! i) = 1 \<and> writers (ps' ! i) = 1 \<and>
        (\<forall>j. j \<noteq> i \<longrightarrow> ps' ! j = ps ! j)"
proof -
  have ok: "table_ok ps" by (rule pipe_ops_table_ok [OF assms PIPES_init_ok])
  show ?thesis
  proof (cases "position (\<lambda>p. \<not> used p) ps")
    case None
    then have "\<forall>i < length ps. used (ps ! i)" by (simp add: position_None)
    then show ?thesis
      using ok by (auto simp: create_def None table_ok_def in_set_conv_nth)
  next
    case (Some i)
    then show ?thesis
      using ok position_Some [OF Some]
      by (auto simp: create_def Some table_ok_def contents_def Pipe_empty_def)
  qed
qed

theorem pipe_lifetime_witness:
  "case create PIPES_init of None \<Rightarrow> False
   | Some (i, ps') \<Rightarrow> i = 0 \<and> readers (ps' ! i) = 1 \<and> writers (ps' ! i) = 1"
proof -
  have "replicate 8 Pipe_empty = Pipe_empty # replicate 7 Pipe_empty"
    by (simp add: numeral_eq_Suc)
  moreover have "\<not> used Pipe_empty" by (simp add: Pipe_empty_def)
  ultimately have "position (\<lambda>p. \<not> used p) PIPES_init = Some 0"
    by (simp only: PIPES_init_def position.simps if_True simp_thms)
  then have "fst (the (create PIPES_init)) = 0" "create PIPES_init \<noteq> None"
    by (simp_all add: create_def)
  then show ?thesis
    using pipe_lifetime [of PIPES_init] by auto
qed

text \<open>
  No two wait channels of the pipe table coincide, so that waking the readers of one pipe
  wakes nobody else.
\<close>

theorem pipe_channels_distinct:
  assumes "i < MAX_PIPES" "j < MAX_PIPES"
  shows "readable_channel i \<noteq> writable_channel j \<and>
    (readable_channel i = readable_channel j \<longleftrightarrow> i = j) \<and>
    (writable_channel i = writable_channel j \<longleftrightarrow> i = j)"
proof -
  have "unat (readable_channel k) = 0x90000000 + k" "unat (writable_channel k) = 0x91000000 + k"
    if "k < 8" for k
    using that by (simp_all add: readable_channel_def writable_channel_def unat_word_ariths
        unsigned_of_nat take_bit_eq_mod)
  from this [OF assms(1)] this [OF assms(2)] show ?thesis
    using assms by (auto simp: word_unat_eq_iff)
qed

theorem pipe_channels_distinct_witness:
  "readable_channel 3 \<noteq> writable_channel 5 \<and> readable_channel 3 \<noteq> readable_channel 5"
  using pipe_channels_distinct [of 3 5] by simp

end
