(* ===== verification/Utf8.thy ===== *)
theory Utf8
  imports Prelude
begin

text \<open>
  \<open>core::str::from_utf8\<close>: which byte strings are well-formed UTF-8. Shortest forms only, no
  surrogates, nothing above U+10FFFF.
\<close>

definition continuation :: "u8 \<Rightarrow> bool" where
  "continuation b \<longleftrightarrow> 0x80 \<le> b \<and> b \<le> 0xBF"

definition second_byte :: "u8 \<Rightarrow> u8 \<Rightarrow> bool" where
  "second_byte a b =
     (if a = 0xE0 then 0xA0 \<le> b \<and> b \<le> 0xBF
      else if a = 0xED then 0x80 \<le> b \<and> b \<le> 0x9F
      else if a = 0xF0 then 0x90 \<le> b \<and> b \<le> 0xBF
      else if a = 0xF4 then 0x80 \<le> b \<and> b \<le> 0x8F
      else continuation b)"

text \<open>How many bytes the leading byte announces; 0 when no character starts with it.\<close>

definition utf8_width :: "u8 \<Rightarrow> nat" where
  "utf8_width a =
     (if a < 0x80 then 1 else if a < 0xC2 then 0 else if a < 0xE0 then 2
      else if a < 0xF0 then 3 else if a < 0xF5 then 4 else 0)"

definition utf8_char :: "u8 list \<Rightarrow> bool" where
  "utf8_char c = (case c of
     [a] \<Rightarrow> utf8_width a = 1
   | [a, b] \<Rightarrow> utf8_width a = 2 \<and> second_byte a b
   | [a, b, d] \<Rightarrow> utf8_width a = 3 \<and> second_byte a b \<and> continuation d
   | [a, b, d, e] \<Rightarrow> utf8_width a = 4 \<and> second_byte a b \<and> continuation d \<and> continuation e
   | _ \<Rightarrow> False)"

function utf8_valid :: "u8 list \<Rightarrow> bool" where
  "utf8_valid bs =
     (if bs = [] then True
      else let n = utf8_width (hd bs)
           in if utf8_char (take n bs) then utf8_valid (drop n bs) else False)"
  by pat_completeness auto
termination
  apply (relation "measure length")
   apply simp
  subgoal for bs n
    by (cases "utf8_width (hd bs)") (auto simp: utf8_char_def)
  done

declare utf8_valid.simps [simp del]

lemma utf8_valid_Nil [simp]: "utf8_valid []"
  by (simp add: utf8_valid.simps)

lemma utf8_valid_ascii: "\<forall>b \<in> set bs. b < 0x80 \<Longrightarrow> utf8_valid bs"
proof (induction bs)
  case (Cons b bs)
  then show ?case by (simp add: utf8_valid.simps [of "b # bs"] utf8_width_def utf8_char_def)
qed simp

lemma utf8_examples:
  "utf8_valid [0xC3, 0xA9] \<and> \<not> utf8_valid [0xC3] \<and> \<not> utf8_valid [0xC0, 0x80] \<and> \<not> utf8_valid [0xED, 0xA0, 0x80]"
  by code_simp

end
