(* ===== verification/Kernel_Tasks.thy ===== *)
theory Kernel_Tasks
  imports Sched Pipe Utf8
begin

text \<open>
  \<open>kernel/src/task.rs\<close> and \<open>kernel/src/signal.rs\<close>: the operations on the task table, the frames a
  task is resumed through, descriptors, blocking and waking, the scheduler's entry from the timer,
  waiting for children, and signals.

  The state is the task table with \<open>CURRENT\<close> and \<open>ENABLED\<close>, the tick counter, the state of \<open>sched.rs\<close>
  and \<open>pipe.rs\<close>, the orphaned address spaces, the memory the kernel reads and writes as 64-bit
  words, the active and the kernel's level-4 table, and the stack pointer of the TSS. User memory is
  what each address space shows below \<open>USER_SPACE_END\<close>; how an address space comes to show it is
  the subject of the theories on memory. A slot number passed as \<open>tid\<close> is below \<open>MAX_TASKS\<close>, as all
  callers pass \<open>current_id()\<close> or a slot they searched for. A pipe number outside the table of pipes
  panics in the source: the operations that can meet one return \<open>None\<close> there.
\<close>

record Kernel =
  k_tasks :: Tasks
  k_current :: nat
  k_enabled :: bool
  k_ticks :: u64
  k_sched :: Sched
  k_pipes :: Pipes
  k_orphans :: "u64 list"
  k_mem :: "u64 \<Rightarrow> u64"
  k_user :: "u64 \<Rightarrow> u64 \<Rightarrow> u64"
  k_root :: u64
  k_kernel_root :: u64
  k_rsp0 :: u64

text \<open>The statics as the kernel boots: \<open>m\<close>, \<open>u\<close> and \<open>root\<close> are the memory and the level-4 table of the boot loader.\<close>

definition Kernel_boot :: "(u64 \<Rightarrow> u64) \<Rightarrow> (u64 \<Rightarrow> u64 \<Rightarrow> u64) \<Rightarrow> u64 \<Rightarrow> Kernel" where
  "Kernel_boot m u root = \<lparr> k_tasks = replicate MAX_TASKS Task_empty, k_current = 0, k_enabled = False, k_ticks = 0,
     k_sched = Sched_boot, k_pipes = PIPES_init, k_orphans = [], k_mem = m, k_user = u, k_root = root,
     k_kernel_root = 0, k_rsp0 = 0 \<rparr>"

abbreviation (input) USER_END :: u64 where "USER_END \<equiv> 0x8000000000"
abbreviation (input) KERNEL_CODE :: u64 where "KERNEL_CODE \<equiv> 0x08"
abbreviation (input) USER_DATA :: u64 where "USER_DATA \<equiv> 0x2B"
abbreviation (input) USER_CODE :: u64 where "USER_CODE \<equiv> 0x33"

definition load :: "u64 \<Rightarrow> Kernel \<Rightarrow> u64" where
  "load a k = (if a < USER_END then k_user k (k_root k) a else k_mem k a)"

definition store :: "u64 \<Rightarrow> u64 \<Rightarrow> Kernel \<Rightarrow> Kernel" where
  "store a v k =
     (if a < USER_END then k\<lparr> k_user := (k_user k)(k_root k := (k_user k (k_root k))(a := v)) \<rparr>
      else k\<lparr> k_mem := (k_mem k)(a := v) \<rparr>)"

definition task :: "nat \<Rightarrow> Kernel \<Rightarrow> Task" where
  "task tid k = k_tasks k ! tid"

definition at_task :: "nat \<Rightarrow> (Task \<Rightarrow> Task) \<Rightarrow> Kernel \<Rightarrow> Kernel" where
  "at_task tid f k = k\<lparr> k_tasks := (k_tasks k)[tid := f (k_tasks k ! tid)] \<rparr>"

section \<open>Creating tasks\<close>

definition name_of :: "nat \<Rightarrow> Kernel \<Rightarrow> u8 list" where
  "name_of tid k =
     (if tid \<ge> MAX_TASKS then [63] else if state (task tid k) = Free then [45]
      else let name = take (name_len (task tid k)) (tname (task tid k)) in if utf8_valid name then name else [63])"

definition set_name :: "u8 list \<Rightarrow> Task \<Rightarrow> Task" where
  "set_name bytes t =
     (let len = min (length bytes) (length (tname t))
      in t\<lparr> tname := take len bytes @ drop len (tname t), name_len := len \<rparr>)"

definition task_init :: "Kernel \<Rightarrow> Kernel" where
  "task_init k =
     (at_task 0 (\<lambda>t. (set_name [115, 104, 101, 108, 108] (t\<lparr> state := Ready \<rparr>))\<lparr> priority := SHELL_PRIORITY \<rparr>)
        (k\<lparr> k_kernel_root := k_root k \<rparr>))\<lparr> k_current := 0, k_enabled := True \<rparr>"

definition find_free :: "Tasks \<Rightarrow> nat option" where
  "find_free ts = find (\<lambda>i. state (ts ! i) = Free) [1..<MAX_TASKS]"

text \<open>\<open>vec![0u8; STACK_SIZE]\<close> at the address \<open>base\<close> that the heap gave.\<close>

definition zero_stack :: "u64 \<Rightarrow> Kernel \<Rightarrow> Kernel" where
  "zero_stack base k =
     k\<lparr> k_mem := (\<lambda>a. if base \<le> a \<and> a < base + STACK_SIZE then 0 else k_mem k a) \<rparr>"

definition stack_end :: "u64 \<Rightarrow> u64" where
  "stack_end base = (base + STACK_SIZE) AND NOT 0xF"

fun push_all :: "u64 list \<Rightarrow> u64 \<Rightarrow> Kernel \<Rightarrow> u64 \<times> Kernel" where
  "push_all [] sp k = (sp, k)"
| "push_all (v # vs) sp k = push_all vs (sp - 8) (store (sp - 8) v k)"

definition build_frame :: "u64 \<Rightarrow> u64 \<Rightarrow> Kernel \<Rightarrow> u64 \<times> Kernel" where
  "build_frame stop entry k = push_all ([0, stop - 8, 0x202, KERNEL_CODE, entry] @ replicate 15 0) stop k"

definition build_user_frame :: "u64 \<Rightarrow> u64 \<Rightarrow> u64 \<Rightarrow> u64 \<Rightarrow> u64 \<Rightarrow> Kernel \<Rightarrow> u64 \<times> Kernel" where
  "build_user_frame stop entry user_stack argc argv k =
     push_all ([USER_DATA, user_stack, 0x202, USER_CODE, entry] @ [0, 0, 0, 0, 0, argv, argc] @ replicate 8 0) stop k"

text \<open>\<open>entry\<close> is the address of \<open>task_entry\<close>.\<close>

definition spawn_with_priority :: "u64 \<Rightarrow> u64 \<Rightarrow> u8 list \<Rightarrow> Work \<Rightarrow> u8 \<Rightarrow> Kernel \<Rightarrow> (string + nat) \<times> Kernel" where
  "spawn_with_priority entry base name w prio k = (case find_free (k_tasks k) of
     None \<Rightarrow> (Inl ''no free task slots'', k)
   | Some tid \<Rightarrow>
       (let stop = stack_end base; (sp, k) = build_frame stop entry (zero_stack base k);
            k = at_task tid (\<lambda>t. set_name name (t\<lparr> state := Ready, stack_pointer := sp, kernel_stack_top := stop,
                  address_space := None, parent := None, stack_box := Some base, switches := 0, work := Some w,
                  priority := min prio MAX_PRIORITY \<rparr>)) k
        in (Inr tid, k\<lparr> k_sched := task_created (k_sched k) tid \<rparr>)))"

definition spawn :: "u64 \<Rightarrow> u64 \<Rightarrow> u8 list \<Rightarrow> Work \<Rightarrow> Kernel \<Rightarrow> (string + nat) \<times> Kernel" where
  "spawn entry base name w k = spawn_with_priority entry base name w DEFAULT_PRIORITY k"

definition console_files :: "Descriptor list" where
  "console_files = (replicate MAX_FILES FdFree)[0 := Console, 1 := Console, 2 := Console]"

definition spawn_user :: "u64 \<Rightarrow> u8 list \<Rightarrow> u64 \<Rightarrow> u64 \<Rightarrow> u64 \<Rightarrow> nat option \<Rightarrow> u64 \<Rightarrow> u64 \<Rightarrow> Kernel \<Rightarrow> (string + nat) \<times> Kernel" where
  "spawn_user base name entry user_stack root par argc argv k = (case find_free (k_tasks k) of
     None \<Rightarrow> (Inl ''no free task slots'', k)
   | Some tid \<Rightarrow>
       (let stop = stack_end base; (sp, k) = build_user_frame stop entry user_stack argc argv (zero_stack base k);
            k = at_task tid (\<lambda>t. set_name name (t\<lparr> state := Ready, stack_pointer := sp, kernel_stack_top := stop,
                  address_space := Some root, parent := par, switches := 0, priority := DEFAULT_PRIORITY,
                  exit_code := 0, work := None, stack_box := Some base, files := console_files \<rparr>)) k
        in (Inr tid, k\<lparr> k_sched := task_created (k_sched k) tid \<rparr>)))"

text \<open>Copying words one by one, in the order of the loops of \<open>fork_from\<close>, \<open>deliver\<close> and \<open>restore\<close>.\<close>

definition copy_words :: "u64 \<Rightarrow> u64 \<Rightarrow> nat \<Rightarrow> Kernel \<Rightarrow> Kernel" where
  "copy_words dst src n k =
     fold (\<lambda>i k. store (dst + 8 * word_of_nat i) (load (src + 8 * word_of_nat i) k) k) [0..<n] k"

fun add_ends :: "Descriptor list \<Rightarrow> Pipes \<Rightarrow> Pipes option" where
  "add_ends [] ps = Some ps"
| "add_ends (PipeRead p # ds) ps = (case add_reader p ps of None \<Rightarrow> None | Some ps \<Rightarrow> add_ends ds ps)"
| "add_ends (PipeWrite p # ds) ps = (case add_writer p ps of None \<Rightarrow> None | Some ps \<Rightarrow> add_ends ds ps)"
| "add_ends (d # ds) ps = add_ends ds ps"

definition fork_from :: "u64 \<Rightarrow> nat \<Rightarrow> u64 \<Rightarrow> u64 \<Rightarrow> Kernel \<Rightarrow> ((string + nat) \<times> Kernel) option" where
  "fork_from base par root frame k = (case find_free (k_tasks k) of
     None \<Rightarrow> Some (Inl ''no free task slots'', k)
   | Some tid \<Rightarrow>
       (let p = task par k; stop = stack_end base; sp = stop - 160;
            k = store (sp + 8 * 14) 0 (copy_words sp frame 20 (zero_stack base k))
        in case add_ends (files p) (k_pipes k) of
             None \<Rightarrow> None
           | Some ps \<Rightarrow>
               (let k = at_task tid (\<lambda>t. set_name [99, 104, 105, 108, 100] (t\<lparr> state := Ready, stack_pointer := sp,
                      kernel_stack_top := stop, address_space := Some root, parent := Some par, switches := 0,
                      priority := priority p, exit_code := 0, work := None, files := files p,
                      handlers := handlers p, restorer := restorer p, pending := 0, stack_top := stack_top p,
                      stack_limit := stack_limit p, stack_faults := 0, stack_box := Some base \<rparr>)) (k\<lparr> k_pipes := ps \<rparr>)
                in Some (Inr tid, k\<lparr> k_sched := task_created (k_sched k) tid \<rparr>))))"

section \<open>Blocking and waking\<close>

definition park :: "u64 \<Rightarrow> Kernel \<Rightarrow> Kernel" where
  "park channel k = at_task (k_current k) (\<lambda>t. t\<lparr> state := Blocked (Channel channel) \<rparr>) k"

text \<open>One round of the loop of \<open>block_until\<close>: the value, or the task parked and the CPU given away.\<close>

definition block_until_round :: "u64 \<Rightarrow> (Kernel \<Rightarrow> 'r option \<times> Kernel) \<Rightarrow> Kernel \<Rightarrow> 'r option \<times> Kernel" where
  "block_until_round channel ready_fn k = (case ready_fn k of
     (Some v, k) \<Rightarrow> (Some v, k)
   | (None, k) \<Rightarrow> (None, park channel k))"

definition wake :: "u64 \<Rightarrow> Task \<Rightarrow> Task" where
  "wake channel t = (if state t = Blocked (Channel channel) then t\<lparr> state := Ready \<rparr> else t)"

definition wake_all :: "u64 \<Rightarrow> Kernel \<Rightarrow> nat \<times> Kernel" where
  "wake_all channel k =
     (length (filter (\<lambda>t. state t = Blocked (Channel channel)) (k_tasks k)),
      k\<lparr> k_tasks := map (wake channel) (k_tasks k) \<rparr>)"

definition sleep_start :: "u64 \<Rightarrow> Kernel \<Rightarrow> Kernel" where
  "sleep_start n k = at_task (k_current k) (\<lambda>t. t\<lparr> state := Blocked (Until (k_ticks k + n)) \<rparr>) k"

definition exit_code_of :: "nat \<Rightarrow> Kernel \<Rightarrow> u64 option" where
  "exit_code_of tid k = (if state (task tid k) = Finished then Some (exit_code (task tid k)) else None)"

definition busy :: "Kernel \<Rightarrow> bool" where
  "busy k = list_ex (\<lambda>i. i \<noteq> 0 \<and> state (task i k) \<notin> {Free, Finished}) [0..<length (k_tasks k)]"

text \<open>The condition of \<open>wait_for\<close>: \<open>Some\<close> ends the wait.\<close>

definition wait_for_ready :: "nat \<Rightarrow> Kernel \<Rightarrow> u64 option option \<times> Kernel" where
  "wait_for_ready tid k =
     (case state (task tid k) of
        Finished \<Rightarrow> Some (Some (exit_code (task tid k)))
      | Free \<Rightarrow> Some None
      | _ \<Rightarrow> None, k)"

definition wait_for_round :: "nat \<Rightarrow> Kernel \<Rightarrow> u64 option option \<times> Kernel" where
  "wait_for_round tid k =
     (if tid = 0 \<or> tid \<ge> MAX_TASKS then (Some None, k)
      else block_until_round (word_of_nat tid) (wait_for_ready tid) k)"

section \<open>Descriptors\<close>

definition descriptor :: "nat \<Rightarrow> nat \<Rightarrow> Kernel \<Rightarrow> Descriptor" where
  "descriptor tid fd k = (if fd \<ge> MAX_FILES then FdFree else files (task tid k) ! fd)"

definition add_descriptor :: "nat \<Rightarrow> Descriptor \<Rightarrow> Kernel \<Rightarrow> nat option \<times> Kernel" where
  "add_descriptor tid d k = (case position (\<lambda>x. x = FdFree) (files (task tid k)) of
     None \<Rightarrow> (None, k)
   | Some slot \<Rightarrow> (Some slot, at_task tid (\<lambda>t. t\<lparr> files := (files t)[slot := d] \<rparr>) k))"

definition close_end :: "(Pipes \<times> u64) option \<Rightarrow> Kernel \<Rightarrow> (bool \<times> Kernel) option" where
  "close_end closed k = (case closed of
     None \<Rightarrow> None
   | Some (ps, channel) \<Rightarrow> Some (True, snd (wake_all channel (k\<lparr> k_pipes := ps \<rparr>))))"

definition close_descriptor :: "nat \<Rightarrow> nat \<Rightarrow> Kernel \<Rightarrow> (bool \<times> Kernel) option" where
  "close_descriptor tid fd k =
     (let taken = descriptor tid fd k;
          k = (if fd \<ge> MAX_FILES then k else at_task tid (\<lambda>t. t\<lparr> files := (files t)[fd := FdFree] \<rparr>) k)
      in case taken of
           PipeRead p \<Rightarrow> close_end (close_reader p (k_pipes k)) k
         | PipeWrite p \<Rightarrow> close_end (close_writer p (k_pipes k)) k
         | Console \<Rightarrow> Some (True, k)
         | FdFree \<Rightarrow> Some (False, k))"

definition add_end :: "Descriptor \<Rightarrow> Pipes \<Rightarrow> Pipes option" where
  "add_end d ps = (case d of PipeRead p \<Rightarrow> add_reader p ps | PipeWrite p \<Rightarrow> add_writer p ps | _ \<Rightarrow> Some ps)"

definition duplicate_descriptor :: "nat \<Rightarrow> nat \<Rightarrow> nat \<Rightarrow> Kernel \<Rightarrow> (bool \<times> Kernel) option" where
  "duplicate_descriptor tid old new k =
     (if old \<ge> MAX_FILES \<or> new \<ge> MAX_FILES then Some (False, k)
      else let source = descriptor tid old k
           in if source = FdFree then Some (False, k)
              else if old = new then Some (True, k)
              else case close_descriptor tid new k of
                     None \<Rightarrow> None
                   | Some (_, k) \<Rightarrow>
                       (case add_end source (k_pipes k) of
                          None \<Rightarrow> None
                        | Some ps \<Rightarrow>
                            Some (True, at_task tid (\<lambda>t. t\<lparr> files := (files t)[new := source] \<rparr>) (k\<lparr> k_pipes := ps \<rparr>))))"

fun close_from :: "nat \<Rightarrow> nat list \<Rightarrow> Kernel \<Rightarrow> Kernel option" where
  "close_from tid [] k = Some k"
| "close_from tid (fd # fds) k = (case close_descriptor tid fd k of
     None \<Rightarrow> None | Some (_, k) \<Rightarrow> close_from tid fds k)"

definition close_all_descriptors :: "nat \<Rightarrow> Kernel \<Rightarrow> Kernel option" where
  "close_all_descriptors tid k = close_from tid [0..<MAX_FILES] k"

definition set_address_space :: "nat \<Rightarrow> u64 \<Rightarrow> Kernel \<Rightarrow> Kernel" where
  "set_address_space tid root k = at_task tid (\<lambda>t. t\<lparr> address_space := Some root \<rparr>) k"

section \<open>Finishing and waiting\<close>

definition mark_finished :: "nat \<Rightarrow> u64 \<Rightarrow> Kernel \<Rightarrow> Kernel" where
  "mark_finished tid code k =
     snd (wake_all (word_of_nat tid) (at_task tid (\<lambda>t. t\<lparr> exit_code := code, state := Finished \<rparr>) k))"

definition finish :: "nat \<Rightarrow> u64 \<Rightarrow> Kernel \<Rightarrow> Kernel option" where
  "finish tid code k = map_option (mark_finished tid code) (close_all_descriptors tid k)"

definition clear_slot :: "nat \<Rightarrow> Kernel \<Rightarrow> Kernel" where
  "clear_slot tid k = (at_task tid (\<lambda>_. Task_empty) k)\<lparr> k_sched := task_exited (k_sched k) tid \<rparr>"

definition reap_finished :: "Kernel \<Rightarrow> Kernel" where
  "reap_finished k =
     fold (\<lambda>tid k. if state (task tid k) = Finished then clear_slot tid k else k) [1..<MAX_TASKS] k"

definition has_child :: "nat \<Rightarrow> Kernel \<Rightarrow> bool" where
  "has_child par k =
     list_ex (\<lambda>tid. parent (task tid k) = Some par \<and> state (task tid k) \<noteq> Free \<and> tid \<noteq> par) [0..<length (k_tasks k)]"

text \<open>Collecting a finished child: the critical section of \<open>wait_any_child\<close>.\<close>

definition collect_child :: "nat \<Rightarrow> Kernel \<Rightarrow> u64 option \<times> Kernel" where
  "collect_child par k =
     (case find (\<lambda>tid. parent (task tid k) = Some par \<and> state (task tid k) = Finished) [0..<MAX_TASKS] of
        None \<Rightarrow> (None, k)
      | Some tid \<Rightarrow>
          (Some (exit_code (task tid k)),
           clear_slot tid (k\<lparr> k_orphans := k_orphans k @
             (case address_space (task tid k) of Some root \<Rightarrow> [root] | None \<Rightarrow> []) \<rparr>)))"

text \<open>
  A pass through \<open>wait_any_child\<close>: \<open>Some None\<close> and \<open>Some (Some code)\<close> are its return values, \<open>None\<close>
  leaves the caller blocked on its first child's channel unless that child is done already, and the
  loop starts over.
\<close>

definition wait_any_child_round :: "nat \<Rightarrow> Kernel \<Rightarrow> u64 option option \<times> Kernel" where
  "wait_any_child_round par k = (case collect_child par k of
     (Some code, k) \<Rightarrow> (Some (Some code), k)
   | (None, k) \<Rightarrow>
       (case position (\<lambda>t. parent t = Some par \<and> state t \<noteq> Free) (k_tasks k) of
          None \<Rightarrow> (Some None, k)
        | Some child \<Rightarrow>
            (case block_until_round (word_of_nat child)
                    (\<lambda>k. (if state (task child k) \<in> {Finished, Free} then Some () else None, k)) k of
               (_, k) \<Rightarrow> (None, k))))"

definition wait_any_child_start :: "nat \<Rightarrow> Kernel \<Rightarrow> u64 option option \<times> Kernel" where
  "wait_any_child_start par k = (if has_child par k then wait_any_child_round par k else (Some None, k))"

definition take_orphan :: "Task \<Rightarrow> u64 list \<times> Task" where
  "take_orphan t =
     (if state t \<in> {Finished, Free}
      then (case address_space t of Some root \<Rightarrow> ([root], t\<lparr> address_space := None \<rparr>) | None \<Rightarrow> ([], t))
      else ([], t))"

definition orphan_address_spaces :: "Kernel \<Rightarrow> u64 list \<times> Kernel" where
  "orphan_address_spaces k =
     (k_orphans k @ concat (map (\<lambda>t. fst (take_orphan t)) (k_tasks k)),
      k\<lparr> k_tasks := map (\<lambda>t. snd (take_orphan t)) (k_tasks k), k_orphans := [] \<rparr>)"


section \<open>Signals\<close>

definition signal_task :: "nat \<Rightarrow> nat \<Rightarrow> Kernel \<Rightarrow> bool \<times> Kernel" where
  "signal_task tid number k =
     (if tid \<ge> MAX_TASKS \<or> number \<ge> MAX_SIGNALS then (False, k)
      else if state (task tid k) = Free \<or> state (task tid k) = Finished then (False, k)
      else (True, at_task tid (\<lambda>t.
              (case state t of Blocked _ \<Rightarrow> t\<lparr> pending := pending t OR push_bit number 1, state := Ready \<rparr>
                             | _ \<Rightarrow> t\<lparr> pending := pending t OR push_bit number 1 \<rparr>)) k))"

definition lowest_bit :: "u32 \<Rightarrow> nat" where
  "lowest_bit w = (case find (bit w) [0..<32] of Some i \<Rightarrow> i | None \<Rightarrow> 32)"

definition take_pending_signal :: "nat \<Rightarrow> Kernel \<Rightarrow> nat option \<times> Kernel" where
  "take_pending_signal tid k =
     (let p = pending (task tid k)
      in if p = 0 then (None, k)
         else (Some (lowest_bit p), at_task tid (\<lambda>t. t\<lparr> pending := p AND NOT (push_bit (lowest_bit p) 1) \<rparr>) k))"

definition set_pending_signal :: "nat \<Rightarrow> nat \<Rightarrow> Kernel \<Rightarrow> Kernel" where
  "set_pending_signal tid number k = at_task tid (\<lambda>t. t\<lparr> pending := pending t OR push_bit number 1 \<rparr>) k"

definition has_pending_signal :: "nat \<Rightarrow> Kernel \<Rightarrow> bool" where
  "has_pending_signal tid k \<longleftrightarrow> pending (task tid k) \<noteq> 0"

abbreviation (input) SIGKILL :: nat where "SIGKILL \<equiv> 9"

definition catchable :: "nat \<Rightarrow> bool" where
  "catchable sig \<longleftrightarrow> sig \<noteq> SIGKILL"

definition signal_handler :: "nat \<Rightarrow> nat \<Rightarrow> Kernel \<Rightarrow> u64" where
  "signal_handler tid number k = (if number \<ge> MAX_SIGNALS then 0 else handlers (task tid k) ! number)"

definition set_signal_handler :: "nat \<Rightarrow> nat \<Rightarrow> u64 \<Rightarrow> u64 \<Rightarrow> Kernel \<Rightarrow> bool \<times> Kernel" where
  "set_signal_handler tid number handler rest k =
     (if number \<ge> MAX_SIGNALS \<or> \<not> catchable number then (False, k)
      else (True, at_task tid (\<lambda>t. t\<lparr> handlers := (handlers t)[number := handler], restorer := rest \<rparr>) k))"

definition clear_signal_handlers :: "nat \<Rightarrow> Kernel \<Rightarrow> Kernel" where
  "clear_signal_handlers tid k = at_task tid (\<lambda>t. t\<lparr> handlers := replicate MAX_SIGNALS 0, restorer := 0 \<rparr>) k"

definition foreground_user_task :: "Kernel \<Rightarrow> nat option" where
  "foreground_user_task k =
     find (\<lambda>tid. address_space (task tid k) \<noteq> None \<and> state (task tid k) \<notin> {Free, Finished}) (rev [1..<MAX_TASKS])"

definition is_user_task :: "nat \<Rightarrow> Kernel \<Rightarrow> bool" where
  "is_user_task tid k \<longleftrightarrow> tid < MAX_TASKS \<and> address_space (task tid k) \<noteq> None"

definition frame_word :: "u64 \<Rightarrow> nat \<Rightarrow> u64" where
  "frame_word frame i = frame + 8 * word_of_nat i"

text \<open>\<open>deliver\<close>: indexes 8, 15, 16 and 18 of a frame are RDI, RIP, CS and RSP.\<close>

definition deliver :: "nat \<Rightarrow> u64 \<Rightarrow> Kernel \<Rightarrow> bool \<times> Kernel" where
  "deliver tid frame k = (case take_pending_signal tid k of
     (None, k) \<Rightarrow> (False, k)
   | (Some sig, k) \<Rightarrow>
       if load (frame_word frame 16) k AND 3 \<noteq> 3 then (False, set_pending_signal tid sig k)
       else let handler = signal_handler tid sig k
            in if handler = 0 \<or> \<not> catchable sig then (True, k)
               else let rest = restorer (task tid k)
                    in if rest = 0 then (True, k)
                       else let user_stack = load (frame_word frame 18) k;
                                saved = (user_stack - 160) AND NOT 0xF;
                                k = copy_words saved frame 20 k;
                                entry_stack = saved - 8;
                                k = store entry_stack rest k;
                                k = store (frame_word frame 15) handler k;
                                k = store (frame_word frame 8) (word_of_nat sig) k;
                                k = store (frame_word frame 18) entry_stack k
                            in (False, k))"

definition restore :: "u64 \<Rightarrow> Kernel \<Rightarrow> Kernel" where
  "restore frame k = copy_words frame (load (frame_word frame 18) k) 20 k"

section \<open>The timer\<close>

definition wake_sleeper :: "u64 \<Rightarrow> Task \<Rightarrow> Task" where
  "wake_sleeper now t = (case state t of
     Blocked (Until deadline) \<Rightarrow> if now \<ge> deadline then t\<lparr> state := Ready \<rparr> else t
   | _ \<Rightarrow> t)"

definition set_kernel_stack :: "nat \<Rightarrow> Kernel \<Rightarrow> Kernel" where
  "set_kernel_stack tid k =
     (if kernel_stack_top (task tid k) \<noteq> 0 then k\<lparr> k_rsp0 := kernel_stack_top (task tid k) \<rparr> else k)"

definition switch_to :: "nat \<Rightarrow> Kernel \<Rightarrow> Kernel" where
  "switch_to next k =
     (let k = at_task next (\<lambda>t. t\<lparr> switches := switches t + 1 \<rparr>) (k\<lparr> k_current := next \<rparr>);
          want = (case address_space (task next k) of Some root \<Rightarrow> root | None \<Rightarrow> k_kernel_root k);
          k = (if want \<noteq> 0 \<and> want \<noteq> k_root k then k\<lparr> k_root := want \<rparr> else k)
      in set_kernel_stack next k)"

definition fallback_task :: "nat \<Rightarrow> Kernel \<Rightarrow> nat" where
  "fallback_task next k =
     (case find (\<lambda>candidate. state (task candidate k) = Ready) (map (\<lambda>offset. (next + offset) mod MAX_TASKS) [1..<MAX_TASKS + 1]) of
        Some candidate \<Rightarrow> candidate | None \<Rightarrow> 0)"

definition resume_fallback :: "nat \<Rightarrow> Kernel \<Rightarrow> Kernel" where
  "resume_fallback next k =
     (let fb = fallback_task next k; k = k\<lparr> k_current := fb \<rparr>;
          k = (case address_space (task fb k) of Some root \<Rightarrow> k\<lparr> k_root := root \<rparr> | None \<Rightarrow> k)
      in set_kernel_stack fb k)"

definition schedule :: "u64 \<Rightarrow> Kernel \<Rightarrow> u64 \<times> Kernel" where
  "schedule sp k =
     (if \<not> k_enabled k then (sp, k)
      else let cur = k_current k; now = k_ticks k;
               k = at_task cur (\<lambda>t. t\<lparr> stack_pointer := sp \<rparr>) k;
               k = k\<lparr> k_tasks := map (wake_sleeper now) (k_tasks k) \<rparr>;
               (next, sc) = sched_choose (k_sched k) (k_tasks k) cur now;
               k = k\<lparr> k_sched := sc \<rparr>;
               k = (if next \<noteq> cur then switch_to next k else k)
           in if address_space (task next k) \<noteq> None \<and> pending (task next k) \<noteq> 0
              then (case deliver next (stack_pointer (task next k)) k of
                      (True, k) \<Rightarrow>
                        (let k = resume_fallback next (mark_finished next 128 k)
                         in (stack_pointer (task (k_current k) k), k))
                    | (False, k) \<Rightarrow> (stack_pointer (task next k), k))
              else (stack_pointer (task next k), k))"

text \<open>
  The registers of the CPU, in the order in which the entry paths push them (rax, rcx, rdx, rbx,
  rbp, rsi, rdi, r8 to r15), and what the CPU itself pushes. \<open>timer_entry\<close> pushes the registers
  on the stack the CPU switched to, counts the tick, asks \<open>schedule\<close>, and pops.
\<close>

record Cpu =
  gprs :: "u64 list"
  rip :: u64
  cs :: u64
  rflags :: u64
  rsp :: u64
  ss :: u64

definition save_context :: "Cpu \<Rightarrow> u64 \<Rightarrow> Kernel \<Rightarrow> u64 \<times> Kernel" where
  "save_context c sp k = push_all ([ss c, rsp c, rflags c, cs c, rip c] @ gprs c) sp k"

definition load_context :: "u64 \<Rightarrow> Kernel \<Rightarrow> Cpu" where
  "load_context sp k =
     \<lparr> gprs = map (\<lambda>i. load (frame_word sp i) k) (rev [0..<15]),
       rip = load (frame_word sp 15) k, cs = load (frame_word sp 16) k, rflags = load (frame_word sp 17) k,
       rsp = load (frame_word sp 18) k, ss = load (frame_word sp 19) k \<rparr>"

text \<open>\<open>sp\<close> is where the CPU begins to push: \<open>RSP0\<close> from ring 3, the interrupted stack from ring 0.\<close>

definition timer_entry :: "Cpu \<Rightarrow> u64 \<Rightarrow> Kernel \<Rightarrow> Cpu \<times> Kernel" where
  "timer_entry c sp k =
     (let (sp, k) = save_context c sp k; k = k\<lparr> k_ticks := k_ticks k + 1 \<rparr>; (sp, k) = schedule sp k
      in (load_context sp k, k))"

section \<open>Demand-paged stacks\<close>

definition set_stack_region :: "nat \<Rightarrow> u64 \<Rightarrow> u64 \<Rightarrow> Kernel \<Rightarrow> Kernel" where
  "set_stack_region tid stop limit k = at_task tid (\<lambda>t. t\<lparr> stack_top := stop, stack_limit := limit, stack_faults := 0 \<rparr>) k"

definition stack_region :: "nat \<Rightarrow> Kernel \<Rightarrow> u64 \<times> u64" where
  "stack_region tid k = (stack_top (task tid k), stack_limit (task tid k))"

definition note_stack_fault :: "nat \<Rightarrow> Kernel \<Rightarrow> u64 \<times> Kernel" where
  "note_stack_fault tid k = (stack_faults (task tid k) + 1, at_task tid (\<lambda>t. t\<lparr> stack_faults := stack_faults t + 1 \<rparr>) k)"

end
