(* ===== verification/Frames.thy ===== *)
theory Frames
  imports Kernel_Tasks
begin

text \<open>
  The frames a task is resumed through (\<open>kernel/src/task.rs\<close>, \<open>kernel/src/signal.rs\<close>): what the
  entry paths push is what the exit pops, a new task's frame looks like an interrupted task, a
  forked child resumes as its parent with 0 in RAX, and a signal handler returns to exactly the
  interrupted registers.
\<close>

section \<open>Loads and stores\<close>

lemma load_store [simp]: "load a (store b v k) = (if a = b then v else load a k)"
  by (auto simp: load_def store_def)

lemma store_fields [simp]:
  "k_tasks (store a v k) = k_tasks k" "k_current (store a v k) = k_current k" "k_root (store a v k) = k_root k"
  "k_pipes (store a v k) = k_pipes k" "k_orphans (store a v k) = k_orphans k" "k_sched (store a v k) = k_sched k"
  "k_kernel_root (store a v k) = k_kernel_root k" "k_rsp0 (store a v k) = k_rsp0 k" "k_ticks (store a v k) = k_ticks k"
  "k_enabled (store a v k) = k_enabled k"
  by (simp_all add: store_def)

lemma load_fields [simp]:
  "load a (k\<lparr> k_tasks := ts \<rparr>) = load a k" "load a (k\<lparr> k_sched := sc \<rparr>) = load a k" "load a (k\<lparr> k_pipes := ps \<rparr>) = load a k"
  "load a (k\<lparr> k_ticks := n \<rparr>) = load a k" "load a (k\<lparr> k_orphans := os \<rparr>) = load a k" "load a (k\<lparr> k_current := c \<rparr>) = load a k"
  "load a (k\<lparr> k_rsp0 := r \<rparr>) = load a k"
  by (simp_all add: load_def)

lemma load_at_task [simp]: "load a (at_task tid f k) = load a k"
  by (simp add: at_task_def)

lemma mult8_inj:
  assumes "8 * word_of_nat i = (8 * word_of_nat j :: u64)" "i < 1024" "j < 1024"
  shows "i = j"
proof -
  have "unat (8 * word_of_nat i :: u64) = unat (8 * word_of_nat j :: u64)" using assms(1) by simp
  then show ?thesis using assms(2,3) by (simp add: unat_word_ariths unsigned_of_nat take_bit_eq_mod)
qed

lemma frame_word_inj: "frame_word f i = frame_word f j \<Longrightarrow> i < 1024 \<Longrightarrow> j < 1024 \<Longrightarrow> i = j"
  using mult8_inj [of i j] by (simp add: frame_word_def)

lemma push_all_spec:
  assumes "push_all vs sp k = (sp', k')" "length vs < 1024"
  shows "sp' = sp - 8 * word_of_nat (length vs) \<and>
    (\<forall>j < length vs. load (sp - 8 * word_of_nat (Suc j)) k' = vs ! j) \<and>
    (\<forall>a. (\<forall>j < length vs. a \<noteq> sp - 8 * word_of_nat (Suc j)) \<longrightarrow> load a k' = load a k) \<and> k_root k' = k_root k \<and>
    k_tasks k' = k_tasks k"
  using assms
proof (induction vs arbitrary: sp k)
  case (Cons v vs)
  let ?k1 = "store (sp - 8) v k"
  have ih: "sp' = sp - 8 - 8 * word_of_nat (length vs)"
      "\<forall>j < length vs. load (sp - 8 - 8 * word_of_nat (Suc j)) k' = vs ! j"
      "\<forall>a. (\<forall>j < length vs. a \<noteq> sp - 8 - 8 * word_of_nat (Suc j)) \<longrightarrow> load a k' = load a ?k1"
      "k_root k' = k_root ?k1" "k_tasks k' = k_tasks ?k1"
    using Cons.IH [of "sp - 8" ?k1] Cons.prems by auto
  have sh: "sp - 8 - 8 * word_of_nat n = sp - 8 * word_of_nat (Suc n)" for n by (simp add: algebra_simps)
  have top: "load (sp - 8) k' = v"
  proof -
    have "sp - 8 \<noteq> sp - 8 - 8 * word_of_nat (Suc j)" if "j < length vs" for j
    proof -
      have "8 * word_of_nat (Suc j) \<noteq> (0 :: u64)" using mult8_inj [of "Suc j" 0] that Cons.prems(2) by force
      then show ?thesis by (simp only: eq_diff_eq add_cancel_left_right) (simp add: add.commute)
    qed
    then show ?thesis using ih(3) by simp
  qed
  have "load (sp - 8 * word_of_nat (Suc j)) k' = (v # vs) ! j" if "j < length (v # vs)" for j
  proof (cases j)
    case (Suc i)
    have "i < length vs" using that Suc by simp
    then have "load (sp - 8 - 8 * word_of_nat (Suc i)) k' = vs ! i" using ih(2) by blast
    then show ?thesis by (simp only: sh Suc nth_Cons_Suc)
  qed (simp add: top)
  moreover have "load a k' = load a k" if a: "\<forall>j < length (v # vs). a \<noteq> sp - 8 * word_of_nat (Suc j)" for a
  proof -
    have "a \<noteq> sp - 8" using a [rule_format, of 0] by simp
    moreover have "\<forall>j < length vs. a \<noteq> sp - 8 - 8 * word_of_nat (Suc j)"
      using a sh by (metis Suc_less_eq length_Cons)
    ultimately show ?thesis using ih(3) by simp
  qed
  ultimately show ?case using ih(1,4,5) sh by simp
qed simp

text \<open>A frame of twenty words, read by index.\<close>

lemma pushed_frame:
  assumes "push_all vs sp k = (sp', k')" "length vs = 20"
  shows "sp' = sp - 160" "i < 20 \<Longrightarrow> load (frame_word sp' i) k' = vs ! (19 - i)"
proof -
  have "length vs < 1024" using assms(2) by simp
  note p = push_all_spec [OF assms(1) this]
  show sp': "sp' = sp - 160" using p assms(2) by simp
  show "load (frame_word sp' i) k' = vs ! (19 - i)" if i: "i < 20"
  proof -
    have "i + Suc (19 - i) = 20" using i by simp
    then have "(word_of_nat i :: u64) + word_of_nat (Suc (19 - i)) = 20"
      by (metis of_nat_add of_nat_numeral)
    then have "8 * word_of_nat i + 8 * word_of_nat (Suc (19 - i)) = (160 :: u64)"
      by (simp only: distrib_left [symmetric]) simp
    then have "8 * word_of_nat i = (160 :: u64) - 8 * word_of_nat (Suc (19 - i))" by (simp only: eq_diff_eq)
    then have "sp - 160 + 8 * word_of_nat i = sp - 8 * word_of_nat (Suc (19 - i))" by (simp only:) simp
    moreover have "19 - i < length vs" using i assms(2) by simp
    then have "load (sp - 8 * word_of_nat (Suc (19 - i))) k' = vs ! (19 - i)" using p assms(2) by blast
    ultimately show ?thesis by (simp only: frame_word_def sp')
  qed
qed


lemma upt_15: "rev [0..<15] = [14, 13, 12, 11, 10, 9, 8, 7, 6, 5, 4, 3, 2, 1, 0 :: nat]"
  by code_simp


lemma loaded_frame:
  assumes "push_all ([s0, s1, s2, s3, s4] @ gs) sp k = (sp', k')" "length gs = 15"
  shows "load_context sp' k' = \<lparr> gprs = gs, rip = s4, cs = s3, rflags = s2, rsp = s1, ss = s0 \<rparr>"
proof -
  note f = pushed_frame(2) [OF assms(1)]
  have l: "length ([s0, s1, s2, s3, s4] @ gs) = 20" using assms(2) by simp
  have "map (\<lambda>i. load (frame_word sp' i) k') (rev [0..<15]) = gs"
  proof (rule nth_equalityI)
    fix j assume "j < length (map (\<lambda>i. load (frame_word sp' i) k') (rev [0..<15]))"
    then have j: "j < 15" by simp
    then have "load (frame_word sp' (14 - j)) k' = gs ! j"
      using f [OF l, of "14 - j"] by (simp add: nth_append)
    then show "map (\<lambda>i. load (frame_word sp' i) k') (rev [0..<15]) ! j = gs ! j"
      using j by (simp add: rev_nth)
  qed (simp add: assms(2))
  moreover have "load (frame_word sp' 15) k' = s4" "load (frame_word sp' 16) k' = s3" "load (frame_word sp' 17) k' = s2"
      "load (frame_word sp' 18) k' = s1" "load (frame_word sp' 19) k' = s0"
    using f [OF l, of 15] f [OF l, of 16] f [OF l, of 17] f [OF l, of 18] f [OF l, of 19] by simp_all
  ultimately show ?thesis by (simp add: load_context_def)
qed

section \<open>Copies\<close>

lemma copy_words_fields [simp]:
  "k_tasks (copy_words dst src n k) = k_tasks k" "k_pipes (copy_words dst src n k) = k_pipes k"
  "k_root (copy_words dst src n k) = k_root k" "k_sched (copy_words dst src n k) = k_sched k"
  "k_current (copy_words dst src n k) = k_current k" "k_orphans (copy_words dst src n k) = k_orphans k"
  "k_kernel_root (copy_words dst src n k) = k_kernel_root k" "k_rsp0 (copy_words dst src n k) = k_rsp0 k"
  by (induction n) (simp_all add: copy_words_def)

lemma push_all_fields:
  "push_all vs sp k = (sp', k') \<Longrightarrow> k_tasks k' = k_tasks k \<and> k_pipes k' = k_pipes k \<and> k_sched k' = k_sched k \<and>
     k_orphans k' = k_orphans k \<and> k_current k' = k_current k"
  by (induction vs arbitrary: sp k) auto

lemma copy_words_spec:
  assumes "n \<le> 1024" "\<forall>i < n. \<forall>j < n. frame_word dst i \<noteq> frame_word src j"
  shows "(\<forall>i < n. load (frame_word dst i) (copy_words dst src n k) = load (frame_word src i) k) \<and>
    (\<forall>a. (\<forall>i < n. a \<noteq> frame_word dst i) \<longrightarrow> load a (copy_words dst src n k) = load a k)"
  using assms
proof (induction n)
  case (Suc n)
  let ?k = "copy_words dst src n k"
  have st: "copy_words dst src (Suc n) k = store (frame_word dst n) (load (frame_word src n) ?k) ?k"
    by (simp add: copy_words_def frame_word_def)
  have ih: "\<forall>i < n. load (frame_word dst i) ?k = load (frame_word src i) k"
      "\<forall>a. (\<forall>i < n. a \<noteq> frame_word dst i) \<longrightarrow> load a ?k = load a k"
    using Suc by simp_all
  have "load (frame_word src n) ?k = load (frame_word src n) k"
    using ih(2) Suc.prems(2) by (metis less_Suc_eq lessI)
  moreover have "frame_word dst i \<noteq> frame_word dst n" if "i < n" for i
    using frame_word_inj [of dst i n] that Suc.prems(1) by auto
  ultimately show ?case using ih Suc by (auto simp: st less_Suc_eq)
qed (simp add: copy_words_def)

text \<open>What the entry path saves is what the exit path restores.\<close>

theorem context_round_trip:
  assumes "length (gprs c) = 15" "save_context c sp k = (sp', k')"
  shows "load_context sp' k' = c \<and> sp' = sp - 160"
  using loaded_frame [OF assms(2) [unfolded save_context_def] assms(1)] pushed_frame(1) [OF assms(2) [unfolded save_context_def]] assms(1)
  by simp


lemma zero_stack_fields [simp]:
  "k_tasks (zero_stack b k) = k_tasks k" "k_pipes (zero_stack b k) = k_pipes k" "k_root (zero_stack b k) = k_root k"
  "k_sched (zero_stack b k) = k_sched k"
  by (simp_all add: zero_stack_def)

lemma find_free_Some: "find_free ts = Some tid \<Longrightarrow> 0 < tid \<and> tid < 8 \<and> state (ts ! tid) = Free"
  by (auto simp: find_free_def find_Some_iff)

lemma task_at_task: "tid < length (k_tasks k) \<Longrightarrow> task i (at_task tid f k) = (if i = tid then f (task tid k) else task i k)"
  by (simp add: task_def at_task_def nth_list_update)

lemma task_fields [simp]:
  "task i (k\<lparr> k_sched := sc \<rparr>) = task i k" "task i (k\<lparr> k_pipes := ps \<rparr>) = task i k" "task i (k\<lparr> k_mem := m \<rparr>) = task i k"
  "task i (store a v k) = task i k" "task i (zero_stack b k) = task i k"
  by (simp_all add: task_def)

lemma set_name_fields [simp]:
  "stack_pointer (set_name n t) = stack_pointer t" "state (set_name n t) = state t" "address_space (set_name n t) = address_space t"
  "files (set_name n t) = files t" "kernel_stack_top (set_name n t) = kernel_stack_top t" "parent (set_name n t) = parent t"
  "handlers (set_name n t) = handlers t" "pending (set_name n t) = pending t" "priority (set_name n t) = priority t"
  by (simp_all add: set_name_def Let_def)

lemma load_context_fields [simp]:
  "load_context a (at_task i f k) = load_context a k" "load_context a (k\<lparr> k_sched := sc \<rparr>) = load_context a k"
  "load_context a (k\<lparr> k_pipes := ps \<rparr>) = load_context a k"
  by (simp_all add: load_context_def)

text \<open>
  C35: A new user task, when it is first resumed, enters ring 3 at its entry point on its own stack with
  the argument count and vector in RDI and RSI and every other register 0; it is ready, and no
  other slot of the table has changed.
\<close>

theorem spawn_user_resumes:
  assumes "spawn_user base name entry user_stack root par argc argv k = (Inr tid, k')" "length (k_tasks k) = MAX_TASKS"
  shows "load_context (stack_pointer (task tid k')) k' =
      \<lparr> gprs = [0, 0, 0, 0, 0, argv, argc, 0, 0, 0, 0, 0, 0, 0, 0], rip = entry, cs = USER_CODE, rflags = 0x202,
        rsp = user_stack, ss = USER_DATA \<rparr> \<and>
    state (task tid k') = Ready \<and> address_space (task tid k') = Some root \<and> parent (task tid k') = par \<and>
    state (task tid k) = Free \<and> (\<forall>i. i \<noteq> tid \<longrightarrow> task i k' = task i k)"
proof -
  obtain t where t: "find_free (k_tasks k) = Some t"
    using assms(1) by (auto simp: spawn_user_def split: option.splits)
  obtain sp k1 where b: "build_user_frame (stack_end base) entry user_stack argc argv (zero_stack base k) = (sp, k1)"
    by (cases "build_user_frame (stack_end base) entry user_stack argc argv (zero_stack base k)")
  note lf = loaded_frame [OF b [unfolded build_user_frame_def]]
  have k1: "k_tasks k1 = k_tasks k"
    using push_all_spec [OF b [unfolded build_user_frame_def]] by simp
  have tt: "t = tid" "0 < t" "t < 8" "state (k_tasks k ! t) = Free"
    using assms(1) t b find_free_Some [OF t] by (auto simp: spawn_user_def Let_def)
  have same: "task i k1 = task i k" for i by (simp add: task_def k1)
  have lf: "load_context sp k1 = \<lparr> gprs = [0, 0, 0, 0, 0, argv, argc, 0, 0, 0, 0, 0, 0, 0, 0], rip = entry, cs = USER_CODE,
      rflags = 0x202, rsp = user_stack, ss = USER_DATA \<rparr>"
    using lf by (simp add: eval_nat_numeral)
  have "k' = (at_task tid (\<lambda>t. set_name name (t\<lparr> state := Ready, stack_pointer := sp, kernel_stack_top := stack_end base,
                  address_space := Some root, parent := par, switches := 0, priority := DEFAULT_PRIORITY,
                  exit_code := 0, work := None, stack_box := Some base, files := console_files \<rparr>)) k1)
          \<lparr> k_sched := task_created (k_sched k1) tid \<rparr>"
    using assms(1) t b tt(1) by (simp add: spawn_user_def Let_def at_task_def)
  then show ?thesis
    using lf tt same assms(2) k1 by (simp add: task_at_task) (simp add: task_def)
qed


lemma low4: "(0xF :: u64) = mask 4"
  by (simp add: mask_eq_exp_minus_1)

lemma unat_and_not_mask: "unat (a AND NOT (mask n)) = unat a - unat a mod 2 ^ n" for a :: u64
proof -
  have "(a AND NOT (mask n)) AND (a AND mask n) = 0" by (intro bit_eqI) (auto simp: bit_simps)
  then have "(a AND NOT (mask n)) + (a AND mask n) = (a AND NOT (mask n)) OR (a AND mask n)"
    by (rule disjunctive_add_eq_or)
  also have "\<dots> = a" by (intro bit_eqI) (auto simp: bit_simps)
  finally have "a AND NOT (mask n) = a - take_bit n a" by (simp only: take_bit_eq_mask) (metis add_diff_cancel_right')
  moreover have u: "unat (take_bit n a) = unat a mod 2 ^ n"
    unfolding unsigned_take_bit_eq by (simp only: take_bit_eq_mod)
  moreover have "take_bit n a \<le> a" by (simp add: word_le_nat_alt u)
  ultimately show ?thesis by (simp add: unat_sub)
qed

lemma stack_end_abi: "(stack_end base - 8) AND 0xF = 8"
proof -
  have "stack_end base AND 0xF = 0"
    unfolding stack_end_def low4 by (intro bit_eqI) (auto simp: bit_simps)
  then have z: "take_bit 4 (stack_end base) = 0" by (simp only: low4 take_bit_eq_mask)
  have u: "unat (take_bit 4 w) = unat w mod 16" for w :: u64
    unfolding unsigned_take_bit_eq by (simp add: take_bit_eq_mod)
  from u [of "stack_end base"] have "unat (stack_end base) mod 16 = 0" by (simp only: z) simp
  then obtain q where q: "unat (stack_end base) = 16 * q" by blast
  have "unat (stack_end base - 8) = (if 8 \<le> 16 * q then 16 * q - 8 else 16 * q + 2 ^ 64 - 8)"
    by (simp add: unat_sub_if' q)
  then have "unat (stack_end base - 8) mod 16 = 8" by (cases q) simp_all
  then have "take_bit 4 (stack_end base - 8) = 8" by (simp add: word_unat_eq_iff u)
  then show ?thesis by (simp only: low4 take_bit_eq_mask)
qed

text \<open>
  A new kernel task starts at \<open>task_entry\<close> in ring 0 with interrupts on and with the stack pointer the
  ABI promises a function: 8 below a multiple of 16.
\<close>

theorem spawn_resumes:
  assumes "spawn_with_priority entry base name w prio k = (Inr tid, k')" "length (k_tasks k) = MAX_TASKS"
  shows "load_context (stack_pointer (task tid k')) k' =
      \<lparr> gprs = replicate 15 0, rip = entry, cs = KERNEL_CODE, rflags = 0x202, rsp = stack_end base - 8, ss = 0 \<rparr> \<and>
    (stack_end base - 8) AND 0xF = 8 \<and> state (task tid k') = Ready \<and> priority (task tid k') \<le> MAX_PRIORITY \<and>
    address_space (task tid k') = None \<and> (\<forall>i. i \<noteq> tid \<longrightarrow> task i k' = task i k)"
proof -
  obtain t where t: "find_free (k_tasks k) = Some t"
    using assms(1) by (auto simp: spawn_with_priority_def split: option.splits)
  obtain sp k1 where b: "build_frame (stack_end base) entry (zero_stack base k) = (sp, k1)"
    by (cases "build_frame (stack_end base) entry (zero_stack base k)")
  have lf: "load_context sp k1 = \<lparr> gprs = replicate 15 0, rip = entry, cs = KERNEL_CODE, rflags = 0x202, rsp = stack_end base - 8, ss = 0 \<rparr>"
    by (rule loaded_frame [OF b [unfolded build_frame_def]]) simp
  have k1: "k_tasks k1 = k_tasks k" using push_all_spec [OF b [unfolded build_frame_def]] by simp
  have tt: "t = tid" "0 < t" "t < 8" "state (k_tasks k ! t) = Free"
    using assms(1) t b find_free_Some [OF t] by (auto simp: spawn_with_priority_def Let_def)
  have same: "task i k1 = task i k" for i by (simp add: task_def k1)
  have al: "(stack_end base - 8) AND 0xF = 8" by (rule stack_end_abi)
  have "k' = (at_task tid (\<lambda>t. set_name name (t\<lparr> state := Ready, stack_pointer := sp, kernel_stack_top := stack_end base,
                  address_space := None, parent := None, stack_box := Some base, switches := 0, work := Some w,
                  priority := min prio MAX_PRIORITY \<rparr>)) k1)\<lparr> k_sched := task_created (k_sched k1) tid \<rparr>"
    using assms(1) t b tt(1) by (simp add: spawn_with_priority_def Let_def at_task_def)
  then show ?thesis
    using lf al tt same assms(2) k1 by (simp add: task_at_task)
qed

section \<open>Fork\<close>

text \<open>The stack just allocated: kernel memory that does not wrap and does not hold the parent's frame.\<close>

definition fresh_stack :: "u64 \<Rightarrow> u64 \<Rightarrow> bool" where
  "fresh_stack base frame \<longleftrightarrow> USER_END \<le> base \<and> unat base + 65536 < 2 ^ 64 \<and>
     (\<forall>i < 20. unat (frame_word frame i) + 8 \<le> unat base \<or> unat base + 65536 \<le> unat (frame_word frame i))"

lemma child_frame:
  assumes "fresh_stack base frame" "i < 20"
  shows "unat base \<le> unat (frame_word (stack_end base - 160) i)" "unat (frame_word (stack_end base - 160) i) < unat base + 65536"
proof -
  have b: "unat base + 65536 < 2 ^ 64" using assms(1) by (simp add: fresh_stack_def)
  then have "unat (base + 65536) = unat base + 65536" by (subst unat_plus_if') simp
  then have e: "unat (stack_end base) = unat base + 65536 - (unat base + 65536) mod 16"
    unfolding stack_end_def low4 unat_and_not_mask by simp
  have m: "(unat base + 65536) mod 16 < 16" by simp
  have s: "unat (stack_end base - 160) = unat (stack_end base) - 160"
    using e m by (subst unat_sub) (simp_all add: word_le_nat_alt)
  have "unat (8 * word_of_nat i :: u64) = 8 * i"
    using assms(2) by (simp add: unat_word_ariths unsigned_of_nat take_bit_eq_mod)
  then have "unat (frame_word (stack_end base - 160) i) = unat (stack_end base) - 160 + 8 * i"
    using e m b s assms(2) unfolding frame_word_def by (subst unat_plus_if') simp
  then show "unat base \<le> unat (frame_word (stack_end base - 160) i)" "unat (frame_word (stack_end base - 160) i) < unat base + 65536"
    using e m assms(2) by linarith+
qed

text \<open>
  C19: One call, two returns. The child resumes with exactly the registers its parent had when it called
  \<open>fork\<close>, except for 0 in RAX; it has its parent's descriptors and handlers, the parent as its parent, and
  the address space it was given, and no other slot of the table has changed.
\<close>

theorem fork_child_resumes:
  assumes "fork_from base par root frame k = Some (Inr tid, k')" "length (k_tasks k) = MAX_TASKS" "fresh_stack base frame"
  shows "load_context (stack_pointer (task tid k')) k' =
      (load_context frame k)\<lparr> gprs := (gprs (load_context frame k))[0 := 0] \<rparr> \<and>
    state (task tid k') = Ready \<and> address_space (task tid k') = Some root \<and> parent (task tid k') = Some par \<and>
    files (task tid k') = files (task par k) \<and> handlers (task tid k') = handlers (task par k) \<and>
    (\<forall>i. i \<noteq> tid \<longrightarrow> task i k' = task i k)"
proof -
  let ?sp = "stack_end base - 160"
  let ?k1 = "copy_words ?sp frame 20 (zero_stack base k)"
  have dis: "\<forall>i < 20. \<forall>j < 20. frame_word ?sp i \<noteq> frame_word frame j"
  proof (intro allI impI notI)
    fix i j :: nat assume ij: "i < 20" "j < 20" "frame_word ?sp i = frame_word frame j"
    have "unat (frame_word frame j) + 8 \<le> unat base \<or> unat base + 65536 \<le> unat (frame_word frame j)"
      using assms(3) ij(2) by (simp add: fresh_stack_def)
    then show False using child_frame [OF assms(3) ij(1)] ij(3) by simp
  qed
  have bs: "unat (base + 65536) = unat base + 65536"
    using assms(3) by (subst unat_plus_if') (simp add: fresh_stack_def)
  have z: "load (frame_word frame i) (zero_stack base k) = load (frame_word frame i) k" if "i < 20" for i
  proof -
    have "unat (frame_word frame i) + 8 \<le> unat base \<or> unat base + 65536 \<le> unat (frame_word frame i)"
      using assms(3) that by (simp add: fresh_stack_def)
    then have "\<not> (base \<le> frame_word frame i \<and> frame_word frame i < base + STACK_SIZE)"
      by (auto simp: word_le_nat_alt word_less_nat_alt bs)
    then show ?thesis by (auto simp: load_def zero_stack_def)
  qed
  note cw = copy_words_spec [OF _ dis, of "zero_stack base k"]
  have c: "load (frame_word ?sp i) ?k1 = load (frame_word frame i) k" if "i < 20" for i
    using cw z that by simp
  let ?k2 = "store (?sp + 8 * 14) 0 ?k1"
  have "load (frame_word ?sp i) ?k2 = (if i = 14 then 0 else load (frame_word frame i) k)" if "i < 20" for i
  proof -
    have "?sp + 8 * 14 = frame_word ?sp 14" by (simp add: frame_word_def)
    moreover have "frame_word ?sp i = frame_word ?sp 14 \<longleftrightarrow> i = 14" using frame_word_inj [of ?sp i 14] that by auto
    ultimately show ?thesis using c [OF that] by (simp only: load_store)
  qed
  then have lc: "load_context ?sp ?k2 = (load_context frame k)\<lparr> gprs := (gprs (load_context frame k))[0 := 0] \<rparr>"
    by (simp add: load_context_def upt_15)
  obtain t ps where t: "find_free (k_tasks k) = Some t" "add_ends (files (task par k)) (k_pipes ?k2) = Some ps"
    using assms(1) by (auto simp: fork_from_def Let_def split: option.splits)
  have tt: "t = tid" "0 < t" "t < 8"
    using assms(1) t find_free_Some [OF t(1)] by (auto simp: fork_from_def Let_def)
  have ts: "k_tasks ?k2 = k_tasks k" using cw by simp
  then have same: "task i ?k2 = task i k" for i by (simp add: task_def)
  have "k' = (at_task tid (\<lambda>t. set_name [99, 104, 105, 108, 100] (t\<lparr> state := Ready, stack_pointer := ?sp,
                      kernel_stack_top := stack_end base, address_space := Some root, parent := Some par, switches := 0,
                      priority := priority (task par k), exit_code := 0, work := None, files := files (task par k),
                      handlers := handlers (task par k), restorer := restorer (task par k), pending := 0, stack_top := stack_top (task par k),
                      stack_limit := stack_limit (task par k), stack_faults := 0, stack_box := Some base \<rparr>)) (?k2\<lparr> k_pipes := ps \<rparr>))
          \<lparr> k_sched := task_created (k_sched ?k2) tid \<rparr>"
    using assms(1) t tt(1) by (simp add: fork_from_def Let_def at_task_def)
  then show ?thesis
    using lc tt same assms(2) ts by (simp add: task_at_task)
qed


section \<open>Signals\<close>

text \<open>Where \<open>deliver\<close> puts the interrupted frame: a 16-aligned block of user memory below the user's stack pointer.\<close>

definition saved_frame :: "u64 \<Rightarrow> Kernel \<Rightarrow> u64" where
  "saved_frame frame k = (load (frame_word frame 18) k - 160) AND NOT 0xF"

definition kernel_frame :: "u64 \<Rightarrow> bool" where
  "kernel_frame frame \<longleftrightarrow> (\<forall>i < 20. USER_END \<le> frame_word frame i)"

definition user_block :: "u64 \<Rightarrow> bool" where
  "user_block saved \<longleftrightarrow> (\<forall>i < 20. frame_word saved i < USER_END) \<and> saved - 8 < USER_END"

lemma take_pending_fields:
  "take_pending_signal tid k = (r, k') \<Longrightarrow> (\<forall>a. load a k' = load a k) \<and> k_root k' = k_root k \<and>
     (\<forall>i. restorer (task i k') = restorer (task i k) \<and> handlers (task i k') = handlers (task i k))"
  by (cases "tid < length (k_tasks k)")
    (auto simp: take_pending_signal_def Let_def at_task_def load_def task_def nth_list_update list_update_beyond split: if_splits)

lemma kernel_user_apart: "kernel_frame f \<Longrightarrow> a < USER_END \<Longrightarrow> j < 20 \<Longrightarrow> a \<noteq> frame_word f j"
  unfolding kernel_frame_def using leD by blast

text \<open>C15: A handler is entered as a function call; when it returns, the interrupted registers are back.\<close>

theorem signal_round_trip:
  assumes "take_pending_signal tid k = (Some sig, k0)" "load (frame_word frame 16) k AND 3 = 3"
    "sig < MAX_SIGNALS" "handlers (task tid k) ! sig \<noteq> 0" "catchable sig" "restorer (task tid k) \<noteq> 0"
    "kernel_frame frame" "saved = saved_frame frame k" "user_block saved"
    "kernel_frame frame'" "\<forall>i < 20. load (frame_word saved i) k2 = load (frame_word saved i) (snd (deliver tid frame k))"
    "load (frame_word frame' 18) k2 = saved"
  shows "\<not> fst (deliver tid frame k) \<and>
    load_context frame (snd (deliver tid frame k)) =
      (load_context frame k)\<lparr> rip := handlers (task tid k) ! sig, rsp := saved - 8,
         gprs := (gprs (load_context frame k))[6 := word_of_nat sig] \<rparr> \<and>
    load (saved - 8) (snd (deliver tid frame k)) = restorer (task tid k) \<and>
    load_context frame' (restore frame' k2) = load_context frame k"
proof -
  note tp = take_pending_fields [OF assms(1)]
  let ?k1 = "copy_words saved frame 20 k0"
  let ?k3 = "store (frame_word frame 18) (saved - 8) (store (frame_word frame 8) (word_of_nat sig)
      (store (frame_word frame 15) (handlers (task tid k) ! sig) (store (saved - 8) (restorer (task tid k)) ?k1)))"
  have d: "deliver tid frame k = (False, ?k3)"
    using assms(1-6,8) tp by (simp add: deliver_def signal_handler_def saved_frame_def Let_def)
  have dis: "\<forall>i < 20. \<forall>j < 20. frame_word saved i \<noteq> frame_word frame j" "\<forall>j < 20. saved - 8 \<noteq> frame_word frame j"
    using assms(7,9) kernel_user_apart [of frame] unfolding user_block_def by blast+
  have dis': "\<forall>i < 20. \<forall>j < 20. frame_word frame' i \<noteq> frame_word saved j"
    using assms(9,10) kernel_user_apart [of frame'] unfolding user_block_def by metis
  have inj: "frame_word f i = frame_word f j \<longleftrightarrow> i = j" if "i < 20" "j < 20" for f i j
    using frame_word_inj [of f i j] that by auto
  have b: "20 \<le> (1024 :: nat)" by simp
  note cw = copy_words_spec [OF b dis(1), of k0]
  have tld: "load a k0 = load a k" for a using tp by blast
  have fr: "load (frame_word frame i) ?k1 = load (frame_word frame i) k" if "i < 20" for i
  proof -
    have "\<forall>j < 20. frame_word frame i \<noteq> frame_word saved j" using dis(1) that by metis
    then show ?thesis using cw tld by metis
  qed
  have fr3: "load (frame_word frame i) ?k3 = (if i = 18 then saved - 8 else if i = 8 then word_of_nat sig
      else if i = 15 then handlers (task tid k) ! sig else load (frame_word frame i) k)" if "i < 20" for i
  proof -
    have n: "frame_word frame i \<noteq> saved - 8" using dis(2) that by metis
    have e: "frame_word frame i = frame_word frame 18 \<longleftrightarrow> i = 18" "frame_word frame i = frame_word frame 8 \<longleftrightarrow> i = 8"
        "frame_word frame i = frame_word frame 15 \<longleftrightarrow> i = 15"
      by (rule inj [OF that], simp)+
    show ?thesis unfolding load_store e using n fr [OF that] by argo
  qed
  have sv: "load (frame_word saved i) ?k3 = load (frame_word frame i) k" if "i < 20" for i
  proof -
    have n: "frame_word saved i \<noteq> frame_word frame j" if "j < 20" for j using dis(1) \<open>i < 20\<close> that by blast
    have "8 * word_of_nat (Suc i) \<noteq> (0 :: u64)" using mult8_inj [of "Suc i" 0] that by force
    then have "frame_word saved i \<noteq> saved - 8"
      by (simp only: frame_word_def eq_diff_eq add.assoc) (simp add: algebra_simps)
    moreover have "load (frame_word saved i) ?k1 = load (frame_word frame i) k" using cw tld that by metis
    ultimately show ?thesis using n [of 8] n [of 15] n [of 18] by simp
  qed
  have bk: "load (frame_word frame' i) (restore frame' k2) = load (frame_word frame i) k" if "i < 20" for i
  proof -
    have "load (frame_word frame' i) (copy_words frame' saved 20 k2) = load (frame_word saved i) k2"
      using copy_words_spec [OF b dis', of k2] that by blast
    moreover have "load (frame_word saved i) k2 = load (frame_word frame i) k"
      using assms(11) sv [OF that] that unfolding d snd_conv by metis
    ultimately show ?thesis by (simp only: restore_def assms(12))
  qed
  have "load (saved - 8) ?k3 = restorer (task tid k)"
    using dis(2) [rule_format, of 8] dis(2) [rule_format, of 15] dis(2) [rule_format, of 18] by simp
  moreover have "load_context frame' (restore frame' k2) = load_context frame k"
    unfolding load_context_def using bk by (simp add: upt_15)
  moreover have "load_context frame ?k3 = (load_context frame k)\<lparr> rip := handlers (task tid k) ! sig, rsp := saved - 8,
         gprs := (gprs (load_context frame k))[6 := word_of_nat sig] \<rparr>"
    using fr3 by (simp add: load_context_def upt_15)
  ultimately show ?thesis unfolding d by (simp only: fst_conv snd_conv simp_thms)
qed

section \<open>Examples\<close>

abbreviation (input) boot_demo :: Kernel where
  "boot_demo \<equiv> Kernel_boot (\<lambda>a. if a = 0x8000001080 then 0x33 else 0x7000000000) (\<lambda>_ _. 0) 0x1000"

lemma boot_demo_tasks: "k_tasks (Kernel_boot m u r) = replicate 8 Task_empty" "task i (Kernel_boot m u r) = replicate 8 Task_empty ! i"
  by (simp_all add: Kernel_boot_def task_def)

lemma find_free_demo: "find_free (replicate 8 Task_empty) = Some 1"
  by code_simp

theorem context_round_trip_witness:
  "let c = \<lparr> gprs = map word_of_nat [0..<15], rip = 0x400000, cs = USER_CODE, rflags = 0x202, rsp = 0x7000, ss = USER_DATA \<rparr>;
       (sp, k) = save_context c 0x9000000000 boot_demo
   in load_context sp k = c \<and> sp = 0x8FFFFFFF60"
proof -
  let ?c = "\<lparr> gprs = map word_of_nat [0..<15], rip = 0x400000, cs = USER_CODE, rflags = 0x202, rsp = 0x7000, ss = USER_DATA \<rparr>"
  obtain sp k where s: "save_context ?c 0x9000000000 boot_demo = (sp, k)" by fastforce
  have "length (gprs ?c) = 15" by simp
  from context_round_trip [OF this s] show ?thesis by (auto simp: Let_def s)
qed

theorem spawn_user_resumes_witness:
  "let (r, k) = spawn_user 0x9000000000 [97] 0x400000 0x7000 0x5000 (Some 0) 1 0x7008 boot_demo
   in r = Inr 1 \<and> rip (load_context (stack_pointer (task 1 k)) k) = 0x400000 \<and>
      rsp (load_context (stack_pointer (task 1 k)) k) = 0x7000 \<and> task 2 k = task 2 boot_demo"
proof -
  obtain r k where s: "spawn_user 0x9000000000 [97] 0x400000 0x7000 0x5000 (Some 0) 1 0x7008 boot_demo = (r, k)" by fastforce
  then have "r = Inr 1" by (auto simp: spawn_user_def boot_demo_tasks find_free_demo Let_def split: prod.splits)
  then show ?thesis using spawn_user_resumes [of _ _ _ _ _ _ _ _ boot_demo 1 k] s by (simp add: boot_demo_tasks(1))
qed

theorem spawn_resumes_witness:
  "let (r, k) = spawn_with_priority 0xFFFF800000001000 0x9000000000 [97] Spinner 200 boot_demo
   in r = Inr 1 \<and> rip (load_context (stack_pointer (task 1 k)) k) = 0xFFFF800000001000 \<and>
      priority (task 1 k) \<le> MAX_PRIORITY"
proof -
  obtain r k where s: "spawn_with_priority 0xFFFF800000001000 0x9000000000 [97] Spinner 200 boot_demo = (r, k)" by fastforce
  then have "r = Inr 1" by (auto simp: spawn_with_priority_def boot_demo_tasks find_free_demo Let_def split: prod.splits)
  then show ?thesis using spawn_resumes [of _ _ _ _ _ boot_demo 1 k] s by (simp add: boot_demo_tasks(1))
qed

lemma unat_frame_word: "i < 20 \<Longrightarrow> unat f < 2 ^ 63 \<Longrightarrow> unat (frame_word f i) = unat f + 8 * i"
  by (simp add: frame_word_def unat_word_ariths unsigned_of_nat take_bit_eq_mod)

theorem fork_child_resumes_witness:
  "case fork_from 0x9000000000 0 0x5000 0x8000001000 boot_demo of
     Some (Inr tid, k) \<Rightarrow> tid = 1 \<and> load_context (stack_pointer (task 1 k)) k =
       (load_context 0x8000001000 boot_demo)\<lparr> gprs := (gprs (load_context 0x8000001000 boot_demo))[0 := 0] \<rparr>
   | _ \<Rightarrow> False"
proof -
  have "files (replicate 8 Task_empty ! 0) = replicate 8 FdFree" by (simp add: Task_empty_def)
  moreover have "add_ends (replicate 8 FdFree) ps = Some ps" for ps by (simp add: numeral_eq_Suc)
  ultimately obtain k where s: "fork_from 0x9000000000 0 0x5000 0x8000001000 boot_demo = Some (Inr 1, k)"
    by (simp add: fork_from_def boot_demo_tasks find_free_demo Let_def)
  have "fresh_stack 0x9000000000 0x8000001000"
    by (auto simp: fresh_stack_def unat_frame_word)
  from fork_child_resumes [OF s _ this] show ?thesis by (simp add: s boot_demo_tasks(1))
qed

abbreviation (input) signal_demo :: Kernel where
  "signal_demo \<equiv> boot_demo\<lparr> k_tasks := (replicate 8 Task_empty)[1 := Task_empty\<lparr> state := Ready, pending := 4,
      handlers := (replicate 16 0)[2 := 0x400000], restorer := 0x500000 \<rparr>] \<rparr>"

theorem signal_round_trip_witness:
  "let (killed, k) = deliver 1 0x8000001000 signal_demo
   in \<not> killed \<and> rip (load_context 0x8000001000 k) = 0x400000 \<and>
      load_context 0x8000001000 (restore 0x8000001000 (store (frame_word 0x8000001000 18) 0x6FFFFFFF60 k)) =
        load_context 0x8000001000 signal_demo"
proof -
  let ?k = signal_demo
  have t: "task 1 ?k = Task_empty\<lparr> state := Ready, pending := 4, handlers := (replicate 16 0)[2 := 0x400000], restorer := 0x500000 \<rparr>"
    by (simp add: task_def)
  have "lowest_bit 4 = 2" by code_simp
  then obtain k0 where tp: "take_pending_signal 1 ?k = (Some 2, k0)"
    unfolding take_pending_signal_def t by (simp add: Let_def)
  have kf: "kernel_frame 0x8000001000" by (auto simp: kernel_frame_def word_le_nat_alt unat_frame_word)
  have "load a (Kernel_boot m u r\<lparr>k_tasks := ts\<rparr>) = m a" if "USER_END \<le> a" for a m u r ts
    using that by (simp add: load_def Kernel_boot_def leD)
  then have l: "load (frame_word 0x8000001000 16) ?k = 0x33" "load (frame_word 0x8000001000 18) ?k = 0x7000000000"
    by (simp_all add: frame_word_def)
  have sv: "0x6FFFFFFF60 = saved_frame 0x8000001000 ?k"
    unfolding saved_frame_def l by code_simp
  have ub: "user_block 0x6FFFFFFF60"
    by (auto simp: user_block_def word_less_nat_alt unat_frame_word)
  have ne: "frame_word 0x6FFFFFFF60 i \<noteq> frame_word 0x8000001000 18" if "i < 20" for i
    by (rule kernel_user_apart [OF kf]) (use ub that in \<open>simp_all add: user_block_def\<close>)
  note r = signal_round_trip [OF tp _ _ _ _ _ kf sv ub kf, of "store (frame_word 0x8000001000 18) 0x6FFFFFFF60 (snd (deliver 1 0x8000001000 ?k))"]
  have h: "load (frame_word 0x8000001000 16) ?k AND 3 = 3" unfolding l by simp
  have "handlers (task 1 ?k) ! 2 \<noteq> 0" "restorer (task 1 ?k) \<noteq> 0" "catchable 2" unfolding t by (simp_all add: catchable_def)
  note r = r [OF h _ this(1,3,2)]
  have "handlers (task 1 ?k) ! 2 = 0x400000" unfolding t by simp
  then show ?thesis
    using r ne by (simp add: case_prod_unfold Let_def)
qed

end
