(* ===== verification/Descriptors.thy ===== *)
theory Descriptors
  imports Frames
begin

text \<open>
  Descriptors and the reference counts of pipes (\<open>kernel/src/task.rs\<close>, \<open>kernel/src/pipe.rs\<close>,
  \<open>make_pipe\<close> of \<open>kernel/src/syscall.rs\<close>). The count of readers and of writers a pipe keeps is
  the number of descriptors that refer to it, over all tasks; so a pipe ends exactly when its last
  descriptor closes, end of file is seen exactly when no task can write any more, and a slot of the
  table of pipes is never reused under a descriptor.
\<close>

text \<open>The part of \<open>make_pipe\<close> between the check of the user's pointer and the stores through it.\<close>

definition make_pipe_ends :: "nat \<Rightarrow> Kernel \<Rightarrow> ((nat \<times> nat \<times> nat) option \<times> Kernel) option" where
  "make_pipe_ends tid k = (case create (k_pipes k) of
     None \<Rightarrow> Some (None, k)
   | Some (p, ps) \<Rightarrow>
       (case add_descriptor tid (PipeRead p) (k\<lparr> k_pipes := ps \<rparr>) of
          (None, k) \<Rightarrow>
            (case close_end (close_reader p (k_pipes k)) k of
               None \<Rightarrow> None
             | Some (_, k) \<Rightarrow>
                 (case close_end (close_writer p (k_pipes k)) k of
                    None \<Rightarrow> None
                  | Some (_, k) \<Rightarrow> Some (None, k)))
        | (Some read_fd, k) \<Rightarrow>
            (case add_descriptor tid (PipeWrite p) k of
               (None, k) \<Rightarrow>
                 (case close_descriptor tid read_fd k of
                    None \<Rightarrow> None
                  | Some (_, k) \<Rightarrow>
                      (case close_end (close_writer p (k_pipes k)) k of
                         None \<Rightarrow> None
                       | Some (_, k) \<Rightarrow> Some (None, k)))
             | (Some write_fd, k) \<Rightarrow> Some (Some (p, read_fd, write_fd), k))))"

section \<open>Counting descriptors\<close>

definition ends :: "Descriptor \<Rightarrow> Tasks \<Rightarrow> nat" where
  "ends d ts = sum_list (map (\<lambda>t. count_list (files t) d) ts)"

definition no_pipes :: "Task \<Rightarrow> bool" where
  "no_pipes t \<longleftrightarrow> (\<forall>d \<in> set (files t). d = FdFree \<or> d = Console)"

definition tables_ok :: "Tasks \<Rightarrow> bool" where
  "tables_ok ts \<longleftrightarrow> length ts = MAX_TASKS \<and> (\<forall>t \<in> set ts. length (files t) = MAX_FILES \<and> (state t = Free \<longrightarrow> no_pipes t))"

text \<open>
  \<open>x d\<close> is the number of ends \<open>d\<close> that the code has counted and not yet entered in a table, or has
  removed from a table and not yet discounted.
\<close>

definition counts_ok :: "(Descriptor \<Rightarrow> nat) \<Rightarrow> Tasks \<Rightarrow> Pipes \<Rightarrow> bool" where
  "counts_ok x ts ps \<longleftrightarrow> length ps = MAX_PIPES \<and>
     (\<forall>p. p \<ge> MAX_PIPES \<longrightarrow> ends (PipeRead p) ts + x (PipeRead p) = 0 \<and> ends (PipeWrite p) ts + x (PipeWrite p) = 0) \<and>
     (\<forall>p < MAX_PIPES. unat (readers (ps ! p)) = ends (PipeRead p) ts + x (PipeRead p) \<and>
        unat (writers (ps ! p)) = ends (PipeWrite p) ts + x (PipeWrite p) \<and>
        (used (ps ! p) \<longleftrightarrow> readers (ps ! p) \<noteq> 0 \<or> writers (ps ! p) \<noteq> 0))"

definition descriptors_ok :: "Kernel \<Rightarrow> bool" where
  "descriptors_ok k \<longleftrightarrow> tables_ok (k_tasks k) \<and> counts_ok (\<lambda>_. 0) (k_tasks k) (k_pipes k)"

lemma count_list_update:
  "i < length xs \<Longrightarrow> count_list (xs[i := v]) d + (if xs ! i = d then 1 else 0) = count_list xs d + (if v = d then 1 else 0)"
proof (induction xs arbitrary: i)
  case (Cons x xs)
  show ?case
  proof (cases i)
    case (Suc j)
    then show ?thesis using Cons.IH [of j] Cons.prems by (simp split: if_splits)
  qed simp
qed simp

lemma ends_update:
  "tid < length ts \<Longrightarrow> ends d (ts[tid := t]) + count_list (files (ts ! tid)) d = ends d ts + count_list (files t) d"
  unfolding ends_def
proof (induction ts arbitrary: tid)
  case (Cons x xs)
  then show ?case by (cases tid) auto
qed simp

lemma ends_files: "map files ts' = map files ts \<Longrightarrow> ends d ts' = ends d ts"
proof -
  assume m: "map files ts' = map files ts"
  have "ends d us = sum_list (map (\<lambda>fs. count_list fs d) (map files us))" for us by (simp add: ends_def o_def)
  then show ?thesis by (simp only: m)
qed

lemma ends_bound: "tables_ok ts \<Longrightarrow> ends d ts \<le> 64"
proof -
  assume ok: "tables_ok ts"
  have "count_list (files t) d \<le> 8" if "t \<in> set ts" for t
    using ok that count_le_length [of "files t" d] by (simp add: tables_ok_def)
  then have "ends d ts \<le> sum_list (map (\<lambda>_. 8) ts)"
    unfolding ends_def by (rule sum_list_mono)
  then show ?thesis using ok by (simp add: tables_ok_def sum_list_triv)
qed

lemma no_pipes_count: "no_pipes t \<Longrightarrow> count_list (files t) (PipeRead p) = 0 \<and> count_list (files t) (PipeWrite p) = 0"
  unfolding no_pipes_def by (meson Descriptor.distinct Descriptor.simps count_list_0_iff)

lemma ends_0_iff: "ends d ts = 0 \<longleftrightarrow> (\<forall>t \<in> set ts. d \<notin> set (files t))"
  by (auto simp: ends_def sum_list_eq_0_iff count_list_0_iff)

lemma counts_0:
  assumes "counts_ok x ts ps" "p < MAX_PIPES"
  shows "readers (ps ! p) = 0 \<longleftrightarrow> ends (PipeRead p) ts + x (PipeRead p) = 0"
    "writers (ps ! p) = 0 \<longleftrightarrow> ends (PipeWrite p) ts + x (PipeWrite p) = 0"
  using assms unfolding counts_ok_def by (metis unat_0 unat_eq_zero)+

lemma files_count: "tid < length ts \<Longrightarrow> count_list (files (ts ! tid)) d \<le> ends d ts"
  unfolding ends_def by (rule member_le_sum_list) simp_all

section \<open>One end more, one end less\<close>

fun is_pipe :: "Descriptor \<Rightarrow> bool" where
  "is_pipe (PipeRead p) = True"
| "is_pipe (PipeWrite p) = True"
| "is_pipe _ = False"

lemma no_pipes_iff: "no_pipes t \<longleftrightarrow> (\<forall>d \<in> set (files t). \<not> is_pipe d)"
proof -
  have "d = FdFree \<or> d = Console \<longleftrightarrow> \<not> is_pipe d" for d by (cases d) simp_all
  then show ?thesis by (simp add: no_pipes_def)
qed

lemma counts_shift:
  assumes "counts_ok x ts ps" "\<And>d. is_pipe d \<Longrightarrow> ends d ts' + y d = ends d ts + x d"
  shows "counts_ok y ts' ps"
  using assms(1) by (simp add: counts_ok_def assms(2))

lemma add_end_counts:
  assumes "counts_ok x ts ps" "is_pipe d \<Longrightarrow> 0 < ends d ts + x d \<and> ends d ts + x d < 2 ^ 32 - 1"
  shows "\<exists>ps'. add_end d ps = Some ps' \<and> counts_ok (x(d := x d + 1)) ts ps'"
proof (cases "is_pipe d")
  case True
  then obtain p where p: "d = PipeRead p \<or> d = PipeWrite p" by (cases d) auto
  let ?q = "ps ! p"
  have p8: "p < 8" using assms True p by (metis counts_ok_def leI not_less_zero)
  then have u: "unat (readers ?q) = ends (PipeRead p) ts + x (PipeRead p)" "unat (writers ?q) = ends (PipeWrite p) ts + x (PipeWrite p)"
      "length ps = 8" using assms(1) by (auto simp: counts_ok_def)
  have n: "n \<noteq> - 1" "n \<noteq> 0" if "unat n = ends d ts + x d" for n :: u32
    using that assms(2) [OF True] by (auto simp: unsigned_minus_1_eq_mask mask_eq_exp_minus_1)
  show ?thesis
  proof (cases "d = PipeRead p")
    case True
    then have "readers ?q \<noteq> - 1" "readers ?q \<noteq> 0" using u(1) n by blast+
    then show ?thesis using assms(1) u p8 True unat_inc [of "readers ?q"] inc_not_zero [of "readers ?q"]
      by (auto simp: counts_ok_def add_end_def add_reader_def at_pipe_def inc_readers_def nth_list_update)
  next
    case False
    then have d: "d = PipeWrite p" using p by simp
    then have "writers ?q \<noteq> - 1" "writers ?q \<noteq> 0" using u(2) n by blast+
    then show ?thesis using assms(1) u p8 d unat_inc [of "writers ?q"] inc_not_zero [of "writers ?q"]
      by (auto simp: counts_ok_def add_end_def add_writer_def at_pipe_def inc_writers_def nth_list_update)
  qed
next
  case False
  then have "add_end d ps = Some ps" by (cases d) (simp_all add: add_end_def)
  moreover have "counts_ok (x(d := x d + 1)) ts ps" by (rule counts_shift [OF assms(1)]) (use False in auto)
  ultimately show ?thesis by simp
qed

text \<open>The end \<open>d\<close> of a pipe as \<open>close_descriptor\<close> discounts it.\<close>

definition close_of :: "Descriptor \<Rightarrow> Pipes \<Rightarrow> (Pipes \<times> u64) option" where
  "close_of d ps = (case d of PipeRead p \<Rightarrow> close_reader p ps | PipeWrite p \<Rightarrow> close_writer p ps | _ \<Rightarrow> None)"

lemma unat_saturating_dec: "unat (saturating_sub w 1) = unat w - 1" for w :: u32
  by (simp add: unat_saturating_sub)

lemma close_of_counts:
  assumes "counts_ok x ts ps" "is_pipe d" "0 < x d"
  shows "\<exists>ps' c. close_of d ps = Some (ps', c) \<and> counts_ok (x(d := x d - 1)) ts ps'"
proof -
  obtain p where p: "d = PipeRead p \<or> d = PipeWrite p" using assms(2) by (cases d) auto
  let ?q = "ps ! p"
  have p8: "p < 8" using assms p by (metis add_is_0 counts_ok_def leI not_less_zero)
  have l: "length ps = 8" using assms(1) by (simp add: counts_ok_def)
  have z: "w = 0 \<longleftrightarrow> unat w = 0" for w :: u32 by (simp add: unat_eq_0)
  show ?thesis
  proof (cases "d = PipeRead p")
    case True
    have "counts_ok (x(d := x d - 1)) ts (ps[p := drop_reader ?q])"
      using assms(1,3) p8 l True
      by (auto simp: counts_ok_def drop_reader_def Let_def nth_list_update unat_saturating_dec z)
    then show ?thesis using p8 l True by (simp add: close_of_def close_reader_def at_pipe_def)
  next
    case False
    then have d: "d = PipeWrite p" using p by simp
    have "counts_ok (x(d := x d - 1)) ts (ps[p := drop_writer ?q])"
      using assms(1,3) p8 l d
      by (auto simp: counts_ok_def drop_writer_def Let_def nth_list_update unat_saturating_dec z)
    then show ?thesis using p8 l d by (simp add: close_of_def close_writer_def at_pipe_def)
  qed
qed


section \<open>The operations\<close>

definition fd_ok :: "(Descriptor \<Rightarrow> nat) \<Rightarrow> Kernel \<Rightarrow> bool" where
  "fd_ok x k \<longleftrightarrow> tables_ok (k_tasks k) \<and> counts_ok x (k_tasks k) (k_pipes k)"

text \<open>The descriptor tables, the free slots and the finished tasks are as before.\<close>

definition fd_view :: "Task \<Rightarrow> Descriptor list \<times> bool \<times> bool" where
  "fd_view t = (files t, state t = Free, state t = Finished)"

definition same_files :: "Kernel \<Rightarrow> Kernel \<Rightarrow> bool" where
  "same_files k k' \<longleftrightarrow> map fd_view (k_tasks k') = map fd_view (k_tasks k)"

lemma same_files_trans: "same_files k k1 \<Longrightarrow> same_files k1 k2 \<Longrightarrow> same_files k k2"
  by (simp add: same_files_def)

lemma map_eq_nth:
  assumes "map f xs = map f ys" "i < length ys"
  shows "f (xs ! i) = f (ys ! i)"
proof -
  have "length xs = length ys" using assms(1) by (metis length_map)
  then show ?thesis using assms by (metis nth_map)
qed

lemma same_files_view: "same_files k k' \<Longrightarrow> i < length (k_tasks k) \<Longrightarrow> fd_view (task i k') = fd_view (task i k)"
  unfolding same_files_def task_def by (rule map_eq_nth)

lemma same_files_task:
  "same_files k k' \<Longrightarrow> i < length (k_tasks k) \<Longrightarrow> files (task i k') = files (task i k) \<and>
     (state (task i k') = Free \<longleftrightarrow> state (task i k) = Free) \<and> (state (task i k') = Finished \<longleftrightarrow> state (task i k) = Finished)"
  using same_files_view [of k k' i] by (simp add: fd_view_def)

lemma same_files_length: "same_files k k' \<Longrightarrow> length (k_tasks k') = length (k_tasks k)"
  unfolding same_files_def by (metis length_map)

lemma tables_ok_same:
  assumes "tables_ok ts" "map files ts' = map files ts" "map (\<lambda>t. state t = Free) ts' = map (\<lambda>t. state t = Free) ts"
  shows "tables_ok ts'"
proof -
  have l: "length ts' = length ts" using assms(2) by (metis length_map)
  have "files (ts' ! i) = files (ts ! i) \<and> (state (ts' ! i) = Free \<longleftrightarrow> state (ts ! i) = Free)" if "i < length ts" for i
    using map_eq_nth [OF assms(2) that] map_eq_nth [OF assms(3) that] by simp
  then show ?thesis using assms(1) l unfolding tables_ok_def no_pipes_def by (metis in_set_conv_nth)
qed

lemma fd_ok_files:
  assumes "fd_ok x k" "map files (k_tasks k') = map files (k_tasks k)"
    "map (\<lambda>t. state t = Free) (k_tasks k') = map (\<lambda>t. state t = Free) (k_tasks k)" "k_pipes k' = k_pipes k"
  shows "fd_ok x k'"
  using assms tables_ok_same counts_shift [of x "k_tasks k" "k_pipes k" "k_tasks k'" x] ends_files
  unfolding fd_ok_def by metis

lemma fd_ok_same: "fd_ok x k \<Longrightarrow> same_files k k' \<Longrightarrow> k_pipes k' = k_pipes k \<Longrightarrow> fd_ok x k'"
proof (rule fd_ok_files)
  assume "same_files k k'"
  then have m: "map fst (map fd_view (k_tasks k')) = map fst (map fd_view (k_tasks k))"
      "map (fst \<circ> snd) (map fd_view (k_tasks k')) = map (fst \<circ> snd) (map fd_view (k_tasks k))"
    unfolding same_files_def by simp_all
  have f: "fst \<circ> fd_view = files" "fst \<circ> snd \<circ> fd_view = (\<lambda>t. state t = Free)" by (auto simp: fd_view_def)
  show "map files (k_tasks k') = map files (k_tasks k)" "map (\<lambda>t. state t = Free) (k_tasks k') = map (\<lambda>t. state t = Free) (k_tasks k)"
    using m unfolding map_map f by simp_all
qed

lemma fd_ok_cong: "fd_ok x k \<Longrightarrow> (\<And>d. is_pipe d \<Longrightarrow> y d = x d) \<Longrightarrow> fd_ok y k"
  unfolding fd_ok_def using counts_shift [of x "k_tasks k" "k_pipes k" "k_tasks k" y] by simp

lemma wake_fields [simp]: "fd_view (wake c t) = fd_view t" "files (wake c t) = files t"
  "state (wake c t) = Free \<longleftrightarrow> state t = Free" "state (wake c t) = Finished \<longleftrightarrow> state t = Finished"
  by (simp_all add: wake_def fd_view_def)

lemma same_files_wake: "same_files k (snd (wake_all c k))" "k_pipes (snd (wake_all c k)) = k_pipes k"
  by (simp_all add: same_files_def wake_all_def)

lemma same_files_pipes: "same_files k (k\<lparr> k_pipes := ps \<rparr>)"
  by (simp add: same_files_def)

lemma close_end_ok:
  assumes "fd_ok x k" "is_pipe d" "0 < x d"
  shows "\<exists>k'. close_end (close_of d (k_pipes k)) k = Some (True, k') \<and> fd_ok (x(d := x d - 1)) k' \<and> same_files k k'"
proof -
  obtain ps c where c: "close_of d (k_pipes k) = Some (ps, c)" "counts_ok (x(d := x d - 1)) (k_tasks k) ps"
    using close_of_counts assms unfolding fd_ok_def by blast
  have "fd_ok (x(d := x d - 1)) (k\<lparr> k_pipes := ps \<rparr>)" using c(2) assms(1) by (simp add: fd_ok_def)
  then have "fd_ok (x(d := x d - 1)) (snd (wake_all c (k\<lparr> k_pipes := ps \<rparr>)))"
    using fd_ok_same same_files_wake by blast
  moreover have "same_files k (snd (wake_all c (k\<lparr> k_pipes := ps \<rparr>)))"
    using same_files_trans same_files_pipes same_files_wake by blast
  ultimately show ?thesis by (simp add: close_end_def c(1))
qed

lemma set_file_ok:
  assumes "fd_ok x k" "tid < MAX_TASKS" "fd < MAX_FILES" "state (task tid k) \<noteq> Free" "is_pipe new \<Longrightarrow> 0 < x new"
  shows "fd_ok (\<lambda>d. x d + (if files (task tid k) ! fd = d then 1 else 0) - (if new = d then 1 else 0))
    (at_task tid (\<lambda>t. t\<lparr> files := (files t)[fd := new] \<rparr>) k)"
proof -
  let ?t = "(task tid k)\<lparr> files := (files (task tid k))[fd := new] \<rparr>"
  let ?ts = "(k_tasks k)[tid := ?t]"
  have l: "length (k_tasks k) = 8" "length (files (task tid k)) = 8"
    using assms(1,2) by (auto simp: fd_ok_def tables_ok_def task_def)
  have "tables_ok ?ts"
    using assms(1,4) l unfolding fd_ok_def tables_ok_def
    by (auto dest!: set_update_subset_insert [THEN subsetD])
  moreover have "counts_ok (\<lambda>d. x d + (if files (task tid k) ! fd = d then 1 else 0) - (if new = d then 1 else 0)) ?ts (k_pipes k)"
  proof (rule counts_shift)
    show "counts_ok x (k_tasks k) (k_pipes k)" using assms(1) by (simp add: fd_ok_def)
    fix d assume d: "is_pipe d"
    have "ends d ?ts + count_list (files (task tid k)) d = ends d (k_tasks k) + count_list ((files (task tid k))[fd := new]) d"
      using ends_update [of tid "k_tasks k" d ?t] assms(2) l by (simp add: task_def)
    moreover have "count_list ((files (task tid k))[fd := new]) d + (if files (task tid k) ! fd = d then 1 else 0) =
        count_list (files (task tid k)) d + (if new = d then 1 else 0)"
      by (rule count_list_update) (use assms(3) l in simp)
    moreover have "new = d \<Longrightarrow> 0 < x d" using assms(5) d by simp
    moreover have "count_list (files (task tid k)) d \<le> ends d (k_tasks k)"
      using files_count [of tid "k_tasks k" d] assms(2) l by (simp add: task_def)
    ultimately show "ends d ?ts + (x d + (if files (task tid k) ! fd = d then 1 else 0) - (if new = d then 1 else 0)) =
        ends d (k_tasks k) + x d"
      by (auto split: if_splits)
  qed
  ultimately show ?thesis by (simp add: fd_ok_def at_task_def task_def)
qed

lemma close_descriptor_ok:
  assumes "fd_ok x k" "tid < MAX_TASKS" "state (task tid k) \<noteq> Free"
  shows "\<exists>k'. close_descriptor tid fd k = Some (descriptor tid fd k \<noteq> FdFree, k') \<and> fd_ok x k' \<and>
    same_files (if fd < MAX_FILES then at_task tid (\<lambda>t. t\<lparr> files := (files t)[fd := FdFree] \<rparr>) k else k) k'"
proof (cases "fd < MAX_FILES")
  case True
  let ?d = "files (task tid k) ! fd"
  let ?k = "at_task tid (\<lambda>t. t\<lparr> files := (files t)[fd := FdFree] \<rparr>) k"
  let ?x = "\<lambda>d. x d + (if ?d = d then 1 else 0) - (if FdFree = d then 1 else 0)"
  have s: "fd_ok ?x ?k" by (rule set_file_ok) (use assms True in simp_all)
  have c: "close_descriptor tid fd k = (if is_pipe ?d then close_end (close_of ?d (k_pipes ?k)) ?k else Some (?d \<noteq> FdFree, ?k))"
    using True by (cases ?d) (simp_all add: close_descriptor_def descriptor_def close_of_def Let_def)
  show ?thesis
  proof (cases "is_pipe ?d")
    case p: True
    then have "0 < ?x ?d" by auto
    from close_end_ok [OF s p this] obtain k' where k': "close_end (close_of ?d (k_pipes ?k)) ?k = Some (True, k')"
        "fd_ok (?x(?d := ?x ?d - 1)) k'" "same_files ?k k'" by blast
    have "fd_ok x k'" by (rule fd_ok_cong [OF k'(2)]) auto
    moreover have "?d \<noteq> FdFree" using p by auto
    ultimately show ?thesis using c p k'(1,3) True by (simp add: descriptor_def)
  next
    case False
    have "fd_ok x ?k" by (rule fd_ok_cong [OF s]) (use False in auto)
    then show ?thesis using c False True by (simp add: descriptor_def same_files_def)
  qed
next
  case False
  then have "close_descriptor tid fd k = Some (False, k)" by (simp add: close_descriptor_def descriptor_def)
  then show ?thesis using assms(1) False by (simp add: descriptor_def same_files_def)
qed


lemma task_at_other: "task i (at_task tid f k) = (if i = tid \<and> tid < length (k_tasks k) then f (task tid k) else task i k)"
  by (auto simp: task_def at_task_def nth_list_update list_update_beyond)

lemma fd_ok_length: "fd_ok x k \<Longrightarrow> length (k_tasks k) = MAX_TASKS"
  "fd_ok x k \<Longrightarrow> i < MAX_TASKS \<Longrightarrow> length (files (task i k)) = MAX_FILES"
  by (auto simp: fd_ok_def tables_ok_def task_def)

lemma close_from_ok:
  assumes "fd_ok x k" "tid < MAX_TASKS" "state (task tid k) \<noteq> Free"
  shows "\<exists>k'. close_from tid fds k = Some k' \<and> fd_ok x k' \<and> state (task tid k') \<noteq> Free \<and>
    (\<forall>j < MAX_FILES. files (task tid k') ! j = (if j \<in> set fds then FdFree else files (task tid k) ! j)) \<and>
    (\<forall>i < MAX_TASKS. i \<noteq> tid \<longrightarrow> fd_view (task i k') = fd_view (task i k))"
  using assms
proof (induction fds arbitrary: k)
  case (Cons fd fds)
  let ?k0 = "if fd < MAX_FILES then at_task tid (\<lambda>t. t\<lparr> files := (files t)[fd := FdFree] \<rparr>) k else k"
  obtain b k1 where k1: "close_descriptor tid fd k = Some (b, k1)" "fd_ok x k1" "same_files ?k0 k1"
    using close_descriptor_ok [OF Cons.prems, of fd] by blast
  note l = fd_ok_length [OF Cons.prems(1)]
  have len: "length (k_tasks ?k0) = 8" using l by (simp add: at_task_def)
  have f: "files (task i k1) = files (task i ?k0)" "state (task i k1) = Free \<longleftrightarrow> state (task i ?k0) = Free"
      "fd_view (task i k1) = fd_view (task i ?k0)" if "i < 8" for i
    using same_files_task [OF k1(3)] same_files_view [OF k1(3)] len that by simp_all
  have st: "state (task tid k1) \<noteq> Free" using f(2) [OF Cons.prems(2)] Cons.prems(3) by (simp add: task_at_other)
  have own: "files (task tid k1) ! j = (if j = fd then FdFree else files (task tid k) ! j)" if "j < 8" for j
    using f(1) [OF Cons.prems(2)] Cons.prems(2) that l by (simp add: task_at_other nth_list_update)
  have oth: "fd_view (task i k1) = fd_view (task i k)" if "i < 8" "i \<noteq> tid" for i
    using f(3) [OF that(1)] that by (simp add: task_at_other)
  obtain k' where "close_from tid fds k1 = Some k'" "fd_ok x k'" "state (task tid k') \<noteq> Free"
      "\<forall>j < 8. files (task tid k') ! j = (if j \<in> set fds then FdFree else files (task tid k1) ! j)"
      "\<forall>i < 8. i \<noteq> tid \<longrightarrow> fd_view (task i k') = fd_view (task i k1)"
    using Cons.IH [OF k1(2) Cons.prems(2) st] by blast
  then show ?case using k1(1) own oth by auto
qed simp

lemma mark_finished_ok:
  assumes "fd_ok x k" "tid < MAX_TASKS" "state (task tid k) \<noteq> Free"
  shows "fd_ok x (mark_finished tid code k)"
proof -
  let ?k = "at_task tid (\<lambda>t. t\<lparr> exit_code := code, state := Finished \<rparr>) k"
  have "fd_ok x ?k"
    by (rule fd_ok_files [OF assms(1)])
      (use assms(2,3) fd_ok_length(1) [OF assms(1)] in
        \<open>auto simp: at_task_def task_def map_update intro!: list_update_same_conv [THEN iffD2]\<close>)
  then show ?thesis unfolding mark_finished_def using fd_ok_same same_files_wake by blast
qed

lemma finish_ok:
  assumes "fd_ok x k" "tid < MAX_TASKS" "state (task tid k) \<noteq> Free"
  shows "\<exists>k'. finish tid code k = Some k' \<and> fd_ok x k' \<and> state (task tid k') = Finished \<and> exit_code (task tid k') = code \<and>
    files (task tid k') = replicate MAX_FILES FdFree \<and> (\<forall>i < MAX_TASKS. i \<noteq> tid \<longrightarrow> fd_view (task i k') = fd_view (task i k))"
proof -
  obtain k1 where k1: "close_from tid [0..<8] k = Some k1" "fd_ok x k1" "state (task tid k1) \<noteq> Free"
      "\<forall>j < 8. files (task tid k1) ! j = FdFree" "\<forall>i < 8. i \<noteq> tid \<longrightarrow> fd_view (task i k1) = fd_view (task i k)"
    using close_from_ok [OF assms, of "[0..<8]"] by auto
  note l = fd_ok_length [OF k1(2)]
  have v: "fd_view (task i (mark_finished tid code k1)) = fd_view (task i k1)" if "i < 8" "i \<noteq> tid" for i
    using l(1) that by (simp add: mark_finished_def wake_all_def at_task_def task_def)
  have "fd_ok x (mark_finished tid code k1)"
    by (rule mark_finished_ok [OF k1(2) assms(2) k1(3)])
  moreover have "task tid (mark_finished tid code k1) = (task tid k1)\<lparr> exit_code := code, state := Finished \<rparr>"
    using l(1) assms(2) by (simp add: mark_finished_def wake_all_def at_task_def task_def wake_def)
  moreover have "files (task tid k1) = replicate 8 FdFree"
    using k1(4) l(2) [OF assms(2)] by (simp add: list_eq_iff_nth_eq)
  ultimately show ?thesis using k1(1,5) v by (simp add: finish_def close_all_descriptors_def)
qed

lemma add_descriptor_ok:
  assumes "fd_ok x k" "tid < MAX_TASKS" "state (task tid k) \<noteq> Free" "is_pipe d" "0 < x d"
  shows "case add_descriptor tid d k of
      (None, k') \<Rightarrow> k' = k
    | (Some slot, k') \<Rightarrow> slot < MAX_FILES \<and> files (task tid k) ! slot = FdFree \<and> fd_ok (x(d := x d - 1)) k' \<and>
        k' = at_task tid (\<lambda>t. t\<lparr> files := (files t)[slot := d] \<rparr>) k"
proof (cases "position (\<lambda>f. f = FdFree) (files (task tid k))")
  case (Some slot)
  note p = position_Some [OF Some] fd_ok_length(2) [OF assms(1,2)]
  have "fd_ok (x(d := x d - 1)) (at_task tid (\<lambda>t. t\<lparr> files := (files t)[slot := d] \<rparr>) k)"
    by (rule fd_ok_cong, rule set_file_ok [OF assms(1,2), of slot d]) (use p assms in auto)
  then show ?thesis using p Some by (simp add: add_descriptor_def)
qed (simp add: add_descriptor_def)

lemma create_counts:
  assumes "counts_ok (\<lambda>_. 0) ts ps" "create ps = Some (p, ps')"
  shows "p < MAX_PIPES \<and> ends (PipeRead p) ts = 0 \<and> ends (PipeWrite p) ts = 0 \<and>
    counts_ok ((\<lambda>_. 0)(PipeRead p := 1, PipeWrite p := 1)) ts ps'"
proof -
  obtain i where i: "position (\<lambda>p. \<not> used p) ps = Some i" "i = p" "ps' = ps[p := Pipe_empty\<lparr> readers := 1, writers := 1, used := True \<rparr>]"
    using assms(2) by (auto simp: create_def split: option.splits)
  have p: "p < 8" "\<not> used (ps ! p)" "length ps = 8"
    using position_Some [OF i(1)] i(2) assms(1) by (auto simp: counts_ok_def)
  then have z: "readers (ps ! p) = 0" "writers (ps ! p) = 0" using assms(1) by (auto simp: counts_ok_def)
  then have "ends (PipeRead p) ts = 0" "ends (PipeWrite p) ts = 0" using assms(1) p by (auto simp: counts_ok_def)
  then show ?thesis using assms(1) p i(3) by (auto simp: counts_ok_def nth_list_update)
qed


text \<open>The pipe just created, with both its ends still to be entered, and the two ways to give it up.\<close>

abbreviation both_ends :: "nat \<Rightarrow> Descriptor \<Rightarrow> nat" where
  "both_ends p \<equiv> (\<lambda>_. 0)(PipeRead p := 1, PipeWrite p := 1)"

abbreviation write_end :: "nat \<Rightarrow> Descriptor \<Rightarrow> nat" where
  "write_end p \<equiv> (\<lambda>_. 0)(PipeWrite p := 1)"

lemma drop_write_end:
  assumes "fd_ok (write_end p) k"
  shows "\<exists>k'. close_end (close_writer p (k_pipes k)) k = Some (True, k') \<and> fd_ok (\<lambda>_. 0) k' \<and> same_files k k'"
proof -
  have "is_pipe (PipeWrite p)" "0 < write_end p (PipeWrite p)" by simp_all
  from close_end_ok [OF assms this] obtain k' where k': "close_end (close_of (PipeWrite p) (k_pipes k)) k = Some (True, k')"
      "fd_ok ((write_end p)(PipeWrite p := write_end p (PipeWrite p) - 1)) k'" "same_files k k'" by blast
  have "fd_ok (\<lambda>_. 0) k'" by (rule fd_ok_cong [OF k'(2)]) simp
  then show ?thesis using k' by (simp add: close_of_def)
qed

lemma drop_both_ends:
  assumes "fd_ok (both_ends p) k"
  shows "\<exists>k1 k'. close_end (close_reader p (k_pipes k)) k = Some (True, k1) \<and>
    close_end (close_writer p (k_pipes k1)) k1 = Some (True, k') \<and> fd_ok (\<lambda>_. 0) k' \<and> same_files k k'"
proof -
  have "is_pipe (PipeRead p)" "0 < both_ends p (PipeRead p)" by simp_all
  from close_end_ok [OF assms this] obtain k1 where k1: "close_end (close_of (PipeRead p) (k_pipes k)) k = Some (True, k1)"
      "fd_ok ((both_ends p)(PipeRead p := both_ends p (PipeRead p) - 1)) k1" "same_files k k1" by blast
  have "fd_ok (write_end p) k1" by (rule fd_ok_cong [OF k1(2)]) simp
  from drop_write_end [OF this] show ?thesis using k1(1,3) same_files_trans by (fastforce simp: close_of_def)
qed

lemma undo_read_end:
  assumes "fd_ok (write_end p) k" "tid < MAX_TASKS" "state (task tid k) \<noteq> Free" "rd < MAX_FILES" "files (task tid k) ! rd = PipeRead p"
  shows "\<exists>k1 k'. close_descriptor tid rd k = Some (True, k1) \<and>
    close_end (close_writer p (k_pipes k1)) k1 = Some (True, k') \<and> fd_ok (\<lambda>_. 0) k' \<and>
    same_files (at_task tid (\<lambda>t. t\<lparr> files := (files t)[rd := FdFree] \<rparr>) k) k'"
proof -
  have "descriptor tid rd k \<noteq> FdFree" using assms(4,5) by (simp add: descriptor_def)
  then obtain k1 where k1: "close_descriptor tid rd k = Some (True, k1)" "fd_ok (write_end p) k1"
      "same_files (at_task tid (\<lambda>t. t\<lparr> files := (files t)[rd := FdFree] \<rparr>) k) k1"
    using close_descriptor_ok [OF assms(1-3), of rd] assms(4) by auto
  from drop_write_end [OF k1(2)] show ?thesis using k1(1,3) same_files_trans by blast
qed

lemma enter_read_end:
  assumes "fd_ok (both_ends p) k" "tid < MAX_TASKS" "state (task tid k) \<noteq> Free" "add_descriptor tid (PipeRead p) k = (r, k')"
  shows "case r of None \<Rightarrow> k' = k
    | Some rd \<Rightarrow> rd < MAX_FILES \<and> files (task tid k) ! rd = FdFree \<and> fd_ok (write_end p) k' \<and>
        k' = at_task tid (\<lambda>t. t\<lparr> files := (files t)[rd := PipeRead p] \<rparr>) k"
proof -
  have "is_pipe (PipeRead p)" "0 < both_ends p (PipeRead p)" by simp_all
  note a = add_descriptor_ok [OF assms(1-3) this]
  show ?thesis
  proof (cases r)
    case (Some rd)
    have "fd_ok (write_end p) k'"
      by (rule fd_ok_cong [of "(both_ends p)(PipeRead p := both_ends p (PipeRead p) - 1)"]) (use a assms(4) Some in auto)
    then show ?thesis using a assms(4) Some by simp
  qed (use a assms(4) in simp)
qed

lemma enter_write_end:
  assumes "fd_ok (write_end p) k" "tid < MAX_TASKS" "state (task tid k) \<noteq> Free" "add_descriptor tid (PipeWrite p) k = (r, k')"
  shows "case r of None \<Rightarrow> k' = k
    | Some wr \<Rightarrow> wr < MAX_FILES \<and> files (task tid k) ! wr = FdFree \<and> fd_ok (\<lambda>_. 0) k' \<and>
        k' = at_task tid (\<lambda>t. t\<lparr> files := (files t)[wr := PipeWrite p] \<rparr>) k"
proof -
  have "is_pipe (PipeWrite p)" "0 < write_end p (PipeWrite p)" by simp_all
  note a = add_descriptor_ok [OF assms(1-3) this]
  show ?thesis
  proof (cases r)
    case (Some wr)
    have "fd_ok (\<lambda>_. 0) k'"
      by (rule fd_ok_cong [of "(write_end p)(PipeWrite p := write_end p (PipeWrite p) - 1)"]) (use a assms(4) Some in auto)
    then show ?thesis using a assms(4) Some by simp
  qed (use a assms(4) in simp)
qed

lemma make_pipe_ends_ok:
  assumes "fd_ok (\<lambda>_. 0) k" "tid < MAX_TASKS" "state (task tid k) \<noteq> Free"
  shows "\<exists>r k'. make_pipe_ends tid k = Some (r, k') \<and> fd_ok (\<lambda>_. 0) k' \<and>
    (case r of
       None \<Rightarrow> same_files k k'
     | Some (p, rd, wr) \<Rightarrow> rd < MAX_FILES \<and> wr < MAX_FILES \<and> rd \<noteq> wr \<and> p < MAX_PIPES \<and>
         ends (PipeRead p) (k_tasks k) = 0 \<and> ends (PipeWrite p) (k_tasks k) = 0 \<and>
         files (task tid k) ! rd = FdFree \<and> files (task tid k) ! wr = FdFree \<and>
         k_tasks k' = (k_tasks k)[tid := (task tid k)\<lparr> files := (files (task tid k))[rd := PipeRead p, wr := PipeWrite p] \<rparr>])"
proof (cases "create (k_pipes k)")
  case None
  then show ?thesis using assms(1) by (auto simp: make_pipe_ends_def same_files_def)
next
  case (Some pp)
  then obtain p ps where cr: "create (k_pipes k) = Some (p, ps)" by (cases pp) simp
  let ?k1 = "k\<lparr> k_pipes := ps \<rparr>"
  have c: "p < 8" "ends (PipeRead p) (k_tasks k) = 0" "ends (PipeWrite p) (k_tasks k) = 0" "fd_ok (both_ends p) ?k1"
    using create_counts [OF _ cr, of "k_tasks k"] assms(1) by (simp_all add: fd_ok_def)
  note l = fd_ok_length [OF assms(1)]
  obtain r1 k2 where a1: "add_descriptor tid (PipeRead p) ?k1 = (r1, k2)" by fastforce
  note e1 = enter_read_end [OF c(4) assms(2) _ a1]
  show ?thesis
  proof (cases r1)
    case None
    then have "k2 = ?k1" using e1 assms(3) by simp
    then show ?thesis using drop_both_ends [OF c(4)] cr a1 None same_files_trans [OF same_files_pipes]
      by (fastforce simp: make_pipe_ends_def)
  next
    case (Some rd)
    then have b: "rd < 8" "files (task tid k) ! rd = FdFree" "fd_ok (write_end p) k2"
        "k2 = at_task tid (\<lambda>t. t\<lparr> files := (files t)[rd := PipeRead p] \<rparr>) ?k1"
      using e1 assms(3) by auto
    have t2: "state (task tid k2) \<noteq> Free" "files (task tid k2) = (files (task tid k))[rd := PipeRead p]"
      using b(4) assms(2,3) l(1) by (simp_all add: task_at_other)
    obtain r2 k3 where a2: "add_descriptor tid (PipeWrite p) k2 = (r2, k3)" by fastforce
    note e2 = enter_write_end [OF b(3) assms(2) t2(1) a2]
    show ?thesis
    proof (cases r2)
      case None
      then have k3: "k3 = k2" using e2 by simp
      have "(task tid k)\<lparr> files := (files (task tid k))[rd := FdFree] \<rparr> = task tid k" using b(2) by (metis list_update_id Task.surjective Task.update_convs(13))
      then have "at_task tid (\<lambda>t. t\<lparr> files := (files t)[rd := FdFree] \<rparr>) k2 = ?k1"
        using b(4) assms(2) l(1) by (simp add: at_task_def task_def)
      then show ?thesis using undo_read_end [OF b(3) assms(2) t2(1) b(1)] t2(2) b(1) l(2) [OF assms(2)] cr a1 Some a2 None k3
          same_files_trans [OF same_files_pipes [of k ps]] by (fastforce simp: make_pipe_ends_def)
    next
      case s2: (Some wr)
      then have e: "wr < 8" "files (task tid k2) ! wr = FdFree" "fd_ok (\<lambda>_. 0) k3"
          "k3 = at_task tid (\<lambda>t. t\<lparr> files := (files t)[wr := PipeWrite p] \<rparr>) k2"
        using e2 by auto
      have ne: "rd \<noteq> wr" using e(2) t2(2) b(1) l(2) [OF assms(2)] by auto
      moreover have "k_tasks k3 = (k_tasks k)[tid := (task tid k)\<lparr> files := (files (task tid k))[rd := PipeRead p, wr := PipeWrite p] \<rparr>]"
        using e(4) b(4) assms(2) l(1) by (simp add: at_task_def task_def)
      ultimately show ?thesis using cr a1 Some a2 s2 b(1,2) c(1-3) e(1-3) t2(2) by (simp add: make_pipe_ends_def)
    qed
  qed
qed

lemma duplicate_descriptor_ok:
  assumes "fd_ok (\<lambda>_. 0) k" "tid < MAX_TASKS" "state (task tid k) \<noteq> Free"
  shows "\<exists>b k'. duplicate_descriptor tid old new k = Some (b, k') \<and> fd_ok (\<lambda>_. 0) k' \<and>
    (b \<longleftrightarrow> old < MAX_FILES \<and> new < MAX_FILES \<and> descriptor tid old k \<noteq> FdFree) \<and>
    (b \<longrightarrow> files (task tid k') = (files (task tid k))[new := files (task tid k) ! old]) \<and>
    (\<forall>i < MAX_TASKS. (i \<noteq> tid \<longrightarrow> files (task i k') = files (task i k)) \<and> (state (task i k') = Finished \<longleftrightarrow> state (task i k) = Finished))"
proof (cases "old < MAX_FILES \<and> new < MAX_FILES \<and> descriptor tid old k \<noteq> FdFree \<and> old \<noteq> new")
  case False
  then show ?thesis using assms by (auto simp: duplicate_descriptor_def Let_def)
next
  case True
  let ?d = "files (task tid k) ! old"
  have d: "descriptor tid old k = ?d" using True by (simp add: descriptor_def)
  note l = fd_ok_length [OF assms(1)]
  let ?k0 = "at_task tid (\<lambda>t. t\<lparr> files := (files t)[new := FdFree] \<rparr>) k"
  obtain b k1 where k1: "close_descriptor tid new k = Some (b, k1)" "fd_ok (\<lambda>_. 0) k1" "same_files ?k0 k1"
    using close_descriptor_ok [OF assms, of new] True by auto
  have len: "length (k_tasks ?k0) = 8" using l by (simp add: at_task_def)
  have f: "files (task tid k1) = (files (task tid k))[new := FdFree]" "state (task tid k1) \<noteq> Free"
    using same_files_task [OF k1(3)] len assms l(1) by (simp_all add: task_at_other)
  have "?d \<in> set (files (task tid k1))"
    using f(1) True l(2) [OF assms(2)] by (metis length_list_update nth_list_update_neq nth_mem)
  then have "0 < count_list (files (task tid k1)) ?d" by (simp add: count_list_0_iff flip: neq0_conv)
  then have "0 < ends ?d (k_tasks k1)"
    using files_count [of tid "k_tasks k1" ?d] fd_ok_length(1) [OF k1(2)] assms(2) by (simp add: task_def)
  moreover have "ends ?d (k_tasks k1) \<le> 64" using k1(2) ends_bound by (simp add: fd_ok_def)
  ultimately obtain ps where ps: "add_end ?d (k_pipes k1) = Some ps" "counts_ok ((\<lambda>_. 0)(?d := 1)) (k_tasks k1) ps"
    using add_end_counts [of "\<lambda>_. 0" "k_tasks k1" "k_pipes k1" ?d] k1(2) by (auto simp: fd_ok_def)
  let ?k2 = "k1\<lparr> k_pipes := ps \<rparr>"
  have k2: "fd_ok ((\<lambda>_. 0)(?d := 1)) ?k2" using ps(2) k1(2) by (simp add: fd_ok_def)
  let ?k3 = "at_task tid (\<lambda>t. t\<lparr> files := (files t)[new := ?d] \<rparr>) ?k2"
  have "files (task tid ?k2) ! new = FdFree" using f(1) True l(2) [OF assms(2)] by simp
  then have "fd_ok (\<lambda>_. 0) ?k3"
    by (intro fd_ok_cong [OF set_file_ok [OF k2 assms(2), of new ?d]]) (use f(2) True in auto)
  moreover have "files (task tid ?k3) = (files (task tid k))[new := ?d]"
    using f(1) fd_ok_length(1) [OF k1(2)] assms(2) by (simp add: task_at_other)
  moreover have "(i \<noteq> tid \<longrightarrow> files (task i ?k3) = files (task i k)) \<and> (state (task i ?k3) = Finished \<longleftrightarrow> state (task i k) = Finished)"
    if "i < 8" for i
    using same_files_task [OF k1(3), of i] len that fd_ok_length(1) [OF k1(2)] l(1) by (auto simp: task_at_other)
  ultimately show ?thesis using True d k1(1) ps(1) by (auto simp: duplicate_descriptor_def Let_def)
qed


lemma add_ends_Cons: "add_ends (d # ds) ps = (case add_end d ps of None \<Rightarrow> None | Some ps \<Rightarrow> add_ends ds ps)"
  by (cases d) (simp_all add: add_end_def)

lemma add_ends_counts:
  assumes "counts_ok x ts ps" "\<forall>d \<in> set ds. is_pipe d \<longrightarrow> 0 < ends d ts" "\<forall>d. ends d ts + x d + length ds < 2 ^ 32 - 1"
  shows "\<exists>ps'. add_ends ds ps = Some ps' \<and> counts_ok (\<lambda>d. x d + count_list ds d) ts ps'"
  using assms
proof (induction ds arbitrary: x ps)
  case (Cons d ds)
  have "ends d ts + x d < 2 ^ 32 - 1" using Cons.prems(3) by (metis add_lessD1)
  then obtain ps1 where p1: "add_end d ps = Some ps1" "counts_ok (x(d := x d + 1)) ts ps1"
    using add_end_counts [OF Cons.prems(1), of d] Cons.prems(2) by auto
  have "\<forall>e. ends e ts + (x(d := x d + 1)) e + length ds < 2 ^ 32 - 1"
  proof
    fix e
    show "ends e ts + (x(d := x d + 1)) e + length ds < 2 ^ 32 - 1" using Cons.prems(3) [rule_format, of e] by auto
  qed
  then obtain ps2 where p2: "add_ends ds ps1 = Some ps2" "counts_ok (\<lambda>e. (x(d := x d + 1)) e + count_list ds e) ts ps2"
    using Cons.IH [OF p1(2)] Cons.prems(2) by auto
  have "counts_ok (\<lambda>e. x e + count_list (d # ds) e) ts ps2" by (rule counts_shift [OF p2(2)]) simp
  then show ?case using p1(1) p2(1) by (simp only: add_ends_Cons option.case) blast
qed simp

text \<open>A task entered in a free slot with descriptors that are already counted.\<close>

lemma fill_slot:
  assumes "tables_ok ts" "counts_ok (\<lambda>d. count_list (files t) d) ts ps" "tid < MAX_TASKS" "state (ts ! tid) = Free"
    "length (files t) = MAX_FILES" "state t \<noteq> Free"
  shows "tables_ok (ts[tid := t]) \<and> counts_ok (\<lambda>_. 0) (ts[tid := t]) ps"
proof -
  have l: "length ts = 8" and np: "no_pipes (ts ! tid)" using assms(1,3,4) by (auto simp: tables_ok_def)
  have "tables_ok (ts[tid := t])"
    using assms(1,5,6) unfolding tables_ok_def by (auto dest!: set_update_subset_insert [THEN subsetD])
  moreover have "counts_ok (\<lambda>_. 0) (ts[tid := t]) ps"
  proof (rule counts_shift [OF assms(2)])
    fix d assume "is_pipe d"
    then have "count_list (files (ts ! tid)) d = 0" using no_pipes_count [OF np] by (cases d) auto
    then show "ends d (ts[tid := t]) + 0 = ends d ts + count_list (files t) d"
      using ends_update [of tid ts d t] assms(3) l by simp
  qed
  ultimately show ?thesis by simp
qed

lemma fork_from_ok:
  assumes "fd_ok (\<lambda>_. 0) k" "par < MAX_TASKS"
  shows "\<exists>r k'. fork_from base par root frame k = Some (r, k') \<and> fd_ok (\<lambda>_. 0) k'"
proof (cases "find_free (k_tasks k)")
  case None
  then show ?thesis using assms(1) by (simp add: fork_from_def)
next
  case (Some tid)
  note f = find_free_Some [OF Some] and l = fd_ok_length [OF assms(1)]
  have ok: "tables_ok (k_tasks k)" "counts_ok (\<lambda>_. 0) (k_tasks k) (k_pipes k)" using assms(1) by (simp_all add: fd_ok_def)
  have "0 < ends d (k_tasks k)" if "d \<in> set (files (task par k))" for d
    using files_count [of par "k_tasks k" d] l(1) assms(2) that count_list_0_iff [of "files (task par k)" d]
    by (simp add: task_def)
  then have "\<forall>d \<in> set (files (task par k)). is_pipe d \<longrightarrow> 0 < ends d (k_tasks k)" by blast
  moreover have "\<forall>d. ends d (k_tasks k) + 0 + length (files (task par k)) < 2 ^ 32 - 1"
  proof
    fix d
    show "ends d (k_tasks k) + 0 + length (files (task par k)) < 2 ^ 32 - 1"
      using ends_bound [OF ok(1), of d] l(2) [OF assms(2)] by simp
  qed
  ultimately obtain ps where ps: "add_ends (files (task par k)) (k_pipes k) = Some ps"
      "counts_ok (\<lambda>d. count_list (files (task par k)) d) (k_tasks k) ps"
    using add_ends_counts [OF ok(2)] by fastforce
  then show ?thesis
    using Some ok(1) f l(2) [OF assms(2)]
    by (simp add: fork_from_def Let_def fd_ok_def at_task_def)
      (rule fill_slot; simp)
qed

lemma count_console: "count_list console_files (PipeRead p) = 0 \<and> count_list console_files (PipeWrite p) = 0"
  unfolding console_files_def by (simp add: numeral_eq_Suc)

lemma spawn_user_ok:
  assumes "fd_ok (\<lambda>_. 0) k"
  shows "fd_ok (\<lambda>_. 0) (snd (spawn_user base name entry stack root par argc argv k))"
proof (cases "find_free (k_tasks k)")
  case None
  then show ?thesis using assms by (simp add: spawn_user_def)
next
  case (Some tid)
  note f = find_free_Some [OF Some]
  have ok: "tables_ok (k_tasks k)" "counts_ok (\<lambda>_. 0) (k_tasks k) (k_pipes k)" using assms by (simp_all add: fd_ok_def)
  have "counts_ok (count_list console_files) (k_tasks k) (k_pipes k)"
    by (rule counts_shift [OF ok(2)]) (metis count_console is_pipe.elims(2))
  then show ?thesis using Some ok(1) f
    by (auto simp: spawn_user_def Let_def fd_ok_def at_task_def build_user_frame_def console_files_def
        dest: push_all_fields split: prod.splits intro!: fill_slot [THEN conjunct1] fill_slot [THEN conjunct2])
qed


lemma spawn_ok:
  assumes "fd_ok (\<lambda>_. 0) k"
  shows "fd_ok (\<lambda>_. 0) (snd (spawn_with_priority entry base name w prio k))"
proof (cases "find_free (k_tasks k)")
  case None
  then show ?thesis using assms by (simp add: spawn_with_priority_def)
next
  case (Some tid)
  note f = find_free_Some [OF Some]
  have ok: "tables_ok (k_tasks k)" "counts_ok (\<lambda>_. 0) (k_tasks k) (k_pipes k)" using assms by (simp_all add: fd_ok_def)
  have np: "no_pipes (k_tasks k ! tid)" "length (files (k_tasks k ! tid)) = 8"
    using ok(1) f by (simp_all add: tables_ok_def)
  have "counts_ok (count_list (files (k_tasks k ! tid))) (k_tasks k) (k_pipes k)"
    by (rule counts_shift [OF ok(2)]) (metis no_pipes_count [OF np(1)] is_pipe.elims(2))
  then show ?thesis using Some ok(1) f np
    by (auto simp: spawn_with_priority_def Let_def fd_ok_def at_task_def build_frame_def
        dest: push_all_fields split: prod.splits intro!: fill_slot [THEN conjunct1] fill_slot [THEN conjunct2])
qed

lemma clear_slot_ok:
  assumes "fd_ok x k" "tid < MAX_TASKS" "no_pipes (task tid k)"
  shows "fd_ok x (clear_slot tid k)"
proof -
  let ?ts = "(k_tasks k)[tid := Task_empty]"
  have ok: "tables_ok (k_tasks k)" "counts_ok x (k_tasks k) (k_pipes k)" "length (k_tasks k) = 8"
    using assms(1) by (simp_all add: fd_ok_def tables_ok_def)
  have e: "no_pipes Task_empty" "length (files Task_empty) = 8" by (simp_all add: no_pipes_def Task_empty_def)
  have "tables_ok ?ts"
    using ok(1) e unfolding tables_ok_def by (auto dest!: set_update_subset_insert [THEN subsetD])
  moreover have "counts_ok x ?ts (k_pipes k)"
  proof (rule counts_shift [OF ok(2)])
    fix d assume "is_pipe d"
    then have "count_list (files (k_tasks k ! tid)) d = 0" "count_list (files Task_empty) d = 0"
      using no_pipes_count assms(3) e(1) unfolding task_def by (metis is_pipe.elims(2))+
    then show "ends d ?ts + x d = ends d (k_tasks k) + x d"
      using ends_update [of tid "k_tasks k" d Task_empty] assms(2) ok(3) by simp
  qed
  ultimately show ?thesis by (simp add: fd_ok_def clear_slot_def at_task_def)
qed

text \<open>A task that ended through \<open>finish\<close> holds no pipe any more.\<close>

definition finished_closed :: "Kernel \<Rightarrow> bool" where
  "finished_closed k \<longleftrightarrow> (\<forall>i < MAX_TASKS. state (task i k) = Finished \<longrightarrow> no_pipes (task i k))"

lemma collect_child_ok:
  assumes "fd_ok x k" "finished_closed k"
  shows "fd_ok x (snd (collect_child par k))"
proof (cases "find (\<lambda>tid. parent (task tid k) = Some par \<and> state (task tid k) = Finished) [0..<MAX_TASKS]")
  case None
  then show ?thesis using assms(1) by (simp add: collect_child_def)
next
  case (Some tid)
  then have t: "tid < 8" "state (task tid k) = Finished" by (auto simp: find_Some_iff)
  let ?k = "k\<lparr> k_orphans := k_orphans k @ (case address_space (task tid k) of Some root \<Rightarrow> [root] | None \<Rightarrow> []) \<rparr>"
  have "fd_ok x ?k" using assms(1) by (simp add: fd_ok_def)
  moreover have "no_pipes (task tid ?k)" using assms(2) t by (simp add: finished_closed_def task_def)
  ultimately show ?thesis using Some clear_slot_ok t(1) by (simp add: collect_child_def)
qed

lemma reap_finished_ok:
  assumes "fd_ok x k" "finished_closed k"
  shows "fd_ok x (reap_finished k) \<and> finished_closed (reap_finished k)"
proof -
  let ?f = "\<lambda>tid k. if state (task tid k) = Finished then clear_slot tid k else k"
  have step: "fd_ok x (?f tid j) \<and> finished_closed (?f tid j)" if "fd_ok x j" "finished_closed j" "tid < 8" for tid j
  proof -
    have "task i (clear_slot tid j) = (if i = tid then Task_empty else task i j)" for i
      using fd_ok_length(1) [OF that(1)] that(3) by (simp add: clear_slot_def task_at_other)
    then show ?thesis using clear_slot_ok [OF that(1,3)] that by (auto simp: finished_closed_def Task_empty_def)
  qed
  have "fd_ok x (fold ?f tids j) \<and> finished_closed (fold ?f tids j)" if "fd_ok x j" "finished_closed j" "\<forall>t \<in> set tids. t < 8" for tids j
    using that step by (induction tids arbitrary: j) auto
  from this [OF assms] show ?thesis unfolding reap_finished_def by simp
qed


section \<open>Every sequence of calls\<close>

definition live :: "Task \<Rightarrow> bool" where
  "live t \<longleftrightarrow> state t \<noteq> Free \<and> state t \<noteq> Finished"

definition pipe_view :: "Pipe \<Rightarrow> u32 \<times> u32 \<times> bool" where
  "pipe_view p = (readers p, writers p, used p)"

text \<open>
  The calls that change descriptors, on behalf of any task, in any order. \<open>other\<close> stands for all
  that changes neither a descriptor table nor a count: reads and writes, wakeups, the timer. A
  kernel task ends without closing anything, and has nothing to close. One way to end a task is left out: the
  scheduler finishes a task whose signal is fatal without closing its descriptors, and reaping it then breaks the
  counts (\<open>reaping_a_killed_task_leaks\<close>). Closing and duplicating are single steps, although the kernel runs parts of
  them with interrupts on.
\<close>

inductive fd_step :: "Kernel \<Rightarrow> Kernel \<Rightarrow> bool" where
  pipe: "tid < MAX_TASKS \<Longrightarrow> live (task tid k) \<Longrightarrow> make_pipe_ends tid k = Some (r, k') \<Longrightarrow> fd_step k k'"
| close: "tid < MAX_TASKS \<Longrightarrow> live (task tid k) \<Longrightarrow> close_descriptor tid fd k = Some (b, k') \<Longrightarrow> fd_step k k'"
| dup2: "tid < MAX_TASKS \<Longrightarrow> live (task tid k) \<Longrightarrow> duplicate_descriptor tid old new k = Some (b, k') \<Longrightarrow> fd_step k k'"
| exit: "tid < MAX_TASKS \<Longrightarrow> live (task tid k) \<Longrightarrow> finish tid code k = Some k' \<Longrightarrow> fd_step k k'"
| fork: "par < MAX_TASKS \<Longrightarrow> live (task par k) \<Longrightarrow> fork_from base par root frame k = Some (q, k') \<Longrightarrow> fd_step k k'"
| start_user: "fd_step k (snd (spawn_user base name entry stack root pa argc argv k))"
| start_kernel: "fd_step k (snd (spawn_with_priority entry base name w prio k))"
| kernel_exit: "tid < MAX_TASKS \<Longrightarrow> live (task tid k) \<Longrightarrow> no_pipes (task tid k) \<Longrightarrow> fd_step k (mark_finished tid code k)"
| wait: "fd_step k (snd (collect_child par k))"
| reap: "fd_step k (reap_finished k)"
| other: "same_files k k' \<Longrightarrow> map pipe_view (k_pipes k') = map pipe_view (k_pipes k) \<Longrightarrow> fd_step k k'"

definition fd_inv :: "Kernel \<Rightarrow> bool" where
  "fd_inv k \<longleftrightarrow> fd_ok (\<lambda>_. 0) k \<and> finished_closed k"

lemma finished_closed_frame:
  assumes "finished_closed k" "\<And>i. i < MAX_TASKS \<Longrightarrow> state (task i k') = Finished \<Longrightarrow>
    state (task i k) = Finished \<and> files (task i k') = files (task i k) \<or> no_pipes (task i k')"
  shows "finished_closed k'"
  using assms unfolding finished_closed_def no_pipes_def by metis

lemma new_task_closed:
  assumes "finished_closed k" "k_tasks k' = (k_tasks k)[tid := t]" "length (k_tasks k) = MAX_TASKS" "state t = Ready"
  shows "finished_closed k'"
proof (rule finished_closed_frame [OF assms(1)])
  fix i assume "i < MAX_TASKS" "state (task i k') = Finished"
  then show "state (task i k) = Finished \<and> files (task i k') = files (task i k) \<or> no_pipes (task i k')"
    by (cases "i = tid") (use assms(2-4) in \<open>auto simp: task_def\<close>)
qed

lemma spawn_user_tasks:
  "\<exists>tid t. k_tasks (snd (spawn_user base name entry stack root pa argc argv k)) = (k_tasks k)[tid := t] \<and> state t = Ready \<or>
     snd (spawn_user base name entry stack root pa argc argv k) = k"
proof (cases "find_free (k_tasks k)")
  case (Some tid)
  obtain sp k1 where b: "build_user_frame (stack_end base) entry stack argc argv (zero_stack base k) = (sp, k1)" by fastforce
  then have "k_tasks k1 = k_tasks k" using push_all_fields unfolding build_user_frame_def by fastforce
  then show ?thesis using Some b by (auto simp: spawn_user_def Let_def at_task_def intro!: exI [of _ tid])
qed (simp add: spawn_user_def)

lemma spawn_tasks:
  "\<exists>tid t. k_tasks (snd (spawn_with_priority entry base name w prio k)) = (k_tasks k)[tid := t] \<and> state t = Ready \<or>
     snd (spawn_with_priority entry base name w prio k) = k"
proof (cases "find_free (k_tasks k)")
  case (Some tid)
  obtain sp k1 where b: "build_frame (stack_end base) entry (zero_stack base k) = (sp, k1)" by fastforce
  then have "k_tasks k1 = k_tasks k" using push_all_fields unfolding build_frame_def by fastforce
  then show ?thesis using Some b by (auto simp: spawn_with_priority_def Let_def at_task_def intro!: exI [of _ tid])
qed (simp add: spawn_with_priority_def)

lemma fork_tasks:
  assumes "fork_from base par root frame k = Some (q, k')"
  shows "\<exists>tid t. k_tasks k' = (k_tasks k)[tid := t] \<and> state t = Ready \<or> k' = k"
proof (cases "find_free (k_tasks k)")
  case (Some tid)
  then show ?thesis using assms by (auto simp: fork_from_def Let_def at_task_def intro!: exI [of _ tid] split: option.splits)
qed (use assms in \<open>simp add: fork_from_def\<close>)

lemma pipe_views:
  assumes "fd_ok x k" "same_files k k'" "map pipe_view (k_pipes k') = map pipe_view (k_pipes k)"
  shows "fd_ok x k'"
proof -
  have l: "length (k_pipes k') = length (k_pipes k)" using assms(3) by (metis length_map)
  have v: "readers (k_pipes k' ! p) = readers (k_pipes k ! p) \<and> writers (k_pipes k' ! p) = writers (k_pipes k ! p) \<and>
      used (k_pipes k' ! p) = used (k_pipes k ! p)" if "p < length (k_pipes k)" for p
    using map_eq_nth [OF assms(3) that] by (simp add: pipe_view_def)
  have "fd_ok x (k'\<lparr> k_pipes := k_pipes k \<rparr>)"
    by (rule fd_ok_same [OF assms(1)]) (use assms(2) in \<open>simp_all add: same_files_def\<close>)
  then show ?thesis using l v by (auto simp: fd_ok_def counts_ok_def)
qed

lemma same_files_closed:
  assumes "finished_closed k" "same_files k k'" "length (k_tasks k) = MAX_TASKS"
  shows "finished_closed k'"
  by (rule finished_closed_frame [OF assms(1)]) (use same_files_task [OF assms(2)] assms(3) in simp)

lemma own_files_closed:
  assumes "finished_closed k" "state (task tid k) \<noteq> Finished"
  shows "finished_closed (at_task tid (\<lambda>t. t\<lparr> files := g t \<rparr>) k)"
  by (rule finished_closed_frame [OF assms(1)]) (use assms(2) in \<open>auto simp: task_at_other split: if_splits\<close>)

lemma close_descriptor_closed:
  assumes "fd_ok x k" "finished_closed k" "tid < MAX_TASKS" "live (task tid k)" "close_descriptor tid fd k = Some (b, k')"
  shows "fd_ok x k' \<and> finished_closed k'"
proof -
  let ?k0 = "if fd < MAX_FILES then at_task tid (\<lambda>t. t\<lparr> files := (files t)[fd := FdFree] \<rparr>) k else k"
  have c: "fd_ok x k'" "same_files ?k0 k'" using close_descriptor_ok [OF assms(1,3), of fd] assms(4,5) by (auto simp: live_def)
  have "finished_closed ?k0" using assms(2,4) own_files_closed by (simp add: live_def)
  moreover have "length (k_tasks ?k0) = 8" using fd_ok_length(1) [OF assms(1)] by (simp add: at_task_def)
  ultimately show ?thesis using c same_files_closed by blast
qed

lemma make_pipe_closed:
  assumes "fd_ok (\<lambda>_. 0) k" "finished_closed k" "tid < MAX_TASKS" "live (task tid k)" "make_pipe_ends tid k = Some (r, k')"
  shows "fd_ok (\<lambda>_. 0) k' \<and> finished_closed k'"
proof -
  have l: "state (task tid k) \<noteq> Free" "state (task tid k) \<noteq> Finished" using assms(4) by (simp_all add: live_def)
  note m = make_pipe_ends_ok [OF assms(1,3) l(1)]
  have "finished_closed k'"
  proof (cases r)
    case None
    then show ?thesis using m assms(5) same_files_closed [OF assms(2)] fd_ok_length(1) [OF assms(1)] by simp
  next
    case (Some q)
    then obtain fs where "k_tasks k' = k_tasks (at_task tid (\<lambda>t. t\<lparr> files := fs \<rparr>) k)"
      using m assms(5) by (cases q) (auto simp: at_task_def task_def)
    then show ?thesis using own_files_closed [OF assms(2) l(2), of "\<lambda>_. fs"] by (simp add: finished_closed_def task_def)
  qed
  then show ?thesis using m assms(5) by simp
qed

lemma duplicate_closed:
  assumes "fd_ok (\<lambda>_. 0) k" "finished_closed k" "tid < MAX_TASKS" "live (task tid k)" "duplicate_descriptor tid old new k = Some (b, k')"
  shows "fd_ok (\<lambda>_. 0) k' \<and> finished_closed k'"
proof -
  have l: "state (task tid k) \<noteq> Free" "state (task tid k) \<noteq> Finished" using assms(4) by (simp_all add: live_def)
  have d: "fd_ok (\<lambda>_. 0) k'" "\<forall>i < MAX_TASKS. (i \<noteq> tid \<longrightarrow> files (task i k') = files (task i k)) \<and> (state (task i k') = Finished \<longleftrightarrow> state (task i k) = Finished)"
    using duplicate_descriptor_ok [OF assms(1,3) l(1), of old new] assms(5) by auto
  have "finished_closed k'" by (rule finished_closed_frame [OF assms(2)]) (use d(2) l(2) in metis)
  then show ?thesis using d(1) by simp
qed

lemma finish_closed:
  assumes "fd_ok x k" "finished_closed k" "tid < MAX_TASKS" "live (task tid k)" "finish tid code k = Some k'"
  shows "fd_ok x k' \<and> finished_closed k'"
proof -
  have f: "fd_ok x k'" "files (task tid k') = replicate 8 FdFree" "\<forall>i < 8. i \<noteq> tid \<longrightarrow> fd_view (task i k') = fd_view (task i k)"
    using finish_ok [OF assms(1,3), of code] assms(4,5) by (auto simp: live_def)
  have "no_pipes (task tid k')" using f(2) by (simp add: no_pipes_def)
  then have "finished_closed k'"
    by (intro finished_closed_frame [OF assms(2)]) (use f(3) in \<open>auto simp: fd_view_def\<close>)
  then show ?thesis using f(1) by simp
qed

lemma kernel_exit_closed:
  assumes "fd_ok x k" "finished_closed k" "tid < MAX_TASKS" "live (task tid k)" "no_pipes (task tid k)"
  shows "fd_ok x (mark_finished tid code k) \<and> finished_closed (mark_finished tid code k)"
proof -
  note l = fd_ok_length(1) [OF assms(1)]
  have "task i (mark_finished tid code k) =
      (if i = tid then (task tid k)\<lparr> exit_code := code, state := Finished \<rparr> else wake (word_of_nat tid) (task i k))" if "i < 8" for i
    using that assms(3) l by (simp add: mark_finished_def wake_all_def at_task_def task_def nth_list_update wake_def)
  then have "finished_closed (mark_finished tid code k)"
    by (intro finished_closed_frame [OF assms(2)]) (use assms(5) in \<open>auto simp: no_pipes_def split: if_splits\<close>)
  then show ?thesis using mark_finished_ok [OF assms(1,3)] assms(4) by (simp add: live_def)
qed

lemma collect_child_tasks:
  "\<exists>tid. k_tasks (snd (collect_child par k)) = (k_tasks k)[tid := Task_empty] \<or> k_tasks (snd (collect_child par k)) = k_tasks k"
  by (auto simp: collect_child_def clear_slot_def at_task_def split: option.splits)

lemma collect_child_closed:
  assumes "fd_ok x k" "finished_closed k"
  shows "finished_closed (snd (collect_child par k))"
proof (rule finished_closed_frame [OF assms(2)])
  fix i assume i: "i < MAX_TASKS" "state (task i (snd (collect_child par k))) = Finished"
  obtain tid where t: "k_tasks (snd (collect_child par k)) = (k_tasks k)[tid := Task_empty] \<or> k_tasks (snd (collect_child par k)) = k_tasks k"
    using collect_child_tasks by blast
  show "state (task i k) = Finished \<and> files (task i (snd (collect_child par k))) = files (task i k) \<or>
      no_pipes (task i (snd (collect_child par k)))"
    using i t fd_ok_length(1) [OF assms(1)] by (cases "i = tid") (auto simp: task_def Task_empty_def no_pipes_def)
qed

lemma fd_step_inv: "fd_step k k' \<Longrightarrow> fd_inv k \<Longrightarrow> fd_inv k'"
  unfolding fd_inv_def
proof (induction rule: fd_step.induct)
  case (pipe tid k r k')
  then show ?case using make_pipe_closed by blast
next
  case (close tid k fd b k')
  then show ?case using close_descriptor_closed by blast
next
  case (dup2 tid k old new b k')
  then show ?case using duplicate_closed by blast
next
  case (exit tid k code k')
  then show ?case using finish_closed by blast
next
  case (fork par k base root frame q k')
  then show ?case using fork_from_ok [of k par base root frame] fork_tasks [OF fork(3)] new_task_closed fd_ok_length(1) by fastforce
next
  case (start_user k base name entry stack root pa argc argv)
  then show ?case
    using spawn_user_ok spawn_user_tasks [of base name entry stack root pa argc argv k] new_task_closed fd_ok_length(1) by metis
next
  case (start_kernel k entry base name w prio)
  then show ?case
    using spawn_ok spawn_tasks [of entry base name w prio k] new_task_closed fd_ok_length(1) by metis
next
  case (kernel_exit tid k code)
  then show ?case using kernel_exit_closed by blast
next
  case (wait k par)
  then show ?case using collect_child_ok collect_child_closed by blast
next
  case (reap k)
  then show ?case using reap_finished_ok by blast
next
  case (other k k')
  then show ?case using pipe_views same_files_closed fd_ok_length(1) by blast
qed

lemma fd_inv_boot: "fd_inv (Kernel_boot m u root)"
proof -
  have np: "no_pipes Task_empty" "length (files Task_empty) = 8" "state Task_empty = Free" by (simp_all add: no_pipes_def Task_empty_def)
  have "ends d (replicate n Task_empty) = n * count_list (files Task_empty) d" for n d
    by (induction n) (simp_all add: ends_def)
  then have "ends (PipeRead p) (replicate 8 Task_empty) = 0" "ends (PipeWrite p) (replicate 8 Task_empty) = 0" for p
    using no_pipes_count [OF np(1)] by simp_all
  then show ?thesis using np
    by (simp add: fd_inv_def fd_ok_def tables_ok_def counts_ok_def finished_closed_def Kernel_boot_def PIPES_init_def Pipe_empty_def task_def)
qed

interpretation fd: invariant "\<lambda>k. \<exists>m u root. k = Kernel_boot m u root" fd_step fd_inv
  by unfold_locales (auto intro: fd_inv_boot fd_step_inv)

text \<open>
  C2: The reference counts of a pipe are the numbers of descriptors that refer to it. In every state
  the calls of any tasks can lead to, in any order (a kill by the scheduler excepted), each pipe has as many readers and writers as there
  are read and write descriptors for it in the tables of all tasks, it is in use exactly while there
  is one, and no descriptor names a pipe outside the table.
\<close>

theorem pipe_ends_counted:
  assumes "fd_step\<^sup>*\<^sup>* (Kernel_boot m u root) k"
  shows "(\<forall>p < MAX_PIPES. unat (readers (k_pipes k ! p)) = ends (PipeRead p) (k_tasks k) \<and>
      unat (writers (k_pipes k ! p)) = ends (PipeWrite p) (k_tasks k) \<and>
      (used (k_pipes k ! p) \<longleftrightarrow> (\<exists>t \<in> set (k_tasks k). PipeRead p \<in> set (files t) \<or> PipeWrite p \<in> set (files t)))) \<and>
    (\<forall>t \<in> set (k_tasks k). \<forall>p. PipeRead p \<in> set (files t) \<or> PipeWrite p \<in> set (files t) \<longrightarrow> p < MAX_PIPES)"
proof -
  have ok: "counts_ok (\<lambda>_. 0) (k_tasks k) (k_pipes k)"
    using fd.reached [OF _ assms] by (auto simp: fd_inv_def fd_ok_def)
  have "used (k_pipes k ! p) \<longleftrightarrow> ends (PipeRead p) (k_tasks k) \<noteq> 0 \<or> ends (PipeWrite p) (k_tasks k) \<noteq> 0" if "p < 8" for p
    using ok that counts_0 [OF ok that] by (simp add: counts_ok_def) arith
  moreover have "p < 8" if "ends (PipeRead p) (k_tasks k) \<noteq> 0 \<or> ends (PipeWrite p) (k_tasks k) \<noteq> 0" for p
    using ok that unfolding counts_ok_def by (metis add_0_right leI)
  ultimately show ?thesis using ok by (simp add: counts_ok_def ends_0_iff) blast
qed


text \<open>The demonstration kernel with a live task in slot 1.\<close>

definition fd_demo :: Kernel where
  "fd_demo = snd (spawn_user 0x9000000000 [97] 0x400000 0x7000 0x5000 (Some 0) 1 0x7008 boot_demo)"

lemma fd_demo_reach: "fd_step\<^sup>*\<^sup>* boot_demo fd_demo" "live (task 1 fd_demo)" "files (task 1 fd_demo) = console_files"
  "length (k_tasks fd_demo) = 8" "k_pipes fd_demo = PIPES_init"
proof -
  show "fd_step\<^sup>*\<^sup>* boot_demo fd_demo" unfolding fd_demo_def by (rule r_into_rtranclp) (rule fd_step.start_user)
  obtain sp k1 where b: "build_user_frame (stack_end 0x9000000000) 0x400000 0x7000 1 0x7008 (zero_stack 0x9000000000 boot_demo) = (sp, k1)"
    by fastforce
  then have "k_tasks k1 = replicate 8 Task_empty" "k_pipes k1 = PIPES_init"
    using push_all_fields [OF b [unfolded build_user_frame_def]] by (simp_all add: boot_demo_tasks(1)) (simp add: Kernel_boot_def)
  then show "live (task 1 fd_demo)" "files (task 1 fd_demo) = console_files" "length (k_tasks fd_demo) = 8" "k_pipes fd_demo = PIPES_init"
    by (simp_all add: fd_demo_def spawn_user_def boot_demo_tasks find_free_demo b Let_def task_at_other live_def) (simp_all add: at_task_def)
qed

lemma demo_create: "create PIPES_init = Some (0, PIPES_init[0 := Pipe_empty\<lparr> readers := 1, writers := 1, used := True \<rparr>])"
  by (simp add: create_def PIPES_init_def Pipe_empty_def numeral_eq_Suc)

lemma demo_pipe: "\<exists>k. make_pipe_ends 1 fd_demo = Some (Some (0, 3, 4), k)"
proof -
  have "position (\<lambda>x. x = FdFree) console_files = Some 3" "position (\<lambda>x. x = FdFree) (console_files[3 := PipeRead 0]) = Some 4"
    by (simp_all add: console_files_def numeral_eq_Suc)
  then show ?thesis
    using fd_demo_reach(3-5) by (simp add: make_pipe_ends_def demo_create add_descriptor_def task_at_other)
qed

definition piped_demo :: Kernel where
  "piped_demo = snd (the (make_pipe_ends 1 fd_demo))"

lemma piped_demo_reach: "make_pipe_ends 1 fd_demo = Some (Some (0, 3, 4), piped_demo)" "fd_step\<^sup>*\<^sup>* boot_demo piped_demo"
proof -
  show k: "make_pipe_ends 1 fd_demo = Some (Some (0, 3, 4), piped_demo)" using demo_pipe by (auto simp: piped_demo_def)
  have "fd_step fd_demo piped_demo" by (rule fd_step.pipe [of 1, OF _ fd_demo_reach(2) k]) simp
  then show "fd_step\<^sup>*\<^sup>* boot_demo piped_demo" using fd_demo_reach(1) by (meson rtranclp.simps)
qed

theorem pipe_ends_counted_witness:
  "make_pipe_ends 1 fd_demo = Some (Some (0, 3, 4), piped_demo) \<and>
   unat (writers (k_pipes piped_demo ! 0)) = ends (PipeWrite 0) (k_tasks piped_demo)"
  using pipe_ends_counted [OF piped_demo_reach(2)] piped_demo_reach(1) by simp

text \<open>
  C26: No descriptor number a program can pass makes the kernel panic. For a live task of a reachable
  state, \<open>pipe\<close>, \<open>close\<close>, \<open>dup2\<close>, \<open>fork\<close> and \<open>exit\<close> all complete: \<open>close\<close> reports whether there was
  something to close, \<open>dup2\<close> succeeds exactly on two numbers below 8 of which the first is open, and then
  the second means what the first does, a new pipe takes two free descriptors and a pipe nobody
  refers to, or nothing changes, and a task that exits holds no descriptor.
\<close>

theorem descriptor_calls_total:
  assumes "fd_step\<^sup>*\<^sup>* (Kernel_boot m u root) k" "tid < MAX_TASKS" "live (task tid k)"
  shows "(\<exists>k'. close_descriptor tid fd k = Some (descriptor tid fd k \<noteq> FdFree, k')) \<and>
    (\<exists>b k'. duplicate_descriptor tid fd fd' k = Some (b, k') \<and>
       (b \<longleftrightarrow> fd < MAX_FILES \<and> fd' < MAX_FILES \<and> descriptor tid fd k \<noteq> FdFree) \<and>
       (b \<longrightarrow> files (task tid k') = (files (task tid k))[fd' := files (task tid k) ! fd])) \<and>
    (\<exists>r k'. make_pipe_ends tid k = Some (r, k') \<and> (case r of
       None \<Rightarrow> same_files k k'
     | Some (p, rd, wr) \<Rightarrow> p < MAX_PIPES \<and> ends (PipeRead p) (k_tasks k) = 0 \<and> ends (PipeWrite p) (k_tasks k) = 0 \<and>
         rd \<noteq> wr \<and> files (task tid k) ! rd = FdFree \<and> files (task tid k) ! wr = FdFree \<and>
         files (task tid k') = (files (task tid k))[rd := PipeRead p, wr := PipeWrite p])) \<and>
    fork_from base tid root' frame k \<noteq> None \<and>
    (\<exists>k'. finish tid code k = Some k' \<and> state (task tid k') = Finished \<and> exit_code (task tid k') = code \<and>
       files (task tid k') = replicate MAX_FILES FdFree)"
proof -
  have inv: "fd_ok (\<lambda>_. 0) k" using fd.reached [OF _ assms(1)] by (auto simp: fd_inv_def)
  have st: "state (task tid k) \<noteq> Free" using assms(3) by (simp add: live_def)
  note l = fd_ok_length(1) [OF inv]
  show ?thesis
  proof (intro conjI)
    show "\<exists>k'. close_descriptor tid fd k = Some (descriptor tid fd k \<noteq> FdFree, k')"
      using close_descriptor_ok [OF inv assms(2) st, of fd] by blast
    show "\<exists>b k'. duplicate_descriptor tid fd fd' k = Some (b, k') \<and>
       (b \<longleftrightarrow> fd < MAX_FILES \<and> fd' < MAX_FILES \<and> descriptor tid fd k \<noteq> FdFree) \<and>
       (b \<longrightarrow> files (task tid k') = (files (task tid k))[fd' := files (task tid k) ! fd])"
      using duplicate_descriptor_ok [OF inv assms(2) st, of fd fd'] by blast
    obtain r k' where m: "make_pipe_ends tid k = Some (r, k')" "(case r of
       None \<Rightarrow> same_files k k'
     | Some (p, rd, wr) \<Rightarrow> rd < MAX_FILES \<and> wr < MAX_FILES \<and> rd \<noteq> wr \<and> p < MAX_PIPES \<and>
         ends (PipeRead p) (k_tasks k) = 0 \<and> ends (PipeWrite p) (k_tasks k) = 0 \<and>
         files (task tid k) ! rd = FdFree \<and> files (task tid k) ! wr = FdFree \<and>
         k_tasks k' = (k_tasks k)[tid := (task tid k)\<lparr> files := (files (task tid k))[rd := PipeRead p, wr := PipeWrite p] \<rparr>])"
      using make_pipe_ends_ok [OF inv assms(2) st] by blast
    then show "\<exists>r k'. make_pipe_ends tid k = Some (r, k') \<and> (case r of
       None \<Rightarrow> same_files k k'
     | Some (p, rd, wr) \<Rightarrow> p < MAX_PIPES \<and> ends (PipeRead p) (k_tasks k) = 0 \<and> ends (PipeWrite p) (k_tasks k) = 0 \<and>
         rd \<noteq> wr \<and> files (task tid k) ! rd = FdFree \<and> files (task tid k) ! wr = FdFree \<and>
         files (task tid k') = (files (task tid k))[rd := PipeRead p, wr := PipeWrite p])"
      using assms(2) l by (intro exI [of _ r] exI [of _ k']) (auto simp: task_def split: option.splits)
    show "fork_from base tid root' frame k \<noteq> None" using fork_from_ok [OF inv assms(2), of base root' frame] by auto
    show "\<exists>k'. finish tid code k = Some k' \<and> state (task tid k') = Finished \<and> exit_code (task tid k') = code \<and>
       files (task tid k') = replicate MAX_FILES FdFree"
      using finish_ok [OF inv assms(2) st, of code] by blast
  qed
qed

theorem descriptor_calls_total_witness:
  "(\<exists>k. close_descriptor 1 2 fd_demo = Some (True, k)) \<and> (\<exists>k. close_descriptor 1 200 fd_demo = Some (False, k)) \<and>
   (\<exists>k. finish 1 42 fd_demo = Some k \<and> exit_code (task 1 k) = 42 \<and> files (task 1 k) = replicate 8 FdFree)"
proof -
  have "descriptor 1 2 fd_demo = Console" "descriptor 1 200 fd_demo = FdFree"
    by (simp_all add: descriptor_def fd_demo_reach(3) [simplified] console_files_def)
  then show ?thesis
    using descriptor_calls_total [OF fd_demo_reach(1) _ fd_demo_reach(2), of 2]
      descriptor_calls_total [OF fd_demo_reach(1) _ fd_demo_reach(2), of 200] by fastforce
qed

text \<open>
  As long as no task is killed by a signal in the scheduler (see \<open>reaping_a_killed_task_leaks\<close> below),
  a reader sees end of file exactly when nothing is left in the pipe and no task holds a write
  descriptor for it any more.
\<close>

theorem end_of_file_iff_no_writer:
  assumes "fd_step\<^sup>*\<^sup>* (Kernel_boot m u root) k" "p < MAX_PIPES" "0 < n"
  shows "fst (take_section n (k_pipes k ! p)) = Some [] \<longleftrightarrow>
    plen (k_pipes k ! p) = 0 \<and> (\<forall>t \<in> set (k_tasks k). PipeWrite p \<notin> set (files t))"
proof -
  have ok: "counts_ok (\<lambda>_. 0) (k_tasks k) (k_pipes k)"
    using fd.reached [OF _ assms(1)] by (auto simp: fd_inv_def fd_ok_def)
  have w: "writers (k_pipes k ! p) = 0 \<longleftrightarrow> ends (PipeWrite p) (k_tasks k) = 0"
    using counts_0(2) [OF ok assms(2)] by simp
  have "fst (copy_out b t (Suc c)) \<noteq> []" for b t c by (simp add: case_prod_unfold Let_def)
  then have "fst (copy_out b t c) = [] \<longleftrightarrow> c = 0" for b t c by (cases c) simp_all
  then show ?thesis using w assms(3) by (auto simp: take_section_def Let_def case_prod_unfold ends_0_iff)
qed

theorem end_of_file_iff_no_writer_witness:
  "fst (take_section 8 (k_pipes fd_demo ! 0)) = Some [] \<and> PipeWrite 0 \<notin> set (files (task 1 fd_demo))"
proof
  show e: "fst (take_section 8 (k_pipes fd_demo ! 0)) = Some []"
    by (simp add: fd_demo_reach(5) PIPES_init_def Pipe_empty_def take_section_def)
  have t: "task 1 fd_demo \<in> set (k_tasks fd_demo)" using fd_demo_reach(4) by (simp add: task_def)
  have "0 < (8 :: nat)" by simp
  from end_of_file_iff_no_writer [OF fd_demo_reach(1) this this] e
  have "\<forall>t \<in> set (k_tasks fd_demo). PipeWrite 0 \<notin> set (files t)" by (rule iffD1 [THEN conjunct2])
  then show "PipeWrite 0 \<notin> set (files (task 1 fd_demo))" using t by (rule bspec)
qed

text \<open>
  A task that the scheduler kills by a signal keeps its descriptors, and reaping it forgets them
  without closing: the pipe keeps counting a writer that no task has, so its readers wait
  for ever.
\<close>

theorem reaping_a_killed_task_leaks:
  assumes "fd_ok (\<lambda>_. 0) k" "tid < MAX_TASKS" "PipeWrite p \<in> set (files (task tid k))" "p < MAX_PIPES"
  shows "ends (PipeWrite p) (k_tasks (clear_slot tid k)) < unat (writers (k_pipes (clear_slot tid k) ! p))"
proof -
  have l: "length (k_tasks k) = 8" by (rule fd_ok_length(1) [OF assms(1)])
  have "count_list (files Task_empty) (PipeWrite p) = 0" by (simp add: Task_empty_def count_list_0_iff)
  then have "ends (PipeWrite p) ((k_tasks k)[tid := Task_empty]) + count_list (files (task tid k)) (PipeWrite p) = ends (PipeWrite p) (k_tasks k)"
    using ends_update [of tid "k_tasks k" "PipeWrite p" Task_empty] assms(2) l by (simp add: task_def)
  moreover have "0 < count_list (files (task tid k)) (PipeWrite p)" using assms(3) by (simp add: count_list_0_iff flip: neq0_conv)
  moreover have "unat (writers (k_pipes k ! p)) = ends (PipeWrite p) (k_tasks k)"
    using assms(1,4) by (simp add: fd_ok_def counts_ok_def)
  ultimately show ?thesis by (simp add: clear_slot_def at_task_def)
qed


theorem reaping_a_killed_task_leaks_witness:
  "ends (PipeWrite 0) (k_tasks (clear_slot 1 piped_demo)) < unat (writers (k_pipes (clear_slot 1 piped_demo) ! 0))"
proof -
  have inv: "fd_ok (\<lambda>_. 0) fd_demo" "fd_ok (\<lambda>_. 0) piped_demo"
    using fd.reached [OF _ fd_demo_reach(1)] fd.reached [OF _ piped_demo_reach(2)] by (auto simp: fd_inv_def)
  have "k_tasks piped_demo = (k_tasks fd_demo)[1 := (task 1 fd_demo)\<lparr> files := (files (task 1 fd_demo))[3 := PipeRead 0, 4 := PipeWrite 0] \<rparr>]"
    using make_pipe_ends_ok [OF inv(1), of 1] piped_demo_reach(1) fd_demo_reach(2) by (simp add: live_def)
  then have "files (task 1 piped_demo) ! 4 = PipeWrite 0" "length (files (task 1 piped_demo)) = 8"
    using fd_demo_reach(4) fd_ok_length(2) [OF inv(1), of 1] by (simp_all add: task_def)
  then have "PipeWrite 0 \<in> set (files (task 1 piped_demo))" by (metis nth_mem numeral_less_iff semiring_norm(76,78))
  from reaping_a_killed_task_leaks [OF inv(2) _ this] show ?thesis by simp
qed

end
