(* ===== verification/Sched_Fair.thy ===== *)
theory Sched_Fair
  imports Sched
begin

text \<open>
  Fairness and bookkeeping of \<open>kernel/src/sched.rs\<close>: how long a runnable task can be passed over
  under round robin and under aging, what an installed policy starts from, what the quantum
  means to the mechanism, and what the trace ring buffer remembers.
\<close>

section \<open>Aging\<close>

text \<open>
  How far a task's waiting has outgrown its priority number. The policy picks a ready task of
  greatest excess. The invariant bounds, for every level \<open>j\<close>, how many tasks can have an
  excess of at least \<open>j\<close>: one fewer for each further level, so none reaches eight.
\<close>

definition excess :: "(nat \<Rightarrow> u8) \<Rightarrow> Aging \<Rightarrow> nat \<Rightarrow> int" where
  "excess prio s i = uint (waited s ! i) - uint (prio i)"

definition aging_inv :: "(nat \<Rightarrow> u8) \<Rightarrow> Aging \<Rightarrow> bool" where
  "aging_inv prio s \<longleftrightarrow> aging_wf s \<and>
     (\<forall>j \<in> {1..8}. int (card {i. i < MAX_TASKS \<and> j \<le> excess prio s i}) + j \<le> 8)"

lemma finite_excess [simp]: "finite {i. i < (8::nat) \<and> P i}"
  by simp

lemma aging_invD:
  "aging_inv prio s \<Longrightarrow> 1 \<le> j \<Longrightarrow> j \<le> 8 \<Longrightarrow>
   int (card {i. i < 8 \<and> j \<le> excess prio s i}) + j \<le> 8"
  by (simp add: aging_inv_def)

lemma excess_le_7:
  assumes "aging_inv prio s" and "i < 8"
  shows "excess prio s i \<le> 7"
proof (rule ccontr)
  assume "\<not> ?thesis"
  then have "i \<in> {i. i < 8 \<and> 8 \<le> excess prio s i}" using assms(2) by simp
  then have "0 < card {i. i < 8 \<and> 8 \<le> excess prio s i}" by (auto simp: card_gt_0_iff)
  moreover have "int (card {i. i < 8 \<and> 8 \<le> excess prio s i}) + 8 \<le> 8"
    using aging_invD [OF assms(1), of 8] by simp
  ultimately show False by simp
qed

lemma waited_bound:
  assumes "aging_inv prio s" and "i < 8"
  shows "unat (waited s ! i) \<le> unat (prio i) + 7"
proof -
  have "int (unat (waited s ! i)) \<le> int (unat (prio i) + 7)"
    using excess_le_7 [OF assms] by (simp add: excess_def)
  then show ?thesis by (rule zle_int [THEN iffD1])
qed

lemma waited_no_saturation:
  assumes "aging_inv prio s" and "i < 8"
  shows "uint (saturating_add (waited s ! i) 1) = uint (waited s ! i) + 1"
proof -
  have "unat (waited s ! i) + 1 < 65536"
    using waited_bound [OF assms] unat_u8_less [of "prio i"] by simp
  then have "int (unat (saturating_add (waited s ! i) 1)) = int (unat (waited s ! i) + 1)"
    by (simp add: unat_saturating_add)
  then show ?thesis by simp
qed

text \<open>An excess that does not grow anywhere keeps the invariant.\<close>

lemma aging_inv_mono:
  assumes "aging_inv prio s" and "aging_wf s'"
    and le: "\<And>i. i < 8 \<Longrightarrow> excess prio' s' i \<le> max 0 (excess prio s i)"
  shows "aging_inv prio' s'"
  unfolding aging_inv_def
proof (intro conjI ballI)
  fix j :: int assume "j \<in> {1..8}"
  then have j: "1 \<le> j" "j \<le> 8" by auto
  have "{i. i < 8 \<and> j \<le> excess prio' s' i} \<subseteq> {i. i < 8 \<and> j \<le> excess prio s i}"
    using le j by (fastforce simp: max_def split: if_splits)
  then have "card {i. i < 8 \<and> j \<le> excess prio' s' i} \<le> card {i. i < 8 \<and> j \<le> excess prio s i}"
    by (intro card_mono) auto
  then show "int (card {i. i < MAX_TASKS \<and> j \<le> excess prio' s' i}) + j \<le> 8"
    using aging_invD [OF assms(1) j] by linarith
qed (use assms in simp)

lemma waited_aging_pick:
  assumes "aging_wf s" and "i < 8"
  shows "waited (snd (aging_pick s q)) ! i =
    (let winner = (case fst (aging_pick s q) of Some m \<Rightarrow> m | None \<Rightarrow> rq_current q) in
     if i = winner then 0
     else if is_ready q i then saturating_add (waited s ! i) 1 else waited s ! i)"
  using assms by (auto simp: aging_pick_def Let_def aging_wf_def nth_list_update)

lemma aging_inv_pick:
  assumes inv: "aging_inv prio s" and prio: "\<And>i. i < 8 \<Longrightarrow> rq_priority q i = prio i"
  shows "aging_inv prio (snd (aging_pick s q))"
proof (cases "fst (aging_pick s q)")
  case None
  then have nr: "\<not> is_ready q i" for i by (simp add: aging_pick_spec ready_Nil)
  have wf: "aging_wf s" using inv by (simp add: aging_inv_def)
  show ?thesis
  proof (rule aging_inv_mono [OF inv aging_wf_pick [OF wf]])
    fix i :: nat assume "i < 8"
    with None nr show "excess prio (snd (aging_pick s q)) i \<le> max 0 (excess prio s i)"
      by (simp add: excess_def waited_aging_pick [OF wf] Let_def max_def)
  qed
next
  case (Some r)
  let ?s = "snd (aging_pick s q)"
  have wf: "aging_wf s" using inv by (simp add: aging_inv_def)
  have r: "is_ready q r" "r < 8" and
    best: "is_ready q d \<Longrightarrow> excess prio s d \<le> excess prio s r" for d
    using aging_pick_spec(2) [OF Some] is_ready_less prio
    by (fastforce simp: effective_def excess_def)+
  have won: "excess prio ?s r \<le> 0"
    using r(2) by (simp add: excess_def waited_aging_pick [OF wf] Some)
  have lost: "excess prio ?s i = excess prio s i + (if is_ready q i then 1 else 0)"
    if "i < 8" "i \<noteq> r" for i
    using that by (simp add: excess_def waited_aging_pick [OF wf] Some waited_no_saturation [OF inv])
  show ?thesis
    unfolding aging_inv_def
  proof (intro conjI ballI)
    fix j :: int assume "j \<in> {1..8}"
    then have j: "1 \<le> j" "j \<le> 8" by auto
    let ?A = "\<lambda>j. {i. i < 8 \<and> j \<le> excess prio s i}"
    let ?B = "{i. i < 8 \<and> j \<le> excess prio ?s i}"
    have bound: "int (card (?A k)) + k \<le> 8" if "1 \<le> k" "k \<le> 8" for k
      using inv that by (auto simp: aging_inv_def)
    have "int (card ?B) + j \<le> 8"
    proof (cases "j \<le> excess prio s r + 1")
      case True
      have "?B \<subseteq> ?A (j - 1) - {r}"
        using won lost j by (fastforce split: if_splits)
      then have "card ?B \<le> card (?A (j - 1) - {r})" by (intro card_mono) auto
      also have "\<dots> = card (?A (j - 1)) - 1"
        using True r(2) by (intro card_Diff_singleton) auto
      finally have le: "card ?B \<le> card (?A (j - 1)) - 1" .
      have "0 < card (?A (j - 1))" using True r(2) by (auto simp: card_gt_0_iff)
      with le have "int (card ?B) + 1 \<le> int (card (?A (j - 1)))" by linarith
      moreover have "int (card (?A (j - 1))) + (j - 1) \<le> 8"
      proof (cases "j = 1")
        case True
        have "card (?A (j - 1)) \<le> card {..<8::nat}" by (intro card_mono) auto
        with True show ?thesis by simp
      next
        case False with j show ?thesis by (intro bound) simp_all
      qed
      ultimately show ?thesis by simp
    next
      case False
      have "?B \<subseteq> ?A j"
      proof
        fix i assume i: "i \<in> ?B"
        then have "i \<noteq> r" using won j by auto
        then show "i \<in> ?A j" using i lost [of i] best [of i] False by (auto split: if_splits)
      qed
      then have "card ?B \<le> card (?A j)" by (intro card_mono) auto
      with bound [OF j] show ?thesis by linarith
    qed
    then show "int (card {i. i < MAX_TASKS \<and> j \<le> excess prio ?s i}) + j \<le> 8" .
  qed (use wf in \<open>simp add: aging_wf_pick\<close>)
qed

text \<open>
  Everything that can happen to the policy: picks against arbitrary runnable sets, slots being
  filled (which is when a priority is set) and slots being freed.
\<close>

inductive aging_reach :: "(nat \<Rightarrow> u8) \<Rightarrow> Aging \<Rightarrow> bool" where
  fresh: "aging_reach prio (aging_reset s)"
| picked: "aging_reach prio s \<Longrightarrow> (\<And>i. i < MAX_TASKS \<Longrightarrow> rq_priority q i = prio i) \<Longrightarrow>
     aging_reach prio (snd (aging_pick s q))"
| created: "aging_reach prio s \<Longrightarrow> aging_reach (prio(i := p)) (aging_on_ready s i)"
| exited: "aging_reach prio s \<Longrightarrow> aging_reach prio (aging_on_exit s i)"

lemma aging_inv_set:
  assumes "aging_inv prio s"
  shows "aging_inv (prio(i := p)) (s\<lparr>waited := (waited s)[i := 0]\<rparr>)"
proof (rule aging_inv_mono [OF assms])
  show "aging_wf (s\<lparr>waited := (waited s)[i := 0]\<rparr>)"
    using assms by (simp add: aging_inv_def aging_wf_def)
next
  fix k :: nat assume k: "k < 8"
  have "- uint p \<le> 0" by simp
  then show "excess (prio(i := p)) (s\<lparr>waited := (waited s)[i := 0]\<rparr>) k \<le> max 0 (excess prio s k)"
    using assms k by (auto simp: excess_def nth_list_update aging_inv_def aging_wf_def le_max_iff_disj)
qed

lemma aging_inv_prio: "aging_inv prio s \<Longrightarrow> (\<And>i. i < 8 \<Longrightarrow> prio' i = prio i) \<Longrightarrow> aging_inv prio' s"
  by (rule aging_inv_mono [where prio = prio and s = s]) (auto simp: aging_inv_def excess_def)

lemma aging_reach_inv: "aging_reach prio s \<Longrightarrow> aging_inv prio s"
proof (induction rule: aging_reach.induct)
  case (fresh prio s)
  have "excess prio (aging_reset s) i \<le> 0" if "i < 8" for i
    using that by (simp add: excess_def aging_reset_def)
  then have none: "{i. i < 8 \<and> j \<le> excess prio (aging_reset s) i} = {}" if "1 \<le> j" for j
    using that by fastforce
  show ?case
    unfolding aging_inv_def by (auto simp: none) (simp add: aging_wf_def aging_reset_def)
next
  case (picked prio s q)
  then show ?case by (blast intro: aging_inv_pick)
next
  case (created prio s i p)
  show ?case
  proof (cases "i < 8")
    case True
    with aging_inv_set [OF created.IH] show ?thesis by (simp only: aging_on_ready_def if_True)
  next
    case False
    then have "aging_inv (prio(i := p)) s" by (intro aging_inv_prio [OF created.IH]) auto
    with False show ?thesis by (simp only: aging_on_ready_def if_False)
  qed
next
  case (exited prio s i)
  then show ?case
    using aging_inv_set [of prio s i "prio i"] by (simp add: aging_on_exit_def)
qed

fun aging_answers :: "Aging \<Rightarrow> RunQueue list \<Rightarrow> nat option list" where
  "aging_answers s [] = []"
| "aging_answers s (q # qs) = fst (aging_pick s q) # aging_answers (snd (aging_pick s q)) qs"

fun aging_after :: "Aging \<Rightarrow> RunQueue list \<Rightarrow> Aging" where
  "aging_after s [] = s"
| "aging_after s (q # qs) = aging_after (snd (aging_pick s q)) qs"

lemma aging_inv_after:
  "aging_inv prio s \<Longrightarrow> (\<And>q k. q \<in> set qs \<Longrightarrow> k < 8 \<Longrightarrow> rq_priority q k = prio k) \<Longrightarrow>
   aging_inv prio (aging_after s qs)"
  by (induction qs arbitrary: s) (auto intro: aging_inv_pick)

lemma passed_over_counts:
  assumes "aging_inv prio s" and "i < 8"
    and "\<And>q k. q \<in> set qs \<Longrightarrow> k < 8 \<Longrightarrow> rq_priority q k = prio k"
    and "\<And>q. q \<in> set qs \<Longrightarrow> is_ready q i"
    and "Some i \<notin> set (aging_answers s qs)"
  shows "uint (waited (aging_after s qs) ! i) = uint (waited s ! i) + int (length qs)"
  using assms
proof (induction qs arbitrary: s)
  case (Cons q qs)
  have inv': "aging_inv prio (snd (aging_pick s q))"
    using Cons.prems(1,3) by (intro aging_inv_pick) auto
  have ne: "fst (aging_pick s q) \<noteq> None"
    using Cons.prems(4) [of q] by (auto simp: aging_pick_spec ready_Nil)
  have "waited (snd (aging_pick s q)) ! i = saturating_add (waited s ! i) 1"
    using Cons.prems ne by (auto simp: waited_aging_pick aging_inv_def)
  then have "uint (waited (snd (aging_pick s q)) ! i) = uint (waited s ! i) + 1"
    using waited_no_saturation [OF Cons.prems(1,2)] by simp
  moreover have "uint (waited (aging_after (snd (aging_pick s q)) qs) ! i) =
      uint (waited (snd (aging_pick s q)) ! i) + int (length qs)"
    using Cons.prems by (intro Cons.IH [OF inv']) auto
  ultimately show ?case by simp
qed simp

text \<open>
  C17: Under the aging policy no task starves, with a bound. Whatever happened since the policy
  was installed (picks against any runnable sets, slots filled and freed), a task that stays
  runnable is chosen within its priority plus eight scheduling rounds.
\<close>

theorem aging_bounded_waiting:
  assumes "aging_reach prio s" and "i < MAX_TASKS"
    and "\<forall>q \<in> set qs. is_ready q i \<and> (\<forall>k < MAX_TASKS. rq_priority q k = prio k)"
    and "unat (prio i) + 8 \<le> length qs"
  shows "Some i \<in> set (aging_answers s qs)"
proof (rule ccontr)
  assume never: "Some i \<notin> set (aging_answers s qs)"
  have inv: "aging_inv prio s" using assms(1) by (rule aging_reach_inv)
  have "uint (waited (aging_after s qs) ! i) = uint (waited s ! i) + int (length qs)"
    using assms(2,3) never by (intro passed_over_counts [OF inv]) auto
  moreover have "uint (waited (aging_after s qs) ! i) \<le> uint (prio i) + 7"
    using excess_le_7 [OF aging_inv_after [OF inv]] assms(2,3) by (force simp: excess_def)
  moreover have "uint (prio i) + 8 \<le> int (length qs)"
    using assms(4) by (metis of_nat_add of_nat_le_iff of_nat_numeral uint_nat)
  ultimately show False using uint_ge_0 [of "waited s ! i"] by linarith
qed

text \<open>A task at the bottom priority beside a task of priority 0 that never blocks.\<close>

definition hog_and_background :: RunQueue where
  "hog_and_background = RunQueue_new (test_table [(Ready, 0), (Free, 8), (Ready, 15)]) 0 0"

lemma hog_and_background_ready:
  "is_ready hog_and_background 0" "is_ready hog_and_background 2"
  by (simp_all add: hog_and_background_def RunQueue_new_def is_ready_def test_table_def)

theorem aging_bounded_waiting_witness:
  "Some 2 \<in> set (aging_answers (aging_reset Aging_new) (replicate 23 hog_and_background))"
proof -
  let ?prio = "rq_priority hog_and_background"
  have "unat (?prio 2) = 15"
    by (simp add: hog_and_background_def RunQueue_new_def rq_priority_def test_table_def)
  then show ?thesis
    by (intro aging_bounded_waiting [OF aging_reach.fresh, where prio = ?prio])
      (auto simp: hog_and_background_ready)
qed

text \<open>
  The counter of the aging policy stays within the task's priority plus seven in every
  reachable state, so the saturating 16-bit addition never saturates and the score always
  fits the signed 32-bit comparison.
\<close>

theorem aging_waited_bound:
  assumes "aging_reach prio s" and "i < MAX_TASKS"
  shows "unat (waited s ! i) \<le> unat (prio i) + 7"
  by (rule waited_bound [OF aging_reach_inv [OF assms(1)] assms(2)])

theorem aging_waited_bound_witness:
  "unat (waited (snd (aging_pick (aging_reset Aging_new) hog_and_background)) ! 2) \<le> 15 + 7"
proof -
  let ?prio = "rq_priority hog_and_background"
  have p: "unat (?prio 2) = 15"
    by (simp add: hog_and_background_def RunQueue_new_def rq_priority_def test_table_def)
  have "aging_reach ?prio (snd (aging_pick (aging_reset Aging_new) hog_and_background))"
    by (rule aging_reach.picked [OF aging_reach.fresh]) simp
  from aging_waited_bound [OF this, of 2] show ?thesis by (simp add: p)
qed

definition crowd :: "nat \<Rightarrow> RunQueue" where
  "crowd current = RunQueue_new
     (test_table [(Ready, 0), (Ready, 15), (Ready, 15), (Ready, 15)]) current 0"

lemma crowd_simps:
  "rq_current (crowd c) = c"
  "is_ready (crowd c) i \<longleftrightarrow> i < 4"
  "i < 4 \<Longrightarrow> rq_priority (crowd c) i = (if i = 0 then 0 else 15)"
  by (auto simp: crowd_def RunQueue_new_def is_ready_def rq_priority_def test_table_def
      Task_empty_def nth_Cons' less_Suc_eq numeral_eq_Suc)

fun crowd_run :: "nat \<Rightarrow> nat \<Rightarrow> Aging \<Rightarrow> nat \<times> Aging" where
  "crowd_run 0 current s = (current, s)"
| "crowd_run (Suc n) current s =
     (case aging_pick s (crowd current) of
        (Some next, s') \<Rightarrow> crowd_run n next s'
      | (None, s') \<Rightarrow> crowd_run n current s')"

lemma scan_order_0: "scan_order 0 = [1, 2, 3, 4, 5, 6, 7, 0]"
  by (simp add: scan_order_def upt_rec)

lemma scan_order_1: "scan_order (Suc 0) = [2, 3, 4, 5, 6, 7, 0, 1]"
  by (simp add: scan_order_def upt_rec)

lemma upt_0_8: "[0..<8] = [0, 1, 2, 3, 4, 5, 6, 7 :: nat]"
  by (simp add: upt_rec)

lemmas crowd_eval = aging_pick_def Let_def crowd_simps scan_order_0 scan_order_1 effective_def
  for_each_slot_def upt_0_8

lemma crowd_step:
  assumes "n < 15" and k: "k = word_of_nat n" and k': "k' = word_of_nat (Suc n)"
  shows "aging_pick \<lparr>waited = [0, k, k, k, 0, 0, 0, 0]\<rparr> (crowd 0) =
     (Some 0, \<lparr>waited = [0, k', k', k', 0, 0, 0, 0]\<rparr>)"
proof -
  have "uint k < 15" using assms by (simp add: unsigned_of_nat take_bit_eq_mod)
  moreover have "saturating_add k 1 = k'"
    using assms by (simp add: saturating_add_def unsigned_of_nat take_bit_eq_mod)
  ultimately show ?thesis by (simp add: crowd_eval)
qed

lemma crowd_warmup:
  "n \<le> 15 \<Longrightarrow> crowd_run (n + m) 0 (aging_reset Aging_new) =
     crowd_run m 0 \<lparr>waited = [0, word_of_nat n, word_of_nat n, word_of_nat n, 0, 0, 0, 0]\<rparr>"
proof (induction n arbitrary: m)
  case 0
  then show ?case by (simp add: aging_reset_def Aging_new_def numeral_eq_Suc)
next
  case (Suc n)
  from Suc.IH [of "Suc m"] Suc.prems show ?case by (simp add: crowd_step [OF _ refl refl])
qed

lemma crowd_turn:
  "crowd_run 16 0 (aging_reset Aging_new) = (1, \<lparr>waited = [1, 0, 16, 16, 0, 0, 0, 0]\<rparr>)"
  using crowd_warmup [of 15 1] by (simp add: crowd_eval saturating_add_def)

text \<open>
  The module comment says that a task skipped \<open>MAX_PRIORITY + 1\<close> times outranks anything
  on the machine. It does not: with one priority 0 task and three tasks of priority 15, the
  last of the three has been passed over sixteen times and is not chosen.
\<close>

theorem aging_sixteen_skips_not_enough:
  "let (current, s) = crowd_run 16 0 (aging_reset Aging_new)
   in unat (waited s ! 3) = unat MAX_PRIORITY + 1 \<and> is_ready (crowd current) 3 \<and>
      fst (aging_pick s (crowd current)) = Some 2"
  by (simp add: crowd_turn) (simp add: crowd_eval)

section \<open>Round robin\<close>

text \<open>How many slots the scan from \<open>current\<close> passes before it reaches \<open>i\<close>.\<close>

definition distance :: "nat \<Rightarrow> nat \<Rightarrow> nat" where
  "distance current i = (i + (7 - current mod 8)) mod 8"

lemma distance_less: "distance c i < 8"
  by (simp add: distance_def)

lemma scan_order_distance: "i < 8 \<Longrightarrow> scan_order c ! distance c i = i"
proof -
  assume i: "i < 8"
  have "(c + distance c i + 1) mod 8 = (c mod 8 + (i + (7 - c mod 8)) + 1) mod 8"
    unfolding distance_def by (metis mod_add_left_eq mod_add_right_eq)
  also have "c mod 8 + (i + (7 - c mod 8)) + 1 = i + 8" by (simp add: less_Suc_eq_le [symmetric])
  finally show ?thesis using i by (simp add: distance_less)
qed

lemma distance_scan: "k < 8 \<Longrightarrow> distance c (scan_order c ! k) = k"
proof -
  assume k: "k < 8"
  have "distance c (scan_order c ! k) = ((c + k + 1) mod 8 + (7 - c mod 8)) mod 8"
    using k by (simp only: distance_def nth_scan_order)
  also have "\<dots> = (c + k + 1 + (7 - c mod 8)) mod 8" by (rule mod_add_left_eq)
  also have "c + k + 1 + (7 - c mod 8) = c + (k + 1 + (7 - c mod 8))" by simp
  also have "\<dots> mod 8 = (c mod 8 + (k + 1 + (7 - c mod 8))) mod 8"
    by (rule mod_add_left_eq [symmetric])
  also have "c mod 8 + (k + 1 + (7 - c mod 8)) = c mod 8 + k + 1 + (7 - c mod 8)" by simp
  also have "c mod 8 + k + 1 + (7 - c mod 8) = k + 8" by (simp add: less_Suc_eq_le [symmetric])
  finally show ?thesis using k by simp
qed

lemma distance_next:
  assumes "j < 8" "i < 8" and "distance c j < distance c i"
  shows "distance j i < distance c i"
proof -
  define a b where "a = distance c j" and "b = distance c i"
  have ab: "a < b" "b < 8" using assms(3) by (simp_all add: a_def b_def distance_less)
  have j: "j = (c + a + 1) mod 8"
    using scan_order_distance [OF assms(1), of c] by (simp add: a_def distance_less)
  have i: "i = (c + b + 1) mod 8"
    using scan_order_distance [OF assms(2), of c] by (simp add: b_def distance_less)
  have "scan_order j ! (b - a - 1) = (c + b + 1) mod 8"
  proof -
    have "j + (b - a - 1) + 1 = (c + a + 1) mod 8 + (b - a)" using ab j by linarith
    then have "scan_order j ! (b - a - 1) = ((c + a + 1) mod 8 + (b - a)) mod 8"
      using ab by (simp only: nth_scan_order less_imp_diff_less)
    also have "\<dots> = (c + a + 1 + (b - a)) mod 8" by (rule mod_add_left_eq)
    also have "c + a + 1 + (b - a) = c + b + 1" using ab by simp
    finally show ?thesis .
  qed
  then have "distance j i = b - a - 1"
    using distance_scan [of "b - a - 1" j] ab i by simp
  then show ?thesis using ab by (simp add: b_def)
qed

lemma rr_pick_progress:
  assumes "is_ready q i"
  obtains j where "rr_pick q = Some j" "j < 8"
    "j = i \<or> distance j i < distance (rq_current q) i"
proof -
  have i: "i < 8" using assms by (rule is_ready_less)
  obtain j where j: "rr_pick q = Some j"
    using assms rr_pick_None [of q] by (cases "rr_pick q") (auto simp: ready_Nil)
  then obtain k where k: "k < 8" "j = scan_order (rq_current q) ! k"
    and first: "\<And>l. l < k \<Longrightarrow> \<not> is_ready q (scan_order (rq_current q) ! l)"
    by (auto simp: rr_pick_def find_Some_iff)
  have "k \<le> distance (rq_current q) i"
    using first [of "distance (rq_current q) i"] assms i by (auto simp: scan_order_distance not_less [symmetric])
  moreover have "distance (rq_current q) j = k" using k by (simp only: distance_scan)
  moreover have "j < 8" using rr_pick_Some [OF j] by (rule is_ready_less)
  moreover have "j = i" if "k = distance (rq_current q) i"
    using that k scan_order_distance [OF i, of "rq_current q"] by simp
  ultimately show thesis
    using that j distance_next [of j i "rq_current q"] i by (cases "k = distance (rq_current q) i") auto
qed

text \<open>A run of decisions: each one starts from the task the previous one chose.\<close>

fun rr_run :: "nat \<Rightarrow> RunQueue list \<Rightarrow> nat list" where
  "rr_run current [] = []"
| "rr_run current (q # qs) =
     (case rr_pick (q\<lparr>rq_current := current\<rparr>) of
        Some next \<Rightarrow> next # rr_run next qs | None \<Rightarrow> current # rr_run current qs)"

lemma rr_run_reaches:
  "\<forall>q \<in> set qs. is_ready q i \<Longrightarrow> distance current i < length qs \<Longrightarrow> i \<in> set (rr_run current qs)"
proof (induction qs arbitrary: current)
  case (Cons q qs)
  have rdy: "is_ready (q\<lparr>rq_current := current\<rparr>) i"
    using Cons.prems(1) by (simp add: is_ready_def)
  from rr_pick_progress [OF this] obtain j where
    j: "rr_pick (q\<lparr>rq_current := current\<rparr>) = Some j" "j = i \<or> distance j i < distance current i"
    by auto
  then show ?case using Cons by auto
qed simp

text \<open>
  Round robin serves everybody in turn: a task that stays runnable is chosen within
  eight consecutive decisions, whoever else is runnable.
\<close>

theorem rr_bounded_waiting:
  assumes "\<forall>q \<in> set qs. is_ready q i" and "MAX_TASKS \<le> length qs"
  shows "i \<in> set (rr_run current qs)"
  using assms distance_less [of current i] by (intro rr_run_reaches) auto

theorem rr_bounded_waiting_witness:
  "2 \<in> set (rr_run 2 (replicate 8 hog_and_background))"
  by (rule rr_bounded_waiting) (auto simp: hog_and_background_ready)

section \<open>The watchdog never fires under aging\<close>

definition SAFE_inv :: "(nat \<Rightarrow> u8) \<Rightarrow> Sched \<Rightarrow> bool" where
  "SAFE_inv prio s \<longleftrightarrow> sched_wf s \<and> ACTIVE s = SAFE \<and> unat (REMAINING s) \<le> 1 \<and>
     aging_inv prio (AGING (bricks s)) \<and>
     (\<forall>i < MAX_TASKS. unat (UNPICKED s ! i) \<le> unat (waited (AGING (bricks s)) ! i))"

lemma worst_wait_loop_le:
  "(\<And>w. w \<in> set ws \<Longrightarrow> w \<le> b) \<Longrightarrow> longest \<le> b \<Longrightarrow> snd (worst_wait_loop ws i worst longest) \<le> b"
  by (induction ws arbitrary: i worst longest) auto

lemma account_frame [simp]:
  "bricks (account s q next current now) = bricks s"
  "ACTIVE (account s q next current now) = ACTIVE s"
  "REMAINING (account s q next current now) = REMAINING s"
  "REPORT (account s q next current now) = REPORT s"
  "WATCHDOG (account s q next current now) = WATCHDOG s"
  by (simp_all add: account_def trace_push_def Let_def)

lemma UNPICKED_account:
  "sched_wf s \<Longrightarrow> i < 8 \<Longrightarrow> UNPICKED (account s q next current now) ! i =
    (if i = next \<or> \<not> is_ready q i then 0 else saturating_add (UNPICKED s ! i) 1)"
  by (simp add: account_def trace_push_def Let_def sched_wf_def)

lemma policy_at_SAFE [simp]: "policy_at 3 = AgingPolicy"
  by (simp add: policy_at_def)

lemma watchdog_quiet:
  assumes "sched_wf s" and "\<And>i. i < 8 \<Longrightarrow> UNPICKED s ! i < 100"
  shows "watchdog s active tasks current now = s"
proof -
  have "snd (worst_wait s) \<le> 99"
    unfolding worst_wait_def
  proof (rule worst_wait_loop_le)
    fix w assume "w \<in> set (UNPICKED s)"
    then obtain i where "i < 8" "w = UNPICKED s ! i"
      using assms(1) by (auto simp: in_set_conv_nth sched_wf_def)
    with assms(2) have "w < 100" by simp
    then show "w \<le> 99" by (simp add: word_less_nat_alt word_le_nat_alt)
  qed simp
  then have "snd (worst_wait s) < 100" by (simp add: word_less_nat_alt word_le_nat_alt)
  then show ?thesis by (simp add: watchdog_def Let_def case_prod_beta)
qed

lemma SAFE_inv_choose:
  assumes inv: "SAFE_inv prio s" and "current < 8" and low: "\<And>i. i < 8 \<Longrightarrow> prio i \<le> MAX_PRIORITY"
    and prio: "\<And>i. i < 8 \<Longrightarrow> priority (tasks ! i) = prio i"
  shows "SAFE_inv prio (snd (sched_choose s tasks current now)) \<and>
    REPORT (snd (sched_choose s tasks current now)) = REPORT s"
proof -
  let ?q = "RunQueue_new tasks current now"
  let ?a = "AGING (bricks s)"
  have wf: "sched_wf s" and awf: "aging_wf ?a" and ainv: "aging_inv prio ?a"
    using inv by (simp_all add: SAFE_inv_def aging_inv_def)
  have rem: "saturating_sub (REMAINING s) 1 = 0"
    using inv by (auto simp: SAFE_inv_def saturating_sub_def word_le_nat_alt unat_eq_zero [symmetric]
        unat_sub split: if_splits)
  obtain r a where pk: "aging_pick ?a ?q = (r, a)" by fastforce
  define nxt where "nxt = (case r of Some i \<Rightarrow> i | None \<Rightarrow> current)"
  define s1 where "s1 = s\<lparr> bricks := (bricks s)\<lparr>AGING := a\<rparr>,
    REMAINING := (case r of Some i \<Rightarrow> 1 | None \<Rightarrow> 0) \<rparr>"
  have ainv': "aging_inv prio a"
    using aging_inv_pick [OF ainv, of ?q] pk prio by (simp add: RunQueue_new_def rq_priority_def)
  have wf1: "sched_wf s1"
    using wf ainv' by (auto simp: s1_def sched_wf_def bricks_wf_def aging_inv_def)
  have ch: "sched_choose s tasks current now =
      (nxt, watchdog (account s1 ?q nxt current now) 3 tasks current now)"
  proof -
    have "\<not> keeps_quantum s ?q" by (simp add: keeps_quantum_def rem)
    moreover have "ACTIVE s = 3" using inv by (simp add: SAFE_inv_def)
    ultimately show ?thesis
      using choose_decide [of s tasks current now r "(bricks s)\<lparr>AGING := a\<rparr>"] pk
      by (cases r) (simp_all add: Let_def nxt_def s1_def)
  qed
  have up: "unat (UNPICKED (account s1 ?q nxt current now) ! i) \<le> unat (waited a ! i)" if "i < 8" for i
  proof (cases "i = nxt \<or> \<not> is_ready ?q i")
    case False
    have old: "unat (UNPICKED s ! i) \<le> unat (waited ?a ! i)"
      using inv that by (simp add: SAFE_inv_def)
    have "waited a ! i = saturating_add (waited ?a ! i) 1"
      using waited_aging_pick [OF awf that, of ?q] pk False
      by (auto simp: nxt_def RunQueue_new_def Let_def split: option.splits)
    then have "unat (waited a ! i) = unat (waited ?a ! i) + 1"
      using waited_no_saturation [OF ainv that] by (metis of_nat_1 of_nat_add of_nat_eq_iff uint_nat)
    moreover have "UNPICKED (account s1 ?q nxt current now) ! i = saturating_add (UNPICKED s ! i) 1"
      using False UNPICKED_account [OF wf1 that] by (simp add: s1_def)
    ultimately show ?thesis using old by (simp add: unat_saturating_add min_def)
  qed (use UNPICKED_account [OF wf1 that] in auto)
  have "UNPICKED (account s1 ?q nxt current now) ! i < 100" if "i < 8" for i
    using up [OF that] waited_bound [OF ainv' that] low [OF that]
    by (simp add: word_less_nat_alt word_le_nat_alt)
  then have quiet: "watchdog (account s1 ?q nxt current now) 3 tasks current now =
      account s1 ?q nxt current now"
    by (intro watchdog_quiet sched_wf_account [OF wf1])
  have rem1: "unat (REMAINING s1) \<le> 1" by (simp add: s1_def split: option.splits)
  have frame: "ACTIVE s1 = 3" "AGING (bricks s1) = a" "REPORT s1 = REPORT s"
    using inv by (simp_all add: s1_def SAFE_inv_def)
  show ?thesis
    using up ainv' rem1 frame sched_wf_account [OF wf1] by (simp add: ch quiet SAFE_inv_def)
qed

type_synonym Tick = "Tasks \<times> nat \<times> u64"

fun sched_run :: "Sched \<Rightarrow> Tick list \<Rightarrow> Sched" where
  "sched_run s [] = s"
| "sched_run s ((tasks, current, now) # ticks) = sched_run (snd (sched_choose s tasks current now)) ticks"

lemma SAFE_inv_run:
  assumes "SAFE_inv prio s" and "\<And>i. i < 8 \<Longrightarrow> prio i \<le> MAX_PRIORITY"
    and "\<forall>(tasks, current, now) \<in> set ticks.
      current < 8 \<and> (\<forall>i < 8. priority (tasks ! i) = prio i)"
  shows "SAFE_inv prio (sched_run s ticks) \<and> REPORT (sched_run s ticks) = REPORT s"
  using assms(1,3)
proof (induction ticks arbitrary: s)
  case (Cons t ticks)
  obtain tasks current now where t: "t = (tasks, current, now)" by (cases t)
  have "SAFE_inv prio (snd (sched_choose s tasks current now)) \<and>
      REPORT (snd (sched_choose s tasks current now)) = REPORT s"
    using Cons.prems t assms(2) by (intro SAFE_inv_choose) auto
  then show ?case using Cons.IH Cons.prems(2) by (auto simp: t)
qed simp

lemma replay_zeroes:
  "waited (AGING (fold (\<lambda>i b. on_ready AgingPolicy b i) ids (b\<lparr>AGING := a\<lparr>waited := replicate 8 0\<rparr>\<rparr>)))
     = replicate 8 0"
proof (induction ids arbitrary: a)
  case (Cons i ids)
  have "(replicate 8 (0::u16))[i := 0] = replicate 8 0"
    by (cases "i < 8") (auto intro: nth_equalityI simp: nth_list_update)
  then show ?case using Cons.IH by (simp add: aging_on_ready_def)
qed simp

lemma SAFE_inv_install:
  assumes "sched_wf s"
  shows "SAFE_inv prio (snd (install s SAFE tasks current now))"
proof -
  let ?s = "snd (install s SAFE tasks current now)"
  have zero: "waited (AGING (bricks ?s)) = replicate 8 0"
    using replay_zeroes by (simp add: install_def Let_def aging_reset_def)
  then have "AGING (bricks ?s) = aging_reset (AGING (bricks ?s))"
    by (simp add: aging_reset_def)
  then have "aging_inv prio (AGING (bricks ?s))"
    by (metis aging_reach.fresh aging_reach_inv)
  then show ?thesis
    using sched_wf_install [OF assms] by (simp add: SAFE_inv_def) (simp add: install_def Let_def)
qed

text \<open>
  With the aging policy installed the starvation watchdog has nothing to report: over any
  sequence of timer ticks, with any tasks runnable at each and priorities in the documented
  range, no runnable task is left unpicked for a hundred decisions.
\<close>

theorem watchdog_silent_under_aging:
  assumes "sched_wf s" and "\<forall>i < MAX_TASKS. prio i \<le> MAX_PRIORITY"
    and "\<forall>(tasks, current, now) \<in> set ticks.
      current < MAX_TASKS \<and> (\<forall>i < MAX_TASKS. priority (tasks ! i) = prio i)"
  shows "REPORT (sched_run (snd (install s SAFE tasks0 current0 now0)) ticks) = REPORT s"
proof -
  have "REPORT (sched_run (snd (install s SAFE tasks0 current0 now0)) ticks) =
      REPORT (snd (install s SAFE tasks0 current0 now0))"
    using assms SAFE_inv_run [OF SAFE_inv_install [OF assms(1)], of prio ticks] by fastforce
  then show ?thesis by (simp add: install_def Let_def)
qed

theorem watchdog_silent_under_aging_witness:
  "REPORT (sched_run (snd (install Sched_boot SAFE (test_table [(Ready, 0), (Ready, 15)]) 0 0))
     (replicate 500 (test_table [(Ready, 0), (Ready, 15)], 0, 7))) = REPORT Sched_boot"
proof (rule watchdog_silent_under_aging [OF sched_wf_boot])
  let ?prio = "\<lambda>i. priority (test_table [(Ready, 0), (Ready, 15)] ! i)"
  show "\<forall>i < MAX_TASKS. ?prio i \<le> MAX_PRIORITY"
    by (auto simp: test_table_def Task_empty_def nth_Cons' word_le_nat_alt)
qed auto

section \<open>Quanta\<close>

text \<open>
  The multi-level queue asks for 2, 4, 8 or 16 ticks, doubling with the level; the shift
  cannot leave the 32-bit range because a level is always below four.
\<close>

theorem mlfq_quantum_doubles:
  assumes "mlfq_wf s" and "i < MAX_TASKS"
  shows "unat (mlfq_quantum s i) = 2 ^ (unat (level s ! i) + 1) \<and> unat (mlfq_quantum s i) \<le> 16"
proof -
  have "unat (level s ! i) < 4"
    using mlfq_wf_level [OF assms] by (simp add: word_less_nat_alt)
  then have "unat (level s ! i) \<in> {0, 1, 2, 3}" by auto
  moreover have "min i 7 = i" using assms(2) by simp
  ultimately show ?thesis by (auto simp: mlfq_quantum_def)
qed

theorem mlfq_quantum_doubles_witness:
  "unat (mlfq_quantum Mlfq_new 3) = 2 ^ (unat (level Mlfq_new ! 3) + 1) \<and>
   unat (mlfq_quantum Mlfq_new 3) \<le> 16"
  by (rule mlfq_quantum_doubles) (simp_all add: mlfq_wf_def Mlfq_new_def)

lemma keeps_quantum_iff:
  "keeps_quantum s (RunQueue_new tasks current now) \<longleftrightarrow>
     2 \<le> unat (REMAINING s) \<and> current < 8 \<and> state (tasks ! current) = Ready"
proof -
  have "0 < saturating_sub (REMAINING s) 1 \<longleftrightarrow> 2 \<le> unat (REMAINING s)"
    by (auto simp: word_less_nat_alt unat_saturating_sub)
  then show ?thesis by (auto simp: keeps_quantum_def RunQueue_new_def is_ready_def)
qed

text \<open>
  The mechanism honours a quantum: while ticks remain and the running task is still
  runnable it is not switched away from, and neither the policy nor the counters change.
\<close>

theorem quantum_honoured:
  assumes "length ticks < unat (REMAINING s)" and "current < MAX_TASKS"
    and "\<forall>(tasks, c, now) \<in> set ticks. c = current \<and> state (tasks ! current) = Ready"
  shows "sched_run s ticks = s\<lparr> REMAINING := REMAINING s - word_of_nat (length ticks) \<rparr> \<and>
    (\<forall>k < length ticks. fst (sched_choose (sched_run s (take k ticks)) (fst (ticks ! k)) current
       (snd (snd (ticks ! k)))) = current)"
  using assms(1,3)
proof (induction ticks arbitrary: s)
  case (Cons t ticks)
  obtain tasks c now where t: "t = (tasks, c, now)" by (cases t)
  let ?s = "s\<lparr> REMAINING := REMAINING s - 1 \<rparr>"
  from Cons.prems have c: "c = current" "state (tasks ! current) = Ready" by (auto simp: t)
  have sub: "saturating_sub (REMAINING s) 1 = REMAINING s - 1"
    using Cons.prems(1) by (simp add: saturating_sub_def word_le_nat_alt)
  have "sched_choose s tasks current now = (current, ?s)"
    using choose_keep [of s tasks current now] Cons.prems(1) c assms(2)
    by (simp add: keeps_quantum_iff sub)
  moreover have "unat (REMAINING s - 1) = unat (REMAINING s) - 1"
    using Cons.prems(1) by (simp add: unat_sub word_le_nat_alt)
  ultimately show ?case
    using Cons.IH [of ?s] Cons.prems c
    by (auto simp: t nth_Cons' take_Cons' less_Suc_eq_0_disj)
qed simp

theorem quantum_honoured_witness:
  "let s = Sched_boot\<lparr> REMAINING := 4 \<rparr>; ticks = replicate 3 (test_table [(Ready, 0)], 0, 9)
   in sched_run s ticks = s\<lparr> REMAINING := REMAINING s - word_of_nat (length ticks) \<rparr>"
  using quantum_honoured [of "replicate 3 (test_table [(Ready, 0)], 0, 9)"
      "Sched_boot\<lparr> REMAINING := 4 \<rparr>" 0]
  by (simp add: Let_def test_table_def)

text \<open>
  A tick spent inside a quantum leaves no record. The per-task tick counter is documented
  as the ticks a task has been given, and the trace as what happened on each tick, but the
  early return for a standing quantum is taken before the accounting: the counters keep their
  values and the trace has no entry for the tick.
\<close>

theorem quantum_tick_not_recorded:
  assumes "2 \<le> unat (REMAINING s)" and "current < MAX_TASKS" and "state (tasks ! current) = Ready"
    and "TRACE_LAST s < now"
  shows "let s' = snd (sched_choose s tasks current now) in
    fst (sched_choose s tasks current now) = current \<and> slices s' current = slices s current \<and>
    trace_at s' now = None"
proof -
  have "keeps_quantum s (RunQueue_new tasks current now)"
    using assms by (simp add: keeps_quantum_iff)
  from choose_keep [OF this] assms(4) show ?thesis
    by (simp add: Let_def slices_def trace_at_def)
qed

theorem quantum_tick_not_recorded_witness:
  "let s = Sched_boot\<lparr> REMAINING := 2 \<rparr>; s' = snd (sched_choose s (test_table [(Ready, 0)]) 0 9)
   in slices s' 0 = slices s 0 \<and> trace_at s' 9 = None"
  using quantum_tick_not_recorded [of "Sched_boot\<lparr> REMAINING := 2 \<rparr>" 0 "test_table [(Ready, 0)]" 9]
  by (simp add: Let_def test_table_def Sched_boot_def)

section \<open>The multi-level queue on an idle machine\<close>

lemma account_idle_UNPICKED:
  "sched_wf s \<Longrightarrow> ready q = [] \<Longrightarrow> i < 8 \<Longrightarrow> UNPICKED (account s q next current now) ! i = 0"
  by (simp add: UNPICKED_account ready_Nil)

text \<open>
  Rule 4 of the multi-level queue says that a task which blocks before its slice expires
  stays at its level. On an idle machine it does not: once a tick found nobody runnable the
  remaining quantum is zero, and each further idle tick reports the blocked current task as
  having used its whole quantum and drops it a level.
\<close>

theorem mlfq_idle_demotes:
  assumes "sched_wf s" and "ACTIVE s = 4" and "REMAINING s = 0" and "current < MAX_TASKS"
    and "\<forall>i < MAX_TASKS. state (tasks ! i) \<noteq> Ready"
    and "now < boost_at (MLFQ (bricks s))"
    and "level (MLFQ (bricks s)) ! current < 3"
  shows "let (next, s') = sched_choose s tasks current now in
    next = current \<and> REMAINING s' = 0 \<and>
    level (MLFQ (bricks s')) ! current = level (MLFQ (bricks s)) ! current + 1"
proof -
  let ?q = "RunQueue_new tasks current now"
  let ?m = "MLFQ (bricks s)"
  let ?m' = "?m\<lparr> level := (level ?m)[current := level ?m ! current + 1] \<rparr>"
  have nr: "ready ?q = []" using assms(5) by (auto simp: ready_Nil is_ready_def RunQueue_new_def)
  have mwf: "mlfq_wf ?m" using assms(1) by (simp add: sched_wf_def bricks_wf_def)
  have l: "level ?m ! current + 1 < 4"
    using assms(7) by (simp add: word_less_nat_alt unat_word_ariths)
  have yield: "mlfq_on_yield ?m current True = ?m'"
    using assms(4) l by (simp add: mlfq_on_yield_def)
  have wf': "mlfq_wf ?m'" by (rule mlfq_wf_set [OF mwf l])
  have pk: "mlfq_pick ?m' ?q = (None, ?m')"
    using mlfq_pick_spec(1) [OF wf', of ?q] nr assms(6)
    by (simp add: mlfq_pick_def Let_def RunQueue_new_def)
  let ?s1 = "s\<lparr> bricks := (bricks s)\<lparr>MLFQ := ?m'\<rparr>, REMAINING := 0 \<rparr>"
  have wf1: "sched_wf ?s1" using assms(1) wf' by (auto simp: sched_wf_def bricks_wf_def)
  have quiet: "watchdog (account ?s1 ?q current current now) 4 tasks current now =
      account ?s1 ?q current current now"
    by (intro watchdog_quiet sched_wf_account [OF wf1])
      (simp add: account_idle_UNPICKED [OF wf1 nr] word_less_nat_alt)
  have "sched_choose s tasks current now = (current, account ?s1 ?q current current now)"
  proof -
    have "\<not> keeps_quantum s ?q" using assms(3) by (simp add: keeps_quantum_iff)
    moreover have "policy_at 4 = MlfqPolicy" by (simp add: policy_at_def)
    ultimately show ?thesis
      using choose_decide [of s tasks current now None "(bricks s)\<lparr>MLFQ := ?m'\<rparr>"] assms(2,3) pk quiet
      by (simp add: Let_def saturating_sub_def yield)
  qed
  then show ?thesis using assms(4) mwf by (simp add: mlfq_wf_def)
qed

theorem mlfq_idle_demotes_witness:
  "let tasks = test_table [(Blocked (Channel 1), 0)];
       s = Sched_boot\<lparr> ACTIVE := 4, bricks := (bricks Sched_boot)\<lparr>MLFQ := Mlfq_new\<lparr>boost_at := 26\<rparr>\<rparr> \<rparr>
   in level (MLFQ (bricks (snd (sched_choose s tasks 0 2)))) ! 0 = 1"
proof -
  let ?s = "Sched_boot\<lparr> ACTIVE := 4, bricks := (bricks Sched_boot)\<lparr>MLFQ := Mlfq_new\<lparr>boost_at := 26\<rparr>\<rparr> \<rparr>"
  have "sched_wf ?s"
    using sched_wf_boot by (simp add: sched_wf_def bricks_wf_def mlfq_wf_def Mlfq_new_def)
  then have "let (next, s') = sched_choose ?s (test_table [(Blocked (Channel 1), 0)]) 0 2 in
    next = 0 \<and> REMAINING s' = 0 \<and>
    level (MLFQ (bricks s')) ! 0 = level (MLFQ (bricks ?s)) ! 0 + 1"
    by (rule mlfq_idle_demotes)
      (simp_all add: Sched_boot_def Mlfq_new_def test_table_def Task_empty_def nth_Cons')
  then show ?thesis by (simp add: Let_def case_prod_beta Mlfq_new_def Sched_boot_def)
qed

section \<open>What the mechanism promises for every policy\<close>

text \<open>
  The scheduler as a state machine: timer ticks against arbitrary task tables, tasks being
  created and reaped, policies being installed by number, statistics windows, the watchdog
  switch and the shell collecting the report.
\<close>

inductive sched_reach :: "Sched \<Rightarrow> bool" where
  boot: "sched_reach Sched_boot"
| tick: "sched_reach s \<Longrightarrow> current < MAX_TASKS \<Longrightarrow> sched_reach (snd (sched_choose s tasks current now))"
| create: "sched_reach s \<Longrightarrow> sched_reach (task_created s i)"
| exit: "sched_reach s \<Longrightarrow> sched_reach (task_exited s i)"
| change: "sched_reach s \<Longrightarrow> sched_reach (snd (install s index tasks current now))"
| window: "sched_reach s \<Longrightarrow> sched_reach (reset_stats s now)"
| switch: "sched_reach s \<Longrightarrow> sched_reach (set_watchdog s enabled)"
| report: "sched_reach s \<Longrightarrow> sched_reach (snd (report_starvation s))"

lemma sched_reach_wf: "sched_reach s \<Longrightarrow> sched_wf s"
proof (induction rule: sched_reach.induct)
  case (tick s current tasks now)
  obtain n s' where "sched_choose s tasks current now = (n, s')" by fastforce
  with choose_cases [OF tick.IH refl tick.hyps(2) this] show ?case by simp
qed (auto intro: kernel_wf)

text \<open>
  In every reachable state of the scheduler, whichever of the five policies is installed,
  a tick hands the CPU to a runnable task if there is one and leaves it with the current task
  otherwise; the arrays keep their sizes and the installed index stays registered.
\<close>

theorem choose_runs_a_runnable_task:
  assumes "sched_reach s" and "current < MAX_TASKS" and "length tasks = MAX_TASKS"
  shows "let (next, s') = sched_choose s tasks current now in
    sched_wf s' \<and>
    (if \<exists>i < MAX_TASKS. state (tasks ! i) = Ready
     then next < MAX_TASKS \<and> state (tasks ! next) = Ready else next = current)"
proof -
  obtain n s' where ch: "sched_choose s tasks current now = (n, s')" by fastforce
  from choose_cases [OF sched_reach_wf [OF assms(1)] refl assms(2) ch] show ?thesis
    by (auto simp: ch ready_Nil is_ready_def RunQueue_new_def split: if_splits)
qed

theorem choose_runs_a_runnable_task_witness:
  "let (next, s') = sched_choose (snd (install Sched_boot 1 (test_table []) 0 0))
       (test_table [(Blocked (Channel 5), 0), (Free, 8), (Ready, 3)]) 0 1
   in state (test_table [(Blocked (Channel 5), 0), (Free, 8), (Ready, 3)] ! next) = Ready"
proof -
  have r: "sched_reach (snd (install Sched_boot 1 (test_table []) 0 0))"
    by (intro sched_reach.change sched_reach.boot)
  have "\<exists>i < 8. state (test_table [(Blocked (Channel 5), 0), (Free, 8), (Ready, 3)] ! i) = Ready"
    by (rule exI [of _ 2]) (simp add: test_table_def)
  with choose_runs_a_runnable_task [OF r, of 0
      "test_table [(Blocked (Channel 5), 0), (Free, 8), (Ready, 3)]" 1]
  show ?thesis by (simp add: case_prod_beta)
qed

text \<open>
  Installing a policy is a handover: the new policy starts from a clean state into which
  exactly the runnable tasks have been replayed, the next tick asks it rather than honouring
  the old quantum, nobody's debt to the old policy survives, and an index outside the registry
  changes nothing.
\<close>

theorem install_handover:
  "let (ok, s') = install s index tasks current now in
   (ok \<longleftrightarrow> index < COUNT) \<and> (\<not> ok \<longrightarrow> s' = s) \<and>
   (ok \<longrightarrow> ACTIVE s' = index \<and> UNPICKED s' = replicate MAX_TASKS 0 \<and>
      (\<forall>tasks' current' now'. \<not> keeps_quantum s' (RunQueue_new tasks' current' now')) \<and>
      bricks s' = fold (\<lambda>i b. on_ready (policy_at index) b i)
        (filter (\<lambda>i. state (tasks ! i) = Ready) [0..<MAX_TASKS]) (reset (policy_at index) (bricks s)))"
proof -
  have "filter (is_ready (RunQueue_new tasks current now)) [0..<8] =
      filter (\<lambda>i. state (tasks ! i) = Ready) [0..<8]"
    by (rule filter_cong) (auto simp: is_ready_def RunQueue_new_def)
  then show ?thesis
    by (auto simp: install_def Let_def ready_def keeps_quantum_iff)
qed

theorem install_handover_witness:
  "let (ok, s') = install Sched_boot 4 (test_table [(Ready, 0)]) 0 0 in ok \<and> ACTIVE s' = 4"
  using install_handover [of Sched_boot 4 "test_table [(Ready, 0)]" 0 0]
  by (simp add: case_prod_beta)

section \<open>The trace\<close>

fun push_ticks :: "Sched \<Rightarrow> u64 \<Rightarrow> (nat option \<times> u8) list \<Rightarrow> Sched" where
  "push_ticks s tick [] = s"
| "push_ticks s tick ((who, rdy) # rest) = push_ticks (trace_push s tick who rdy) (tick + 1) rest"

definition trace_code :: "nat option \<Rightarrow> nat" where
  "trace_code who = (case who of Some i \<Rightarrow> if i < MAX_TASKS then i else 255 | None \<Rightarrow> 255)"

lemma push_ticks_snoc:
  "push_ticks s tick (xs @ [(who, rdy)]) =
     trace_push (push_ticks s tick xs) (tick + word_of_nat (length xs)) who rdy"
  by (induction s tick xs rule: push_ticks.induct) (auto simp: add.assoc)

lemma push_ticks_shape:
  assumes "length (TRACE_RAN s) = 1024" "length (TRACE_READY s) = 1024"
  shows "length (TRACE_RAN (push_ticks s tick xs)) = 1024 \<and>
    length (TRACE_READY (push_ticks s tick xs)) = 1024 \<and>
    TRACE_COUNT (push_ticks s tick xs) = TRACE_COUNT s + word_of_nat (length xs)"
proof (induction xs rule: rev_induct)
  case (snoc x xs)
  then show ?case by (cases x) (simp add: push_ticks_snoc trace_push_def Let_def)
qed (use assms in simp)

lemma push_ticks_last:
  "xs \<noteq> [] \<Longrightarrow> TRACE_LAST (push_ticks s tick xs) = tick + word_of_nat (length xs - 1)"
proof (cases xs rule: rev_cases)
  case (snoc ys y)
  then show ?thesis by (cases y) (simp add: push_ticks_snoc trace_push_def Let_def)
qed simp

lemma push_ticks_slot:
  assumes "length (TRACE_RAN s) = 1024" "length (TRACE_READY s) = 1024"
    and "unat (TRACE_COUNT s) + length xs < 2 ^ 64"
    and "k < length xs" "length xs \<le> k + 1024"
  shows "unat (TRACE_RAN (push_ticks s tick xs) ! ((unat (TRACE_COUNT s) + k) mod 1024)) = trace_code (fst (xs ! k))
    \<and> TRACE_READY (push_ticks s tick xs) ! ((unat (TRACE_COUNT s) + k) mod 1024) = snd (xs ! k)"
  using assms(3-)
proof (induction xs rule: rev_induct)
  case (snoc x xs)
  obtain who rdy where x: "x = (who, rdy)" by fastforce
  let ?c = "unat (TRACE_COUNT s)"
  let ?s = "push_ticks s tick xs"
  have cnt: "unat (TRACE_COUNT ?s) = ?c + length xs"
    using snoc.prems(1) push_ticks_shape [OF assms(1,2), of tick xs]
    by (simp add: unat_word_ariths unsigned_of_nat take_bit_eq_mod)
  have len: "length (TRACE_RAN ?s) = 1024" "length (TRACE_READY ?s) = 1024"
    using push_ticks_shape [OF assms(1,2)] by auto
  show ?case
  proof (cases "k = length xs")
    case True
    have "unat (word_of_nat i :: u8) = i" if "i < 8" for i
      using that by (simp add: unsigned_of_nat take_bit_eq_mod)
    with True show ?thesis
      by (auto simp: x push_ticks_snoc trace_push_def Let_def cnt len trace_code_def split: option.splits)
  next
    case False
    then have k: "k < length xs" using snoc.prems(2) by simp
    have "(?c + k) mod 1024 \<noteq> (?c + length xs) mod 1024"
    proof
      assume "(?c + k) mod 1024 = (?c + length xs) mod 1024"
      then have "1024 dvd (?c + length xs) - (?c + k)" using k by (metis mod_eq_dvd_iff_nat add_le_cancel_left less_imp_le)
      then show False using k snoc.prems(3) by (auto dest: dvd_imp_le)
    qed
    then show ?thesis
      using snoc.IH snoc.prems k
      by (simp add: x push_ticks_snoc trace_push_def Let_def cnt len nth_append)
  qed
qed simp

text \<open>
  The trace ring buffer round trip: when one entry is recorded per tick, asking for any of
  the last 1024 ticks returns exactly the task that ran and the runnable set recorded for it,
  also after the buffer has wrapped; older ticks are refused.
\<close>

theorem trace_round_trip:
  assumes "length (TRACE_RAN s) = TRACE_LENGTH" and "length (TRACE_READY s) = TRACE_LENGTH"
    and "unat (TRACE_COUNT s) + length xs < 2 ^ 64" and "unat tick + length xs < 2 ^ 64"
    and "k < length xs"
  shows "trace_at (push_ticks s tick xs) (tick + word_of_nat k) =
    (if length xs \<le> k + TRACE_LENGTH then Some (trace_code (fst (xs ! k)), snd (xs ! k)) else None)"
proof -
  let ?s = "push_ticks s tick xs"
  let ?c = "unat (TRACE_COUNT s)"
  have u: "unat (tick + word_of_nat j) = unat tick + j" if "j < length xs" for j
    using that assms(4) by (simp add: unat_word_ariths unsigned_of_nat take_bit_eq_mod)
  have cnt: "unat (TRACE_COUNT ?s) = ?c + length xs"
    using assms(3) push_ticks_shape [OF assms(1,2), of tick xs]
    by (simp add: unat_word_ariths unsigned_of_nat take_bit_eq_mod)
  have last: "unat (TRACE_LAST ?s) = unat tick + (length xs - 1)"
  proof -
    have ne: "xs \<noteq> []" and l: "length xs - 1 < length xs" using assms(5) by auto
    show ?thesis using push_ticks_last [OF ne, of s tick] u [OF l] by simp
  qed
  have le: "tick + word_of_nat k \<le> TRACE_LAST ?s"
    using assms(5) by (simp add: word_le_nat_alt u last)
  have ago: "unat (TRACE_LAST ?s - (tick + word_of_nat k)) = length xs - 1 - k"
    using assms(5) by (simp add: unat_sub [OF le] u last)
  have "TRACE_COUNT ?s \<noteq> 0" using cnt assms(5) by (auto simp: unat_eq_zero [symmetric] simp del: unat_eq_zero)
  moreover have "?c + length xs - 1 - (length xs - 1 - k) = ?c + k" using assms(5) by simp
  ultimately show ?thesis
    using push_ticks_slot [OF assms(1,2,3,5)] le assms(5)
    by (auto simp: trace_at_def Let_def ago cnt not_less)
qed

theorem trace_round_trip_witness:
  "trace_at (push_ticks Sched_boot 100 [(Some 2, 5), (None, 0), (Some 0, 1)]) 101 = Some (255, 0)"
  using trace_round_trip [of Sched_boot "[(Some 2, 5), (None, 0), (Some 0, 1)]" 100 1]
  by (simp add: Sched_boot_def trace_code_def)

end
