(* ===== verification/Lifecycle.thy ===== *)
theory Lifecycle
  imports Descriptors Sched_Fair "HOL-Library.Multiset"
begin

text \<open>
  The life of a task (\<open>kernel/src/task.rs\<close>): what the timer hands the CPU to, who wakes up and
  when, how a parent learns that a child has ended, where the address spaces of finished tasks go,
  and in which order signals are taken.
\<close>

section \<open>The timer\<close>

lemma wake_sleeper_fields [simp]:
  "stack_pointer (wake_sleeper now t) = stack_pointer t" "address_space (wake_sleeper now t) = address_space t"
  "kernel_stack_top (wake_sleeper now t) = kernel_stack_top t" "pending (wake_sleeper now t) = pending t"
  "switches (wake_sleeper now t) = switches t"
  by (simp_all add: wake_sleeper_def split: State.splits Reason.splits)

text \<open>The table after the running task was saved and the sleepers whose time has come were woken.\<close>

definition ticked :: "u64 \<Rightarrow> Kernel \<Rightarrow> Tasks" where
  "ticked sp k = map (wake_sleeper (k_ticks k)) ((k_tasks k)[k_current k := (task (k_current k) k)\<lparr> stack_pointer := sp \<rparr>])"

lemma switch_to_spec:
  assumes "n < length (k_tasks k)"
  shows "k_current (switch_to n k) = n \<and>
    k_tasks (switch_to n k) = (k_tasks k)[n := (task n k)\<lparr> switches := switches (task n k) + 1 \<rparr>] \<and>
    k_root (switch_to n k) = (case address_space (task n k) of Some root \<Rightarrow> if root \<noteq> 0 then root else k_root k
       | None \<Rightarrow> if k_kernel_root k \<noteq> 0 then k_kernel_root k else k_root k) \<and>
    k_rsp0 (switch_to n k) = (if kernel_stack_top (task n k) \<noteq> 0 then kernel_stack_top (task n k) else k_rsp0 k) \<and>
    k_orphans (switch_to n k) = k_orphans k"
  using assms
  by (auto simp: switch_to_def set_kernel_stack_def at_task_def task_def Let_def split: option.splits)

text \<open>
  When the first pending signal of a user task that is about to resume ends it: the frame belongs to ring 3, and
  the signal is not caught, cannot be caught, or has no restorer to return through.
\<close>

definition ended_by_signal :: "nat \<Rightarrow> u64 \<Rightarrow> Kernel \<Rightarrow> bool" where
  "ended_by_signal tid frame k \<longleftrightarrow> address_space (task tid k) \<noteq> None \<and> pending (task tid k) \<noteq> 0 \<and>
     k_mem k (frame_word frame 16) AND 3 = 3 \<and>
     (let sig = lowest_bit (pending (task tid k))
      in sig = SIGKILL \<or> sig \<ge> MAX_SIGNALS \<or> handlers (task tid k) ! sig = 0 \<or> restorer (task tid k) = 0)"

lemma deliver_tasks:
  assumes "deliver tid frame k = (killed, k')" "tid < length (k_tasks k)" "pending (task tid k) \<noteq> 0"
  shows "k_tasks k' = (k_tasks k)[tid := (task tid k)\<lparr> pending := pending (task tid k') \<rparr>] \<and> k_current k' = k_current k \<and>
    k_root k' = k_root k \<and> k_rsp0 k' = k_rsp0 k"
  using assms
  by (auto simp: deliver_def take_pending_signal_def set_pending_signal_def at_task_def task_def Let_def split: if_splits)

lemma deliver_killed:
  assumes "address_space (task tid k) \<noteq> None" "pending (task tid k) \<noteq> 0" "tid < length (k_tasks k)" "\<not> frame_word frame 16 < USER_END"
  shows "fst (deliver tid frame k) \<longleftrightarrow> ended_by_signal tid frame k"
  using assms
  by (auto simp: deliver_def ended_by_signal_def take_pending_signal_def signal_handler_def catchable_def task_at_task load_def Let_def at_task_def
      task_def split: if_splits)

text \<open>The state in which the picked task is about to resume.\<close>

definition resuming :: "u64 \<Rightarrow> Kernel \<Rightarrow> nat \<Rightarrow> Sched \<Rightarrow> Kernel" where
  "resuming sp k n sc = (let k1 = k\<lparr> k_tasks := ticked sp k, k_sched := sc \<rparr> in if n \<noteq> k_current k then switch_to n k1 else k1)"

lemma resuming_spec:
  assumes "length (k_tasks k) = MAX_TASKS" "k_current k < MAX_TASKS" "n < MAX_TASKS"
  shows "length (k_tasks (resuming sp k n sc)) = MAX_TASKS" "k_current (resuming sp k n sc) = n" "k_mem (resuming sp k n sc) = k_mem k"
    "i < MAX_TASKS \<Longrightarrow> \<exists>c. task i (resuming sp k n sc) =
      (wake_sleeper (k_ticks k) (if i = k_current k then (task i k)\<lparr> stack_pointer := sp \<rparr> else task i k))\<lparr> switches := c \<rparr>"
    "k_root (resuming sp k n sc) = (if n = k_current k then k_root k else
       case address_space (task n k) of Some root \<Rightarrow> if root \<noteq> 0 then root else k_root k
       | None \<Rightarrow> if k_kernel_root k \<noteq> 0 then k_kernel_root k else k_root k)"
    "k_rsp0 (resuming sp k n sc) = (if n \<noteq> k_current k \<and> kernel_stack_top (task n k) \<noteq> 0 then kernel_stack_top (task n k) else k_rsp0 k)"
proof -
  let ?k1 = "k\<lparr> k_tasks := ticked sp k, k_sched := sc \<rparr>"
  have t: "task i ?k1 = wake_sleeper (k_ticks k) (if i = k_current k then (task i k)\<lparr> stack_pointer := sp \<rparr> else task i k)" if "i < 8" for i
    using that assms(1,2) by (simp add: ticked_def task_def nth_list_update)
  have tn: "address_space (task n ?k1) = address_space (task n k)" "kernel_stack_top (task n ?k1) = kernel_stack_top (task n k)"
    using t [OF assms(3)] by simp_all
  have ln: "n < length (k_tasks ?k1)" "length (k_tasks ?k1) = 8" using assms(1,3) by (simp_all add: ticked_def)
  note sw = switch_to_spec [OF ln(1)]
  have m: "k_mem (switch_to n k') = k_mem k'" for k' by (simp add: switch_to_def set_kernel_stack_def at_task_def Let_def)
  have t2: "task i (switch_to n ?k1) = (if i = n then (task n ?k1)\<lparr> switches := switches (task n ?k1) + 1 \<rparr> else task i ?k1)" for i
    using sw ln by (auto simp: task_def)
  show "length (k_tasks (resuming sp k n sc)) = MAX_TASKS" "k_current (resuming sp k n sc) = n" "k_mem (resuming sp k n sc) = k_mem k"
    using sw ln m by (simp_all add: resuming_def Let_def)
  show "\<exists>c. task i (resuming sp k n sc) =
      (wake_sleeper (k_ticks k) (if i = k_current k then (task i k)\<lparr> stack_pointer := sp \<rparr> else task i k))\<lparr> switches := c \<rparr>" if "i < MAX_TASKS"
    unfolding t [OF that, symmetric] using t2 [of i]
    by (cases "n = k_current k \<or> i \<noteq> n") (auto simp: resuming_def Let_def intro: exI [of _ "switches (task i ?k1)"])
  show "k_root (resuming sp k n sc) = (if n = k_current k then k_root k else
       case address_space (task n k) of Some root \<Rightarrow> if root \<noteq> 0 then root else k_root k
       | None \<Rightarrow> if k_kernel_root k \<noteq> 0 then k_kernel_root k else k_root k)"
      "k_rsp0 (resuming sp k n sc) = (if n \<noteq> k_current k \<and> kernel_stack_top (task n k) \<noteq> 0 then kernel_stack_top (task n k) else k_rsp0 k)"
    using sw tn by (simp_all add: resuming_def Let_def split: option.splits)
qed

lemma schedule_resuming:
  assumes "k_enabled k" "sched_choose (k_sched k) (ticked sp k) (k_current k) (k_ticks k) = (n, sc)"
  shows "schedule sp k =
    (let k2 = resuming sp k n sc; (killed, k3) = (if address_space (task n k2) \<noteq> None \<and> pending (task n k2) \<noteq> 0
         then deliver n (stack_pointer (task n k2)) k2 else (False, k2));
       k4 = (if killed then resume_fallback n (mark_finished n 128 k3) else k3)
     in (stack_pointer (task (if killed then k_current k4 else n) k4), k4))"
  using assms by (auto simp: schedule_def resuming_def Let_def at_task_def ticked_def [symmetric] task_def [symmetric] split: bool.splits prod.splits)

lemma mark_finished_task:
  assumes "length (k_tasks k) = MAX_TASKS" "c < MAX_TASKS" "i < MAX_TASKS"
  shows "task i (mark_finished c code k) =
    (if i = c then (task c k)\<lparr> exit_code := code, state := Finished \<rparr> else wake (word_of_nat c) (task i k))"
  using assms by (simp add: mark_finished_def wake_all_def at_task_def task_def nth_list_update wake_def)

lemma fallback_ready:
  assumes "n < MAX_TASKS" "fallback_task n k = fb"
  shows "fb < MAX_TASKS \<and> (state (task fb k) = Ready \<or> fb = 0 \<and> (\<forall>i < MAX_TASKS. state (task i k) \<noteq> Ready))"
proof (cases "find (\<lambda>candidate. state (task candidate k) = Ready) (map (\<lambda>offset. (n + offset) mod MAX_TASKS) [1..<MAX_TASKS + 1])")
  case None
  have "i \<in> set (map (\<lambda>offset. (n + offset) mod MAX_TASKS) [1..<MAX_TASKS + 1])" if "i < 8" for i
  proof (cases "i \<le> n")
    case True
    then show ?thesis using that assms(1) by (auto intro!: image_eqI [of _ _ "i + 8 - n"])
  next
    case False
    then show ?thesis using that by (auto intro!: image_eqI [of _ _ "i - n"])
  qed
  then have "\<forall>i < 8. state (task i k) \<noteq> Ready" using None by (auto simp: find_None_iff)
  moreover have "fb = 0" using None assms(2) unfolding fallback_task_def by simp
  ultimately show ?thesis by simp
next
  case (Some c)
  then have "fb = c" using assms(2) unfolding fallback_task_def by simp
  moreover have "state (task c k) = Ready" "c \<in> set (map (\<lambda>offset. (n + offset) mod MAX_TASKS) [1..<MAX_TASKS + 1])"
    using Some by (auto simp only: find_Some_iff intro: nth_mem)
  ultimately show ?thesis by auto
qed

lemma resume_fallback_spec:
  assumes "resume_fallback n k = k'"
  shows "k_tasks k' = k_tasks k \<and> k_current k' = fallback_task n k \<and>
    (case address_space (task (fallback_task n k) k) of Some root \<Rightarrow> k_root k' = root | None \<Rightarrow> k_root k' = k_root k) \<and>
    (kernel_stack_top (task (fallback_task n k) k) \<noteq> 0 \<longrightarrow> k_rsp0 k' = kernel_stack_top (task (fallback_task n k) k))"
  unfolding assms [symmetric] by (auto simp: resume_fallback_def set_kernel_stack_def Let_def task_def split: option.splits)

text \<open>
  C18: The CPU goes to the task the policy picked, and everything that has to follow it does. The timer records
  the stack pointer of the task that was running. Unless a pending signal ends the picked task, it returns the stack
  pointer that task was left with, makes its address space (the kernel's, when it has none of its
  own) the active one and its kernel stack the one for entries from ring 3 (both stay when the running task is picked
  again), and wakes exactly the sleepers whose deadline has passed. When a signal ends the picked task, that
  task is finished with code 128, the tasks waiting for its end are ready, and the CPU goes to a ready task (to slot 0
  when there is none) with its stack pointer, its kernel stack and its address space, if it has one. The
  frames of tasks that are not running lie on kernel stacks.
\<close>

theorem schedule_switches:
  assumes "k_enabled k" "length (k_tasks k) = MAX_TASKS" "k_current k < MAX_TASKS"
    "sched_choose (k_sched k) (ticked sp k) (k_current k) (k_ticks k) = (n, sc)" "n < MAX_TASKS"
    "k_kernel_root k \<noteq> 0" "address_space (task n k) \<noteq> Some 0"
    "frame = (if n = k_current k then sp else stack_pointer (task n k))" "\<not> frame_word frame 16 < USER_END"
    "schedule sp k = (sp', k')"
  shows "stack_pointer (task (k_current k) k') = sp \<and>
    (if ended_by_signal n frame k
     then state (task n k') = Finished \<and> exit_code (task n k') = 128 \<and>
       (\<forall>i < MAX_TASKS. i \<noteq> n \<and> state (task i k) = Blocked (Channel (word_of_nat n)) \<longrightarrow> state (task i k') = Ready) \<and>
       k_current k' < MAX_TASKS \<and> sp' = stack_pointer (task (k_current k') k') \<and>
       (state (task (k_current k') k') = Ready \<or> k_current k' = 0 \<and> (\<forall>i < MAX_TASKS. state (task i k') \<noteq> Ready)) \<and>
       (\<forall>root. address_space (task (k_current k') k') = Some root \<longrightarrow> k_root k' = root) \<and>
       (kernel_stack_top (task (k_current k') k') \<noteq> 0 \<longrightarrow> k_rsp0 k' = kernel_stack_top (task (k_current k') k'))
     else sp' = frame \<and> k_current k' = n \<and>
       k_root k' = (if n = k_current k then k_root k else case address_space (task n k) of Some root \<Rightarrow> root | None \<Rightarrow> k_kernel_root k) \<and>
       k_rsp0 k' = (if n = k_current k \<or> kernel_stack_top (task n k) = 0 then k_rsp0 k else kernel_stack_top (task n k)) \<and>
       (\<forall>i < MAX_TASKS. state (task i k') =
         (case state (task i k) of Blocked (Until deadline) \<Rightarrow> if deadline \<le> k_ticks k then Ready else Blocked (Until deadline) | st \<Rightarrow> st)))"
proof -
  let ?k2 = "resuming sp k n sc" and ?c = "k_current k"
  note r = resuming_spec [OF assms(2,3,5), where sp = sp and sc = sc]
  let ?old = "\<lambda>i. if i = ?c then (task i k)\<lparr> stack_pointer := sp \<rparr> else task i k"
  have woken: "state (wake_sleeper (k_ticks k) (?old i)) =
      (case state (task i k) of Blocked (Until deadline) \<Rightarrow> if deadline \<le> k_ticks k then Ready else Blocked (Until deadline) | st \<Rightarrow> st)" for i
    by (simp add: wake_sleeper_def split: State.splits Reason.splits)
  have t2: "stack_pointer (task i ?k2) = stack_pointer (?old i)" "state (task i ?k2) = state (wake_sleeper (k_ticks k) (?old i))"
      "pending (task i ?k2) = pending (task i k)" "address_space (task i ?k2) = address_space (task i k)"
      "handlers (task i ?k2) = handlers (task i k)" "restorer (task i ?k2) = restorer (task i k)"
      "kernel_stack_top (task i ?k2) = kernel_stack_top (task i k)" if "i < 8" for i
    using r(4) [OF that] by (auto simp: wake_sleeper_def split: State.splits Reason.splits)
  have frame: "stack_pointer (task n ?k2) = frame" using t2(1) [OF assms(5)] assms(8) by simp
  have same: "ended_by_signal n frame ?k2 = ended_by_signal n frame k"
    unfolding ended_by_signal_def t2(3-6) [OF assms(5)] r(3) ..
  define killed k3 where "killed = ended_by_signal n frame k"
    and "k3 = (if address_space (task n ?k2) \<noteq> None \<and> pending (task n ?k2) \<noteq> 0 then snd (deliver n frame ?k2) else ?k2)"
  have dk: "(if address_space (task n ?k2) \<noteq> None \<and> pending (task n ?k2) \<noteq> 0 then deliver n (stack_pointer (task n ?k2)) ?k2 else (False, ?k2)) = (killed, k3)"
    using deliver_killed [of n ?k2 frame] assms(5,9) r(1) same unfolding frame killed_def k3_def
    by (auto simp: prod_eq_iff ended_by_signal_def t2 [OF assms(5)])
  have k3: "length (k_tasks k3) = 8 \<and> k_current k3 = n \<and> k_root k3 = k_root ?k2 \<and> k_rsp0 k3 = k_rsp0 ?k2 \<and>
      (\<forall>i. \<exists>p. task i k3 = (task i ?k2)\<lparr> pending := p \<rparr>)"
  proof (cases "address_space (task n ?k2) \<noteq> None \<and> pending (task n ?k2) \<noteq> 0")
    case True
    have "deliver n frame ?k2 = (killed, k3)" using dk True unfolding frame by simp
    note d = deliver_tasks [OF this]
    define q where "q = pending (task n k3)"
    have "k_tasks k3 = (k_tasks ?k2)[n := (task n ?k2)\<lparr> pending := q \<rparr>]" unfolding q_def using d True assms(5) r(1) by simp
    then have "task i k3 = (task i ?k2)\<lparr> pending := if i = n then q else pending (task i ?k2) \<rparr>" for i
      using assms(5) r(1) by (simp add: task_def nth_list_update)
    then have "\<forall>i. \<exists>p. task i k3 = (task i ?k2)\<lparr> pending := p \<rparr>" by blast
    moreover have "length (k_tasks k3) = 8 \<and> k_current k3 = n \<and> k_root k3 = k_root ?k2 \<and> k_rsp0 k3 = k_rsp0 ?k2"
      using d True assms(5) r(1,2) by simp
    ultimately show ?thesis by blast
  next
    case False
    then have "k3 = ?k2" by (auto simp: k3_def)
    moreover have "task i ?k2 = (task i ?k2)\<lparr> pending := pending (task i ?k2) \<rparr>" for i by simp
    then have "\<forall>i. \<exists>p. task i ?k2 = (task i ?k2)\<lparr> pending := p \<rparr>" by blast
    ultimately show ?thesis using r(1,2) by simp
  qed
  have t3: "stack_pointer (task i k3) = stack_pointer (?old i) \<and> state (task i k3) = state (wake_sleeper (k_ticks k) (?old i))" if "i < 8" for i
  proof -
    obtain p where "task i k3 = (task i ?k2)\<lparr> pending := p \<rparr>" using k3 by blast
    then show ?thesis using t2(1,2) [OF that] by simp
  qed
  have run: "schedule sp k = (let k4 = (if killed then resume_fallback n (mark_finished n 128 k3) else k3)
      in (stack_pointer (task (if killed then k_current k4 else n) k4), k4))"
    unfolding schedule_resuming [OF assms(1,4)] by (simp only: Let_def dk prod.case)
  show ?thesis
  proof (cases killed)
    case False
    then have k': "k' = k3" "sp' = stack_pointer (task n k3)" using run assms(10) by (simp_all add: Let_def)
    have "\<forall>i < 8. state (task i k3) =
        (case state (task i k) of Blocked (Until deadline) \<Rightarrow> if deadline \<le> k_ticks k then Ready else Blocked (Until deadline) | st \<Rightarrow> st)"
      using t3 woken by simp
    moreover have "k_root k3 = (if n = ?c then k_root k else case address_space (task n k) of Some root \<Rightarrow> root | None \<Rightarrow> k_kernel_root k)"
      using k3 r(5) assms(6,7) by (auto split: option.splits)
    moreover have "stack_pointer (task n k3) = frame" "stack_pointer (task ?c k3) = sp" using t3 [OF assms(5)] t3 [OF assms(3)] assms(8) by simp_all
    ultimately show ?thesis using False k3 r(6) unfolding k' killed_def by auto
  next
    case True
    let ?k4 = "mark_finished n 128 k3"
    have k': "k' = resume_fallback n ?k4" "sp' = stack_pointer (task (k_current k') k')" using run assms(10) True by (simp_all add: Let_def)
    note fb = resume_fallback_spec [OF k'(1) [symmetric]]
    have t4: "task i k' = (if i = n then (task n k3)\<lparr> exit_code := 128, state := Finished \<rparr> else wake (word_of_nat n) (task i k3))" if "i < 8" for i
      using mark_finished_task [of k3 n i 128] k3 assms(5) that fb by (simp add: task_def)
    have tt: "task i k' = task i ?k4" for i using fb by (simp add: task_def)
    note fr = fallback_ready [OF assms(5) refl, of ?k4]
    have "stack_pointer (task ?c k') = sp" using t4 [OF assms(3)] t3 [OF assms(3)] by (auto simp: wake_def)
    moreover have "state (task i k') = Ready" if "i < 8" "i \<noteq> n" "state (task i k) = Blocked (Channel (word_of_nat n))" for i
      using t4 [OF that(1)] t3 [OF that(1)] woken [of i] that(2,3) by (simp add: wake_def)
    moreover have "state (task n k') = Finished" "exit_code (task n k') = 128" using t4 [OF assms(5)] by simp_all
    moreover have "\<forall>root. address_space (task (k_current k') k') = Some root \<longrightarrow> k_root k' = root"
        "kernel_stack_top (task (k_current k') k') \<noteq> 0 \<longrightarrow> k_rsp0 k' = kernel_stack_top (task (k_current k') k')"
      using fb unfolding tt by (auto split: option.splits)
    moreover have "k_current k' < 8" "state (task (k_current k') k') = Ready \<or> k_current k' = 0 \<and> (\<forall>i < 8. state (task i k') \<noteq> Ready)"
      using fb fr unfolding tt by auto
    ultimately show ?thesis using True k'(2) unfolding killed_def by auto
  qed
qed

section \<open>Signals\<close>

definition signals :: "u32 \<Rightarrow> nat list" where
  "signals p = filter (bit p) [0..<32]"

lemma signals_0: "p = 0 \<longleftrightarrow> signals p = []"
proof
  assume "signals p = []"
  then have "\<not> bit p i" if "i < 32" for i using that by (auto simp: signals_def filter_empty_conv)
  then show "p = 0" by (intro bit_eqI) (auto dest: bit_imp_le_length)
qed (simp add: signals_def)

lemma filter_find: "filter P xs = y # ys \<Longrightarrow> find P xs = Some y"
  by (induction xs) (auto split: if_splits)

lemma filter_rest: "distinct xs \<Longrightarrow> filter P xs = y # ys \<Longrightarrow> filter (\<lambda>x. P x \<and> x \<noteq> y) xs = ys"
proof (induction xs)
  case (Cons x xs)
  then show ?case by (cases "P x") (auto intro!: filter_cong)
qed simp

lemma signals_Cons:
  assumes "signals p = i # is"
  shows "lowest_bit p = i" "signals (p AND NOT (push_bit i 1)) = is"
proof -
  show "lowest_bit p = i" using filter_find [OF assms [unfolded signals_def]] by (simp add: lowest_bit_def)
  have "filter (bit (p AND NOT (push_bit i 1))) [0..<32] = filter (\<lambda>j. bit p j \<and> j \<noteq> i) [0..<32]"
    by (rule filter_cong) (auto simp: bit_simps)
  then show "signals (p AND NOT (push_bit i 1)) = is"
    using filter_rest [of "[0..<32]"] assms by (simp add: signals_def)
qed

text \<open>Taking pending signals until there is none, at most \<open>n\<close> times.\<close>

fun drain_signals :: "nat \<Rightarrow> nat \<Rightarrow> Kernel \<Rightarrow> nat list \<times> Kernel" where
  "drain_signals 0 tid k = ([], k)"
| "drain_signals (Suc n) tid k = (case take_pending_signal tid k of
     (None, k) \<Rightarrow> ([], k)
   | (Some sig, k) \<Rightarrow> (let (rest, k) = drain_signals n tid k in (sig # rest, k)))"

lemma drain_signals_spec:
  assumes "tid < length (k_tasks k)" "length (signals (pending (task tid k))) \<le> n"
  shows "fst (drain_signals n tid k) = signals (pending (task tid k)) \<and>
    pending (task tid (snd (drain_signals n tid k))) = 0"
  using assms
proof (induction n arbitrary: k)
  case (Suc n)
  let ?p = "pending (task tid k)"
  show ?case
  proof (cases "signals ?p")
    case Nil
    then show ?thesis using signals_0 [of ?p] by (simp add: take_pending_signal_def)
  next
    case (Cons i rest)
    let ?k = "at_task tid (\<lambda>t. t\<lparr> pending := ?p AND NOT (push_bit i 1) \<rparr>) k"
    have "take_pending_signal tid k = (Some i, ?k)"
      using signals_0 [of ?p] Cons signals_Cons(1) [OF Cons] by (simp add: take_pending_signal_def Let_def)
    moreover have "pending (task tid ?k) = ?p AND NOT (push_bit i 1)" "tid < length (k_tasks ?k)"
      using Suc.prems(1) by (simp_all add: task_at_other) (simp add: at_task_def)
    ultimately show ?thesis
      using Suc.IH [of ?k] Suc.prems(2) signals_Cons(2) [OF Cons] Cons by (simp add: case_prod_unfold Let_def)
  qed
qed (use signals_0 in simp)

text \<open>
  Every pending signal is taken exactly once, the lowest number first, and then none is left.
\<close>

theorem signals_taken_in_order:
  assumes "tid < length (k_tasks k)"
  shows "fst (drain_signals 32 tid k) = filter (bit (pending (task tid k))) [0..<32] \<and>
    pending (task tid (snd (drain_signals 32 tid k))) = 0"
proof -
  have "length (signals (pending (task tid k))) \<le> 32" unfolding signals_def by (rule order.trans [OF length_filter_le]) simp
  then show ?thesis using drain_signals_spec [OF assms] by (simp add: signals_def)
qed

theorem signals_taken_in_order_witness:
  "fst (drain_signals 32 1 (boot_demo\<lparr> k_tasks := (replicate 8 Task_empty)[1 := Task_empty\<lparr> pending := 0x8204 \<rparr>] \<rparr>)) = [2, 9, 15]"
proof -
  have "filter (bit (0x8204 :: u32)) [0..<32] = [2, 9, 15]" by code_simp
  then show ?thesis
    using signals_taken_in_order [of 1 "boot_demo\<lparr> k_tasks := (replicate 8 Task_empty)[1 := Task_empty\<lparr> pending := 0x8204 \<rparr>] \<rparr>"]
    by (simp add: task_def)
qed

section \<open>Address spaces of finished tasks\<close>

definition task_root :: "Task \<Rightarrow> u64 list" where
  "task_root t = (case address_space t of Some root \<Rightarrow> [root] | None \<Rightarrow> [])"

definition roots :: "Kernel \<Rightarrow> u64 multiset" where
  "roots k = mset (k_orphans k) + mset (concat (map task_root (k_tasks k)))"

lemma task_root_update:
  "i < length ts \<Longrightarrow> mset (concat (map task_root (ts[i := t]))) + mset (task_root (ts ! i)) =
     mset (concat (map task_root ts)) + mset (task_root t)"
proof (induction ts arbitrary: i)
  case (Cons x xs)
  then show ?case by (cases i) (auto simp: ac_simps)
qed simp

lemma collect_child_roots:
  assumes "length (k_tasks k) = MAX_TASKS"
  shows "roots (snd (collect_child par k)) = roots k"
proof (cases "find (\<lambda>tid. parent (task tid k) = Some par \<and> state (task tid k) = Finished) [0..<MAX_TASKS]")
  case (Some tid)
  then have t: "tid < length (k_tasks k)" using assms by (auto simp: find_Some_iff)
  have "task_root Task_empty = []" by (simp add: task_root_def Task_empty_def)
  then have "mset (concat (map task_root ((k_tasks k)[tid := Task_empty]))) + mset (task_root (task tid k)) =
      mset (concat (map task_root (k_tasks k)))"
    using task_root_update [OF t, of Task_empty] by (simp add: task_def)
  moreover have "roots (snd (collect_child par k)) =
      mset (k_orphans k) + mset (task_root (task tid k)) + mset (concat (map task_root ((k_tasks k)[tid := Task_empty])))"
    using Some by (simp add: collect_child_def clear_slot_def at_task_def roots_def task_root_def)
  ultimately show ?thesis by (simp add: roots_def ac_simps)
qed (simp add: collect_child_def)

lemma take_orphan_roots: "mset (fst (take_orphan t)) + mset (task_root (snd (take_orphan t))) = mset (task_root t)"
  by (simp add: take_orphan_def task_root_def split: option.splits)

lemma take_orphans_roots:
  "mset (concat (map (\<lambda>t. fst (take_orphan t)) ts)) + mset (concat (map task_root (map (\<lambda>t. snd (take_orphan t)) ts))) =
   mset (concat (map task_root ts))"
proof (induction ts)
  case (Cons t ts)
  show ?case using take_orphan_roots [of t] Cons.IH by (simp add: ac_simps)
qed simp

text \<open>
  C25: An address space is neither lost nor handed out twice on its way from a finished child to being
  reclaimed: collecting a child moves its address space to the orphans, and
  \<open>orphan_address_spaces\<close> returns each orphan and each address space of a finished task exactly
  once, takes them out of the kernel's tables, and leaves those of running tasks where they are.
\<close>

theorem address_spaces_conserved:
  assumes "length (k_tasks k) = MAX_TASKS" "orphan_address_spaces k = (rs, k')"
  shows "roots (snd (collect_child par k)) = roots k \<and> mset rs + roots k' = roots k \<and>
    k_orphans k' = [] \<and> (\<forall>i < MAX_TASKS. address_space (task i k') =
      (if state (task i k) \<in> {Finished, Free} then None else address_space (task i k)))"
proof -
  have k': "rs = k_orphans k @ concat (map (\<lambda>t. fst (take_orphan t)) (k_tasks k))"
      "k' = k\<lparr> k_tasks := map (\<lambda>t. snd (take_orphan t)) (k_tasks k), k_orphans := [] \<rparr>"
    using assms(2) by (simp_all add: orphan_address_spaces_def)
  have "mset rs + roots k' = roots k"
    unfolding k' using take_orphans_roots [of "k_tasks k"] by (simp add: roots_def ac_simps)
  moreover have "address_space (snd (take_orphan t)) = (if state t \<in> {Finished, Free} then None else address_space t)" for t
    by (auto simp: take_orphan_def split: option.splits)
  ultimately show ?thesis using collect_child_roots [OF assms(1)] assms(1) k'(2) by (simp add: task_def)
qed


definition orphan_demo :: Kernel where
  "orphan_demo = boot_demo\<lparr> k_tasks := (replicate 8 Task_empty)[0 := Task_empty\<lparr> state := Ready \<rparr>,
       1 := Task_empty\<lparr> state := Finished, address_space := Some 0x5000, parent := Some 0, exit_code := 7 \<rparr>], k_orphans := [0x6000] \<rparr>"

lemma orphan_demo_tasks: "length (k_tasks orphan_demo) = 8" "k_current orphan_demo = 0" "task 0 orphan_demo = Task_empty\<lparr> state := Ready \<rparr>"
  by (simp_all add: orphan_demo_def task_def) (simp add: Kernel_boot_def)

theorem address_spaces_conserved_witness:
  "fst (orphan_address_spaces orphan_demo) = [0x6000, 0x5000] \<and>
   mset [0x6000, 0x5000] + roots (snd (orphan_address_spaces orphan_demo)) = roots orphan_demo"
proof -
  have "fst (orphan_address_spaces orphan_demo) = [0x6000, 0x5000]"
    by (simp add: orphan_demo_def orphan_address_spaces_def numeral_eq_Suc take_orphan_def Task_empty_def)
  then obtain k' where o: "orphan_address_spaces orphan_demo = ([0x6000, 0x5000], k')" by (metis prod.collapse)
  have "mset [0x6000, 0x5000] + roots k' = roots orphan_demo"
    using address_spaces_conserved [OF orphan_demo_tasks(1) o] by blast
  then show ?thesis by (simp only: o fst_conv snd_conv simp_thms)
qed

text \<open>The scheduler's demonstration: task 1 is ready, task 0 is asleep until tick 5.\<close>

definition sleep_demo :: Kernel where
  "sleep_demo = boot_demo\<lparr> k_tasks := (replicate 8 Task_empty)[0 := Task_empty\<lparr> state := Blocked (Until 5) \<rparr>,
       1 := Task_empty\<lparr> state := Ready, stack_pointer := 0x9000000F00, kernel_stack_top := 0x9000001000, address_space := Some 0x5000 \<rparr>],
     k_enabled := True, k_ticks := 3, k_kernel_root := 0x1000 \<rparr>"

lemma sleep_demo_fields:
  "k_enabled sleep_demo" "length (k_tasks sleep_demo) = 8" "k_current sleep_demo = 0" "k_ticks sleep_demo = 3" "k_kernel_root sleep_demo = 0x1000"
  "k_sched sleep_demo = Sched_boot" "task 0 sleep_demo = Task_empty\<lparr> state := Blocked (Until 5) \<rparr>"
  "task 1 sleep_demo = Task_empty\<lparr> state := Ready, stack_pointer := 0x9000000F00, kernel_stack_top := 0x9000001000, address_space := Some 0x5000 \<rparr>"
  by (simp_all add: sleep_demo_def task_def Kernel_boot_def)

lemma sleep_demo_choice: "fst (sched_choose Sched_boot (ticked 0x9000002000 sleep_demo) 0 3) = 1"
proof -
  let ?ts = "ticked 0x9000002000 sleep_demo"
  obtain n sc where ch: "sched_choose Sched_boot ?ts 0 3 = (n, sc)" by fastforce
  have st: "state (?ts ! i) = (if i = 0 then Blocked (Until 5) else if i = 1 then Ready else Free)" if "i < 8" for i
    using that by (simp add: ticked_def sleep_demo_def Kernel_boot_def task_def nth_list_update wake_sleeper_def Task_empty_def)
  then have "\<exists>i < 8. state (?ts ! i) = Ready" by (intro exI [of _ 1]) simp
  then have "n < 8 \<and> state (?ts ! n) = Ready"
    using choose_cases [OF sched_reach_wf [OF sched_reach.boot] refl _ ch]
    by (auto simp: ready_Nil is_ready_def RunQueue_new_def split: if_splits)
  then show ?thesis using st [of n] by (simp add: ch split: if_splits)
qed

theorem schedule_switches_witness:
  "let (sp, k) = schedule 0x9000002000 sleep_demo
   in sp = 0x9000000F00 \<and> k_current k = 1 \<and> k_root k = 0x5000 \<and> k_rsp0 k = 0x9000001000 \<and>
      state (task 0 k) = Blocked (Until 5) \<and> stack_pointer (task 0 k) = 0x9000002000"
proof -
  let ?s = "0x9000002000 :: u64"
  obtain sc where c: "sched_choose Sched_boot (ticked ?s sleep_demo) 0 3 = (1, sc)"
    using sleep_demo_choice by (metis prod.collapse)
  obtain sp k where r: "schedule ?s sleep_demo = (sp, k)" by fastforce
  note f = sleep_demo_fields
  have "pending (task 1 sleep_demo) = 0" "address_space (task 1 sleep_demo) = Some 0x5000" "stack_pointer (task 1 sleep_demo) = 0x9000000F00"
      "kernel_stack_top (task 1 sleep_demo) = 0x9000001000" "state (task 0 sleep_demo) = Blocked (Until 5)"
    unfolding f by (simp_all add: Task_empty_def)
  moreover from this have "\<not> ended_by_signal 1 0x9000000F00 sleep_demo" by (simp add: ended_by_signal_def)
  moreover have "\<not> frame_word 0x9000000F00 16 < USER_END" by (simp add: frame_word_def)
  ultimately have "sp = 0x9000000F00 \<and> k_current k = 1 \<and> k_root k = 0x5000 \<and> k_rsp0 k = 0x9000001000 \<and>
      state (task 0 k) = Blocked (Until 5) \<and> stack_pointer (task 0 k) = ?s"
    using schedule_switches [OF f(1,2) _ _ _ _ _ _ _ r, of 1 sc "0x9000000F00"] c f(3-6) by simp
  then show ?thesis by (simp add: r)
qed

section \<open>Waiting for children\<close>

lemma word_of_slot_inj: "word_of_nat i = (word_of_nat j :: u64) \<Longrightarrow> i < MAX_TASKS \<Longrightarrow> j < MAX_TASKS \<Longrightarrow> i = j"
proof -
  assume a: "word_of_nat i = (word_of_nat j :: u64)" "i < MAX_TASKS" "j < MAX_TASKS"
  then have "8 * word_of_nat i = (8 * word_of_nat j :: u64)" by simp
  then show ?thesis by (rule mult8_inj) (use a in simp_all)
qed

lemma collect_child_cases:
  assumes "length (k_tasks k) = MAX_TASKS" "collect_child par k = (r, k')"
  shows "case r of
      None \<Rightarrow> k' = k \<and> (\<forall>c < MAX_TASKS. parent (task c k) = Some par \<longrightarrow> state (task c k) \<noteq> Finished)
    | Some code \<Rightarrow> \<exists>c < MAX_TASKS. parent (task c k) = Some par \<and> state (task c k) = Finished \<and> code = exit_code (task c k) \<and>
        task c k' = Task_empty \<and> (\<forall>i. i \<noteq> c \<longrightarrow> task i k' = task i k) \<and> set (task_root (task c k)) \<subseteq> set (k_orphans k')"
proof (cases "find (\<lambda>tid. parent (task tid k) = Some par \<and> state (task tid k) = Finished) [0..<MAX_TASKS]")
  case None
  then have "r = None" "k' = k" using assms(2) by (simp_all add: collect_child_def)
  then show ?thesis using None by (auto simp: find_None_iff)
next
  case (Some c)
  then have c: "c < 8" "parent (task c k) = Some par" "state (task c k) = Finished" by (auto simp: find_Some_iff)
  have "r = Some (exit_code (task c k))" "k' = clear_slot c (k\<lparr> k_orphans := k_orphans k @ task_root (task c k) \<rparr>)"
    using assms(2) Some by (simp_all add: collect_child_def task_root_def)
  then show ?thesis using c assms(1) by (auto simp: clear_slot_def task_at_other intro!: exI [of _ c]) (auto simp: task_def at_task_def)
qed

text \<open>
  C21: What \<open>wait\<close> returns. It hands out the exit code of a child that has finished, whose slot is free
  from then on and whose address space is kept for reclaiming; it returns without a code only when there is no child; and
  otherwise the caller sleeps on the channel of a child that is still running, so that the end of that child
  makes the caller ready again.
\<close>

theorem wait_any_child_outcome:
  assumes "length (k_tasks k) = MAX_TASKS" "k_current k = par" "par < MAX_TASKS" "parent (task par k) \<noteq> Some par"
    "wait_any_child_start par k = (r, k')"
  shows "case r of
      Some (Some code) \<Rightarrow> \<exists>c < MAX_TASKS. parent (task c k) = Some par \<and> state (task c k) = Finished \<and> code = exit_code (task c k) \<and>
        task c k' = Task_empty \<and> (\<forall>i. i \<noteq> c \<longrightarrow> task i k' = task i k) \<and> set (task_root (task c k)) \<subseteq> set (k_orphans k')
    | Some None \<Rightarrow> k' = k \<and> \<not> has_child par k
    | None \<Rightarrow> \<exists>c < MAX_TASKS. c \<noteq> par \<and> parent (task c k) = Some par \<and> live (task c k) \<and>
        state (task par k') = Blocked (Channel (word_of_nat c)) \<and> state (task par (mark_finished c code' k')) = Ready"
proof (cases "has_child par k")
  case False
  then have "r = Some None" "k' = k" using assms(5) by (simp_all add: wait_any_child_start_def)
  then show ?thesis using False by simp
next
  case True
  then have w: "wait_any_child_round par k = (r, k')" using assms(5) by (simp add: wait_any_child_start_def)
  obtain r0 k0 where c0: "collect_child par k = (r0, k0)" by fastforce
  note cc = collect_child_cases [OF assms(1) c0]
  show ?thesis
  proof (cases r0)
    case (Some code)
    then have "r = Some (Some code)" "k0 = k'" using w c0 by (simp_all add: wait_any_child_round_def)
    then show ?thesis using cc Some by simp
  next
    case None
    then have k0: "k0 = k" and nf: "\<forall>c < 8. parent (task c k) = Some par \<longrightarrow> state (task c k) \<noteq> Finished" using cc by simp_all
    obtain d where "d < 8" "parent (task d k) = Some par" "state (task d k) \<noteq> Free"
      using True assms(1) by (auto simp: has_child_def list_ex_iff)
    then have "position (\<lambda>t. parent t = Some par \<and> state t \<noteq> Free) (k_tasks k) \<noteq> None"
      using assms(1) by (intro position_complete [of d]) (simp_all add: task_def)
    then obtain c where c: "position (\<lambda>t. parent t = Some par \<and> state t \<noteq> Free) (k_tasks k) = Some c" by auto
    then have c8: "c < 8" "parent (task c k) = Some par" "state (task c k) \<noteq> Free" "state (task c k) \<noteq> Finished"
      using position_Some [OF c] assms(1) nf by (auto simp: task_def)
    then have k': "r = None" "k' = park (word_of_nat c) k"
      using w c0 None k0 c by (simp_all add: wait_any_child_round_def block_until_round_def)
    have ne: "c \<noteq> par" using c8(2) assms(4) by auto
    have "task par k' = (task par k)\<lparr> state := Blocked (Channel (word_of_nat c)) \<rparr>" "length (k_tasks k') = 8"
      using k'(2) assms(1-3) by (simp_all add: park_def task_at_other) (simp add: at_task_def)
    then show ?thesis using c8 k'(1) ne mark_finished_task [of k' c par code'] assms(3) by (auto simp: live_def wake_def)
  qed
qed

text \<open>
  \<open>wait\<close> watches one child only. While the caller sleeps on the channel of its first child, the end of any
  other child leaves it asleep.
\<close>

theorem wait_misses_other_children:
  assumes "length (k_tasks k) = MAX_TASKS" "par < MAX_TASKS" "state (task par k) = Blocked (Channel (word_of_nat c))"
    "c < MAX_TASKS" "d < MAX_TASKS" "d \<noteq> c" "d \<noteq> par"
  shows "state (task par (mark_finished d code k)) = Blocked (Channel (word_of_nat c))"
proof -
  have "word_of_nat c \<noteq> (word_of_nat d :: u64)" using word_of_slot_inj [of c d] assms by auto
  then show ?thesis using mark_finished_task [OF assms(1,5,2)] assms(3,7) by (simp add: wake_def)
qed


theorem wait_any_child_outcome_witness:
  "fst (wait_any_child_start 0 orphan_demo) = Some (Some 7) \<and>
   (\<exists>c < MAX_TASKS. exit_code (task c orphan_demo) = 7 \<and> task c (snd (wait_any_child_start 0 orphan_demo)) = Task_empty)"
proof -
  have f: "fst (wait_any_child_start 0 orphan_demo) = Some (Some 7)" by code_simp
  then obtain k where k: "wait_any_child_start 0 orphan_demo = (Some (Some 7), k)" by (metis prod.collapse)
  have "parent (task 0 orphan_demo) \<noteq> Some 0" unfolding orphan_demo_tasks by (simp add: Task_empty_def)
  from wait_any_child_outcome [OF orphan_demo_tasks(1,2) _ this k] show ?thesis by (simp add: k) metis
qed

theorem wait_misses_other_children_witness:
  "state (task 0 (mark_finished 3 0 (boot_demo\<lparr> k_tasks := (replicate 8 Task_empty)[0 := Task_empty\<lparr> state := Blocked (Channel (word_of_nat 2)) \<rparr>] \<rparr>))) =
   Blocked (Channel (word_of_nat 2))"
  by (rule wait_misses_other_children) (simp_all add: task_def)

end
