(* ===== verification/Serial_Input.thy ===== *)
theory Serial_Input
  imports Ring_Buffer
begin

text \<open>
  The console input queue of \<open>kernel/src/serial.rs\<close>: bytes arrive in the IRQ4 handler through
  \<open>push_input\<close> and are taken by \<open>read_input\<close> with interrupts off. The line driver itself
  (port I/O) is not modelled.
\<close>

abbreviation (input) INPUT_CAPACITY :: nat where "INPUT_CAPACITY \<equiv> 256"

record InputQueue =
  iq_buffer :: "u8 list"
  iq_read :: nat
  iq_write :: nat

definition INPUT_init :: InputQueue where
  "INPUT_init = \<lparr> iq_buffer = replicate INPUT_CAPACITY 0, iq_read = 0, iq_write = 0 \<rparr>"

definition push_input :: "InputQueue \<Rightarrow> u8 \<Rightarrow> InputQueue" where
  "push_input q byte =
     (let w = iq_write q; r = iq_read q; nxt = (w + 1) mod INPUT_CAPACITY
      in if nxt \<noteq> r then q\<lparr> iq_buffer := (iq_buffer q)[w := byte], iq_write := nxt \<rparr> else q)"

definition read_input :: "InputQueue \<Rightarrow> u8 option \<times> InputQueue" where
  "read_input q =
     (let r = iq_read q; w = iq_write q
      in if r = w then (None, q)
         else (Some (iq_buffer q ! r), q\<lparr> iq_read := (r + 1) mod INPUT_CAPACITY \<rparr>))"

definition input_wf :: "InputQueue \<Rightarrow> bool" where
  "input_wf q \<longleftrightarrow> length (iq_buffer q) = INPUT_CAPACITY \<and>
     iq_read q < INPUT_CAPACITY \<and> iq_write q < INPUT_CAPACITY"

definition input_contents :: "InputQueue \<Rightarrow> u8 list" where
  "input_contents q = ring_slice (iq_buffer q) INPUT_CAPACITY (iq_read q)
     (ring_gap INPUT_CAPACITY (iq_read q) (iq_write q))"

lemma input_push_contents:
  assumes "input_wf q"
  shows "input_contents (push_input q x) = fifo_push 255 (input_contents q) x"
proof (cases "Suc (iq_write q) mod 256 = iq_read q")
  case True
  then show ?thesis
    using assms ring_gap_full [of "iq_read q" 256 "iq_write q"]
    by (simp add: input_wf_def push_input_def input_contents_def fifo_push_def)
next
  case False
  let ?n = "ring_gap 256 (iq_read q) (iq_write q)"
  have e: "(iq_read q + ?n) mod 256 = iq_write q"
    using assms by (simp add: input_wf_def ring_gap_end)
  have n: "ring_gap 256 (iq_read q) (Suc (iq_write q) mod 256) = Suc ?n" "Suc ?n < 256"
    using assms False ring_gap_push [of "iq_read q" 256 "iq_write q"] by (auto simp: input_wf_def)
  have "ring_slice ((iq_buffer q)[(iq_read q + ?n) mod 256 := x]) 256 (iq_read q) (Suc ?n) =
      ring_slice (iq_buffer q) 256 (iq_read q) ?n @ [x]"
    by (rule ring_slice_push) (use assms n in \<open>auto simp: input_wf_def\<close>)
  then show ?thesis
    using False n e by (simp add: push_input_def input_contents_def fifo_push_def Let_def)
qed

lemma input_pop_contents:
  assumes "input_wf q"
  shows "(fst (read_input q), input_contents (snd (read_input q))) = fifo_pop (input_contents q)"
proof (cases "iq_read q = iq_write q")
  case True
  then show ?thesis
    using assms by (simp add: read_input_def input_contents_def input_wf_def ring_gap_0)
next
  case False
  then show ?thesis
    using assms ring_gap_pop [of "iq_read q" 256 "iq_write q"]
    by (simp add: read_input_def input_contents_def input_wf_def ring_slice_pop Let_def)
qed

interpretation serial_queue: bounded_queue push_input read_input input_contents input_wf 255
proof
  fix q :: InputQueue and x :: u8
  assume q: "input_wf q"
  then show "input_wf (push_input q x)" "input_wf (snd (read_input q))"
    by (auto simp: input_wf_def push_input_def read_input_def Let_def)
  show "input_contents (push_input q x) = fifo_push 255 (input_contents q) x"
    by (rule input_push_contents [OF q])
  show "(fst (read_input q), input_contents (snd (read_input q))) = fifo_pop (input_contents q)"
    by (rule input_pop_contents [OF q])
qed

lemma input_contents_bound: "length (input_contents q) \<le> 255"
  using ring_gap_less [of 256 "iq_read q" "iq_write q"] by (simp add: input_contents_def)

lemma INPUT_init_wf: "input_wf INPUT_init" "input_contents INPUT_init = []"
  by (simp_all add: INPUT_init_def input_wf_def input_contents_def ring_gap_def)

text \<open>
  For every interleaving of serial interrupts and reads, starting from the empty queue, what
  was read followed by what is still queued is exactly the sequence of bytes that found room,
  in order; the queue never holds more than 255.
\<close>

theorem serial_queue_fifo:
  "case queue_run push_input read_input ops INPUT_init of (out, q) \<Rightarrow>
     out @ input_contents q = fifo_accepted 255 ops [] \<and> length (input_contents q) \<le> 255"
  using serial_queue.run_stream [of INPUT_init ops] INPUT_init_wf by (auto split: prod.splits)

end
