(* ===== verification/Keyboard.thy ===== *)
theory Keyboard
  imports Serial_Input
begin

text \<open>
  \<open>kernel/src/keyboard.rs\<close>: the scancode queue between the IRQ1 handler and the shell, the
  decoding of scancode set 1 with its shift state, and the merge of the two consoles. The
  \<open>loop\<close> of \<open>read_key\<close> is a partial function: \<open>None\<close> at the outside would be a loop that never
  returns, and it is shown that this does not happen on a well-formed queue.
\<close>

abbreviation (input) SCANCODE_CAPACITY :: nat where "SCANCODE_CAPACITY \<equiv> 128"

record ScancodeQueue =
  sq_buffer :: "u8 list"
  sq_read :: nat
  sq_write :: nat

definition QUEUE_init :: ScancodeQueue where
  "QUEUE_init = \<lparr> sq_buffer = replicate SCANCODE_CAPACITY 0, sq_read = 0, sq_write = 0 \<rparr>"

definition push_scancode :: "ScancodeQueue \<Rightarrow> u8 \<Rightarrow> ScancodeQueue" where
  "push_scancode q scancode =
     (let w = sq_write q; r = sq_read q; nxt = (w + 1) mod SCANCODE_CAPACITY
      in if nxt \<noteq> r then q\<lparr> sq_buffer := (sq_buffer q)[w := scancode], sq_write := nxt \<rparr> else q)"

definition pop_scancode :: "ScancodeQueue \<Rightarrow> u8 option \<times> ScancodeQueue" where
  "pop_scancode q =
     (let r = sq_read q; w = sq_write q
      in if r = w then (None, q)
         else (Some (sq_buffer q ! r), q\<lparr> sq_read := (r + 1) mod SCANCODE_CAPACITY \<rparr>))"

datatype Key = KeyChar char | Enter | Backspace

definition unshifted :: string where
  "unshifted = [CHR 0x00, CHR 0x1B] @ ''1234567890-='' @ [CHR 0x08, CHR 0x09] @ ''qwertyuiop[]'' @
     [CHR 0x0A, CHR 0x00] @ ''asdfghjkl;'' @ [CHR 0x27, CHR 0x60, CHR 0x00, CHR 0x5C] @ ''zxcvbnm,./''"

definition shifted :: string where
  "shifted = [CHR 0x00, CHR 0x1B] @ ''!@#$%^&*()_+'' @ [CHR 0x08, CHR 0x09] @ ''QWERTYUIOP{}'' @
     [CHR 0x0A, CHR 0x00] @ ''ASDFGHJKL:'' @ [CHR 0x22, CHR 0x7E, CHR 0x00, CHR 0x7C] @ ''ZXCVBNM<>?''"

definition translate :: "u8 \<Rightarrow> bool \<Rightarrow> char option" where
  "translate code shift =
     (let table = (if shift then shifted else unshifted); index = unat code
      in if code = 0x39 then Some CHR 0x20
         else if index \<ge> length table then None
         else if table ! index = CHR 0x00 then None else Some (table ! index))"

text \<open>The modifier state \<open>SHIFT\<close> is threaded beside the queue.\<close>

partial_function (option) read_key ::
  "bool \<times> ScancodeQueue \<Rightarrow> (Key option \<times> bool \<times> ScancodeQueue) option" where
  "read_key st = (let (shift, q) = st in case pop_scancode q of
     (None, q') \<Rightarrow> Some (None, shift, q')
   | (Some scancode, q') \<Rightarrow>
       let released = (scancode AND 0x80 \<noteq> 0); code = scancode AND 0x7F
       in if code = 0x2A \<or> code = 0x36 then read_key (\<not> released, q')
          else if released then read_key (shift, q')
          else if code = 0x1C then Some (Some Enter, shift, q')
          else if code = 0x0E then Some (Some Backspace, shift, q')
          else (case translate code shift of
                  Some c \<Rightarrow> Some (Some (KeyChar c), shift, q')
                | None \<Rightarrow> read_key (shift, q')))"

definition serial_key :: "u8 \<Rightarrow> Key option" where
  "serial_key byte =
     (if byte = 0x0D \<or> byte = 0x0A then Some Enter
      else if byte = 0x08 \<or> byte = 0x7F then Some Backspace
      else if 0x20 \<le> byte \<and> byte \<le> 0x7E then Some (KeyChar (char_of (unat byte)))
      else None)"

type_synonym Consoles = "InputQueue \<times> bool \<times> ScancodeQueue"

definition next_key :: "Consoles \<Rightarrow> (Key option \<times> Consoles) option" where
  "next_key s = (let (inp, shift, q) = s in case read_input inp of
     (Some byte, inp') \<Rightarrow> Some (serial_key byte, inp', shift, q)
   | (None, inp') \<Rightarrow> map_option (\<lambda>(k, shift', q'). (k, inp', shift', q')) (read_key (shift, q)))"

definition key_byte :: "Key \<Rightarrow> u8" where
  "key_byte k = (case k of KeyChar c \<Rightarrow> of_nat (of_char c) | Enter \<Rightarrow> 0x0A | Backspace \<Rightarrow> 0x08)"

definition next_byte :: "Consoles \<Rightarrow> (u8 option \<times> Consoles) option" where
  "next_byte s = map_option (\<lambda>(k, s'). (map_option key_byte k, s')) (next_key s)"

section \<open>The scancode queue is a bounded queue\<close>

definition scancode_wf :: "ScancodeQueue \<Rightarrow> bool" where
  "scancode_wf q \<longleftrightarrow> length (sq_buffer q) = SCANCODE_CAPACITY \<and>
     sq_read q < SCANCODE_CAPACITY \<and> sq_write q < SCANCODE_CAPACITY"

definition scancodes :: "ScancodeQueue \<Rightarrow> u8 list" where
  "scancodes q = ring_slice (sq_buffer q) SCANCODE_CAPACITY (sq_read q)
     (ring_gap SCANCODE_CAPACITY (sq_read q) (sq_write q))"

lemma scancode_push_contents:
  assumes "scancode_wf q"
  shows "scancodes (push_scancode q x) = fifo_push 127 (scancodes q) x"
proof (cases "Suc (sq_write q) mod 128 = sq_read q")
  case True
  then show ?thesis
    using assms ring_gap_full [of "sq_read q" 128 "sq_write q"]
    by (simp add: scancode_wf_def push_scancode_def scancodes_def fifo_push_def)
next
  case False
  let ?n = "ring_gap 128 (sq_read q) (sq_write q)"
  have e: "(sq_read q + ?n) mod 128 = sq_write q"
    using assms by (simp add: scancode_wf_def ring_gap_end)
  have n: "ring_gap 128 (sq_read q) (Suc (sq_write q) mod 128) = Suc ?n" "Suc ?n < 128"
    using assms False ring_gap_push [of "sq_read q" 128 "sq_write q"] by (auto simp: scancode_wf_def)
  have "ring_slice ((sq_buffer q)[(sq_read q + ?n) mod 128 := x]) 128 (sq_read q) (Suc ?n) =
      ring_slice (sq_buffer q) 128 (sq_read q) ?n @ [x]"
    by (rule ring_slice_push) (use assms n in \<open>auto simp: scancode_wf_def\<close>)
  then show ?thesis
    using False n e by (simp add: push_scancode_def scancodes_def fifo_push_def Let_def)
qed

lemma scancode_pop_contents:
  assumes "scancode_wf q"
  shows "(fst (pop_scancode q), scancodes (snd (pop_scancode q))) = fifo_pop (scancodes q)"
proof (cases "sq_read q = sq_write q")
  case True
  then show ?thesis
    using assms by (simp add: pop_scancode_def scancodes_def scancode_wf_def ring_gap_0)
next
  case False
  then show ?thesis
    using assms ring_gap_pop [of "sq_read q" 128 "sq_write q"]
    by (simp add: pop_scancode_def scancodes_def scancode_wf_def ring_slice_pop Let_def)
qed

interpretation scancode_queue: bounded_queue push_scancode pop_scancode scancodes scancode_wf 127
proof
  fix q :: ScancodeQueue and x :: u8
  assume q: "scancode_wf q"
  then show "scancode_wf (push_scancode q x)" "scancode_wf (snd (pop_scancode q))"
    by (auto simp: scancode_wf_def push_scancode_def pop_scancode_def Let_def)
  show "scancodes (push_scancode q x) = fifo_push 127 (scancodes q) x"
    by (rule scancode_push_contents [OF q])
  show "(fst (pop_scancode q), scancodes (snd (pop_scancode q))) = fifo_pop (scancodes q)"
    by (rule scancode_pop_contents [OF q])
qed

lemma scancodes_bound: "length (scancodes q) \<le> 127"
  using ring_gap_less [of 128 "sq_read q" "sq_write q"] by (simp add: scancodes_def)

section \<open>Decoding\<close>

text \<open>
  What a stream of scancodes means, without the ring: the first key of the stream, the shift
  state after it and the scancodes left over.
\<close>

fun decode_scancodes :: "bool \<Rightarrow> u8 list \<Rightarrow> Key option \<times> bool \<times> u8 list" where
  "decode_scancodes shift [] = (None, shift, [])"
| "decode_scancodes shift (s # ss) =
     (let released = bit s 7; code = s AND 0x7F
      in if code \<in> {0x2A, 0x36} then decode_scancodes (\<not> released) ss
         else if released then decode_scancodes shift ss
         else if code = 0x1C then (Some Enter, shift, ss)
         else if code = 0x0E then (Some Backspace, shift, ss)
         else case translate code shift of
           Some c \<Rightarrow> (Some (KeyChar c), shift, ss)
         | None \<Rightarrow> decode_scancodes shift ss)"

lemma released_bit: "(s AND 0x80 \<noteq> 0) = bit s 7" for s :: u8
  by (simp add: bit_iff_and_push_bit_not_eq_0)

lemma read_key_decode:
  "scancode_wf q \<Longrightarrow> \<exists>q'. scancode_wf q' \<and>
     read_key (shift, q) = Some (fst (decode_scancodes shift (scancodes q)),
       fst (snd (decode_scancodes shift (scancodes q))), q') \<and>
     scancodes q' = snd (snd (decode_scancodes shift (scancodes q)))"
proof (induction "scancodes q" arbitrary: q shift)
  case Nil
  then have "pop_scancode q = (None, snd (pop_scancode q))" "scancodes (snd (pop_scancode q)) = []"
    using scancode_queue.contents_pop [of q] by (auto simp: prod_eq_iff)
  then show ?case
    using Nil scancode_queue.pop_wf [of q] by (subst read_key.simps) (auto split: prod.splits)
next
  case (Cons s ss)
  have sc: "scancodes q = s # ss" using Cons.hyps(2) by simp
  obtain q' where q': "pop_scancode q = (Some s, q')" "scancodes q' = ss" "scancode_wf q'"
    using scancode_queue.contents_pop [OF Cons.prems] scancode_queue.pop_wf [OF Cons.prems]
    by (cases "pop_scancode q") (simp add: sc)
  have ih: "\<exists>q''. scancode_wf q'' \<and>
     read_key (sh, q') = Some (fst (decode_scancodes sh ss), fst (snd (decode_scancodes sh ss)), q'') \<and>
     scancodes q'' = snd (snd (decode_scancodes sh ss))" for sh
    using Cons.hyps(1) [of q' sh] q' by simp
  show ?case
    using ih [of shift] ih [of "\<not> bit s 7"] q'(2,3)
    by (subst read_key.simps)
       (auto simp: q'(1) sc released_bit Let_def split: option.splits)
qed

text \<open>
  For every interleaving of keyboard interrupts and reads, starting from the empty queue,
  what was read followed by what is still queued is exactly the sequence of scancodes that
  found room, in order; the queue never holds more than 127. Nothing is duplicated, reordered
  or overwritten, and only a scancode that arrives at a full queue is dropped.
\<close>

theorem keyboard_queue_fifo:
  "case queue_run push_scancode pop_scancode ops QUEUE_init of (out, q) \<Rightarrow>
     out @ scancodes q = fifo_accepted 127 ops [] \<and> length (scancodes q) \<le> 127"
proof -
  have "scancode_wf QUEUE_init" "scancodes QUEUE_init = []"
    by (simp_all add: QUEUE_init_def scancode_wf_def scancodes_def ring_gap_def)
  then show ?thesis
    using scancode_queue.run_stream [of QUEUE_init ops] by (auto split: prod.splits)
qed

text \<open>
  C34: \<open>read_key\<close> always returns, and returns the meaning of the queued scancodes: the first key
  press that has one, with shift held or released by the events before it, leaving the events
  after it in the queue.
\<close>

theorem read_key_correct:
  assumes "scancode_wf q"
  shows "\<exists>k shift' q'. read_key (shift, q) = Some (k, shift', q') \<and> scancode_wf q' \<and>
    decode_scancodes shift (scancodes q) = (k, shift', scancodes q')"
  using read_key_decode [OF assms, of shift] by (auto simp: prod_eq_iff)

theorem read_key_correct_witness:
  "\<exists>k shift' q'. read_key (False, QUEUE_init) = Some (k, shift', q') \<and> scancode_wf q' \<and>
    decode_scancodes False (scancodes QUEUE_init) = (k, shift', scancodes q')"
  by (rule read_key_correct) (simp add: QUEUE_init_def scancode_wf_def)

text \<open>The characters on the keycaps, and that a keycap other than the unused code 0 is typed.\<close>

lemma keycaps:
  "\<forall>n \<in> set [32..<127]. n = 32 \<or>
     char_of n \<in> set (unshifted @ shifted) \<and> char_of n \<noteq> CHR 0x00"
  by code_simp

lemma length_layout: "length unshifted = 54" "length shifted = 54"
  by (simp_all add: unshifted_def shifted_def)

lemma keycap_typed:
  assumes "c \<in> set (unshifted @ shifted)" "c \<noteq> CHR 0x00"
  shows "\<exists>code shift. translate code shift = Some c"
proof -
  obtain shift i where i: "i < 54" "(if shift then shifted else unshifted) ! i = c"
  proof (cases "c \<in> set unshifted")
    case True
    then show ?thesis using that [of _ False] by (auto simp: in_set_conv_nth length_layout)
  next
    case False
    then have "c \<in> set shifted" using assms(1) by simp
    then show ?thesis using that [of _ True] by (auto simp: in_set_conv_nth length_layout)
  qed
  have "unat (word_of_nat i :: u8) = i"
    using i(1) by (simp add: unsigned_of_nat take_bit_eq_mod)
  moreover from this have "word_of_nat i \<noteq> (0x39 :: u8)"
    using i(1) by auto
  ultimately have "translate (word_of_nat i) shift = Some c"
    using i assms(2) by (cases shift) (auto simp: translate_def length_layout)
  then show ?thesis by blast
qed

text \<open>
  Every printable ASCII character can be typed: some key, with or without shift, translates
  to it.
\<close>

theorem layout_complete:
  assumes "32 \<le> n" "n < 127"
  shows "\<exists>code shift. translate code shift = Some (char_of (n :: nat))"
proof -
  have "n = 32 \<or> char_of n \<in> set (unshifted @ shifted) \<and> char_of n \<noteq> CHR 0x00"
    using bspec [OF keycaps, of n] assms by (simp only: set_upt atLeastLessThan_iff)
  moreover have "translate 0x39 False = Some (char_of (32 :: nat))"
    by code_simp
  ultimately show ?thesis using keycap_typed by blast
qed

theorem layout_complete_witness: "\<exists>code shift. translate code shift = Some (char_of (126 :: nat))"
  by (rule layout_complete) simp_all

text \<open>
  A byte on the serial line that is neither printable nor an editing key makes \<open>next_key\<close>
  report that nothing is waiting, whatever is queued behind it. A shell that blocks on that
  answer sleeps with input in hand.
\<close>

theorem next_key_hides_pending:
  assumes "input_wf inp" "input_contents inp = byte # rest" "byte < 0x20"
    "byte \<notin> {0x08, 0x0A, 0x0D}"
  shows "\<exists>inp'. next_key (inp, shift, q) = Some (None, inp', shift, q) \<and> input_contents inp' = rest"
proof -
  obtain inp' where "read_input inp = (Some byte, inp')" "input_contents inp' = rest"
    using serial_queue.contents_pop [OF assms(1)] assms(2) by (cases "read_input inp") auto
  moreover have "serial_key byte = None"
    using assms(3,4) by (auto simp: serial_key_def word_less_nat_alt word_le_nat_alt)
  ultimately show ?thesis by (simp add: next_key_def)
qed

theorem next_key_hides_pending_witness:
  "\<exists>inp'. next_key (push_input (push_input INPUT_init 0x1B) 0x61, False, QUEUE_init) =
     Some (None, inp', False, QUEUE_init) \<and> input_contents inp' = [0x61]"
  by (rule next_key_hides_pending [where byte = "0x1B"])
     (simp_all add: serial_queue.push_wf serial_queue.contents_push INPUT_init_wf fifo_push_def)

end
