(* ===== verification/Pools.thy ===== *)
theory Pools
  imports Prelude
begin

text \<open>
  The contract of an allocator of identical resources: taking one removes it from what is
  available, giving one back adds it. Swap slots and physical frames are such pools.
\<close>

fun take_many :: "('s \<Rightarrow> ('r \<times> 's) option) \<Rightarrow> nat \<Rightarrow> 's \<Rightarrow> 'r list \<times> 's" where
  "take_many tk 0 s = ([], s)"
| "take_many tk (Suc n) s = (case tk s of
     None \<Rightarrow> ([], s)
   | Some (r, s') \<Rightarrow> (let (rs, s'') = take_many tk n s' in (r # rs, s'')))"

locale resource_pool =
  fixes tk :: "'s \<Rightarrow> ('r \<times> 's) option"
    and give :: "'s \<Rightarrow> 'r \<Rightarrow> 's"
    and avail :: "'s \<Rightarrow> 'r set"
    and legal :: "'r \<Rightarrow> bool"
    and inv :: "'s \<Rightarrow> bool"
  assumes take_Some: "inv s \<Longrightarrow> tk s = Some (r, s') \<Longrightarrow> r \<in> avail s \<and> avail s' = avail s - {r} \<and> inv s'"
    and take_None: "inv s \<Longrightarrow> tk s = None \<Longrightarrow> avail s = {}"
    and give_avail: "inv s \<Longrightarrow> legal r \<Longrightarrow> r \<notin> avail s \<Longrightarrow> avail (give s r) = insert r (avail s) \<and> inv (give s r)"
    and avail_finite: "inv s \<Longrightarrow> finite (avail s)"
begin

lemma take_many_pool:
  "inv s \<Longrightarrow> take_many tk n s = (rs, s') \<Longrightarrow>
   inv s' \<and> distinct rs \<and> set rs \<subseteq> avail s \<and> avail s' = avail s - set rs \<and>
   length rs = min n (card (avail s))"
proof (induction n arbitrary: s rs)
  case (Suc n)
  show ?case
  proof (cases "tk s")
    case None
    then show ?thesis using Suc.prems take_None by auto
  next
    case (Some x)
    then obtain r s1 where r: "tk s = Some (r, s1)" by (cases x) auto
    note t = take_Some [OF Suc.prems(1) r]
    obtain rs1 where rs1: "take_many tk n s1 = (rs1, s')" "rs = r # rs1"
      using Suc.prems(2) r by (auto simp: Let_def split: prod.splits)
    have "card (avail s) = Suc (card (avail s1))"
      using t avail_finite [OF Suc.prems(1)] by (metis card_Suc_Diff1)
    then show ?thesis
      using Suc.IH [of s1 rs1] t rs1 by auto
  qed
qed simp

lemma take_then_give:
  assumes "inv s" "tk s = Some (r, s')" "legal r"
  shows "avail (give s' r) = avail s \<and> inv (give s' r)"
  using take_Some [OF assms(1,2)] give_avail [of s' r] assms(3) by auto

lemma give_then_take:
  assumes "inv s" "legal r" "r \<notin> avail s"
  shows "tk (give s r) \<noteq> None"
  using give_avail [OF assms] take_None by (metis insert_not_empty)

end

end
