(* ===== verification/Page_Set.thy ===== *)
theory Page_Set
  imports Prelude
begin

text \<open>
  Page table entries and the view a replacement policy has of an address space
  (\<open>kernel/src/memory.rs\<close>, the flag constants and \<open>PageSet\<close>). A \<open>PageSet\<close> of the source holds,
  per resident page, its address and a pointer to its live entry; the entries are distinct words
  of the page tables, so the set is a list of pairs of an address and the current entry. Whether
  a frame is shared is a question to \<open>memory.rs\<close>, so the answer is a field of the set.
\<close>

abbreviation (input) PAGE_SIZE :: u64 where "PAGE_SIZE \<equiv> 4096"

definition PRESENT :: u64 where "PRESENT = 1"
definition WRITABLE :: u64 where "WRITABLE = push_bit 1 1"
definition USER :: u64 where "USER = push_bit 2 1"
definition HUGE :: u64 where "HUGE = push_bit 7 1"
definition ACCESSED :: u64 where "ACCESSED = push_bit 5 1"
definition DIRTY :: u64 where "DIRTY = push_bit 6 1"
definition COW :: u64 where "COW = push_bit 9 1"
definition SWAPPED :: u64 where "SWAPPED = push_bit 10 1"
definition NO_EXECUTE :: u64 where "NO_EXECUTE = push_bit 63 1"
definition ADDRESS_MASK :: u64 where "ADDRESS_MASK = 0x000FFFFFFFFFF000"

lemmas flag_defs = PRESENT_def WRITABLE_def USER_def HUGE_def ACCESSED_def DIRTY_def COW_def
  SWAPPED_def NO_EXECUTE_def

lemma ADDRESS_MASK_bits: "ADDRESS_MASK = push_bit 12 (mask 40)"
  by (simp add: ADDRESS_MASK_def mask_eq_exp_minus_1)

lemma bit_ADDRESS_MASK [simp]: "bit ADDRESS_MASK n \<longleftrightarrow> 12 \<le> n \<and> n < 52"
  by (auto simp: ADDRESS_MASK_bits bit_simps)

lemma bit_single: "bit (push_bit k 1 :: u64) n \<longleftrightarrow> n = k \<and> k < 64"
  by (auto simp: bit_exp_iff)

lemma bit_flags [simp]:
  "bit PRESENT n \<longleftrightarrow> n = 0" "bit WRITABLE n \<longleftrightarrow> n = 1" "bit USER n \<longleftrightarrow> n = 2" "bit HUGE n \<longleftrightarrow> n = 7"
  "bit ACCESSED n \<longleftrightarrow> n = 5" "bit DIRTY n \<longleftrightarrow> n = 6" "bit COW n \<longleftrightarrow> n = 9"
  "bit SWAPPED n \<longleftrightarrow> n = 10" "bit NO_EXECUTE n \<longleftrightarrow> n = 63"
  by (simp_all only: flag_defs bit_single bit_1_iff) auto

lemma flag_test:
  "e AND PRESENT \<noteq> 0 \<longleftrightarrow> bit e 0" "e AND WRITABLE \<noteq> 0 \<longleftrightarrow> bit e 1" "e AND USER \<noteq> 0 \<longleftrightarrow> bit e 2"
  "e AND HUGE \<noteq> 0 \<longleftrightarrow> bit e 7" "e AND ACCESSED \<noteq> 0 \<longleftrightarrow> bit e 5" "e AND DIRTY \<noteq> 0 \<longleftrightarrow> bit e 6"
  "e AND COW \<noteq> 0 \<longleftrightarrow> bit e 9" "e AND SWAPPED \<noteq> 0 \<longleftrightarrow> bit e 10"
  using bit_iff_and_push_bit_not_eq_0 [of e] by (simp_all only: flag_defs) (metis push_bit_0_id id_apply)

record PageSet =
  ps_pages :: "(u64 \<times> u64) list"
  ps_shared :: "u64 \<Rightarrow> bool"

definition ps_len :: "PageSet \<Rightarrow> nat" where
  "ps_len ps = length (ps_pages ps)"

definition ps_is_empty :: "PageSet \<Rightarrow> bool" where
  "ps_is_empty ps \<longleftrightarrow> ps_pages ps = []"

definition ps_address :: "PageSet \<Rightarrow> nat \<Rightarrow> u64" where
  "ps_address ps i = fst (ps_pages ps ! i)"

definition ps_entry :: "PageSet \<Rightarrow> nat \<Rightarrow> u64" where
  "ps_entry ps i = snd (ps_pages ps ! i)"

definition accessed :: "PageSet \<Rightarrow> nat \<Rightarrow> bool" where
  "accessed ps i \<longleftrightarrow> ps_entry ps i AND ACCESSED \<noteq> 0"

definition dirty :: "PageSet \<Rightarrow> nat \<Rightarrow> bool" where
  "dirty ps i \<longleftrightarrow> ps_entry ps i AND DIRTY \<noteq> 0"

definition eligible :: "PageSet \<Rightarrow> nat \<Rightarrow> bool" where
  "eligible ps i =
     (let e = ps_entry ps i
      in e AND PRESENT \<noteq> 0 \<and> e AND SWAPPED = 0 \<and> \<not> ps_shared ps (e AND ADDRESS_MASK))"

definition clear_accessed :: "PageSet \<Rightarrow> nat \<Rightarrow> PageSet" where
  "clear_accessed ps i =
     ps\<lparr> ps_pages := (ps_pages ps)[i := (ps_address ps i, ps_entry ps i AND NOT ACCESSED)] \<rparr>"

definition test_entry :: "bool \<Rightarrow> bool \<Rightarrow> bool \<Rightarrow> bool \<Rightarrow> u64" where
  "test_entry present acc dirt swapped =
     (let e = 0x7FF000 OR USER OR WRITABLE;
          e = (if present then e OR PRESENT else e);
          e = (if acc then e OR ACCESSED else e);
          e = (if dirt then e OR DIRTY else e)
      in if swapped then e OR SWAPPED else e)"

section \<open>Clearing accessed bits changes nothing else\<close>

definition clears_only :: "PageSet \<Rightarrow> PageSet \<Rightarrow> bool" where
  "clears_only ps ps' \<longleftrightarrow> ps_len ps' = ps_len ps \<and> ps_shared ps' = ps_shared ps \<and>
     (\<forall>i < ps_len ps. ps_address ps' i = ps_address ps i \<and>
        ps_entry ps' i \<in> {ps_entry ps i, ps_entry ps i AND NOT ACCESSED})"

lemma clears_only_refl [intro, simp]: "clears_only ps ps"
  by (simp add: clears_only_def)

lemma clears_only_trans [trans]:
  assumes "clears_only ps ps'" "clears_only ps' ps''"
  shows "clears_only ps ps''"
  using assms unfolding clears_only_def by (simp add: and.assoc) fastforce

lemma ps_len_clear [simp]: "ps_len (clear_accessed ps i) = ps_len ps"
  by (simp add: clear_accessed_def ps_len_def)

lemma ps_entry_clear:
  "i < ps_len ps \<Longrightarrow> ps_entry (clear_accessed ps i) j =
     (if j = i then ps_entry ps i AND NOT ACCESSED else ps_entry ps j)"
  by (simp add: clear_accessed_def ps_entry_def ps_len_def nth_list_update)

lemma ps_address_clear [simp]: "i < ps_len ps \<Longrightarrow> ps_address (clear_accessed ps i) j = ps_address ps j"
  by (simp add: clear_accessed_def ps_address_def ps_len_def nth_list_update)

lemma clears_only_clear [intro]: "i < ps_len ps \<Longrightarrow> clears_only ps (clear_accessed ps i)"
  unfolding clears_only_def by (auto simp: ps_entry_clear) (simp add: clear_accessed_def)

lemma entry_bits:
  "accessed ps i = bit (ps_entry ps i) 5" "dirty ps i = bit (ps_entry ps i) 6"
  "eligible ps i \<longleftrightarrow> bit (ps_entry ps i) 0 \<and> \<not> bit (ps_entry ps i) 10 \<and>
     \<not> ps_shared ps (ps_entry ps i AND ADDRESS_MASK)"
  unfolding accessed_def dirty_def eligible_def Let_def using flag_test by blast+

lemma clear_keeps_frame: "(e AND NOT ACCESSED) AND ADDRESS_MASK = e AND ADDRESS_MASK"
  by (rule bit_eqI) (auto simp: bit_simps)

lemma clears_only_eligible:
  "clears_only ps ps' \<Longrightarrow> i < ps_len ps \<Longrightarrow> eligible ps' i = eligible ps i"
  unfolding clears_only_def entry_bits
  by (elim conjE allE [of _ i]) (auto simp: clear_keeps_frame bit_simps)

lemma accessed_clear:
  "i < ps_len ps \<Longrightarrow> accessed (clear_accessed ps i) j = (j \<noteq> i \<and> accessed ps j)"
  by (auto simp: entry_bits ps_entry_clear bit_simps)

lemma eligible_clear [simp]:
  "i < ps_len ps \<Longrightarrow> j < ps_len ps \<Longrightarrow> eligible (clear_accessed ps i) j = eligible ps j"
  by (rule clears_only_eligible) auto

end
