(* ===== verification/Replace.thy ===== *)
theory Replace
  imports Page_Set
begin

text \<open>
  \<open>kernel/src/replace.rs\<close>: the four page replacement policies and the registry that dispatches
  to the installed one. A policy's \<open>choose\<close> returns the index it picked, its new state and the
  page set, in which it may have cleared accessed bits. The trait \<open>Replacer\<close> is the locale
  \<open>page_replacer\<close>, interpreted on every registered policy.
\<close>

section \<open>Clock\<close>

record Clock =
  hand :: nat

definition Clock_new :: Clock where "Clock_new = \<lparr> hand = 0 \<rparr>"

fun clock_sweep :: "nat \<Rightarrow> nat list \<Rightarrow> PageSet \<Rightarrow> nat option \<times> PageSet" where
  "clock_sweep start [] pages = (None, pages)"
| "clock_sweep start (step # steps) pages =
     (let index = (start + step) mod ps_len pages
      in if \<not> eligible pages index then clock_sweep start steps pages
         else if accessed pages index then clock_sweep start steps (clear_accessed pages index)
         else (Some index, pages))"

definition clock_choose :: "Clock \<Rightarrow> PageSet \<Rightarrow> nat option \<times> Clock \<times> PageSet" where
  "clock_choose c pages =
     (if ps_is_empty pages then (None, c, pages)
      else case clock_sweep (hand c) [0..<ps_len pages * 2] pages of
        (None, pages') \<Rightarrow> (None, c, pages')
      | (Some index, pages') \<Rightarrow> (Some index, c\<lparr> hand := (index + 1) mod ps_len pages \<rparr>, pages'))"

definition clock_reset :: "Clock \<Rightarrow> Clock" where
  "clock_reset c = c\<lparr> hand := 0 \<rparr>"

section \<open>First in, first out\<close>

abbreviation (input) TRACKED :: nat where "TRACKED \<equiv> 128"

record PageFifo =
  fifo_address :: "u64 list"
  fifo_stamp :: "u64 list"
  fifo_next :: u64

definition PageFifo_new :: PageFifo where
  "PageFifo_new = \<lparr> fifo_address = replicate TRACKED 0, fifo_stamp = replicate TRACKED 0, fifo_next = 1 \<rparr>"

definition slot_of :: "PageFifo \<Rightarrow> u64 \<Rightarrow> nat option" where
  "slot_of f address = find (\<lambda>i. fifo_stamp f ! i \<noteq> 0 \<and> fifo_address f ! i = address) [0..<TRACKED]"

definition fifo_age :: "PageFifo \<Rightarrow> u64 \<Rightarrow> u64" where
  "fifo_age f address = (case slot_of f address of Some slot \<Rightarrow> fifo_stamp f ! slot | None \<Rightarrow> 0)"

fun fifo_scan :: "PageFifo \<Rightarrow> PageSet \<Rightarrow> nat list \<Rightarrow> nat option \<Rightarrow> u64 \<Rightarrow> nat option" where
  "fifo_scan f pages [] best oldest = best"
| "fifo_scan f pages (index # rest) best oldest =
     (if \<not> eligible pages index then fifo_scan f pages rest best oldest
      else let age = fifo_age f (ps_address pages index)
           in if age < oldest then fifo_scan f pages rest (Some index) age
              else fifo_scan f pages rest best oldest)"

definition page_fifo_choose :: "PageFifo \<Rightarrow> PageSet \<Rightarrow> nat option \<times> PageFifo \<times> PageSet" where
  "page_fifo_choose f pages = (fifo_scan f pages [0..<ps_len pages] None (- 1), f, pages)"

definition free_slot_of :: "PageFifo \<Rightarrow> nat" where
  "free_slot_of f = (case find (\<lambda>i. fifo_stamp f ! i = 0) [0..<TRACKED] of
     Some i \<Rightarrow> i
   | None \<Rightarrow> (case min_by_key (\<lambda>i. fifo_stamp f ! i) [0..<TRACKED] of Some i \<Rightarrow> i | None \<Rightarrow> 0))"

definition fifo_on_resident :: "PageFifo \<Rightarrow> u64 \<Rightarrow> PageFifo" where
  "fifo_on_resident f address =
     (if slot_of f address \<noteq> None then f
      else f\<lparr> fifo_address := (fifo_address f)[free_slot_of f := address],
              fifo_stamp := (fifo_stamp f)[free_slot_of f := fifo_next f],
              fifo_next := fifo_next f + 1 \<rparr>)"

definition fifo_on_evicted :: "PageFifo \<Rightarrow> u64 \<Rightarrow> PageFifo" where
  "fifo_on_evicted f address = (case slot_of f address of
     Some slot \<Rightarrow> f\<lparr> fifo_stamp := (fifo_stamp f)[slot := 0] \<rparr>
   | None \<Rightarrow> f)"

definition fifo_reset :: "PageFifo \<Rightarrow> PageFifo" where
  "fifo_reset f = f\<lparr> fifo_address := replicate TRACKED 0, fifo_stamp := replicate TRACKED 0, fifo_next := 1 \<rparr>"

section \<open>Not recently used\<close>

definition nru_class :: "PageSet \<Rightarrow> nat \<Rightarrow> u8" where
  "nru_class pages index = of_bool (accessed pages index) * 2 + of_bool (dirty pages index)"

fun nru_scan :: "PageSet \<Rightarrow> nat list \<Rightarrow> (u8 \<times> nat) option \<Rightarrow> (u8 \<times> nat) option" where
  "nru_scan pages [] best = best"
| "nru_scan pages (index # rest) best =
     (if \<not> eligible pages index then nru_scan pages rest best
      else let c = nru_class pages index;
               best' = (if (case best of None \<Rightarrow> True | Some (b, _) \<Rightarrow> c < b) then Some (c, index) else best)
           in if c = 0 then best' else nru_scan pages rest best')"

definition nru_window :: "PageSet \<Rightarrow> PageSet" where
  "nru_window pages =
     fold (\<lambda>index ps. if accessed ps index then clear_accessed ps index else ps) [0..<ps_len pages] pages"

text \<open>The policy has no state; \<open>unit\<close> stands for the empty struct.\<close>

definition nru_choose :: "unit \<Rightarrow> PageSet \<Rightarrow> nat option \<times> unit \<times> PageSet" where
  "nru_choose s pages = (case nru_scan pages [0..<ps_len pages] None of
     None \<Rightarrow> (None, s, pages)
   | Some (_, chosen) \<Rightarrow> (Some chosen, s, nru_window pages))"

section \<open>Random\<close>

record Random =
  rng :: u64

definition Random_new :: Random where "Random_new = \<lparr> rng = 0 \<rparr>"

definition SEED :: u64 where "SEED = 0x2545F4914F6CDD1D"

definition xorshift :: "u64 \<Rightarrow> u64" where
  "xorshift s0 =
     (let s1 = s0 XOR push_bit 13 s0; s2 = s1 XOR drop_bit 7 s1 in s2 XOR push_bit 17 s2)"

definition random_next :: "Random \<Rightarrow> u64 \<times> Random" where
  "random_next r = (let s = xorshift (if rng r = 0 then SEED else rng r) in (s, r\<lparr> rng := s \<rparr>))"

fun random_walk :: "PageSet \<Rightarrow> nat list \<Rightarrow> nat \<Rightarrow> nat option" where
  "random_walk pages [] wanted = None"
| "random_walk pages (index # rest) wanted =
     (if \<not> eligible pages index then random_walk pages rest wanted
      else if wanted = 0 then Some index
      else random_walk pages rest (wanted - 1))"

definition random_choose :: "Random \<Rightarrow> PageSet \<Rightarrow> nat option \<times> Random \<times> PageSet" where
  "random_choose r pages =
     (let count = length (filter (eligible pages) [0..<ps_len pages])
      in if count = 0 then (None, r, pages)
         else let (n, r') = random_next r;
                  wanted = unat (n mod word_of_nat count)
              in (random_walk pages [0..<ps_len pages] wanted, r', pages))"

definition random_reset :: "Random \<Rightarrow> Random" where
  "random_reset r = r\<lparr> rng := 0 \<rparr>"

section \<open>The registry\<close>

abbreviation (input) REPLACER_COUNT :: nat where "REPLACER_COUNT \<equiv> 4"

record Replacers =
  r_clock :: Clock
  r_fifo :: PageFifo
  r_random :: Random
  r_active :: nat

definition Replacers_init :: Replacers where
  "Replacers_init = \<lparr> r_clock = Clock_new, r_fifo = PageFifo_new, r_random = Random_new, r_active = 0 \<rparr>"

definition replacer_choose :: "nat \<Rightarrow> Replacers \<Rightarrow> PageSet \<Rightarrow> nat option \<times> Replacers \<times> PageSet" where
  "replacer_choose index r pages =
     (if index = 1 then (case page_fifo_choose (r_fifo r) pages of
        (c, s, ps) \<Rightarrow> (c, r\<lparr> r_fifo := s \<rparr>, ps))
      else if index = 2 then (case nru_choose () pages of (c, s, ps) \<Rightarrow> (c, r, ps))
      else if index = 3 then (case random_choose (r_random r) pages of
        (c, s, ps) \<Rightarrow> (c, r\<lparr> r_random := s \<rparr>, ps))
      else (case clock_choose (r_clock r) pages of (c, s, ps) \<Rightarrow> (c, r\<lparr> r_clock := s \<rparr>, ps)))"

definition replacer_reset :: "nat \<Rightarrow> Replacers \<Rightarrow> Replacers" where
  "replacer_reset index r =
     (if index = 1 then r\<lparr> r_fifo := fifo_reset (r_fifo r) \<rparr>
      else if index = 2 then r
      else if index = 3 then r\<lparr> r_random := random_reset (r_random r) \<rparr>
      else r\<lparr> r_clock := clock_reset (r_clock r) \<rparr>)"

definition replace_choose :: "Replacers \<Rightarrow> PageSet \<Rightarrow> nat option \<times> Replacers \<times> PageSet" where
  "replace_choose r pages = replacer_choose (r_active r) r pages"

definition note_resident :: "Replacers \<Rightarrow> u64 \<Rightarrow> Replacers" where
  "note_resident r address =
     (if r_active r = 1 then r\<lparr> r_fifo := fifo_on_resident (r_fifo r) address \<rparr> else r)"

definition note_evicted :: "Replacers \<Rightarrow> u64 \<Rightarrow> Replacers" where
  "note_evicted r address =
     (if r_active r = 1 then r\<lparr> r_fifo := fifo_on_evicted (r_fifo r) address \<rparr> else r)"

definition install_replacer :: "Replacers \<Rightarrow> nat \<Rightarrow> bool \<times> Replacers" where
  "install_replacer r index =
     (if index \<ge> REPLACER_COUNT then (False, r)
      else (True, (replacer_reset index r)\<lparr> r_active := index \<rparr>))"

definition replacer_name :: "nat \<Rightarrow> string" where
  "replacer_name index = (if index = 1 then ''fifo'' else if index = 2 then ''nru''
     else if index = 3 then ''random'' else ''clock'')"

definition replacer_name_at :: "nat \<Rightarrow> string" where
  "replacer_name_at index = replacer_name (min index (REPLACER_COUNT - 1))"

definition install_replacer_by_name :: "Replacers \<Rightarrow> string \<Rightarrow> bool \<times> Replacers" where
  "install_replacer_by_name r nm =
     (case find (\<lambda>i. replacer_name_at i = nm) [0..<REPLACER_COUNT] of
        Some index \<Rightarrow> install_replacer r index | None \<Rightarrow> (False, r))"

definition test_choose :: "nat \<Rightarrow> Replacers \<Rightarrow> PageSet \<Rightarrow> nat option \<times> Replacers \<times> PageSet" where
  "test_choose index r pages = replacer_choose (min index (REPLACER_COUNT - 1)) r pages"

section \<open>The contract of a policy\<close>

definition any_eligible :: "PageSet \<Rightarrow> bool" where
  "any_eligible ps \<longleftrightarrow> (\<exists>i < ps_len ps. eligible ps i)"

locale page_replacer =
  fixes choose_page :: "'s \<Rightarrow> PageSet \<Rightarrow> nat option \<times> 's \<times> PageSet"
    and on_resident :: "'s \<Rightarrow> u64 \<Rightarrow> 's"
    and on_evicted :: "'s \<Rightarrow> u64 \<Rightarrow> 's"
    and reset :: "'s \<Rightarrow> 's"
    and inv :: "'s \<Rightarrow> bool"
    and room :: "'s \<Rightarrow> bool"
  assumes choose_sound: "inv s \<Longrightarrow> choose_page s ps = (Some i, s', ps') \<Longrightarrow> i < ps_len ps \<and> eligible ps i"
    and choose_complete: "inv s \<Longrightarrow> choose_page s ps = (None, s', ps') \<Longrightarrow> \<not> any_eligible ps"
    and choose_clears: "inv s \<Longrightarrow> choose_page s ps = (r, s', ps') \<Longrightarrow> clears_only ps ps'"
    and inv_choose: "inv s \<Longrightarrow> choose_page s ps = (r, s', ps') \<Longrightarrow> inv s'"
    and inv_on_resident: "inv s \<Longrightarrow> room s \<Longrightarrow> inv (on_resident s a)"
    and inv_on_evicted: "inv s \<Longrightarrow> inv (on_evicted s a)"
    and inv_reset: "inv s \<Longrightarrow> inv (reset s)"
begin

text \<open>What the mechanism needs: an answer exactly when there is one, and one that survives its re-check.\<close>

lemma choose_iff: "inv s \<Longrightarrow> (fst (choose_page s ps) \<noteq> None) = any_eligible ps"
  using choose_sound [of s ps] choose_complete [of s ps]
  by (cases "choose_page s ps") (auto simp: any_eligible_def)

lemma recheck_passes:
  "inv s \<Longrightarrow> choose_page s ps = (Some i, s', ps') \<Longrightarrow> i < ps_len ps' \<and> eligible ps' i"
  using choose_sound choose_clears clears_only_eligible by (metis clears_only_def)

end

section \<open>The clock\<close>

abbreviation at_hand :: "nat \<Rightarrow> PageSet \<Rightarrow> nat \<Rightarrow> nat" where
  "at_hand start ps s \<equiv> (start + s) mod ps_len ps"

lemma clock_sweep_append:
  "clock_sweep start (a @ b) ps = (case clock_sweep start a ps of
     (Some i, ps') \<Rightarrow> (Some i, ps') | (None, ps') \<Rightarrow> clock_sweep start b ps')"
  by (induction a arbitrary: ps) (simp_all add: Let_def)

lemma clock_sweep_sound:
  "0 < ps_len ps \<Longrightarrow> clock_sweep start steps ps = (r, ps') \<Longrightarrow>
   clears_only ps ps' \<and> (\<forall>i. r = Some i \<longrightarrow> i < ps_len ps \<and> eligible ps i)"
proof (induction steps arbitrary: ps)
  case (Cons s steps)
  let ?i = "at_hand start ps s"
  have i: "?i < ps_len ps" using Cons.prems(1) by simp
  show ?case
  proof (cases "eligible ps ?i \<and> accessed ps ?i")
    case True
    then have "clears_only (clear_accessed ps ?i) ps' \<and>
        (\<forall>i. r = Some i \<longrightarrow> i < ps_len ps \<and> eligible (clear_accessed ps ?i) i)"
      using Cons.IH [of "clear_accessed ps ?i"] Cons.prems by (simp add: Let_def del: eligible_clear)
    then show ?thesis
      using i clears_only_trans [OF clears_only_clear [OF i]] by auto
  next
    case False
    then show ?thesis
      using Cons.IH [of ps] Cons.prems i by (auto simp: Let_def split: if_splits)
  qed
qed simp

lemma clock_sweep_None:
  "0 < ps_len ps \<Longrightarrow> clock_sweep start steps ps = (None, ps') \<Longrightarrow> s \<in> set steps \<Longrightarrow>
   eligible ps (at_hand start ps s) \<Longrightarrow>
   accessed ps (at_hand start ps s) \<and> \<not> accessed ps' (at_hand start ps s)"
proof (induction steps arbitrary: ps)
  case (Cons t steps)
  let ?i = "at_hand start ps t" and ?j = "at_hand start ps s"
  have i: "?i < ps_len ps" and j: "?j < ps_len ps" using Cons.prems(1) by simp_all
  have mono: "\<not> accessed ps0 k \<Longrightarrow> k < ps_len ps0 \<Longrightarrow> clears_only ps0 ps1 \<Longrightarrow> \<not> accessed ps1 k" for ps0 ps1 k
    by (auto simp: clears_only_def entry_bits bit_simps)
  show ?case
  proof (cases "eligible ps ?i")
    case True
    then have acc: "accessed ps ?i" and
        sw: "clock_sweep start steps (clear_accessed ps ?i) = (None, ps')"
      using Cons.prems by (auto simp: Let_def split: if_splits)
    have co: "clears_only (clear_accessed ps ?i) ps'"
      using clock_sweep_sound [OF _ sw] Cons.prems(1) by simp
    have "\<not> accessed ps' ?i"
      by (rule mono [OF _ _ co]) (use i in \<open>simp_all add: accessed_clear\<close>)
    moreover have "accessed ps ?j \<and> \<not> accessed ps' ?j" if "s \<in> set steps" "?j \<noteq> ?i"
      using Cons.IH [of "clear_accessed ps ?i"] sw that Cons.prems i j
      by (simp add: accessed_clear)
    ultimately show ?thesis
      using acc Cons.prems(3) by (cases "?j = ?i") auto
  next
    case False
    then show ?thesis
      using Cons.IH [of ps] Cons.prems by (auto simp: Let_def)
  qed
qed simp

lemma clock_sweep_fresh:
  "0 < ps_len ps \<Longrightarrow> clock_sweep start steps ps = (Some i, ps') \<Longrightarrow>
   distinct (map (at_hand start ps) steps) \<Longrightarrow> i \<in> at_hand start ps ` set steps \<and> \<not> accessed ps i"
proof (induction steps arbitrary: ps)
  case (Cons s steps)
  let ?i = "at_hand start ps s"
  show ?case
  proof (cases "eligible ps ?i \<and> accessed ps ?i")
    case True
    then have "i \<in> at_hand start ps ` set steps \<and> \<not> accessed (clear_accessed ps ?i) i"
      using Cons.IH [of "clear_accessed ps ?i"] Cons.prems by (simp add: Let_def)
    moreover have "?i \<notin> at_hand start ps ` set steps" using Cons.prems(3) by simp
    ultimately have "i \<noteq> ?i" by metis
    then show ?thesis
      using \<open>i \<in> _ \<and> _\<close> Cons.prems(1) by (simp add: accessed_clear)
  next
    case False
    then show ?thesis
      using Cons.IH [of ps] Cons.prems by (auto simp: Let_def split: if_splits)
  qed
qed simp

lemma two_laps: "[0..<n * 2] = [0..<n] @ [n..<n + n :: nat]"
  using upt_add_eq_append [of 0 n n] by (simp add: mult_2_right)

lemma clock_choose_None:
  assumes "clock_choose c ps = (None, c', ps')"
  shows "\<not> any_eligible ps"
proof (cases "ps_len ps = 0")
  case True
  then show ?thesis by (simp add: any_eligible_def)
next
  case False
  let ?n = "ps_len ps"
  obtain ps1 ps2 where lap1: "clock_sweep (hand c) [0..<?n] ps = (None, ps1)"
      and lap2: "clock_sweep (hand c) [?n..<?n + ?n] ps1 = (None, ps2)"
    using assms False
    by (auto simp: clock_choose_def ps_is_empty_def ps_len_def two_laps clock_sweep_append
        split: option.splits prod.splits)
  have co: "clears_only ps ps1" and n1: "ps_len ps1 = ?n"
    using clock_sweep_sound [OF _ lap1] False by (auto simp: clears_only_def)
  have "\<not> eligible ps i" if i: "i < ?n" for i
  proof
    assume e: "eligible ps i"
    obtain s where s: "s < ?n" "(hand c + s) mod ?n = i" using circle_covers [OF i, of "hand c"] by auto
    have "\<not> accessed ps1 i"
      using clock_sweep_None [OF _ lap1, of s] e s False by simp
    moreover have "(hand c + (s + ?n)) mod ?n = i"
      using s by (metis add.assoc mod_add_self2)
    moreover have "eligible ps1 i" using e clears_only_eligible [OF co i] by simp
    ultimately show False
      using clock_sweep_None [OF _ lap2, of "s + ?n"] s False n1 by auto
  qed
  then show ?thesis by (auto simp: any_eligible_def)
qed

lemma clock_choose_sound:
  assumes "clock_choose c ps = (r, c', ps')"
  shows "clears_only ps ps' \<and> (\<forall>i. r = Some i \<longrightarrow> i < ps_len ps \<and> eligible ps i \<and> hand c' < ps_len ps)"
proof (cases "ps_is_empty ps")
  case True
  then show ?thesis using assms by (simp add: clock_choose_def)
next
  case False
  then have n: "0 < ps_len ps" by (simp add: ps_is_empty_def ps_len_def)
  obtain r1 ps1 where "clock_sweep (hand c) [0..<ps_len ps * 2] ps = (r1, ps1)" by fastforce
  then show ?thesis
    using assms False n clock_sweep_sound [OF n, of "hand c" "[0..<ps_len ps * 2]" r1 ps1]
    by (auto simp: clock_choose_def split: option.splits)
qed

lemma clock_second_chance:
  assumes "clock_choose c ps = (Some i, c', ps')" "accessed ps i" "j < ps_len ps" "eligible ps j"
  shows "accessed ps j"
proof (rule ccontr)
  assume j: "\<not> accessed ps j"
  let ?n = "ps_len ps"
  have n: "0 < ?n" using assms(3) by simp
  obtain r1 ps1 where lap1: "clock_sweep (hand c) [0..<?n] ps = (r1, ps1)" by fastforce
  obtain s where "s < ?n" "(hand c + s) mod ?n = j"
    using circle_covers [OF assms(3), of "hand c"] by auto
  then have "r1 \<noteq> None"
    using clock_sweep_None [OF n, of "hand c" "[0..<?n]" ps1 s] lap1 j assms(4) by auto
  then have "r1 = Some i"
    using assms(1) lap1 n
    by (auto simp: clock_choose_def two_laps clock_sweep_append split: option.splits if_splits)
  then have "\<not> accessed ps i"
    using clock_sweep_fresh [OF n lap1 [unfolded \<open>r1 = Some i\<close>]] circle_distinct by simp
  then show False using assms(2) by simp
qed

interpretation clock: page_replacer clock_choose "\<lambda>c _. c" "\<lambda>c _. c" clock_reset
  "\<lambda>_. True" "\<lambda>_. True"
  by unfold_locales (use clock_choose_sound clock_choose_None in blast)+

section \<open>First in, first out\<close>

definition page_fifo_wf :: "PageFifo \<Rightarrow> bool" where
  "page_fifo_wf f \<longleftrightarrow> length (fifo_address f) = TRACKED \<and> length (fifo_stamp f) = TRACKED \<and>
     0 < fifo_next f \<and> (\<forall>i < TRACKED. fifo_stamp f ! i < fifo_next f)"

lemma fifo_scan_spec:
  "fifo_scan f ps idx best oldest = r \<Longrightarrow>
   (r = best \<and> (\<forall>i \<in> set idx. eligible ps i \<longrightarrow> oldest \<le> fifo_age f (ps_address ps i))) \<or>
   (\<exists>i \<in> set idx. r = Some i \<and> eligible ps i \<and> fifo_age f (ps_address ps i) < oldest \<and>
      (\<forall>j \<in> set idx. eligible ps j \<longrightarrow> fifo_age f (ps_address ps i) \<le> fifo_age f (ps_address ps j)))"
proof (induction idx arbitrary: best oldest)
  case (Cons i idx)
  show ?case
  proof (cases "eligible ps i \<and> fifo_age f (ps_address ps i) < oldest")
    case True
    then have "fifo_scan f ps idx (Some i) (fifo_age f (ps_address ps i)) = r"
      using Cons.prems by (simp add: Let_def)
    from Cons.IH [OF this] show ?thesis
    proof (elim disjE conjE bexE)
      fix k assume "k \<in> set idx" "r = Some k" "eligible ps k"
        "fifo_age f (ps_address ps k) < fifo_age f (ps_address ps i)"
        "\<forall>j\<in>set idx. eligible ps j \<longrightarrow> fifo_age f (ps_address ps k) \<le> fifo_age f (ps_address ps j)"
      then show ?thesis
        using True by (intro disjI2 bexI [of _ k]) auto
    qed (use True in auto)
  next
    case False
    then have "fifo_scan f ps idx best oldest = r"
      using Cons.prems by (auto simp: Let_def split: if_splits)
    from Cons.IH [OF this] False show ?thesis
      by (auto simp: not_less intro: order.trans less_imp_le)
  qed
qed simp

lemma slot_of_Some:
  "slot_of f a = Some k \<Longrightarrow> k < 128 \<and> fifo_stamp f ! k \<noteq> 0 \<and> fifo_address f ! k = a"
  by (auto simp: slot_of_def find_Some_iff)

lemma fifo_age_less: "page_fifo_wf f \<Longrightarrow> fifo_age f a < - 1"
proof -
  assume wf: "page_fifo_wf f"
  have m: "x < y \<Longrightarrow> x < - 1" for x y :: u64
    using word_order.extremum [of y] by (metis order.strict_trans2)
  show ?thesis
  proof (cases "slot_of f a")
    case None
    then show ?thesis using m [of 0 1] by (simp add: fifo_age_def)
  next
    case (Some k)
    then show ?thesis
      using wf slot_of_Some [OF Some] m by (auto simp: fifo_age_def page_fifo_wf_def)
  qed
qed

lemma page_fifo_choose_spec:
  assumes "page_fifo_wf f" "page_fifo_choose f ps = (r, f', ps')"
  shows "f' = f \<and> ps' = ps \<and>
    (case r of None \<Rightarrow> \<not> any_eligible ps
     | Some i \<Rightarrow> i < ps_len ps \<and> eligible ps i \<and>
         (\<forall>j < ps_len ps. eligible ps j \<longrightarrow>
            fifo_age f (ps_address ps i) \<le> fifo_age f (ps_address ps j)))"
proof -
  have s: "fifo_scan f ps [0..<ps_len ps] None (- 1) = r" and e: "f' = f" "ps' = ps"
    using assms(2) by (auto simp: page_fifo_choose_def)
  have "\<not> - 1 \<le> fifo_age f a" for a
    using fifo_age_less [OF assms(1), of a] by (simp only: not_le)
  then show ?thesis
    using fifo_scan_spec [OF s] e by (auto simp: any_eligible_def)
qed

lemma free_slot_of_less: "free_slot_of f < 128"
proof -
  have "i < 128" if "min_by_key (\<lambda>i. fifo_stamp f ! i) [0..<128] = Some i" for i
    using min_by_key_Some [OF that] by simp
  then show ?thesis
    by (auto simp: free_slot_of_def find_Some_iff split: option.splits)
qed

lemma page_fifo_wf_on_resident:
  assumes "page_fifo_wf f" "fifo_next f \<noteq> - 1"
  shows "page_fifo_wf (fifo_on_resident f a)"
proof (cases "slot_of f a = None")
  case True
  then show ?thesis
    using assms word_less_inc [OF assms(2)] free_slot_of_less [of f]
    by (auto simp: fifo_on_resident_def page_fifo_wf_def nth_list_update intro: order.strict_trans)
next
  case False
  then show ?thesis using assms by (simp add: fifo_on_resident_def)
qed

lemma page_fifo_wf_on_evicted: "page_fifo_wf f \<Longrightarrow> page_fifo_wf (fifo_on_evicted f a)"
  by (auto simp: fifo_on_evicted_def page_fifo_wf_def nth_list_update dest!: slot_of_Some
      split: option.splits)

interpretation page_fifo: page_replacer page_fifo_choose fifo_on_resident fifo_on_evicted fifo_reset
  page_fifo_wf "\<lambda>f. fifo_next f \<noteq> - 1"
proof
  show "page_fifo_wf (fifo_reset s)" if "page_fifo_wf s" for s
    by (simp add: fifo_reset_def page_fifo_wf_def)
qed (use page_fifo_choose_spec page_fifo_wf_on_resident page_fifo_wf_on_evicted in \<open>fastforce+\<close>)

section \<open>Not recently used\<close>

lemma nru_scan_spec:
  "nru_scan ps idx best = r \<Longrightarrow> (\<forall>c b. best = Some (c, b) \<longrightarrow> c = nru_class ps b) \<Longrightarrow>
   (case r of
      None \<Rightarrow> best = None \<and> (\<forall>j \<in> set idx. \<not> eligible ps j)
    | Some (c, i) \<Rightarrow> c = nru_class ps i \<and> (best = Some (c, i) \<or> i \<in> set idx \<and> eligible ps i) \<and>
        (\<forall>j \<in> set idx. eligible ps j \<longrightarrow> c \<le> nru_class ps j) \<and>
        (\<forall>b d. best = Some (d, b) \<longrightarrow> c \<le> d))"
proof (induction idx arbitrary: best)
  case Nil
  then show ?case by (auto split: option.splits)
next
  case (Cons i idx)
  let ?c = "nru_class ps i"
  let ?best = "if (case best of None \<Rightarrow> True | Some (b, _) \<Rightarrow> ?c < b) then Some (?c, i) else best"
  have b: "\<forall>c b. ?best = Some (c, b) \<longrightarrow> c = nru_class ps b"
    using Cons.prems(2) by (auto split: option.splits)
  have st: "r = (if ?c = 0 then ?best else nru_scan ps idx ?best)" if "eligible ps i"
    using Cons.prems(1) that by (simp add: Let_def)
  consider "\<not> eligible ps i" | "eligible ps i" "?c = 0" | "eligible ps i" "?c \<noteq> 0" by blast
  then show ?case
  proof cases
    case 1
    then show ?thesis
      using Cons.IH [of best] Cons.prems by (auto split: option.splits)
  next
    case 2
    have "r = ?best" unfolding st [OF 2(1)] by (rule if_P [OF 2(2)])
    then show ?thesis
      using 2 Cons.prems(2) by (auto simp: word_gt_0 split: option.splits if_splits)
  next
    case 3
    have "nru_scan ps idx ?best = r" unfolding st [OF 3(1)] by (rule if_not_P [OF 3(2), symmetric])
    note ih = Cons.IH [OF this b]
    have below: "c \<le> ?c \<and> (\<forall>b d. best = Some (d, b) \<longrightarrow> c \<le> d)"
      if "\<forall>b d. ?best = Some (d, b) \<longrightarrow> c \<le> d" for c
      using that by (cases best) (auto simp: not_less split: if_splits intro: order.trans less_imp_le)
    show ?thesis
    proof (cases r)
      case None
      then show ?thesis using ih by (auto split: option.splits if_splits)
    next
      case (Some ck)
      then obtain c k where r: "r = Some (c, k)" by (cases ck) simp
      have k: "c = nru_class ps k" "?best = Some (c, k) \<or> k \<in> set idx \<and> eligible ps k"
          "\<forall>j \<in> set idx. eligible ps j \<longrightarrow> c \<le> nru_class ps j" "\<forall>b d. ?best = Some (d, b) \<longrightarrow> c \<le> d"
        using ih unfolding r option.case prod.case by blast+
      have "best = Some (c, k) \<or> k = i" if "?best = Some (c, k)" using that by (auto split: if_splits)
      then have "best = Some (c, k) \<or> k \<in> set (i # idx) \<and> eligible ps k"
        using k(2) 3(1) by (metis list.set_intros)
      then show ?thesis
        using k(1,3) below [OF k(4)] unfolding r option.case prod.case by simp
    qed
  qed
qed

lemma nru_window_fold:
  "(\<forall>i \<in> set idx. i < ps_len ps) \<Longrightarrow>
   clears_only ps (fold (\<lambda>i ps. if accessed ps i then clear_accessed ps i else ps) idx ps) \<and>
   (\<forall>j. accessed (fold (\<lambda>i ps. if accessed ps i then clear_accessed ps i else ps) idx ps) j
      = (j \<notin> set idx \<and> accessed ps j))"
proof (induction idx arbitrary: ps)
  case (Cons i idx)
  let ?ps = "if accessed ps i then clear_accessed ps i else ps"
  have "clears_only ps ?ps" "\<And>j. accessed ?ps j = (j \<noteq> i \<and> accessed ps j)" "ps_len ?ps = ps_len ps"
    using Cons.prems by (auto simp: accessed_clear)
  then show ?case
    using Cons.IH [of ?ps] Cons.prems by (auto intro: clears_only_trans)
qed simp

lemma nru_choose_spec:
  assumes "nru_choose s ps = (r, s', ps')"
  shows "clears_only ps ps' \<and>
    (case r of None \<Rightarrow> \<not> any_eligible ps
     | Some i \<Rightarrow> i < ps_len ps \<and> eligible ps i \<and> (\<forall>j. j < ps_len ps \<longrightarrow> \<not> accessed ps' j) \<and>
         (\<forall>j < ps_len ps. eligible ps j \<longrightarrow> nru_class ps i \<le> nru_class ps j))"
  using assms nru_scan_spec [of ps "[0..<ps_len ps]" None _, OF refl]
    nru_window_fold [of "[0..<ps_len ps]" ps]
  by (auto simp: nru_choose_def nru_window_def any_eligible_def split: option.splits prod.splits)

interpretation nru: page_replacer nru_choose "\<lambda>s _. s" "\<lambda>s _. s" "\<lambda>s. s" "\<lambda>_. True" "\<lambda>_. True"
  by unfold_locales (use nru_choose_spec in fastforce)+

section \<open>Random\<close>

lemma random_walk_nth:
  "w < length (filter (eligible ps) idx) \<Longrightarrow> random_walk ps idx w = Some (filter (eligible ps) idx ! w)"
proof (induction idx arbitrary: w)
  case (Cons i idx)
  then show ?case by (cases w) auto
qed simp

lemma random_choose_spec:
  assumes "random_choose s ps = (r, s', ps')"
  shows "ps' = ps \<and> (case r of None \<Rightarrow> \<not> any_eligible ps | Some i \<Rightarrow> i < ps_len ps \<and> eligible ps i)"
proof (cases "filter (eligible ps) [0..<ps_len ps] = []")
  case True
  then show ?thesis
    using assms by (auto simp: random_choose_def any_eligible_def filter_empty_conv)
next
  case False
  let ?el = "filter (eligible ps) [0..<ps_len ps]"
  let ?n = "fst (random_next s) :: u64"
  let ?w = "unat (?n mod word_of_nat (length ?el))"
  have "?w < length ?el"
  proof (cases "word_of_nat (length ?el) = (0 :: u64)")
    case True
    then have "2 ^ 64 dvd length ?el" by (simp add: word_of_nat_eq_0_iff)
    then have "18446744073709551616 \<le> length ?el" using False dvd_imp_le [of "2 ^ 64" "length ?el"] by simp
    then show ?thesis using unat_u64_less [of "?n mod word_of_nat (length ?el)"] by linarith
  next
    case False
    then have "?n mod word_of_nat (length ?el) < word_of_nat (length ?el)"
      by (simp add: word_mod_less_divisor word_gt_0)
    then have "?w < unat (word_of_nat (length ?el) :: u64)" by (simp add: word_less_nat_alt)
    also have "\<dots> \<le> length ?el" by (simp add: unsigned_of_nat take_bit_eq_mod)
    finally show ?thesis .
  qed
  then have w: "random_walk ps [0..<ps_len ps] ?w = Some (?el ! ?w)" and "?el ! ?w \<in> set ?el"
    by (simp_all only: random_walk_nth nth_mem)
  then show ?thesis
    using assms False by (auto simp: random_choose_def Let_def case_prod_beta)
qed

interpretation random: page_replacer random_choose "\<lambda>s _. s" "\<lambda>s _. s" random_reset
  "\<lambda>_. True" "\<lambda>_. True"
  by unfold_locales (use random_choose_spec in fastforce)+

lemma shift_left_fixpoint: "x = push_bit k x \<Longrightarrow> 0 < k \<Longrightarrow> x = (0 :: u64)"
proof (rule bit_eqI)
  fix n assume x: "x = push_bit k x" and k: "0 < k" 
  show "bit x n \<longleftrightarrow> bit (0 :: u64) n"
  proof (induction n rule: less_induct)
    case (less n)
    then show ?case
      by (subst x) (use k in \<open>auto simp: bit_push_bit_iff\<close>)
  qed
qed

lemma shift_right_fixpoint:
  assumes "x = drop_bit k x" "0 < k"
  shows "x = (0 :: u64)"
proof (rule bit_eqI)
  fix n
  have "bit x j = bit x (k + j)" for j
    by (subst assms(1)) (simp add: bit_drop_bit_eq)
  then have "bit x n = bit x (n + k * m)" for m
  proof (induction m)
    case (Suc m)
    have "n + k * Suc m = k + (n + k * m)" by simp
    then show ?case using Suc by metis
  qed simp
  moreover have "\<not> bit x (n + k * 64)"
    using assms(2) bit_imp_le_length [of x "n + k * 64"] by auto
  ultimately show "bit x n \<longleftrightarrow> bit (0 :: u64) n"
    by simp
qed

lemma xor_zero: "a XOR b = 0 \<longleftrightarrow> a = (b :: u64)"
  by (auto simp: bit_eq_iff bit_simps)

lemma xorshift_nonzero: "x \<noteq> 0 \<Longrightarrow> xorshift x \<noteq> 0"
proof -
  have l: "y XOR push_bit k y \<noteq> 0" if "y \<noteq> 0" "0 < k" for y :: u64 and k
    using that shift_left_fixpoint xor_zero by blast
  have r: "y XOR drop_bit k y \<noteq> 0" if "y \<noteq> 0" "0 < k" for y :: u64 and k
    using that shift_right_fixpoint xor_zero by blast
  show "x \<noteq> 0 \<Longrightarrow> xorshift x \<noteq> 0"
    unfolding xorshift_def Let_def by (intro l r) simp_all
qed

section \<open>The installed policy\<close>

definition replacers_wf :: "Replacers \<Rightarrow> bool" where
  "replacers_wf r \<longleftrightarrow> page_fifo_wf (r_fifo r)"

definition replacers_room :: "Replacers \<Rightarrow> bool" where
  "replacers_room r \<longleftrightarrow> fifo_next (r_fifo r) \<noteq> - 1"

lemma replacer_choose_cases:
  assumes "replacers_wf r" "replacer_choose k r ps = (c, r', ps')"
  shows "replacers_wf r' \<and> clears_only ps ps' \<and> r_active r' = r_active r \<and>
    (case c of None \<Rightarrow> \<not> any_eligible ps | Some i \<Rightarrow> i < ps_len ps \<and> eligible ps i)"
proof -
  consider "k = 1" | "k = 2" | "k = 3" | "k \<noteq> 1 \<and> k \<noteq> 2 \<and> k \<noteq> 3" by blast
  then show ?thesis
  proof cases
    case 1
    obtain s where s: "page_fifo_choose (r_fifo r) ps = (c, s, ps')" "r' = r\<lparr> r_fifo := s \<rparr>"
      using assms(2) 1 by (auto simp: replacer_choose_def split: prod.splits)
    then show ?thesis
      using assms(1) page_fifo_choose_spec [OF _ s(1)]
      by (cases c) (auto simp: replacers_wf_def)
  next
    case 2
    then have "nru_choose () ps = (c, (), ps')" "r' = r"
      using assms(2) by (auto simp: replacer_choose_def split: prod.splits)
    then show ?thesis using assms(1) nru_choose_spec [of "()" ps c "()" ps'] by (auto split: option.splits)
  next
    case 3
    then obtain s where s: "random_choose (r_random r) ps = (c, s, ps')" "r' = r\<lparr> r_random := s \<rparr>"
      using assms(2) by (auto simp: replacer_choose_def split: prod.splits)
    then show ?thesis using assms(1) random_choose_spec [OF s(1)] by (auto simp: replacers_wf_def)
  next
    case 4
    then obtain s where s: "clock_choose (r_clock r) ps = (c, s, ps')" "r' = r\<lparr> r_clock := s \<rparr>"
      using assms(2) by (auto simp: replacer_choose_def split: prod.splits)
    then show ?thesis
      using assms(1) clock_choose_sound [OF s(1)] clock_choose_None [of "r_clock r" ps s ps']
      by (cases c) (auto simp: replacers_wf_def)
  qed
qed

lemma replacers_wf_notes:
  "replacers_wf r \<Longrightarrow> replacers_room r \<Longrightarrow> replacers_wf (note_resident r a)"
  "replacers_wf r \<Longrightarrow> replacers_wf (note_evicted r a)"
  by (auto simp: replacers_wf_def replacers_room_def note_resident_def note_evicted_def
      page_fifo_wf_on_resident page_fifo_wf_on_evicted)

lemma replacers_wf_reset: "replacers_wf r \<Longrightarrow> replacers_wf (replacer_reset k r)"
  by (auto simp: replacers_wf_def replacer_reset_def page_fifo.inv_reset)

interpretation installed: page_replacer replace_choose note_resident note_evicted
  "\<lambda>r. replacer_reset (r_active r) r" replacers_wf replacers_room
proof
  fix r r' :: Replacers and ps ps' c i a
  assume w: "replacers_wf r"
  note cases = replacer_choose_cases [OF w, of "r_active r" ps, folded replace_choose_def]
  show "i < ps_len ps \<and> eligible ps i" if "replace_choose r ps = (Some i, r', ps')"
    using cases [OF that] by simp
  show "\<not> any_eligible ps" if "replace_choose r ps = (None, r', ps')"
    using cases [OF that] by simp
  show "clears_only ps ps'" "replacers_wf r'" if "replace_choose r ps = (c, r', ps')"
    using cases [OF that] by simp_all
  show "replacers_wf (note_resident r a)" if "replacers_room r"
    using replacers_wf_notes(1) [OF w that] .
  show "replacers_wf (note_evicted r a)" "replacers_wf (replacer_reset (r_active r) r)"
    using replacers_wf_notes(2) [OF w] replacers_wf_reset [OF w] by simp_all
qed

lemma Replacers_init_wf: "replacers_wf Replacers_init"
  by (simp add: replacers_wf_def Replacers_init_def PageFifo_new_def page_fifo_wf_def)

section \<open>Properties\<close>

definition demo_pages :: PageSet where
  "demo_pages = \<lparr> ps_pages = [(0x1000, test_entry True True False False), (0x2000, test_entry True False False False),
     (0x3000, test_entry True True True False)], ps_shared = (\<lambda>_. False) \<rparr>"

lemma demo_pages_facts:
  "ps_len demo_pages = 3" "eligible demo_pages 2" "accessed demo_pages 2"
  "any_eligible demo_pages"
proof -
  show e: "eligible demo_pages 2" by code_simp
  show "ps_len demo_pages = 3" "accessed demo_pages 2" by code_simp+
  then show "any_eligible demo_pages" using e by (auto simp: any_eligible_def intro!: exI [of _ 2])
qed

text \<open>
  The clock needs no more than its two laps. Whatever the accessed bits and wherever the hand
  stands, \<open>choose\<close> finds a victim exactly when some page may be taken, and the page it takes may
  be taken.
\<close>

theorem clock_two_laps:
  "case clock_choose c ps of
     (None, _, _) \<Rightarrow> \<not> any_eligible ps
   | (Some i, c', ps') \<Rightarrow> i < ps_len ps \<and> eligible ps i \<and> hand c' = (i + 1) mod ps_len ps"
proof -
  obtain r c' ps' where e: "clock_choose c ps = (r, c', ps')" by (cases "clock_choose c ps")
  then show ?thesis
    using clock_choose_sound [OF e] clock_choose_None [of c ps c' ps']
    by (cases r) (auto simp: clock_choose_def split: option.splits if_splits prod.splits)
qed

text \<open>
  Second chance. The clock takes a page that has been used since the last sweep only when
  every page that may be taken has been used.
\<close>

theorem clock_spares_used_pages:
  assumes "clock_choose c ps = (Some i, c', ps')" "accessed ps i" "j < ps_len ps" "eligible ps j"
  shows "accessed ps j"
  using assms by (rule clock_second_chance)

theorem clock_spares_used_pages_witness:
  "let ps = \<lparr> ps_pages = [(0x1000, test_entry True True False False), (0x2000, test_entry True True False False)],
              ps_shared = (\<lambda>_. False) \<rparr>
   in fst (clock_choose \<lparr> hand = 1 \<rparr> ps) = Some 1 \<and> accessed ps 0"
proof -
  let ?ps = "\<lparr> ps_pages = [(0x1000, test_entry True True False False), (0x2000, test_entry True True False False)],
              ps_shared = (\<lambda>_. False) \<rparr>"
  have f: "fst (clock_choose \<lparr> hand = 1 \<rparr> ?ps) = Some 1" "accessed ?ps 1" "0 < ps_len ?ps" "eligible ?ps 0"
    by code_simp+
  then obtain c' ps' where "clock_choose \<lparr> hand = 1 \<rparr> ?ps = (Some 1, c', ps')"
    by (cases "clock_choose \<lparr> hand = 1 \<rparr> ?ps") auto
  from clock_spares_used_pages [OF this f(2-4)] f(1) show ?thesis by (simp add: Let_def)
qed

text \<open>
  First in, first out. The policy takes a page whose recorded arrival is the earliest among
  the pages that may be taken (a page it never saw arrive counts as earlier than all others),
  and changes no accessed bit.
\<close>

theorem fifo_takes_oldest:
  assumes "page_fifo_wf f" "page_fifo_choose f ps = (Some i, f', ps')" "j < ps_len ps" "eligible ps j"
  shows "eligible ps i \<and> fifo_age f (ps_address ps i) \<le> fifo_age f (ps_address ps j) \<and> ps' = ps"
  using page_fifo_choose_spec [OF assms(1,2)] assms(3,4) by simp

lemma slot_of_update:
  assumes "length (fifo_stamp f) = 128" "length (fifo_address f) = 128" "fifo_stamp f ! k = 0" "k < 128"
    "s \<noteq> 0" "b \<noteq> a"
  shows "slot_of (f\<lparr> fifo_address := (fifo_address f)[k := a], fifo_stamp := (fifo_stamp f)[k := s], fifo_next := n \<rparr>) b = slot_of f b"
proof -
  have "((fifo_stamp f)[k := s] ! i \<noteq> 0 \<and> (fifo_address f)[k := a] ! i = b) =
      (fifo_stamp f ! i \<noteq> 0 \<and> fifo_address f ! i = b)" if "i \<in> set [0..<128]" for i
    using assms that by (auto simp: nth_list_update)
  then show ?thesis
    unfolding slot_of_def by (intro find_cong) auto
qed

text \<open>
  Arrival order is recorded as it happens. While the table of 128 arrivals has a free slot, a
  page that becomes resident is stamped later than every page recorded before it and changes the
  stamp of none of them.
\<close>

theorem fifo_arrival_order:
  assumes "page_fifo_wf f" "fifo_next f \<noteq> - 1" "slot_of f a = None" "\<exists>k < TRACKED. fifo_stamp f ! k = 0"
    "b \<noteq> a"
  shows "fifo_age (fifo_on_resident f a) b = fifo_age f b \<and>
    fifo_age (fifo_on_resident f a) b < fifo_age (fifo_on_resident f a) a"
proof -
  let ?k = "free_slot_of f" and ?f = "fifo_on_resident f a"
  obtain k0 where k0: "find (\<lambda>i. fifo_stamp f ! i = 0) [0..<128] = Some k0"
    using assms(4) by (cases "find (\<lambda>i. fifo_stamp f ! i = 0) [0..<128]") (auto simp: find_None_iff)
  moreover from this have "k0 < 128 \<and> fifo_stamp f ! k0 = 0" by (auto simp: find_Some_iff)
  ultimately have k: "?k < 128" "fifo_stamp f ! ?k = 0"
    by (simp_all add: free_slot_of_def)
  have f: "?f = f\<lparr> fifo_address := (fifo_address f)[?k := a],
      fifo_stamp := (fifo_stamp f)[?k := fifo_next f], fifo_next := fifo_next f + 1 \<rparr>"
    using assms(3) by (simp add: fifo_on_resident_def)
  have len: "length (fifo_stamp f) = 128" "length (fifo_address f) = 128" "0 < fifo_next f"
    using assms(1) by (simp_all add: page_fifo_wf_def)
  have sb: "slot_of ?f b = slot_of f b"
    unfolding f by (rule slot_of_update) (use len k assms(5) in auto)
  have "fifo_age ?f b = fifo_age f b \<and> fifo_age f b < fifo_next f"
  proof (cases "slot_of f b")
    case None
    then show ?thesis using sb len by (simp add: fifo_age_def)
  next
    case (Some m)
    then have "m < 128" "fifo_stamp f ! m \<noteq> 0" using slot_of_Some by blast+
    then show ?thesis
      using Some sb k assms(1) by (auto simp: fifo_age_def f nth_list_update page_fifo_wf_def)
  qed
  moreover have "fifo_age ?f a = fifo_next f"
  proof -
    have "slot_of ?f a = Some m \<Longrightarrow> m = ?k" for m
      using assms(3) slot_of_Some [of ?f a m] len k
      by (auto simp: f nth_list_update slot_of_def find_None_iff split: if_splits)
    moreover have "slot_of ?f a \<noteq> None"
      using len k by (auto simp: slot_of_def find_None_iff f intro!: bexI [of _ ?k])
    ultimately have "slot_of ?f a = Some ?k" by blast
    then show ?thesis using len k by (simp add: fifo_age_def f)
  qed
  ultimately show ?thesis by simp
qed

text \<open>
  NRU takes a page of the lowest class that is not empty, the class being twice the accessed
  bit plus the dirty bit, and starts a new observation window: no page counts as accessed
  afterwards.
\<close>

theorem nru_takes_lowest_class:
  assumes "nru_choose s ps = (Some i, s', ps')" "j < ps_len ps"
  shows "eligible ps i \<and> (eligible ps j \<longrightarrow> nru_class ps i \<le> nru_class ps j) \<and> \<not> accessed ps' j"
  using nru_choose_spec [OF assms(1)] assms(2) by simp

text \<open>
  The random policy's generator never falls into its fixed point: from a fresh policy or any
  state it has reached, the state after a draw is not 0, so the seed is planted exactly once.
\<close>

theorem random_never_stuck: "rng (snd (random_next r)) \<noteq> 0 \<and> fst (random_next r) = rng (snd (random_next r))"
  using xorshift_nonzero [of "rng r"] xorshift_nonzero [of SEED]
  by (auto simp: random_next_def Let_def SEED_def)

text \<open>
  C27: Every registered policy, whichever is installed, gives an answer exactly when a page may be
  taken; the answer passes the mechanism's re-check after the policy has run, and the policy has
  changed nothing but accessed bits.
\<close>

theorem installed_policy_contract:
  assumes "replacers_wf r" "replace_choose r ps = (c, r', ps')"
  shows "(c \<noteq> None) = any_eligible ps \<and> (\<forall>i. c = Some i \<longrightarrow> i < ps_len ps' \<and> eligible ps' i) \<and>
    clears_only ps ps' \<and> replacers_wf r'"
  using installed.choose_iff [OF assms(1), of ps] installed.recheck_passes [OF assms(1)]
    installed.choose_clears [OF assms] installed.inv_choose [OF assms] assms(2)
  by auto

theorem installed_policy_contract_witness:
  "fst (replace_choose Replacers_init demo_pages) \<noteq> None"
proof -
  obtain c r' ps' where e: "replace_choose Replacers_init demo_pages = (c, r', ps')"
    by (cases "replace_choose Replacers_init demo_pages")
  then show ?thesis
    using installed_policy_contract [OF Replacers_init_wf e] demo_pages_facts by simp
qed

theorem nru_takes_lowest_class_witness:
  "fst (nru_choose () demo_pages) = Some 1 \<and> nru_class demo_pages 1 \<le> nru_class demo_pages 2 \<and>
   \<not> accessed (snd (snd (nru_choose () demo_pages))) 2"
proof -
  have f: "fst (nru_choose () demo_pages) = Some 1" by code_simp
  then obtain s' ps' where e: "nru_choose () demo_pages = (Some 1, s', ps')"
    by (cases "nru_choose () demo_pages") auto
  show ?thesis
    using nru_takes_lowest_class [OF e, of 2] demo_pages_facts e by simp
qed

theorem fifo_takes_oldest_witness:
  "fst (page_fifo_choose PageFifo_new demo_pages) = Some 0 \<and>
   fifo_age PageFifo_new (ps_address demo_pages 0) \<le> fifo_age PageFifo_new (ps_address demo_pages 2)"
proof -
  have wf: "page_fifo_wf PageFifo_new" by (simp add: PageFifo_new_def page_fifo_wf_def)
  have none: "fifo_age PageFifo_new a = 0" for a
    using slot_of_Some [of PageFifo_new a] by (auto simp: fifo_age_def PageFifo_new_def split: option.splits)
  have "eligible demo_pages 0" by code_simp
  then have "fst (page_fifo_choose PageFifo_new demo_pages) = Some 0"
    by (simp add: page_fifo_choose_def demo_pages_facts upt_conv_Cons none word_gt_0)
  then obtain f' ps' where e: "page_fifo_choose PageFifo_new demo_pages = (Some 0, f', ps')"
    by (cases "page_fifo_choose PageFifo_new demo_pages") auto
  show ?thesis
    using fifo_takes_oldest [OF wf e, of 2] demo_pages_facts e by simp
qed

theorem fifo_arrival_order_witness:
  "fifo_age (fifo_on_resident PageFifo_new 0x1000) 0x2000 < fifo_age (fifo_on_resident PageFifo_new 0x1000) 0x1000"
proof -
  have wf: "page_fifo_wf PageFifo_new" by (simp add: PageFifo_new_def page_fifo_wf_def)
  have "slot_of PageFifo_new 0x1000 = None"
    using slot_of_Some [of PageFifo_new "0x1000"]
    by (cases "slot_of PageFifo_new 0x1000") (auto simp: PageFifo_new_def)
  moreover have "\<exists>k < TRACKED. fifo_stamp PageFifo_new ! k = 0" "fifo_next PageFifo_new \<noteq> - 1"
    by (auto simp: PageFifo_new_def intro: exI [of _ 2])
  ultimately show ?thesis
    using fifo_arrival_order [OF wf, of "0x1000" "0x2000"] by auto
qed

end
