(* ===== verification/Ata.thy ===== *)
theory Ata
  imports Prelude
begin

text \<open>
  \<open>kernel/src/ata.rs\<close>: reading and writing runs of sectors. The drive is hardware and is a
  parameter: its sectors, as the 256 words the data port presents, and the error, if any, that
  it reports when a given sector is about to be transferred (\<open>wait_ready\<close> and the DRQ test).
\<close>

abbreviation (input) SECTOR_SIZE :: nat where "SECTOR_SIZE \<equiv> 512"

record Drive =
  sectors :: "nat \<Rightarrow> u16 list"
  drive_error :: "nat \<Rightarrow> string option"

text \<open>The 28-bit block address that reaches the drive through its four address registers.\<close>

definition lba_registers :: "u32 \<Rightarrow> nat" where
  "lba_registers lba = unat (lba AND 0x0FFFFFFF)"

fun words_to_bytes :: "u16 list \<Rightarrow> u8 list" where
  "words_to_bytes [] = []"
| "words_to_bytes (value # ws) = ucast value # ucast (drop_bit 8 value) # words_to_bytes ws"

fun bytes_to_words :: "u8 list \<Rightarrow> u16 list" where
  "bytes_to_words (low # high # bs) = (ucast low OR push_bit 8 (ucast high)) # bytes_to_words bs"
| "bytes_to_words _ = []"

fun read_sectors :: "Drive \<Rightarrow> nat \<Rightarrow> nat \<Rightarrow> u8 list \<Rightarrow> (string + unit) \<times> u8 list" where
  "read_sectors d s 0 rest = (Inr (), rest)"
| "read_sectors d s (Suc count) rest = (case drive_error d s of
     Some e \<Rightarrow> (Inl e, rest)
   | None \<Rightarrow> (let (r, tail) = read_sectors d (Suc s) count (drop SECTOR_SIZE rest)
              in (r, words_to_bytes (sectors d s) @ tail)))"

definition ata_read :: "Drive \<Rightarrow> u32 \<Rightarrow> u8 list \<Rightarrow> (string + unit) \<times> u8 list" where
  "ata_read d lba buffer =
     (if length buffer mod SECTOR_SIZE \<noteq> 0 then (Inl ''buffer is not a whole number of sectors'', buffer)
      else let count = length buffer div SECTOR_SIZE
           in if count = 0 then (Inr (), buffer)
              else if count > 256 then (Inl ''too many sectors for one request'', buffer)
              else read_sectors d (lba_registers lba) count buffer)"

fun write_sectors :: "Drive \<Rightarrow> nat \<Rightarrow> nat \<Rightarrow> u8 list \<Rightarrow> (string + unit) \<times> Drive" where
  "write_sectors d s 0 rest = (Inr (), d)"
| "write_sectors d s (Suc count) rest = (case drive_error d s of
     Some e \<Rightarrow> (Inl e, d)
   | None \<Rightarrow> write_sectors (d\<lparr> sectors := (sectors d)(s := bytes_to_words (take SECTOR_SIZE rest)) \<rparr>)
               (Suc s) count (drop SECTOR_SIZE rest))"

text \<open>\<open>flush\<close>: what the drive reports after the cache flush command that ends a write.\<close>

definition ata_write :: "string option \<Rightarrow> Drive \<Rightarrow> u32 \<Rightarrow> u8 list \<Rightarrow> (string + unit) \<times> Drive" where
  "ata_write flush d lba buffer =
     (if length buffer mod SECTOR_SIZE \<noteq> 0 then (Inl ''buffer is not a whole number of sectors'', d)
      else let count = length buffer div SECTOR_SIZE
           in if count = 0 then (Inr (), d)
              else if count > 256 then (Inl ''too many sectors for one request'', d)
              else case write_sectors d (lba_registers lba) count buffer of
                (Inl e, d') \<Rightarrow> (Inl e, d')
              | (Inr _, d') \<Rightarrow> (case flush of Some e \<Rightarrow> (Inl e, d') | None \<Rightarrow> (Inr (), d')))"

section \<open>What is written is what is read\<close>

lemma word_low_high:
  "ucast (ucast low OR push_bit 8 (ucast high) :: u16) = (low :: u8)"
  "ucast (drop_bit 8 (ucast low OR push_bit 8 (ucast high) :: u16)) = (high :: u8)"
  by (rule bit_eqI; auto simp: bit_simps dest: bit_imp_le_length)+

lemma words_bytes_words: "even (length bs) \<Longrightarrow> words_to_bytes (bytes_to_words bs) = bs"
  by (induction bs rule: bytes_to_words.induct) (simp_all add: word_low_high word_low_high(2) [simplified])

lemma write_sectors_spec:
  "(\<forall>k < n. drive_error d (s + k) = None) \<Longrightarrow> length bs = n * 512 \<Longrightarrow>
   \<exists>d'. write_sectors d s n bs = (Inr (), d') \<and> drive_error d' = drive_error d \<and>
     (\<forall>t. sectors d' t = (if s \<le> t \<and> t < s + n then bytes_to_words (take 512 (drop ((t - s) * 512) bs))
                         else sectors d t))"
proof (induction n arbitrary: d s bs)
  case (Suc n)
  let ?d = "d\<lparr> sectors := (sectors d)(s := bytes_to_words (take 512 bs)) \<rparr>"
  have "\<forall>k < n. drive_error ?d (Suc s + k) = None"
    using Suc.prems(1) by (metis Drive.select_convs(2) Drive.surjective Drive.update_convs(1)
        add_Suc_shift not_less_eq)
  then obtain d' where d': "write_sectors ?d (Suc s) n (drop 512 bs) = (Inr (), d')"
      "drive_error d' = drive_error ?d"
      "\<forall>t. sectors d' t = (if Suc s \<le> t \<and> t < Suc s + n
           then bytes_to_words (take 512 (drop ((t - Suc s) * 512) (drop 512 bs))) else sectors ?d t)"
    using Suc.IH [of ?d "Suc s" "drop 512 bs"] Suc.prems(2) by auto
  have off: "(t - Suc s) * 512 + 512 = (t - s) * 512" if "Suc s \<le> t" for t
    using that by (simp add: diff_mult_distrib)
  have "drive_error d s = None" using Suc.prems(1) by force
  then show ?case
    using d' off by (auto simp: add.commute)
qed auto

lemma read_sectors_spec:
  "(\<forall>k < n. drive_error d (s + k) = None) \<Longrightarrow>
   read_sectors d s n rest = (Inr (), concat (map (\<lambda>k. words_to_bytes (sectors d (s + k))) [0..<n]) @ drop (n * 512) rest)"
proof (induction n arbitrary: s rest)
  case (Suc n)
  have "map (\<lambda>k. words_to_bytes (sectors d (s + k))) [0..<Suc n] =
      words_to_bytes (sectors d s) # map (\<lambda>k. words_to_bytes (sectors d (Suc s + k))) [0..<n]"
    by (simp add: upt_conv_Cons map_Suc_upt [symmetric] del: upt_Suc)
  moreover have "drive_error d s = None" "\<forall>k < n. drive_error d (Suc s + k) = None"
    using Suc.prems by force+
  ultimately show ?case
    using Suc.IH [of "Suc s" "drop 512 rest"] by (simp del: upt_Suc add: add.commute)
qed simp

lemma concat_chunks:
  "length bs = n * 512 \<Longrightarrow> concat (map (\<lambda>k. take 512 (drop (k * 512) bs)) [0..<n]) = bs"
proof (induction n arbitrary: bs)
  case (Suc n)
  have "map (\<lambda>k. take 512 (drop (k * 512) bs)) [0..<Suc n] =
      take 512 bs # map (\<lambda>k. take 512 (drop (k * 512) (drop 512 bs))) [0..<n]"
    by (simp add: upt_conv_Cons map_Suc_upt [symmetric] add.commute del: upt_Suc)
  then show ?case
    using Suc.IH [of "drop 512 bs"] Suc.prems by (simp del: upt_Suc)
qed simp

text \<open>
  What is written is what is read. On a drive that reports no error, writing a whole number of
  sectors, at most 256, succeeds, reading the same run of sectors back gives the same bytes, and
  no sector outside the run changes.
\<close>

theorem ata_write_read:
  assumes "length bytes = n * SECTOR_SIZE" "0 < n" "n \<le> 256" "length buffer = length bytes"
    "\<forall>s. drive_error d s = None"
  shows "\<exists>d'. ata_write None d lba bytes = (Inr (), d') \<and> ata_read d' lba buffer = (Inr (), bytes) \<and>
    (\<forall>s. s \<notin> {lba_registers lba ..< lba_registers lba + n} \<longrightarrow> sectors d' s = sectors d s)"
proof -
  let ?s = "lba_registers lba"
  obtain d' where d': "write_sectors d ?s n bytes = (Inr (), d')" "drive_error d' = drive_error d"
      "\<forall>t. sectors d' t = (if ?s \<le> t \<and> t < ?s + n
         then bytes_to_words (take 512 (drop ((t - ?s) * 512) bytes)) else sectors d t)"
    using write_sectors_spec [of n d ?s bytes] assms by auto
  have "words_to_bytes (sectors d' (?s + k)) = take 512 (drop (k * 512) bytes)" if "k < n" for k
  proof -
    have "k * 512 + 512 \<le> length bytes" using that assms(1) by simp
    then have "length (take 512 (drop (k * 512) bytes)) = 512" by simp
    then show ?thesis using d'(3) that by (simp add: words_bytes_words)
  qed
  then have "concat (map (\<lambda>k. words_to_bytes (sectors d' (?s + k))) [0..<n]) = bytes"
    using concat_chunks [OF assms(1)] by (metis (no_types, lifting) atLeastLessThan_iff map_eq_conv set_upt)
  then have "read_sectors d' ?s n buffer = (Inr (), bytes)"
    using read_sectors_spec [of n d' ?s buffer] d'(2) assms by simp
  then show ?thesis
    using assms d' by (auto simp: ata_write_def ata_read_def)
qed

theorem ata_write_read_witness:
  "\<exists>d'. ata_write None \<lparr> sectors = (\<lambda>_. []), drive_error = (\<lambda>_. None) \<rparr> 7 (replicate 1024 3) = (Inr (), d') \<and>
     ata_read d' 7 (replicate 1024 0) = (Inr (), replicate 1024 3)"
  using ata_write_read [of "replicate 1024 3" 2 "replicate 1024 0"
      "\<lparr> sectors = (\<lambda>_. []), drive_error = (\<lambda>_. None) \<rparr>" 7]
  by auto

end
