(* ===== verification/Swap.thy ===== *)
theory Swap
  imports Pools Ata
begin

text \<open>
  \<open>kernel/src/swap.rs\<close>: the bitmap of swap slots, where a slot lies on the disk, and moving a
  page between a frame and a slot. The bytes of the frame are an argument; the memory they come
  from belongs to the caller.
\<close>

abbreviation (input) SLOTS :: nat where "SLOTS \<equiv> 2048"
abbreviation (input) SWAP_START :: u32 where "SWAP_START \<equiv> 32768"
abbreviation (input) SECTORS_PER_PAGE :: u32 where "SECTORS_PER_PAGE \<equiv> 8"

record Swap =
  used_words :: "u64 list"
  evictions :: u64
  faults_in :: u64

definition Swap_init :: Swap where
  "Swap_init = \<lparr> used_words = replicate 32 0, evictions = 0, faults_in = 0 \<rparr>"

definition trailing_zeros :: "u64 \<Rightarrow> nat" where
  "trailing_zeros w = (case find (bit w) [0..<64] of Some i \<Rightarrow> i | None \<Rightarrow> 64)"

definition count_ones :: "u64 \<Rightarrow> nat" where
  "count_ones w = length (filter (bit w) [0..<64])"

definition allocate_slot :: "Swap \<Rightarrow> (nat \<times> Swap) option" where
  "allocate_slot s = (case position (\<lambda>word. word \<noteq> - 1) (used_words s) of
     None \<Rightarrow> None
   | Some index \<Rightarrow>
       (let word = used_words s ! index; b = trailing_zeros (NOT word)
        in Some (index * 64 + b, s\<lparr> used_words := (used_words s)[index := word OR push_bit b 1] \<rparr>)))"

definition free_slot :: "Swap \<Rightarrow> nat \<Rightarrow> Swap" where
  "free_slot s slot =
     (if slot \<ge> SLOTS then s
      else s\<lparr> used_words := (used_words s)[slot div 64 :=
             used_words s ! (slot div 64) AND NOT (push_bit (slot mod 64) 1)] \<rparr>)"

definition slot_lba :: "nat \<Rightarrow> u32" where
  "slot_lba slot = SWAP_START + word_of_nat slot * SECTORS_PER_PAGE"

definition write_out :: "string option \<Rightarrow> Drive \<Rightarrow> nat \<Rightarrow> u8 list \<Rightarrow> Swap \<Rightarrow> (string + unit) \<times> Drive \<times> Swap" where
  "write_out flush d slot bytes s = (case ata_write flush d (slot_lba slot) bytes of
     (Inl e, d') \<Rightarrow> (Inl e, d', s)
   | (Inr _, d') \<Rightarrow> (Inr (), d', s\<lparr> evictions := evictions s + 1 \<rparr>))"

definition read_in :: "Drive \<Rightarrow> nat \<Rightarrow> u8 list \<Rightarrow> Swap \<Rightarrow> (string + unit) \<times> u8 list \<times> Swap" where
  "read_in d slot bytes s = (case ata_read d (slot_lba slot) bytes of
     (Inl e, bytes') \<Rightarrow> (Inl e, bytes', s)
   | (Inr _, bytes') \<Rightarrow> (Inr (), bytes', s\<lparr> faults_in := faults_in s + 1 \<rparr>))"

definition swap_stats :: "Swap \<Rightarrow> nat \<times> u64 \<times> u64" where
  "swap_stats s = (sum_list (map count_ones (used_words s)), evictions s, faults_in s)"

definition swap_reset :: "Swap \<Rightarrow> Swap" where
  "swap_reset s = s\<lparr> used_words := replicate 32 0 \<rparr>"

section \<open>The bitmap is a set of slots\<close>

definition swap_wf :: "Swap \<Rightarrow> bool" where
  "swap_wf s \<longleftrightarrow> length (used_words s) = 32"

definition slot_used :: "Swap \<Rightarrow> nat \<Rightarrow> bool" where
  "slot_used s slot \<longleftrightarrow> bit (used_words s ! (slot div 64)) (slot mod 64)"

definition free_slots :: "Swap \<Rightarrow> nat set" where
  "free_slots s = {slot. slot < SLOTS \<and> \<not> slot_used s slot}"

lemma trailing_zeros_not:
  assumes "w \<noteq> - 1"
  shows "trailing_zeros (NOT w) < 64 \<and> \<not> bit w (trailing_zeros (NOT w))"
proof -
  have "\<exists>n < 64. \<not> bit w n"
  proof (rule ccontr)
    assume "\<not> (\<exists>n < 64. \<not> bit w n)"
    then have "w = - 1" by (intro bit_eqI) simp
    then show False using assms by simp
  qed
  then have "find (bit (NOT w)) [0..<64] \<noteq> None"
    by (auto simp: find_None_iff bit_simps)
  then show ?thesis
    by (auto simp: trailing_zeros_def find_Some_iff bit_simps split: option.splits)
qed

lemma slot_used_update:
  assumes "swap_wf s" "index < 32"
  shows "slot_used (s\<lparr> used_words := (used_words s)[index := w] \<rparr>) slot =
    (if slot div 64 = index then bit w (slot mod 64) else slot_used s slot)"
  using assms by (auto simp: slot_used_def swap_wf_def)

lemma bit_set_clear:
  "b < 64 \<Longrightarrow> bit (w OR 2 ^ b :: u64) n = (bit w n \<or> n = b)"
  "bit (w AND NOT (2 ^ b) :: u64) n = (bit w n \<and> n \<noteq> b)"
  by (auto simp: bit_simps dest: bit_imp_le_length)

lemma allocate_slot_Some:
  assumes "swap_wf s" "allocate_slot s = Some (slot, s')"
  shows "slot < SLOTS \<and> \<not> slot_used s slot \<and> swap_wf s' \<and>
    (\<forall>t. slot_used s' t = (slot_used s t \<or> t = slot))"
proof -
  obtain index where i: "position (\<lambda>word. word \<noteq> - 1) (used_words s) = Some index"
    using assms(2) by (auto simp: allocate_slot_def split: option.splits)
  let ?w = "used_words s ! index" and ?b = "trailing_zeros (NOT (used_words s ! index))"
  have w: "index < 32" "?w \<noteq> - 1"
    using position_Some [OF i] assms(1) by (auto simp: swap_wf_def)
  note b = trailing_zeros_not [OF w(2)]
  have r: "slot = index * 64 + ?b" "s' = s\<lparr> used_words := (used_words s)[index := ?w OR push_bit ?b 1] \<rparr>"
    using assms(2) i by (auto simp: allocate_slot_def Let_def)
  have sd: "slot div 64 = index" "slot mod 64 = ?b" using b by (simp_all add: r(1))
  have "slot < 2048" using b w(1) by (simp add: r(1))
  moreover have "slot_used s' t = (slot_used s t \<or> t = slot)" for t
  proof -
    have "t = slot \<longleftrightarrow> t div 64 = index \<and> t mod 64 = ?b"
      using sd by (metis div_mult_mod_eq)
    then show ?thesis
      using b unfolding r(2) slot_used_update [OF assms(1) w(1)]
      by (auto simp: bit_set_clear slot_used_def)
  qed
  ultimately show ?thesis
    using b sd assms(1) by (auto simp: slot_used_def swap_wf_def r(2))
qed

lemma allocate_slot_None:
  assumes "swap_wf s" "allocate_slot s = None" "slot < SLOTS"
  shows "slot_used s slot"
proof -
  have "position (\<lambda>word. word \<noteq> - 1) (used_words s) = None"
    using assms(2) by (auto simp: allocate_slot_def Let_def split: option.splits)
  then have "used_words s ! (slot div 64) = - 1"
    using assms(1,3) by (simp add: position_None swap_wf_def)
  then show ?thesis by (simp add: slot_used_def)
qed

lemma free_slot_spec:
  assumes "swap_wf s"
  shows "swap_wf (free_slot s slot) \<and>
    (\<forall>t < SLOTS. slot_used (free_slot s slot) t = (slot_used s t \<and> t \<noteq> slot))"
proof (cases "slot < 2048")
  case True
  then have "slot div 64 < 32" by simp
  moreover have "t = slot \<longleftrightarrow> t div 64 = slot div 64 \<and> t mod 64 = slot mod 64" for t
    by (metis div_mult_mod_eq)
  ultimately have "slot_used (free_slot s slot) t = (slot_used s t \<and> t \<noteq> slot)" for t
    using True by (simp add: free_slot_def slot_used_update [OF assms] bit_set_clear)
      (auto simp: slot_used_def)
  then show ?thesis
    using True assms by (simp add: free_slot_def swap_wf_def)
next
  case False
  then show ?thesis using assms by (auto simp: free_slot_def)
qed

interpretation swap_pool: resource_pool allocate_slot free_slot free_slots "\<lambda>slot. slot < SLOTS" swap_wf
proof
  fix s s' :: Swap and r
  assume w: "swap_wf s"
  show "r \<in> free_slots s \<and> free_slots s' = free_slots s - {r} \<and> swap_wf s'"
    if "allocate_slot s = Some (r, s')"
    using allocate_slot_Some [OF w that] by (auto simp: free_slots_def)
  show "free_slots s = {}" if "allocate_slot s = None"
    using allocate_slot_None [OF w that] by (auto simp: free_slots_def)
  show "free_slots (free_slot s r) = insert r (free_slots s) \<and> swap_wf (free_slot s r)"
    if "r < 2048" "r \<notin> free_slots s"
    using free_slot_spec [OF w, of r] that by (auto simp: free_slots_def)
  show "finite (free_slots s)" by (simp add: free_slots_def)
qed

section \<open>Properties\<close>

lemma unat_slot_lba: "slot < 2048 \<Longrightarrow> unat (slot_lba slot) = 32768 + 8 * slot"
  by (simp add: slot_lba_def unat_word_ariths unsigned_of_nat take_bit_eq_mod)

lemma lba_registers_slot: "slot < 2048 \<Longrightarrow> lba_registers (slot_lba slot) = 32768 + 8 * slot"
proof -
  assume s: "slot < 2048"
  have "(0x0FFFFFFF :: u32) = mask 28" by (simp add: mask_eq_exp_minus_1)
  then have "lba_registers (slot_lba slot) = unat (take_bit 28 (slot_lba slot))"
    by (simp only: lba_registers_def take_bit_eq_mask)
  also have "\<dots> = unat (slot_lba slot) mod 2 ^ 28"
    unfolding unsigned_take_bit_eq by (simp only: take_bit_eq_mod)
  finally have "lba_registers (slot_lba slot) = unat (slot_lba slot) mod 2 ^ 28" .
  then show ?thesis using s by (simp add: unat_slot_lba)
qed

text \<open>
  Allocating slots repeatedly gives distinct slots of the swap area, as many as were free, and
  takes exactly these out of the free set.
\<close>

theorem swap_slots_distinct:
  assumes "swap_wf s" "take_many allocate_slot n s = (slots, s')"
  shows "distinct slots \<and> length slots = min n (card (free_slots s)) \<and>
    (\<forall>slot \<in> set slots. slot < SLOTS \<and> \<not> slot_used s slot) \<and> free_slots s' = free_slots s - set slots"
  using swap_pool.take_many_pool [OF assms] by (auto simp: free_slots_def)

theorem swap_slots_distinct_witness:
  "distinct (fst (take_many allocate_slot 5 Swap_init)) \<and>
   length (fst (take_many allocate_slot 5 Swap_init)) = 5"
proof -
  have w: "swap_wf Swap_init" by (simp add: swap_wf_def Swap_init_def)
  have "free_slots Swap_init = {..<2048}"
    by (auto simp: free_slots_def slot_used_def Swap_init_def)
  then show ?thesis
    using swap_slots_distinct [OF w, of 5] by (cases "take_many allocate_slot 5 Swap_init") auto
qed

text \<open>
  A slot's eight sectors lie past the 32768 sectors of the file system and inside the 16384
  sectors of swap space behind it, and the sectors of two slots do not overlap.
\<close>

theorem swap_area:
  assumes "slot < SLOTS" "slot' < SLOTS" "slot \<noteq> slot'"
  shows "32768 \<le> unat (slot_lba slot) \<and> unat (slot_lba slot) + 8 \<le> 32768 + 16384 \<and>
    {unat (slot_lba slot) ..< unat (slot_lba slot) + 8} \<inter>
    {unat (slot_lba slot') ..< unat (slot_lba slot') + 8} = {}"
  using assms by (auto simp: unat_slot_lba)

theorem swap_area_witness:
  "unat (slot_lba 2047) + 8 \<le> 32768 + 16384 \<and>
   {unat (slot_lba 2047) ..< unat (slot_lba 2047) + 8} \<inter> {unat (slot_lba 2) ..< unat (slot_lba 2) + 8} = {}"
  using swap_area [of 2047 2] by simp

text \<open>
  C28: A page survives its stay on disk. After it is written to its slot and other pages are
  written to other slots, reading the slot gives back the same 4096 bytes, whatever the frame
  held before.
\<close>

theorem swap_round_trip:
  assumes "\<forall>n. drive_error d n = None" "slot < SLOTS" "other < SLOTS" "slot \<noteq> other"
    "length page = 4096" "length page' = 4096" "length frame = 4096"
  shows "\<exists>d1 s1 d2 s2 s3. write_out None d slot page s = (Inr (), d1, s1) \<and>
    write_out None d1 other page' s1 = (Inr (), d2, s2) \<and>
    read_in d2 slot frame s2 = (Inr (), page, s3)"
proof -
  obtain d1 where d1: "ata_write None d (slot_lba slot) page = (Inr (), d1)"
      "drive_error d1 = drive_error d"
      "\<forall>t. sectors d1 t = (if 32768 + 8 * slot \<le> t \<and> t < 32768 + 8 * slot + 8
         then bytes_to_words (take 512 (drop ((t - (32768 + 8 * slot)) * 512) page)) else sectors d t)"
    using write_sectors_spec [of 8 d "lba_registers (slot_lba slot)" page] assms
    by (auto simp: ata_write_def lba_registers_slot)
  obtain d2 where d2: "ata_write None d1 (slot_lba other) page' = (Inr (), d2)"
      "drive_error d2 = drive_error d1"
      "\<forall>t. sectors d2 t = (if 32768 + 8 * other \<le> t \<and> t < 32768 + 8 * other + 8
         then bytes_to_words (take 512 (drop ((t - (32768 + 8 * other)) * 512) page')) else sectors d1 t)"
    using write_sectors_spec [of 8 d1 "lba_registers (slot_lba other)" page'] assms d1(2)
    by (auto simp: ata_write_def lba_registers_slot)
  have "words_to_bytes (sectors d2 (32768 + 8 * slot + k)) = take 512 (drop (k * 512) page)"
    if "k < 8" for k
  proof -
    have "sectors d2 (32768 + 8 * slot + k) = bytes_to_words (take 512 (drop (k * 512) page))"
      using d1(3) d2(3) that assms(4) by auto
    moreover have "k * 512 + 512 \<le> length page" using that assms(5) by simp
    then have "length (take 512 (drop (k * 512) page)) = 512" by simp
    ultimately show ?thesis by (simp add: words_bytes_words)
  qed
  then have "map (\<lambda>k. words_to_bytes (sectors d2 (32768 + 8 * slot + k))) [0..<8] =
      map (\<lambda>k. take 512 (drop (k * 512) page)) [0..<8]"
    by (intro map_cong refl) simp
  then have "concat (map (\<lambda>k. words_to_bytes (sectors d2 (32768 + 8 * slot + k))) [0..<8]) = page"
    using concat_chunks [of page 8] assms(5) by (simp only: mult_numeral_left_semiring_numeral)
  then have "ata_read d2 (slot_lba slot) frame = (Inr (), page)"
    using read_sectors_spec [of 8 d2 "lba_registers (slot_lba slot)" frame] assms d1(2) d2(2)
    by (simp add: ata_read_def lba_registers_slot)
  then show ?thesis
    by (simp add: write_out_def read_in_def d1(1) d2(1))
qed

theorem swap_round_trip_witness:
  "\<exists>d1 s1 d2 s2 s3.
    write_out None \<lparr> sectors = (\<lambda>_. []), drive_error = (\<lambda>_. None) \<rparr> 5 (replicate 4096 1) Swap_init = (Inr (), d1, s1) \<and>
    write_out None d1 6 (replicate 4096 2) s1 = (Inr (), d2, s2) \<and>
    read_in d2 5 (replicate 4096 0) s2 = (Inr (), replicate 4096 1, s3)"
  by (rule swap_round_trip) simp_all

end
