(* ===== verification/Memory.thy ===== *)
theory Memory
  imports Pools Replace Swap
begin

text \<open>
  \<open>kernel/src/memory.rs\<close>: the frame allocator, page tables, address spaces, copy on write, demand
  paging and eviction.

  Physical memory is a store of 64-bit words by physical address. The kernel reads and writes it
  through the bootloader's offset mapping; that constant offset (\<open>physical_to_virtual\<close>) is left
  out, so a pointer of the source is the physical address it stands for. \<open>CR3\<close> is a field. The
  translation cache is not modelled: the code invalidates an entry after every change of it.
\<close>

record Memory =
  phys :: "u64 \<Rightarrow> u64"
  fa_head :: u64
  fa_free :: nat
  fa_total :: nat
  cr3 :: u64
  kernel_root :: u64
  shared_tab :: "(u64 \<times> u32) list"
  replacers :: Replacers
  swap_state :: Swap
  drive :: Drive
  flush_error :: "string option"

abbreviation (input) USER_SPACE_END :: u64 where "USER_SPACE_END \<equiv> 0x8000000000"

definition put :: "u64 \<Rightarrow> u64 \<Rightarrow> Memory \<Rightarrow> Memory" where
  "put a v s = s\<lparr> phys := (phys s)(a := v) \<rparr>"

definition in_page :: "u64 \<Rightarrow> u64 \<Rightarrow> bool" where
  "in_page frame a \<longleftrightarrow> a AND NOT 0xFFF = frame"

definition zero_page :: "u64 \<Rightarrow> Memory \<Rightarrow> Memory" where
  "zero_page frame s = s\<lparr> phys := (\<lambda>a. if in_page frame a then 0 else phys s a) \<rparr>"

definition copy_page :: "u64 \<Rightarrow> u64 \<Rightarrow> Memory \<Rightarrow> Memory" where
  "copy_page src dst s =
     s\<lparr> phys := (\<lambda>a. if in_page dst a then phys s (src + (a AND 0xFFF)) else phys s a) \<rparr>"

section \<open>Frames\<close>

definition frame_allocate :: "Memory \<Rightarrow> (u64 \<times> Memory) option" where
  "frame_allocate s =
     (if fa_head s = 0 then None
      else let frame = fa_head s
           in Some (frame, s\<lparr> fa_head := phys s frame, fa_free := fa_free s - 1 \<rparr>))"

definition frame_deallocate :: "Memory \<Rightarrow> u64 \<Rightarrow> Memory" where
  "frame_deallocate s frame =
     (put frame (fa_head s) s)\<lparr> fa_head := frame, fa_free := fa_free s + 1 \<rparr>"

definition frame_stats :: "Memory \<Rightarrow> nat \<times> nat" where
  "frame_stats s = (fa_free s, fa_total s)"

text \<open>
  The boot loader's memory map: regions with a start, an end and a kind. A loop over a region
  advances by a page and would wrap past the end of the address space only for a region that
  ends there; it is a partial function.
\<close>

datatype MemoryRegionKind = Usable | OtherKind

record MemoryRegion =
  region_start :: u64
  region_end :: u64
  region_kind :: MemoryRegionKind

partial_function (option) init_region :: "u64 \<Rightarrow> u64 \<Rightarrow> Memory \<Rightarrow> Memory option" where
  "init_region frame fin s =
     (if frame + 4096 \<le> fin
      then init_region (frame + 4096) fin
             (if frame \<ge> 0x100000 then (frame_deallocate s frame)\<lparr> fa_total := fa_total s + 1 \<rparr> else s)
      else Some s)"

fun memory_init :: "MemoryRegion list \<Rightarrow> Memory \<Rightarrow> Memory option" where
  "memory_init [] s = Some s"
| "memory_init (region # regions) s =
     (if region_kind region \<noteq> Usable then memory_init regions s
      else case init_region ((region_start region + 4096 - 1) AND NOT (4096 - 1))
                  (region_end region AND NOT (4096 - 1)) s of
             None \<Rightarrow> None
           | Some s' \<Rightarrow> memory_init regions s')"

section \<open>Page tables\<close>

definition indexes :: "u64 \<Rightarrow> nat list" where
  "indexes address =
     [unat (drop_bit 39 address AND 0x1FF), unat (drop_bit 30 address AND 0x1FF),
      unat (drop_bit 21 address AND 0x1FF), unat (drop_bit 12 address AND 0x1FF)]"

definition entry_ptr :: "u64 \<Rightarrow> nat \<Rightarrow> u64" where
  "entry_ptr table i = table + 8 * word_of_nat i"

definition page_base :: "u64 \<Rightarrow> u64" where
  "page_base address = address AND NOT (4096 - 1)"

fun map_levels :: "u64 \<Rightarrow> nat list \<Rightarrow> u64 \<Rightarrow> Memory \<Rightarrow> (string + u64) \<times> Memory" where
  "map_levels user [] table s = (Inr table, s)"
| "map_levels user (i # is) table s =
     (let ptr = entry_ptr table i; entry = phys s ptr
      in if entry AND PRESENT \<noteq> 0
         then map_levels user is (entry AND ADDRESS_MASK)
                (if user \<noteq> 0 \<and> entry AND USER = 0 then put ptr (entry OR USER) s else s)
         else case frame_allocate s of
                None \<Rightarrow> (Inl ''out of physical memory'', s)
              | Some (new, s) \<Rightarrow>
                  map_levels user is new (put ptr (new OR PRESENT OR WRITABLE OR user) (zero_page new s)))"

definition map_page_in :: "u64 \<Rightarrow> u64 \<Rightarrow> u64 \<Rightarrow> u64 \<Rightarrow> Memory \<Rightarrow> (string + unit) \<times> Memory" where
  "map_page_in root virtual_address frame flags s =
     (let user = flags AND USER
      in case map_levels user (take 3 (indexes virtual_address)) root s of
           (Inl e, s) \<Rightarrow> (Inl e, s)
         | (Inr table, s) \<Rightarrow>
             (let ptr = entry_ptr table (indexes virtual_address ! 3)
              in if phys s ptr AND PRESENT \<noteq> 0 then (Inl ''that address is already mapped'', s)
                 else let s = put ptr ((frame AND ADDRESS_MASK) OR flags OR PRESENT) s
                      in (Inr (), if user \<noteq> 0 \<and> virtual_address < USER_SPACE_END
                                  then s\<lparr> replacers := note_resident (replacers s) (page_base virtual_address) \<rparr>
                                  else s)))"

definition map_page :: "u64 \<Rightarrow> u64 \<Rightarrow> u64 \<Rightarrow> Memory \<Rightarrow> (string + unit) \<times> Memory" where
  "map_page virtual_address frame flags s = map_page_in (cr3 s) virtual_address frame flags s"

text \<open>The walk of \<open>translate_in\<close>; \<open>level\<close> counts from 0 at the top. The entries met are returned in order.\<close>

fun translate_walk :: "Memory \<Rightarrow> u64 \<Rightarrow> nat \<Rightarrow> nat list \<Rightarrow> u64 \<Rightarrow> u64 list \<Rightarrow> (u64 \<times> u64 list) option" where
  "translate_walk s va level [] table entries = Some (table + (va AND 0xFFF), entries)"
| "translate_walk s va level (i # is) table entries =
     (let entry = phys s (entry_ptr table i); entries = entries @ [entry]
      in if entry AND PRESENT = 0 then None
         else if level < 3 \<and> entry AND HUGE \<noteq> 0
         then Some ((entry AND ADDRESS_MASK) + (va AND ((if level = 1 then push_bit 30 1 else push_bit 21 1) - 1)),
                    entries @ replicate (length is) 0)
         else translate_walk s va (level + 1) is (entry AND ADDRESS_MASK) entries)"

definition translate_in :: "u64 \<Rightarrow> u64 \<Rightarrow> Memory \<Rightarrow> (u64 \<times> u64 list) option" where
  "translate_in root virtual_address s = translate_walk s virtual_address 0 (indexes virtual_address) root []"

definition translate_active :: "u64 \<Rightarrow> Memory \<Rightarrow> (u64 \<times> u64 list) option" where
  "translate_active virtual_address s = translate_in (cr3 s) virtual_address s"

fun path_down :: "Memory \<Rightarrow> u64 \<Rightarrow> nat list \<Rightarrow> u64 list option" where
  "path_down s table [] = Some []"
| "path_down s table (i # is) =
     (let entry = phys s (entry_ptr table i)
      in if entry AND PRESENT = 0 then None
         else map_option (\<lambda>ts. table # ts) (path_down s (entry AND ADDRESS_MASK) is))"

definition table_is_empty :: "Memory \<Rightarrow> u64 \<Rightarrow> bool" where
  "table_is_empty s table = list_all (\<lambda>i. phys s (entry_ptr table i) AND PRESENT = 0) [0..<512]"

text \<open>Pruning, deepest table first: pairs of a table and the entry of its parent that names it.\<close>

fun prune :: "(u64 \<times> u64) list \<Rightarrow> Memory \<Rightarrow> Memory" where
  "prune [] s = s"
| "prune ((table, parent) # rest) s =
     (if \<not> table_is_empty s table then s
      else prune rest (frame_deallocate (put parent 0 s) table))"

definition unmap_page :: "u64 \<Rightarrow> Memory \<Rightarrow> u64 option \<times> Memory" where
  "unmap_page virtual_address s =
     (let ix = indexes virtual_address
      in case path_down s (cr3 s) ix of
           None \<Rightarrow> (None, s)
         | Some tables \<Rightarrow>
             (let leaf = entry_ptr (tables ! 3) (ix ! 3); entry = phys s leaf
              in if entry AND PRESENT = 0 then (None, s)
                 else (Some (entry AND ADDRESS_MASK),
                       prune [(tables ! 3, entry_ptr (tables ! 2) (ix ! 2)),
                              (tables ! 2, entry_ptr (tables ! 1) (ix ! 1)),
                              (tables ! 1, entry_ptr (tables ! 0) (ix ! 0))] (put leaf 0 s))))"

fun release :: "u64 list \<Rightarrow> Memory \<Rightarrow> nat \<times> Memory" where
  "release [] s = (0, s)"
| "release (page # pages) s = (case unmap_page page s of
     (Some frame, s) \<Rightarrow> (let (n, s) = release pages (frame_deallocate s frame) in (n + 1, s))
   | (None, s) \<Rightarrow> release pages s)"

text \<open>Three levels down through present entries; \<open>skip_huge\<close> when the caller also refuses huge pages.\<close>

fun walk3 :: "bool \<Rightarrow> Memory \<Rightarrow> u64 \<Rightarrow> nat list \<Rightarrow> u64 option" where
  "walk3 skip_huge s table [] = Some table"
| "walk3 skip_huge s table (i # is) =
     (let entry = phys s (entry_ptr table i)
      in if entry AND PRESENT = 0 \<or> skip_huge \<and> entry AND HUGE \<noteq> 0 then None
         else walk3 skip_huge s (entry AND ADDRESS_MASK) is)"

definition set_flags :: "u64 \<Rightarrow> u64 \<Rightarrow> Memory \<Rightarrow> (string + unit) \<times> Memory" where
  "set_flags virtual_address flags s = (case walk3 False s (cr3 s) (take 3 (indexes virtual_address)) of
     None \<Rightarrow> (Inl ''not mapped'', s)
   | Some table \<Rightarrow>
       (let ptr = entry_ptr table (indexes virtual_address ! 3); entry = phys s ptr
        in if entry AND PRESENT = 0 then (Inl ''not mapped'', s)
           else (Inr (), put ptr ((entry AND ADDRESS_MASK) OR flags OR PRESENT) s)))"

definition leaf_entry :: "u64 \<Rightarrow> u64 \<Rightarrow> Memory \<Rightarrow> u64 option" where
  "leaf_entry root address s =
     map_option (\<lambda>table. phys s (entry_ptr table (indexes address ! 3))) (walk3 False s root (take 3 (indexes address)))"

definition is_swapped_entry :: "u64 \<Rightarrow> bool" where
  "is_swapped_entry entry \<longleftrightarrow> entry AND PRESENT = 0 \<and> entry AND SWAPPED \<noteq> 0"

fun user_walk :: "Memory \<Rightarrow> nat \<Rightarrow> u64 \<Rightarrow> nat list \<Rightarrow> bool" where
  "user_walk s level table [] = True"
| "user_walk s level table (i # is) =
     (let entry = phys s (entry_ptr table i)
      in if entry AND PRESENT = 0 \<or> entry AND USER = 0 then False
         else if level < 3 \<and> entry AND HUGE \<noteq> 0 then True
         else user_walk s (level + 1) (entry AND ADDRESS_MASK) is)"

partial_function (option) user_pages_ok :: "Memory \<Rightarrow> u64 \<Rightarrow> u64 \<Rightarrow> bool option" where
  "user_pages_ok s page fin =
     (if page < fin
      then if user_walk s 0 (cr3 s) (indexes page) then user_pages_ok s (page + 4096) fin else Some False
      else Some True)"

definition is_user_accessible :: "u64 \<Rightarrow> u64 \<Rightarrow> Memory \<Rightarrow> bool option" where
  "is_user_accessible address len s = (case checked_add address len of
     None \<Rightarrow> Some False
   | Some fin \<Rightarrow> user_pages_ok s (page_base address) fin)"

section \<open>Owners of a frame\<close>

definition share :: "u64 \<Rightarrow> Memory \<Rightarrow> Memory" where
  "share frame s = (case position (\<lambda>fc. fst fc = frame) (shared_tab s) of
     Some i \<Rightarrow> s\<lparr> shared_tab := (shared_tab s)[i := (frame, snd (shared_tab s ! i) + 1)] \<rparr>
   | None \<Rightarrow> s\<lparr> shared_tab := shared_tab s @ [(frame, 2)] \<rparr>)"

text \<open>\<open>Vec::swap_remove\<close>: the last element takes the place of the one removed.\<close>

definition swap_remove :: "nat \<Rightarrow> 'a list \<Rightarrow> 'a list" where
  "swap_remove i xs = butlast (xs[i := last xs])"

definition unshare :: "u64 \<Rightarrow> Memory \<Rightarrow> u32 \<times> Memory" where
  "unshare frame s = (case position (\<lambda>fc. fst fc = frame) (shared_tab s) of
     Some i \<Rightarrow>
       (let left = snd (shared_tab s ! i) - 1; tab = (shared_tab s)[i := (frame, left)]
        in (left, s\<lparr> shared_tab := (if left \<le> 1 then swap_remove i tab else tab) \<rparr>))
   | None \<Rightarrow> (1, s))"

definition share_count :: "u64 \<Rightarrow> Memory \<Rightarrow> u32" where
  "share_count frame s = (case find (\<lambda>fc. fst fc = frame) (shared_tab s) of Some fc \<Rightarrow> snd fc | None \<Rightarrow> 1)"

definition is_shared :: "u64 \<Rightarrow> Memory \<Rightarrow> bool" where
  "is_shared frame s \<longleftrightarrow> share_count frame s > 1"

section \<open>Address spaces\<close>

text \<open>An \<open>AddressSpace\<close> is the physical address of its level-4 table.\<close>

definition address_space_new :: "Memory \<Rightarrow> (u64 \<times> Memory) option" where
  "address_space_new s = (case frame_allocate s of
     None \<Rightarrow> None
   | Some (root, s) \<Rightarrow>
       Some (root, fold (\<lambda>slot s. put (entry_ptr root slot) (phys s (entry_ptr (cr3 s) slot)) s)
                     [1..<512] (zero_page root s)))"

definition address_space_map :: "u64 \<Rightarrow> u64 \<Rightarrow> u64 \<Rightarrow> u64 \<Rightarrow> Memory \<Rightarrow> (string + unit) \<times> Memory" where
  "address_space_map root virtual_address frame flags s =
     (if virtual_address \<ge> USER_SPACE_END then (Inl ''that address belongs to the kernel'', s)
      else map_page_in root virtual_address frame flags s)"

definition free_leaf :: "u64 \<Rightarrow> nat \<times> Memory \<Rightarrow> nat \<times> Memory" where
  "free_leaf frame ns = (let (n, s) = ns
     in if share_count frame s > 1 then (n, snd (unshare frame s))
        else (n + 1, frame_deallocate s frame))"

text \<open>\<open>level\<close> is the level of the table less one: 0 for a page table, 2 for a PDPT.\<close>

primrec free_subtree :: "nat \<Rightarrow> u64 \<Rightarrow> Memory \<Rightarrow> nat \<times> Memory" where
  "free_subtree 0 table s =
     (let (n, s) = fold (\<lambda>i (n, s). let entry = phys s (entry_ptr table i)
                         in if entry AND PRESENT = 0 then (n, s)
                            else free_leaf (entry AND ADDRESS_MASK) (n, s)) [0..<512] (0, s)
      in (n + 1, frame_deallocate s table))"
| "free_subtree (Suc level) table s =
     (let (n, s) = fold (\<lambda>i (n, s). let entry = phys s (entry_ptr table i)
                         in if entry AND PRESENT = 0 then (n, s)
                            else if entry AND HUGE \<noteq> 0 then free_leaf (entry AND ADDRESS_MASK) (n, s)
                            else let (k, s) = free_subtree level (entry AND ADDRESS_MASK) s in (n + k, s))
                     [0..<512] (0, s)
      in (n + 1, frame_deallocate s table))"

definition address_space_destroy :: "u64 \<Rightarrow> Memory \<Rightarrow> nat \<times> Memory" where
  "address_space_destroy root s =
     (let slot0 = phys s root;
          (freed, s) = (if slot0 AND PRESENT \<noteq> 0
            then let (n, s) = free_subtree 2 (slot0 AND ADDRESS_MASK) s in (n, put root 0 s)
            else (0, s))
      in (freed + 1, frame_deallocate s root))"

definition remember_kernel_root :: "Memory \<Rightarrow> Memory" where
  "remember_kernel_root s = s\<lparr> kernel_root := cr3 s \<rparr>"

definition activate_root :: "u64 \<Rightarrow> Memory \<Rightarrow> Memory" where
  "activate_root root s = s\<lparr> cr3 := root \<rparr>"

text \<open>The present pages of the user half: address, entry, and where the entry is.\<close>

definition present_entries :: "Memory \<Rightarrow> bool \<Rightarrow> u64 \<Rightarrow> (nat \<times> u64) list" where
  "present_entries s skip_huge table =
     filter (\<lambda>(i, entry). entry AND PRESENT \<noteq> 0 \<and> \<not> (skip_huge \<and> entry AND HUGE \<noteq> 0))
       (map (\<lambda>i. (i, phys s (entry_ptr table i))) [0..<512])"

definition user_pages :: "u64 \<Rightarrow> Memory \<Rightarrow> (u64 \<times> u64 \<times> u64) list" where
  "user_pages root s =
     (let slot0 = phys s root
      in if slot0 AND PRESENT = 0 then []
         else concat (map (\<lambda>(i3, e3).
           concat (map (\<lambda>(i2, e2).
             map (\<lambda>(i1, e1).
               (push_bit 30 (word_of_nat i3) OR push_bit 21 (word_of_nat i2) OR push_bit 12 (word_of_nat i1),
                e1, entry_ptr (e2 AND ADDRESS_MASK) i1))
               (present_entries s False (e2 AND ADDRESS_MASK)))
             (present_entries s True (e3 AND ADDRESS_MASK))))
           (present_entries s True (slot0 AND ADDRESS_MASK))))"

section \<open>Copy on write\<close>

definition fork_flags :: "u64 \<Rightarrow> u64" where
  "fork_flags flags = (if flags AND WRITABLE \<noteq> 0 then (flags AND NOT WRITABLE) OR COW else flags)"

fun fork_pages :: "u64 \<Rightarrow> (u64 \<times> u64 \<times> u64) list \<Rightarrow> Memory \<Rightarrow> bool \<times> Memory" where
  "fork_pages child [] s = (True, s)"
| "fork_pages child ((address, entry, pointer) # pages) s =
     (let frame = entry AND ADDRESS_MASK; flags = entry AND NOT ADDRESS_MASK;
          s = (if flags AND WRITABLE \<noteq> 0 then put pointer (frame OR fork_flags flags) s else s)
      in case map_page_in child address frame (fork_flags flags AND NOT PRESENT) s of
           (Inl _, s) \<Rightarrow> (False, s)
         | (Inr _, s) \<Rightarrow> fork_pages child pages (share frame s))"

definition address_space_fork :: "u64 \<Rightarrow> Memory \<Rightarrow> u64 option \<times> Memory" where
  "address_space_fork root s = (case address_space_new s of
     None \<Rightarrow> (None, s)
   | Some (child, s) \<Rightarrow>
       (case fork_pages child (user_pages root s) s of
          (True, s) \<Rightarrow> (Some child, s)
        | (False, s) \<Rightarrow> (None, s)))"

section \<open>Eviction\<close>

definition word_bytes :: "u64 \<Rightarrow> u8 list" where
  "word_bytes w = map (\<lambda>k. ucast (drop_bit (8 * k) w)) [0..<8]"

fun bytes_word :: "u8 list \<Rightarrow> u64" where
  "bytes_word [] = 0"
| "bytes_word (b # bs) = ucast b OR push_bit 8 (bytes_word bs)"

definition page_bytes :: "u64 \<Rightarrow> Memory \<Rightarrow> u8 list" where
  "page_bytes frame s = concat (map (\<lambda>i. word_bytes (phys s (entry_ptr frame i))) [0..<512])"

definition load_page :: "u64 \<Rightarrow> u8 list \<Rightarrow> Memory \<Rightarrow> Memory" where
  "load_page frame bytes s =
     s\<lparr> phys := (\<lambda>a. if in_page frame a then bytes_word (take 8 (drop (unat (a AND 0xFFF)) bytes)) else phys s a) \<rparr>"

definition page_set :: "(u64 \<times> u64 \<times> u64) list \<Rightarrow> Memory \<Rightarrow> PageSet" where
  "page_set pages s = \<lparr> ps_pages = map (\<lambda>(address, _, pointer). (address, phys s pointer)) pages,
                        ps_shared = (\<lambda>frame. is_shared frame s) \<rparr>"

text \<open>The accessed bits the policy cleared are cleared in the page tables.\<close>

definition write_back :: "(u64 \<times> u64 \<times> u64) list \<Rightarrow> PageSet \<Rightarrow> Memory \<Rightarrow> Memory" where
  "write_back pages ps s =
     fold (\<lambda>i s. put (snd (snd (pages ! i))) (ps_entry ps i) s) [0..<length pages] s"

definition swapped_entry :: "nat \<Rightarrow> u64 \<Rightarrow> u64" where
  "swapped_entry slot entry =
     push_bit 12 (word_of_nat slot) OR (entry AND NOT ADDRESS_MASK AND NOT PRESENT) OR SWAPPED"

definition resident_entry :: "u64 \<Rightarrow> u64 \<Rightarrow> u64" where
  "resident_entry frame entry = frame OR (entry AND NOT ADDRESS_MASK AND NOT SWAPPED) OR PRESENT"

definition evict_one :: "u64 \<Rightarrow> Memory \<Rightarrow> u64 option \<times> Memory" where
  "evict_one root s =
     (let pages = user_pages root s
      in if pages = [] then (None, s)
         else case replace_choose (replacers s) (page_set pages s) of
           (None, r, ps) \<Rightarrow> (None, write_back pages ps (s\<lparr> replacers := r \<rparr>))
         | (Some index, r, ps) \<Rightarrow>
             (let s = write_back pages ps (s\<lparr> replacers := r \<rparr>)
              in if index \<ge> length pages \<or> \<not> eligible ps index then (None, s)
                 else let (address, _, pointer) = pages ! index; entry = phys s pointer;
                          frame = entry AND ADDRESS_MASK
                      in case allocate_slot (swap_state s) of
                           None \<Rightarrow> (None, s)
                         | Some (slot, sw) \<Rightarrow>
                             (case write_out (flush_error s) (drive s) slot (page_bytes frame s) sw of
                                (Inl _, d, sw) \<Rightarrow>
                                  (None, s\<lparr> swap_state := free_slot sw slot, drive := d \<rparr>)
                              | (Inr _, d, sw) \<Rightarrow>
                                  (let s = put pointer (swapped_entry slot entry)
                                             (s\<lparr> swap_state := sw, drive := d \<rparr>)
                                   in (Some frame, s\<lparr> replacers := note_evicted (replacers s) address \<rparr>)))))"

definition allocate_or_evict :: "Memory \<Rightarrow> u64 option \<times> Memory" where
  "allocate_or_evict s = (case frame_allocate s of
     Some (frame, s) \<Rightarrow> (Some frame, s)
   | None \<Rightarrow> evict_one (cr3 s) s)"

definition swap_in :: "u64 \<Rightarrow> Memory \<Rightarrow> bool \<times> Memory" where
  "swap_in address s =
     (let page = page_base address; ix = indexes page
      in case walk3 True s (cr3 s) (take 3 ix) of
           None \<Rightarrow> (False, s)
         | Some table \<Rightarrow>
             (let pointer = entry_ptr table (ix ! 3); entry = phys s pointer
              in if entry AND PRESENT \<noteq> 0 \<or> entry AND SWAPPED = 0 then (False, s)
                 else let slot = unat (drop_bit 12 (entry AND ADDRESS_MASK))
                      in case allocate_or_evict s of
                           (None, s) \<Rightarrow> (False, s)
                         | (Some frame, s) \<Rightarrow>
                             (case read_in (drive s) slot (page_bytes frame s) (swap_state s) of
                                (Inl _, bytes, sw) \<Rightarrow>
                                  (False, frame_deallocate (load_page frame bytes (s\<lparr> swap_state := sw \<rparr>)) frame)
                              | (Inr _, bytes, sw) \<Rightarrow>
                                  (let s = load_page frame bytes (s\<lparr> swap_state := free_slot sw slot \<rparr>);
                                       s = put pointer (resident_entry frame entry) s
                                   in (True, s\<lparr> replacers := note_resident (replacers s) page \<rparr>)))))"

definition cow_fault :: "u64 \<Rightarrow> Memory \<Rightarrow> bool \<times> Memory" where
  "cow_fault address s =
     (let page = page_base address; ix = indexes page
      in if page \<ge> USER_SPACE_END then (False, s)
         else case walk3 True s (cr3 s) (take 3 ix) of
           None \<Rightarrow> (False, s)
         | Some table \<Rightarrow>
             (let pointer = entry_ptr table (ix ! 3); entry = phys s pointer
              in if entry AND PRESENT = 0 \<or> entry AND COW = 0 \<or> entry AND WRITABLE \<noteq> 0 then (False, s)
                 else let frame = entry AND ADDRESS_MASK
                      in if share_count frame s > 1
                         then (case allocate_or_evict (snd (unshare frame s)) of
                                 (None, s) \<Rightarrow> (False, s)
                               | (Some fresh, s) \<Rightarrow>
                                   (True, put pointer (fresh OR (((entry AND NOT ADDRESS_MASK) OR WRITABLE) AND NOT COW))
                                            (copy_page frame fresh s)))
                         else (True, put pointer ((entry OR WRITABLE) AND NOT COW) s)))"

text \<open>\<open>stop\<close> (the \<open>top\<close> of the source) and \<open>limit\<close> are the stack region of the current task, read by the caller.\<close>

definition demand_fault :: "u64 \<Rightarrow> u64 \<Rightarrow> u64 \<Rightarrow> Memory \<Rightarrow> u64 option \<times> Memory" where
  "demand_fault stop limit address s =
     (if stop = 0 \<or> address \<ge> stop then (None, s)
      else let page = page_base address
           in if page < limit then (None, s)
              else if translate_active page s \<noteq> None then (None, s)
              else case allocate_or_evict s of
                     (None, s) \<Rightarrow> (None, s)
                   | (Some frame, s) \<Rightarrow>
                       (case map_page page frame (USER OR WRITABLE) s of
                          (Inl _, s) \<Rightarrow> (None, s)
                        | (Inr _, s) \<Rightarrow> (Some page, zero_page (frame AND ADDRESS_MASK) s)))"

end
