(* ===== verification/Page_Tables.thy ===== *)
theory Page_Tables
  imports Memory
begin

text \<open>
  Page tables at work (\<open>kernel/src/memory.rs\<close>): the free list of frames is a pool, creating a path
  of tables and mapping a page at its end makes the address resolve to the frame and leaves every
  other resolution as it was, and the check of a user pointer is exactly the walk of the CPU for
  ring 3 over every page of the range.
\<close>

section \<open>Pages and entries\<close>

definition aligned :: "u64 \<Rightarrow> bool" where
  "aligned a \<longleftrightarrow> a AND 0xFFF = 0"

lemma low_mask: "(0xFFF :: u64) = mask 12" "(4096 - 1 :: u64) = mask 12" "(4095 :: u64) = mask 12"
  by (simp_all add: mask_eq_exp_minus_1)

lemma page_base_mask: "page_base a = a AND NOT (mask 12)"
  by (simp only: page_base_def low_mask)

lemma in_page_iff: "in_page frame a \<longleftrightarrow> page_base a = frame"
  by (simp only: in_page_def page_base_mask low_mask)

lemma aligned_bits: "aligned a \<longleftrightarrow> (\<forall>n < 12. \<not> bit a n)"
proof
  assume "aligned a"
  then have "\<not> bit (a AND mask 12) n" for n by (simp only: aligned_def low_mask) simp
  moreover have "bit (mask 12 :: u64) n" if "n < 12" for n using that by (simp add: bit_mask_iff)
  ultimately show "\<forall>n < 12. \<not> bit a n" by (metis bit_and_iff)
next
  assume "\<forall>n < 12. \<not> bit a n"
  then have "a AND mask 12 = 0" by (intro bit_eqI) (auto simp: bit_simps)
  then show "aligned a" by (simp only: aligned_def low_mask)
qed

lemma bit_page_base: "bit (page_base a) n \<longleftrightarrow> 12 \<le> n \<and> bit a n"
  by (auto simp: page_base_mask bit_simps dest: bit_imp_le_length)

lemma aligned_page_base [simp]: "aligned (page_base a)"
  by (simp add: aligned_bits bit_page_base)

lemma page_base_aligned: "aligned a \<Longrightarrow> page_base a = a"
  by (rule bit_eqI) (auto simp: aligned_bits bit_page_base not_less)

lemma aligned_mask [simp]: "aligned (e AND ADDRESS_MASK)"
  by (simp add: aligned_bits bit_simps)

lemma small_bits:
  assumes "i < 512" "bit (8 * word_of_nat i :: u64) n"
  shows "n < 12"
proof (rule ccontr)
  assume "\<not> n < 12"
  have "unat (8 * word_of_nat i :: u64) = 8 * i"
    using assms(1) by (simp add: unat_word_ariths unsigned_of_nat take_bit_eq_mod)
  then have "\<not> bit (unat (8 * word_of_nat i :: u64)) n"
    using assms(1) \<open>\<not> n < 12\<close> power_increasing [of 12 n "2 :: nat"] by (simp add: bit_nat_iff bit_iff_odd)
  then show False using assms(2) by (simp add: bit_unsigned_iff)
qed

lemma entry_ptr_or:
  assumes "aligned t" "i < 512"
  shows "entry_ptr t i = t OR 8 * word_of_nat i"
proof -
  have "t AND 8 * word_of_nat i = 0"
    using assms small_bits [OF assms(2)] by (intro bit_eqI) (auto simp: aligned_bits bit_simps)
  then show ?thesis by (simp add: entry_ptr_def disjunctive_add_eq_or)
qed

lemma page_base_entry [simp]:
  assumes "aligned t" "i < 512"
  shows "page_base (entry_ptr t i) = t"
proof (rule bit_eqI)
  fix n
  show "bit (page_base (entry_ptr t i)) n = bit t n"
    using assms(1) small_bits [OF assms(2), of n]
    by (auto simp: entry_ptr_or [OF assms] bit_page_base bit_simps aligned_bits)
      (metis not_le)
qed

lemma entry_ptr_inj:
  assumes "entry_ptr t i = entry_ptr t j" "i < 512" "j < 512"
  shows "i = j"
proof -
  have "8 * word_of_nat i = (8 * word_of_nat j :: u64)" using assms(1) by (simp add: entry_ptr_def)
  then have "unat (8 * word_of_nat i :: u64) = unat (8 * word_of_nat j :: u64)" by simp
  then show ?thesis using assms(2,3) by (simp add: unat_word_ariths unsigned_of_nat take_bit_eq_mod)
qed

lemma indexes_less: "i \<in> set (indexes a) \<Longrightarrow> i < 512"
proof -
  have "unat (x AND 0x1FF :: u64) < 512" for x
  proof -
    have "(0x1FF :: u64) = mask 9" by (simp add: mask_eq_exp_minus_1)
    then have "unat (x AND 0x1FF) = unat (take_bit 9 x)" by (simp only: take_bit_eq_mask)
    also have "\<dots> = unat x mod 2 ^ 9" unfolding unsigned_take_bit_eq by (simp only: take_bit_eq_mod)
    finally show ?thesis by simp
  qed
  then show "i \<in> set (indexes a) \<Longrightarrow> i < 512" by (auto simp: indexes_def)
qed

lemma phys_put [simp]: "phys (put a v s) b = (if b = a then v else phys s b)"
  by (simp add: put_def)

lemma put_fields [simp]:
  "fa_head (put a v s) = fa_head s" "fa_free (put a v s) = fa_free s" "cr3 (put a v s) = cr3 s"
  "shared_tab (put a v s) = shared_tab s" "replacers (put a v s) = replacers s"
  "swap_state (put a v s) = swap_state s" "drive (put a v s) = drive s"
  by (simp_all add: put_def)

lemma phys_zero_page [simp]: "phys (zero_page f s) a = (if page_base a = f then 0 else phys s a)"
  by (simp add: zero_page_def in_page_iff)

lemma zero_page_fields [simp]:
  "fa_head (zero_page a s) = fa_head s" "fa_free (zero_page a s) = fa_free s" "cr3 (zero_page a s) = cr3 s"
  "shared_tab (zero_page a s) = shared_tab s" "replacers (zero_page a s) = replacers s"
  by (simp_all add: zero_page_def)

section \<open>The free list of frames\<close>

fun chain :: "(u64 \<Rightarrow> u64) \<Rightarrow> u64 \<Rightarrow> nat \<Rightarrow> u64 list" where
  "chain m p 0 = []"
| "chain m p (Suc n) = p # chain m (m p) n"

fun chain_end :: "(u64 \<Rightarrow> u64) \<Rightarrow> u64 \<Rightarrow> nat \<Rightarrow> u64" where
  "chain_end m p 0 = p"
| "chain_end m p (Suc n) = chain_end m (m p) n"

definition free_frames :: "Memory \<Rightarrow> u64 set" where
  "free_frames s = set (chain (phys s) (fa_head s) (fa_free s))"

text \<open>
  The free list has as many frames as the allocator counts, ends in 0, and consists of distinct
  page addresses, none of them 0.
\<close>

definition frames_wf :: "Memory \<Rightarrow> bool" where
  "frames_wf s \<longleftrightarrow> chain_end (phys s) (fa_head s) (fa_free s) = 0 \<and>
     distinct (chain (phys s) (fa_head s) (fa_free s)) \<and>
     (\<forall>f \<in> free_frames s. f \<noteq> 0 \<and> aligned f)"

definition legal_frame :: "u64 \<Rightarrow> bool" where
  "legal_frame f \<longleftrightarrow> f \<noteq> 0 \<and> aligned f"

lemma chain_cong:
  "\<forall>f \<in> set (chain m p n). m' f = m f \<Longrightarrow> chain m' p n = chain m p n \<and> chain_end m' p n = chain_end m p n"
  by (induction n arbitrary: p) auto

lemma frames_nonempty:
  assumes "frames_wf s" "fa_head s \<noteq> 0"
  obtains n where "fa_free s = Suc n"
  using assms by (cases "fa_free s") (auto simp: frames_wf_def)

lemma frame_allocate_Some:
  assumes "frames_wf s" "frame_allocate s = Some (f, s')"
  shows "f \<in> free_frames s \<and> free_frames s' = free_frames s - {f} \<and> frames_wf s' \<and> phys s' = phys s \<and>
    f = fa_head s \<and> f \<noteq> 0"
proof -
  have h: "fa_head s \<noteq> 0" "f = fa_head s" "s' = s\<lparr> fa_head := phys s f, fa_free := fa_free s - 1 \<rparr>"
    using assms(2) by (auto simp: frame_allocate_def Let_def split: if_splits)
  obtain n where n: "fa_free s = Suc n" using frames_nonempty [OF assms(1) h(1)] .
  show ?thesis
    using assms(1) h(1) by (auto simp: frames_wf_def free_frames_def n h(2,3))
qed

lemma frame_allocate_None:
  assumes "frames_wf s" "frame_allocate s = None"
  shows "free_frames s = {}"
proof -
  have "fa_head s = 0" using assms(2) by (auto simp: frame_allocate_def Let_def split: if_splits)
  then show ?thesis using assms(1) by (cases "fa_free s") (auto simp: frames_wf_def free_frames_def)
qed

lemma frame_deallocate_pool:
  assumes "frames_wf s" "legal_frame f" "f \<notin> free_frames s"
  shows "free_frames (frame_deallocate s f) = insert f (free_frames s) \<and> frames_wf (frame_deallocate s f)"
proof -
  let ?m = "(phys s)(f := fa_head s)"
  have "chain ?m (fa_head s) (fa_free s) = chain (phys s) (fa_head s) (fa_free s)"
      "chain_end ?m (fa_head s) (fa_free s) = chain_end (phys s) (fa_head s) (fa_free s)"
    using chain_cong [of "phys s" "fa_head s" "fa_free s" ?m] assms(3) by (auto simp: free_frames_def)
  then show ?thesis
    using assms by (auto simp: frame_deallocate_def put_def free_frames_def frames_wf_def legal_frame_def)
qed

interpretation frame_pool: resource_pool frame_allocate frame_deallocate free_frames legal_frame frames_wf
proof
  fix s s' :: Memory and f
  assume w: "frames_wf s"
  show "f \<in> free_frames s \<and> free_frames s' = free_frames s - {f} \<and> frames_wf s'"
    if "frame_allocate s = Some (f, s')"
    using frame_allocate_Some [OF w that] by blast
  show "free_frames s = {}" if "frame_allocate s = None"
    by (rule frame_allocate_None [OF w that])
  show "free_frames (frame_deallocate s f) = insert f (free_frames s) \<and> frames_wf (frame_deallocate s f)"
    if "legal_frame f" "f \<notin> free_frames s"
    by (rule frame_deallocate_pool [OF w that])
  show "finite (free_frames s)" by (simp add: free_frames_def)
qed

lemma free_frames_cong:
  assumes "\<forall>f \<in> free_frames s. phys s' f = phys s f" "fa_head s' = fa_head s" "fa_free s' = fa_free s"
  shows "free_frames s' = free_frames s \<and> (frames_wf s' = frames_wf s)"
  using chain_cong [of "phys s" "fa_head s" "fa_free s" "phys s'"] assms
  by (auto simp: free_frames_def frames_wf_def)

lemma free_frames_fields:
  "phys s' = phys s \<Longrightarrow> fa_head s' = fa_head s \<Longrightarrow> fa_free s' = fa_free s \<Longrightarrow>
   free_frames s' = free_frames s \<and> frames_wf s' = frames_wf s"
  by (simp add: free_frames_def frames_wf_def)

lemma frames_legal: "frames_wf s \<Longrightarrow> f \<in> free_frames s \<Longrightarrow> legal_frame f"
  by (simp add: frames_wf_def legal_frame_def)

lemma free_frames_write:
  assumes "frames_wf s" "page_base a \<notin> free_frames s"
  shows "free_frames (put a v s) = free_frames s \<and> frames_wf (put a v s)"
proof -
  have "a \<notin> free_frames s" using assms page_base_aligned by (metis frames_wf_def)
  then have "\<forall>f \<in> free_frames s. phys (put a v s) f = phys s f" by auto
  then show ?thesis using free_frames_cong [of s "put a v s"] assms(1) by simp
qed

text \<open>
  What the kernel does with frames: take one, write into one it holds, return one it holds. The second
  component is the set of frames held.
\<close>

inductive frame_step :: "Memory \<times> u64 set \<Rightarrow> Memory \<times> u64 set \<Rightarrow> bool" where
  frame_taken: "frame_allocate s = Some (f, s') \<Longrightarrow> frame_step (s, held) (s', insert f held)"
| frame_written: "page_base a \<in> held \<Longrightarrow> frame_step (s, held) (put a v s, held)"
| frame_returned: "f \<in> held \<Longrightarrow> frame_step (s, held) (frame_deallocate s f, held - {f})"

definition frames_split :: "u64 set \<Rightarrow> Memory \<times> u64 set \<Rightarrow> bool" where
  "frames_split all x \<longleftrightarrow> frames_wf (fst x) \<and> free_frames (fst x) \<inter> snd x = {} \<and> free_frames (fst x) \<union> snd x = all \<and>
     (\<forall>f \<in> all. legal_frame f)"

lemma frame_step_split: "frame_step x y \<Longrightarrow> frames_split all x \<Longrightarrow> frames_split all y"
proof (induction rule: frame_step.induct)
  case (frame_taken s f s' held)
  then have "frames_wf s" by (simp add: frames_split_def)
  then show ?case using frame_pool.take_Some [OF _ frame_taken(1)] frame_taken(2) by (auto simp: frames_split_def)
next
  case (frame_written a held s v)
  then show ?case using free_frames_write [of s a v] by (auto simp: frames_split_def)
next
  case (frame_returned f held s)
  then have "frames_wf s" "legal_frame f" "f \<notin> free_frames s" by (auto simp: frames_split_def)
  then have "free_frames (frame_deallocate s f) = insert f (free_frames s)" "frames_wf (frame_deallocate s f)"
    using frame_pool.give_avail [of s f] by simp_all
  then show ?case using frame_returned by (auto simp: frames_split_def)
qed

lemma frame_steps_split: "frame_step\<^sup>*\<^sup>* x y \<Longrightarrow> frames_split all x \<Longrightarrow> frames_split all y"
  by (induction rule: rtranclp_induct) (auto intro: frame_step_split)

section \<open>Mapping a page\<close>

lemma target_new:
  assumes "f AND ADDRESS_MASK = f" "u \<in> {0, USER}"
  shows "(f OR PRESENT OR WRITABLE OR u) AND ADDRESS_MASK = f"
    "(f OR PRESENT OR WRITABLE OR u) AND PRESENT \<noteq> 0" "(f OR PRESENT OR WRITABLE OR u) AND HUGE = 0"
proof -
  have b: "\<And>n. bit f n \<Longrightarrow> 12 \<le> n \<and> n < 52"
    using assms(1) by (metis bit_ADDRESS_MASK bit_and_iff)
  show "(f OR PRESENT OR WRITABLE OR u) AND ADDRESS_MASK = f"
    using b assms(2) by (intro bit_eqI) (auto simp: bit_simps)
  show "(f OR PRESENT OR WRITABLE OR u) AND PRESENT \<noteq> 0"
    unfolding flag_test by (simp add: bit_simps)
  have "\<not> bit (f OR PRESENT OR WRITABLE OR u) 7" using b [of 7] assms(2) by (auto simp: bit_simps)
  then show "(f OR PRESENT OR WRITABLE OR u) AND HUGE = 0"
    using flag_test(4) by blast
qed

lemma or_USER: "(e OR USER) AND ADDRESS_MASK = e AND ADDRESS_MASK" "((e OR USER) AND PRESENT \<noteq> 0) = (e AND PRESENT \<noteq> 0)"
    "((e OR USER) AND HUGE = 0) = (e AND HUGE = 0)"
proof -
  show "(e OR USER) AND ADDRESS_MASK = e AND ADDRESS_MASK"
    by (intro bit_eqI) (auto simp: bit_simps)
  show "((e OR USER) AND PRESENT \<noteq> 0) = (e AND PRESENT \<noteq> 0)"
    unfolding flag_test by (simp add: bit_simps)
  show "((e OR USER) AND HUGE = 0) = (e AND HUGE = 0)"
    using flag_test(4) [of e] flag_test(4) [of "e OR USER"] by (auto simp: bit_simps)
qed

lemma USER_nonzero: "USER \<noteq> 0"
  by (simp add: USER_def)

lemma or_USER_set: "(e OR USER) AND USER \<noteq> 0"
  unfolding flag_test by (simp add: bit_simps)

text \<open>The tables a walk meets, as far as they exist.\<close>

fun path_tables :: "(u64 \<Rightarrow> u64) \<Rightarrow> u64 \<Rightarrow> nat list \<Rightarrow> u64 list" where
  "path_tables m t [] = [t]"
| "path_tables m t (i # is) =
     t # (let e = m (entry_ptr t i) in if e AND PRESENT \<noteq> 0 then path_tables m (e AND ADDRESS_MASK) is else [])"

text \<open>
  What a walk relies on: the tables on the way are distinct pages, none of them is free, and no
  entry on the way is a huge page; free frames are addresses that an entry can hold.
\<close>

definition walk_ok :: "Memory \<Rightarrow> u64 \<Rightarrow> nat list \<Rightarrow> bool" where
  "walk_ok s t is \<longleftrightarrow> distinct (path_tables (phys s) t is) \<and> set (path_tables (phys s) t is) \<inter> free_frames s = {} \<and>
     aligned t \<and> (\<forall>i \<in> set is. i < 512)"

definition frames_encodable :: "Memory \<Rightarrow> bool" where
  "frames_encodable s \<longleftrightarrow> (\<forall>f \<in> free_frames s. f AND ADDRESS_MASK = f)"

fun no_huge :: "(u64 \<Rightarrow> u64) \<Rightarrow> u64 \<Rightarrow> nat list \<Rightarrow> bool" where
  "no_huge m t [] = True"
| "no_huge m t (i # is) =
     (let e = m (entry_ptr t i) in e AND PRESENT \<noteq> 0 \<longrightarrow> e AND HUGE = 0 \<and> no_huge m (e AND ADDRESS_MASK) is)"

lemma path_tables_cong:
  assumes "aligned t" "\<forall>i \<in> set is. i < 512"
    "\<forall>a. page_base a \<in> set (path_tables m t is) \<longrightarrow> m' a = m a"
  shows "path_tables m' t is = path_tables m t is \<and> no_huge m' t is = no_huge m t is"
  using assms
proof (induction "is" arbitrary: t)
  case (Cons i "is")
  have e: "m' (entry_ptr t i) = m (entry_ptr t i)" using Cons.prems by simp
  show ?case
  proof (cases "m (entry_ptr t i) AND PRESENT = 0")
    case False
    then have "path_tables m' (m (entry_ptr t i) AND ADDRESS_MASK) is = path_tables m (m (entry_ptr t i) AND ADDRESS_MASK) is \<and>
        no_huge m' (m (entry_ptr t i) AND ADDRESS_MASK) is = no_huge m (m (entry_ptr t i) AND ADDRESS_MASK) is"
      using Cons.prems by (intro Cons.IH) (auto simp: Let_def)
    then show ?thesis using e by (simp add: Let_def)
  qed (simp add: e Let_def)
qed simp

lemma path_tables_head: "t \<in> set (path_tables m t is)"
  by (cases "is") auto

text \<open>The two ways one level of the walk can go.\<close>

lemma map_levels_step:
  assumes "map_levels user (i # is) t s = (r, s')"
  obtains (down) s1 e where "phys s (entry_ptr t i) AND PRESENT \<noteq> 0" "e \<in> {phys s (entry_ptr t i), phys s (entry_ptr t i) OR USER}"
      "s1 = put (entry_ptr t i) e s"
      "map_levels user is (e AND ADDRESS_MASK) s1 = (r, s')" "e AND PRESENT \<noteq> 0"
      "user \<noteq> 0 \<longrightarrow> e AND USER \<noteq> 0"
  | (fail) "phys s (entry_ptr t i) AND PRESENT = 0" "frame_allocate s = None" "r = Inl ''out of physical memory''" "s' = s"
  | (grow) new s1 where "phys s (entry_ptr t i) AND PRESENT = 0" "frame_allocate s = Some (new, s1)"
      "map_levels user is new (put (entry_ptr t i) (new OR PRESENT OR WRITABLE OR user) (zero_page new s1)) = (r, s')"
proof (cases "phys s (entry_ptr t i) AND PRESENT = 0")
  case True
  then show ?thesis
    using assms fail grow by (auto simp: Let_def split: option.splits)
next
  case False
  let ?e = "phys s (entry_ptr t i)"
  have same: "put (entry_ptr t i) ?e s = s" by (simp add: put_def)
  show ?thesis
  proof (cases "user \<noteq> 0 \<and> ?e AND USER = 0")
    case True
    then show ?thesis
      using assms False down [of "?e OR USER"] by (simp add: Let_def or_USER or_USER_set USER_nonzero)
  next
    case no: False
    then show ?thesis
      using assms False down [of ?e s] same by (auto simp: Let_def)
  qed
qed

lemma walk_ok_put:
  assumes "walk_ok s t (i # is)" "frames_wf s" "phys s (entry_ptr t i) AND PRESENT \<noteq> 0"
    "e \<in> {phys s (entry_ptr t i), phys s (entry_ptr t i) OR USER}"
  shows "walk_ok (put (entry_ptr t i) e s) (e AND ADDRESS_MASK) is \<and>
    frames_wf (put (entry_ptr t i) e s) \<and> free_frames (put (entry_ptr t i) e s) = free_frames s \<and>
    t \<notin> set (path_tables (phys s) (e AND ADDRESS_MASK) is) \<and>
    path_tables (phys (put (entry_ptr t i) e s)) (e AND ADDRESS_MASK) is =
      path_tables (phys s) (phys s (entry_ptr t i) AND ADDRESS_MASK) is \<and>
    no_huge (phys (put (entry_ptr t i) e s)) (e AND ADDRESS_MASK) is =
      no_huge (phys s) (phys s (entry_ptr t i) AND ADDRESS_MASK) is"
proof -
  let ?s = "put (entry_ptr t i) e s" and ?t' = "phys s (entry_ptr t i) AND ADDRESS_MASK"
  have t': "e AND ADDRESS_MASK = ?t'" using assms(4) by (auto simp: or_USER)
  have w: "distinct (path_tables (phys s) ?t' is)" "t \<notin> set (path_tables (phys s) ?t' is)"
      "set (path_tables (phys s) ?t' is) \<inter> free_frames s = {}" "aligned t" "i < 512"
      "t \<notin> free_frames s" "\<forall>i \<in> set is. i < 512"
    using assms(1,3) by (auto simp: walk_ok_def Let_def)
  have other: "phys ?s a = phys s a" if "page_base a \<noteq> t" for a
    using that w(4,5) by auto
  have pt: "path_tables (phys ?s) ?t' is = path_tables (phys s) ?t' is \<and> no_huge (phys ?s) ?t' is = no_huge (phys s) ?t' is"
    by (rule path_tables_cong) (use w other in auto)
  have al: "\<forall>f \<in> free_frames s. aligned f" using assms(2) by (simp add: frames_wf_def)
  have "phys ?s f = phys s f" if "f \<in> free_frames s" for f
    using other [of f] w(6) that al by (metis page_base_aligned)
  then have "free_frames ?s = free_frames s \<and> frames_wf ?s = frames_wf s"
    by (intro free_frames_cong) simp_all
  then show ?thesis
    using assms(2) w pt by (simp add: t' walk_ok_def)
qed

lemma walk_ok_put_above:
  assumes "walk_ok s t (i # is)" "frames_wf s" "phys s (entry_ptr t i) AND PRESENT \<noteq> 0"
    "e \<in> {phys s (entry_ptr t i), phys s (entry_ptr t i) OR USER}"
  shows "t \<notin> set (path_tables (phys (put (entry_ptr t i) e s)) (e AND ADDRESS_MASK) is)"
    "t \<notin> free_frames (put (entry_ptr t i) e s)"
proof -
  let ?s1 = "put (entry_ptr t i) e s"
  have w: "t \<notin> set (path_tables (phys s) (e AND ADDRESS_MASK) is)" "free_frames ?s1 = free_frames s"
      "path_tables (phys ?s1) (e AND ADDRESS_MASK) is = path_tables (phys s) (phys s (entry_ptr t i) AND ADDRESS_MASK) is"
    using walk_ok_put [OF assms] by blast+
  have "e AND ADDRESS_MASK = phys s (entry_ptr t i) AND ADDRESS_MASK"
    using assms(4) or_USER(1) [of "phys s (entry_ptr t i)"] by auto
  then show "t \<notin> set (path_tables (phys ?s1) (e AND ADDRESS_MASK) is)" using w(1,3) by simp
  show "t \<notin> free_frames ?s1"
    using assms(1) path_tables_head [of t "phys s" "i # is"] w(2) by (auto simp: walk_ok_def)
qed

lemma walk_ok_grow:
  assumes "walk_ok s t (i # is)" "frames_wf s" "frame_allocate s = Some (new, s1)" "phys s (entry_ptr t i) AND PRESENT = 0"
    "s2 = put (entry_ptr t i) v (zero_page new s1)"
  shows "walk_ok s2 new is \<and> frames_wf s2 \<and> free_frames s2 = free_frames s - {new} \<and>
    set (path_tables (phys s2) new is) = {new} \<and> new \<in> free_frames s \<and> new \<noteq> t \<and> no_huge (phys s2) new is \<and>
    (\<forall>a. page_base a \<noteq> t \<longrightarrow> page_base a \<noteq> new \<longrightarrow> phys s2 a = phys s a) \<and> phys s2 (entry_ptr t i) = v"
proof -
  note al = frame_allocate_Some [OF assms(2,3)]
  have w: "t \<notin> free_frames s" "aligned t" "i < 512" "\<forall>i \<in> set is. i < 512"
    using assms(1) path_tables_head [of t "phys s" "i # is"] by (auto simp: walk_ok_def)
  have nt: "new \<noteq> t" using al w(1) by auto
  have an: "aligned new" using al assms(2) by (auto simp: frames_wf_def)
  have ph: "phys s2 a = (if a = entry_ptr t i then v else if page_base a = new then 0 else phys s a)" for a
    using al by (simp add: assms(5))
  have zero: "phys s2 (entry_ptr new j) = 0" if "j < 512" for j
    using ph [of "entry_ptr new j"] an that nt w(2,3) by (metis page_base_entry)
  have pt: "path_tables (phys s2) new is = [new] \<and> no_huge (phys s2) new is"
    using w(4) zero by (cases "is") (auto simp: Let_def)
  have fs1: "free_frames s1 = free_frames s - {new}" "frames_wf s1" "phys s1 = phys s" using al by simp_all
  have "phys s2 f = phys s1 f" if "f \<in> free_frames s1" for f
  proof -
    have "aligned f" "f \<noteq> new" "f \<noteq> t" using that fs1 assms(2) w(1) by (auto simp: frames_wf_def)
    then show ?thesis
      using ph [of f] fs1(3) w(2,3) page_base_entry [of t i] page_base_aligned [of f] by auto
  qed
  then have "free_frames s2 = free_frames s1 \<and> frames_wf s2 = frames_wf s1"
    by (intro free_frames_cong) (simp_all add: assms(5))
  then show ?thesis
    using fs1 al pt an w(2-4) nt ph page_base_entry [of t i] by (auto simp: walk_ok_def)
qed

text \<open>The tables whose entries a walk reads.\<close>

fun read_tables :: "(u64 \<Rightarrow> u64) \<Rightarrow> u64 \<Rightarrow> nat list \<Rightarrow> u64 list" where
  "read_tables m t [] = []"
| "read_tables m t (i # is) =
     t # (let e = m (entry_ptr t i) in if e AND PRESENT \<noteq> 0 then read_tables m (e AND ADDRESS_MASK) is else [])"

lemma walk3_cong:
  assumes "\<forall>i \<in> set is. i < 512" "aligned t"
    "\<forall>a. page_base a \<in> set (read_tables (phys s) t is) \<longrightarrow> phys s' a = phys s a"
  shows "walk3 b s' t is = walk3 b s t is"
  using assms
proof (induction "is" arbitrary: t)
  case (Cons i "is")
  have e: "phys s' (entry_ptr t i) = phys s (entry_ptr t i)" using Cons.prems by simp
  show ?case
  proof (cases "phys s (entry_ptr t i) AND PRESENT = 0")
    case False
    then have "walk3 b s' (phys s (entry_ptr t i) AND ADDRESS_MASK) is = walk3 b s (phys s (entry_ptr t i) AND ADDRESS_MASK) is"
      using Cons.prems by (intro Cons.IH) (auto simp: Let_def)
    then show ?thesis using e by (simp add: Let_def)
  qed (simp add: e Let_def)
qed simp

text \<open>
  What creating the missing tables of a path achieves: the path is complete and leads to the table
  returned, only pages of the path and free frames have changed, and an entry that was present
  has at most gained the user bit.
\<close>

definition grown :: "Memory \<Rightarrow> u64 \<Rightarrow> nat list \<Rightarrow> Memory \<Rightarrow> bool" where
  "grown s t is s' \<longleftrightarrow> frames_wf s' \<and> free_frames s' \<subseteq> free_frames s \<and>
     (\<forall>a. page_base a \<notin> set (path_tables (phys s) t is) \<union> free_frames s \<longrightarrow> phys s' a = phys s a) \<and>
     (\<forall>a. page_base a \<notin> free_frames s \<longrightarrow>
        phys s' a = phys s a \<or> phys s a AND PRESENT = 0 \<or> phys s' a = phys s a OR USER)"

lemma map_levels_grown:
  "walk_ok s t is \<Longrightarrow> frames_wf s \<Longrightarrow> map_levels user is t s = (r, s') \<Longrightarrow> grown s t is s'"
proof (induction "is" arbitrary: t s)
  case Nil
  then show ?case by (simp add: grown_def)
next
  case (Cons i "is")
  have t: "aligned t" "i < 512" "t \<notin> free_frames s"
    using Cons.prems(1) path_tables_head [of t "phys s" "i # is"] by (auto simp: walk_ok_def)
  from Cons.prems(3) show ?case
  proof (cases rule: map_levels_step)
    case (down s1 e)
    note w = walk_ok_put [OF Cons.prems(1,2) down(1,2), folded down(3)]
    have g: "grown s1 (e AND ADDRESS_MASK) is s'" using Cons.IH w down(4) by blast
    have ph: "phys s1 a = (if a = entry_ptr t i then e else phys s a)" for a by (simp add: down(3))
    have sub: "set (path_tables (phys s1) (e AND ADDRESS_MASK) is) \<subseteq> set (path_tables (phys s) t (i # is))"
      using w down(1) by (auto simp: Let_def)
    show ?thesis
      unfolding grown_def
    proof (intro conjI allI impI)
      fix a assume "page_base a \<notin> set (path_tables (phys s) t (i # is)) \<union> free_frames s"
      then have "phys s' a = phys s1 a" "page_base a \<noteq> t" using g sub w by (auto simp: grown_def)
      then show "phys s' a = phys s a" using ph [of a] t by auto
    next
      fix a assume a: "page_base a \<notin> free_frames s"
      then have "phys s' a = phys s1 a \<or> phys s1 a AND PRESENT = 0 \<or> phys s' a = phys s1 a OR USER"
        using g w by (auto simp: grown_def)
      then show "phys s' a = phys s a \<or> phys s a AND PRESENT = 0 \<or> phys s' a = phys s a OR USER"
        using ph [of a] down(1,2,5) by (cases "a = entry_ptr t i") auto
    qed (use g w in \<open>auto simp: grown_def\<close>)
  next
    case fail
    then show ?thesis using Cons.prems(2) by (simp add: grown_def)
  next
    case (grow new s1)
    note w = walk_ok_grow [OF Cons.prems(1,2) grow(2,1) refl, of "new OR PRESENT OR WRITABLE OR user"]
    let ?s2 = "put (entry_ptr t i) (new OR PRESENT OR WRITABLE OR user) (zero_page new s1)"
    have g: "grown ?s2 new is s'" using Cons.IH w grow(3) by blast
    have "page_base a \<notin> free_frames s \<Longrightarrow> phys s' a = phys ?s2 a" for a
      using g w by (auto simp: grown_def)
    moreover have "phys ?s2 a = phys s a \<or> a = entry_ptr t i" if "page_base a \<notin> free_frames s" for a
      using that w frame_allocate_Some [OF Cons.prems(2) grow(2)] by auto
    ultimately have ph: "phys s' a = phys s a \<or> a = entry_ptr t i" if "page_base a \<notin> free_frames s" for a
      using that by metis
    have "page_base (entry_ptr t i) \<in> set (path_tables (phys s) t (i # is))" using t by simp
    then show ?thesis
      unfolding grown_def using g w ph grow(1) by (auto simp: grown_def)
  qed
qed

text \<open>The entry a level of the walk leaves behind is not touched by the levels below it.\<close>

lemma map_levels_down:
  assumes "walk_ok s t (i # is)" "frames_wf s" "phys s (entry_ptr t i) AND PRESENT \<noteq> 0"
    "e \<in> {phys s (entry_ptr t i), phys s (entry_ptr t i) OR USER}"
    "s1 = put (entry_ptr t i) e s" "map_levels user is (e AND ADDRESS_MASK) s1 = (r, s')"
  shows "phys s' (entry_ptr t i) = e"
proof -
  note w = walk_ok_put [OF assms(1-4), folded assms(5)]
  have t: "aligned t" "i < 512" "t \<notin> free_frames s"
    using assms(1) path_tables_head [of t "phys s" "i # is"] by (auto simp: walk_ok_def)
  have w1: "walk_ok s1 (e AND ADDRESS_MASK) is" "frames_wf s1" using w by blast+
  have g: "grown s1 (e AND ADDRESS_MASK) is s'" by (rule map_levels_grown [OF w1 assms(6)])
  have "t \<notin> set (path_tables (phys s1) (e AND ADDRESS_MASK) is)" "t \<notin> free_frames s1"
    using walk_ok_put_above [OF assms(1-4), folded assms(5)] by blast+
  then have "phys s' (entry_ptr t i) = phys s1 (entry_ptr t i)" using g t by (simp add: grown_def)
  then show ?thesis by (simp add: assms(5))
qed

lemma map_levels_new:
  assumes "walk_ok s t (i # is)" "frames_wf s" "phys s (entry_ptr t i) AND PRESENT = 0"
    "frame_allocate s = Some (new, s1)" "s2 = put (entry_ptr t i) v (zero_page new s1)"
    "map_levels user is new s2 = (r, s')"
  shows "phys s' (entry_ptr t i) = v"
proof -
  note w = walk_ok_grow [OF assms(1,2,4,3,5)]
  have t: "aligned t" "i < 512" "t \<notin> free_frames s"
    using assms(1) path_tables_head [of t "phys s" "i # is"] by (auto simp: walk_ok_def)
  have w2: "walk_ok s2 new is" "frames_wf s2" using w by blast+
  have g: "grown s2 new is s'" by (rule map_levels_grown [OF w2 assms(6)])
  have fr: "free_frames s2 \<subseteq> free_frames s" "new \<noteq> t" "set (path_tables (phys s2) new is) = {new}"
    using w by blast+
  have "page_base (entry_ptr t i) \<notin> set (path_tables (phys s2) new is) \<union> free_frames s2"
    unfolding fr(3) page_base_entry [OF t(1,2)] using fr(1,2) t(3) by blast
  with g have "phys s' (entry_ptr t i) = phys s2 (entry_ptr t i)" unfolding grown_def by blast
  then show ?thesis by (simp add: assms(5))
qed

lemma map_levels_leaf:
  "walk_ok s t is \<Longrightarrow> frames_wf s \<Longrightarrow> frames_encodable s \<Longrightarrow> no_huge (phys s) t is \<Longrightarrow> user \<in> {0, USER} \<Longrightarrow>
   map_levels user is t s = (Inr leaf, s') \<Longrightarrow>
   walk3 True s' t is = Some leaf \<and> aligned leaf \<and> leaf \<notin> set (read_tables (phys s') t is) \<and>
   leaf \<notin> free_frames s' \<and> leaf \<in> set (path_tables (phys s) t is) \<union> free_frames s"
proof (induction "is" arbitrary: t s)
  case Nil
  then show ?case by (simp add: walk_ok_def)
next
  case (Cons i "is")
  have t: "aligned t" "i < 512" "t \<notin> free_frames s"
    using Cons.prems(1) path_tables_head [of t "phys s" "i # is"] by (auto simp: walk_ok_def)
  from Cons.prems(6) show ?case
  proof (cases rule: map_levels_step)
    case (down s1 e)
    note w = walk_ok_put [OF Cons.prems(1,2) down(1,2), folded down(3)]
    have nh: "no_huge (phys s1) (e AND ADDRESS_MASK) is" "e AND HUGE = 0"
      using Cons.prems(4) down(1,2) w or_USER(3) by (auto simp: Let_def)
    have enc: "frames_encodable s1" using Cons.prems(3) w by (simp add: frames_encodable_def)
    have ih: "walk3 True s' (e AND ADDRESS_MASK) is = Some leaf" "aligned leaf"
        "leaf \<notin> set (read_tables (phys s') (e AND ADDRESS_MASK) is)" "leaf \<notin> free_frames s'"
        "leaf \<in> set (path_tables (phys s1) (e AND ADDRESS_MASK) is) \<union> free_frames s1"
      using Cons.IH [OF _ _ enc nh(1) Cons.prems(5) down(4)] w by blast+
    have tn: "t \<notin> set (path_tables (phys s1) (e AND ADDRESS_MASK) is)" "t \<notin> free_frames s1"
      using walk_ok_put_above [OF Cons.prems(1,2) down(1,2), folded down(3)] by blast+
    have e: "phys s' (entry_ptr t i) = e" by (rule map_levels_down [OF Cons.prems(1,2) down(1-4)])
    have "leaf \<noteq> t" using ih(5) tn by auto
    then show ?thesis
      using ih e nh(2) down(1,5) w by (auto simp: Let_def)
  next
    case (grow new s1)
    let ?v = "new OR PRESENT OR WRITABLE OR user"
    let ?s2 = "put (entry_ptr t i) ?v (zero_page new s1)"
    note w = walk_ok_grow [OF Cons.prems(1,2) grow(2,1) refl, of ?v]
    have "new AND ADDRESS_MASK = new" using w Cons.prems(3) by (auto simp: frames_encodable_def)
    note v = target_new [OF this Cons.prems(5)]
    have enc: "frames_encodable ?s2" using Cons.prems(3) w by (auto simp: frames_encodable_def)
    have w2: "walk_ok ?s2 new is" "frames_wf ?s2" "no_huge (phys ?s2) new is"
        "set (path_tables (phys ?s2) new is) = {new}"
      using w by blast+
    have ih: "walk3 True s' new is = Some leaf" "aligned leaf"
        "leaf \<notin> set (read_tables (phys s') new is)" "leaf \<notin> free_frames s'"
        "leaf \<in> {new} \<union> free_frames ?s2"
      using Cons.IH [OF w2(1,2) enc w2(3) Cons.prems(5) grow(3)] unfolding w2(4) by blast+
    have fr: "new \<in> free_frames s" "free_frames ?s2 \<subseteq> free_frames s" using w by blast+
    have e: "phys s' (entry_ptr t i) = ?v" by (rule map_levels_new [OF Cons.prems(1,2) grow(1,2) refl grow(3)])
    have "leaf \<noteq> t" "leaf \<in> free_frames s" using ih(5) fr t(3) by auto
    moreover have "walk3 True s' t (i # is) = Some leaf" using e v ih(1) by (simp only: walk3.simps Let_def) simp
    moreover have "set (read_tables (phys s') t (i # is)) = insert t (set (read_tables (phys s') new is))"
      using e v by (simp only: read_tables.simps Let_def) simp
    ultimately show ?thesis using ih(2-4) by simp
  qed (use Cons.prems in auto)
qed

lemma indexes_split: "indexes a = take 3 (indexes a) @ [indexes a ! 3]" "length (take 3 (indexes a)) = 3"
  by (simp_all add: indexes_def)

lemma indexes_bound: "\<forall>i \<in> set (take 3 (indexes a)). i < 512" "indexes a ! 3 < 512"
proof -
  show "\<forall>i \<in> set (take 3 (indexes a)). i < 512" using indexes_less [of _ a] by (meson in_set_takeD)
  show "indexes a ! 3 < 512" by (rule indexes_less [of _ a]) (simp add: indexes_def)
qed

text \<open>A walk that met three present tables ends at the leaf entry.\<close>

lemma translate_walk_leaf:
  assumes "walk3 True s t is = Some leaf" "level + length is = 3"
  shows "map_option fst (translate_walk s va level (is @ [i]) t es) =
    (let e = phys s (entry_ptr leaf i) in if e AND PRESENT = 0 then None else Some ((e AND ADDRESS_MASK) + (va AND 0xFFF)))"
  using assms
proof (induction "is" arbitrary: t level es)
  case (Cons j js)
  let ?e = "phys s (entry_ptr t j)"
  have e: "?e AND PRESENT \<noteq> 0" "?e AND HUGE = 0" "walk3 True s (?e AND ADDRESS_MASK) js = Some leaf"
    using Cons.prems(1) by (auto simp: Let_def split: if_splits)
  have "(level + 1) + length js = 3" using Cons.prems(2) by simp
  note ih = Cons.IH [OF e(3) this, of "es @ [?e]"]
  show ?case using e ih by (simp add: Let_def)
qed (simp add: Let_def)

text \<open>The entries above the leaf that the walk reads.\<close>

fun walk_entries :: "(u64 \<Rightarrow> u64) \<Rightarrow> u64 \<Rightarrow> nat list \<Rightarrow> u64 list" where
  "walk_entries m t [] = []"
| "walk_entries m t (i # is) = m (entry_ptr t i) # walk_entries m (m (entry_ptr t i) AND ADDRESS_MASK) is"

lemma length_walk_entries: "length (walk_entries m t is) = length is"
  by (induction "is" arbitrary: t) simp_all

lemma walk_entries_present: "walk3 b s t is = Some leaf \<Longrightarrow> \<forall>e \<in> set (walk_entries (phys s) t is). e AND PRESENT \<noteq> 0"
  by (induction "is" arbitrary: t) (auto simp: Let_def split: if_splits)

lemma translate_entries_leaf:
  assumes "walk3 True s t is = Some leaf" "level + length is = 3" "phys s (entry_ptr leaf i) AND PRESENT \<noteq> 0"
  shows "translate_walk s va level (is @ [i]) t es =
    Some ((phys s (entry_ptr leaf i) AND ADDRESS_MASK) + (va AND 0xFFF), es @ walk_entries (phys s) t is @ [phys s (entry_ptr leaf i)])"
  using assms(1,2)
proof (induction "is" arbitrary: t level es)
  case Nil
  then show ?case using assms(3) by (simp add: Let_def)
next
  case (Cons j js)
  let ?e = "phys s (entry_ptr t j)"
  have e: "?e AND PRESENT \<noteq> 0" "?e AND HUGE = 0" "walk3 True s (?e AND ADDRESS_MASK) js = Some leaf"
    using Cons.prems(1) by (auto simp: Let_def split: if_splits)
  have "(level + 1) + length js = 3" using Cons.prems(2) by simp
  note ih = Cons.IH [OF e(3) this, of "es @ [?e]"]
  show ?case using e ih by (simp add: Let_def)
qed

lemma translate_in_leaf:
  assumes "walk3 True s root (take 3 (indexes va)) = Some leaf"
    "phys s (entry_ptr leaf (indexes va ! 3)) AND PRESENT \<noteq> 0"
  shows "\<exists>es. translate_in root va s =
    Some ((phys s (entry_ptr leaf (indexes va ! 3)) AND ADDRESS_MASK) + (va AND 0xFFF), es)"
proof -
  have "map_option fst (translate_in root va s) =
      Some ((phys s (entry_ptr leaf (indexes va ! 3)) AND ADDRESS_MASK) + (va AND 0xFFF))"
    unfolding translate_in_def using translate_walk_leaf [OF assms(1), of 0 va "indexes va ! 3" "[]"] assms(2) indexes_split
    by (simp add: Let_def)
  then show ?thesis by auto
qed

lemma map_page_in_Inr:
  assumes "map_page_in root va frame flags s = (Inr u, s')"
  obtains leaf s1 where "map_levels (flags AND USER) (take 3 (indexes va)) root s = (Inr leaf, s1)"
    "phys s1 (entry_ptr leaf (indexes va ! 3)) AND PRESENT = 0"
    "phys s' = (phys s1)(entry_ptr leaf (indexes va ! 3) := (frame AND ADDRESS_MASK) OR flags OR PRESENT)"
    "fa_head s' = fa_head s1" "fa_free s' = fa_free s1"
  using assms unfolding map_page_in_def
  by (auto simp: Let_def put_def split: prod.splits sum.splits if_splits)

lemma map_page_in_Inl:
  assumes "map_page_in root va frame flags s = (Inl e, s')"
  obtains r where "map_levels (flags AND USER) (take 3 (indexes va)) root s = (r, s')"
  using assms unfolding map_page_in_def
  by (auto simp: Let_def split: prod.splits sum.splits if_splits)

lemma user_flag_cases: "flags AND USER \<in> {0, USER}"
proof -
  have "flags AND USER = (if bit flags 2 then USER else 0)"
    by (intro bit_eqI) (auto simp: bit_simps)
  then show ?thesis by simp
qed

lemma leaf_word:
  assumes "flags AND ADDRESS_MASK = 0"
  shows "((frame AND ADDRESS_MASK) OR flags OR PRESENT) AND ADDRESS_MASK = frame AND ADDRESS_MASK"
    "((frame AND ADDRESS_MASK) OR flags OR PRESENT) AND PRESENT \<noteq> 0"
proof -
  have b: "\<not> (bit flags n \<and> 12 \<le> n \<and> n < 52)" for n
    using assms bit_and_iff [of flags ADDRESS_MASK n] by simp
  show "((frame AND ADDRESS_MASK) OR flags OR PRESENT) AND ADDRESS_MASK = frame AND ADDRESS_MASK"
    using b by (intro bit_eqI) (auto simp: bit_simps)
  show "((frame AND ADDRESS_MASK) OR flags OR PRESENT) AND PRESENT \<noteq> 0"
    unfolding flag_test by (simp add: bit_simps)
qed

text \<open>Everything the mapping of a page relies on.\<close>

definition mappable :: "Memory \<Rightarrow> u64 \<Rightarrow> u64 \<Rightarrow> bool" where
  "mappable s root va \<longleftrightarrow> frames_wf s \<and> frames_encodable s \<and> walk_ok s root (take 3 (indexes va)) \<and>
     no_huge (phys s) root (take 3 (indexes va))"

lemma map_page_in_leaf:
  assumes "mappable s root va" "map_page_in root va frame flags s = (Inr u, s')"
  shows "\<exists>leaf. walk3 True s' root (take 3 (indexes va)) = Some leaf \<and> aligned leaf \<and> leaf \<notin> free_frames s' \<and>
    phys s' (entry_ptr leaf (indexes va ! 3)) = (frame AND ADDRESS_MASK) OR flags OR PRESENT"
proof -
  obtain leaf s1 where m: "map_levels (flags AND USER) (take 3 (indexes va)) root s = (Inr leaf, s1)"
      "phys s' = (phys s1)(entry_ptr leaf (indexes va ! 3) := (frame AND ADDRESS_MASK) OR flags OR PRESENT)"
      "fa_head s' = fa_head s1" "fa_free s' = fa_free s1"
    using map_page_in_Inr [OF assms(2)] by metis
  have w: "frames_wf s" "frames_encodable s" "walk_ok s root (take 3 (indexes va))"
      "no_huge (phys s) root (take 3 (indexes va))"
    using assms(1) by (simp_all add: mappable_def)
  note l = map_levels_leaf [OF w(3,1,2,4) user_flag_cases m(1)]
  have l': "walk3 True s1 root (take 3 (indexes va)) = Some leaf" "aligned leaf"
      "leaf \<notin> set (read_tables (phys s1) root (take 3 (indexes va)))" "leaf \<notin> free_frames s1"
    using l by blast+
  have "walk3 True s' root (take 3 (indexes va)) = walk3 True s1 root (take 3 (indexes va))"
  proof (rule walk3_cong)
    show "aligned root" using w(3) by (simp add: walk_ok_def)
    show "\<forall>a. page_base a \<in> set (read_tables (phys s1) root (take 3 (indexes va))) \<longrightarrow> phys s' a = phys s1 a"
      using l'(2,3) page_base_entry [OF l'(2) indexes_bound(2)] by (auto simp: m(2))
  qed (rule indexes_bound)
  moreover have "free_frames s' = free_frames s1"
  proof -
    have "frames_wf s1" using map_levels_grown [OF w(3,1) m(1)] by (simp add: grown_def)
    then have "\<forall>f \<in> free_frames s1. aligned f" by (simp add: frames_wf_def)
    then have "entry_ptr leaf (indexes va ! 3) \<notin> free_frames s1"
      using l'(4) page_base_entry [OF l'(2) indexes_bound(2)] page_base_aligned by metis
    then have "\<forall>f \<in> free_frames s1. phys s' f = phys s1 f" by (auto simp: m(2))
    then show ?thesis using free_frames_cong m(3,4) by blast
  qed
  ultimately show ?thesis using l' by (auto simp: m(2))
qed

text \<open>The tables whose entries the CPU's walk for an address reads.\<close>

fun seen_tables :: "(u64 \<Rightarrow> u64) \<Rightarrow> nat \<Rightarrow> u64 \<Rightarrow> nat list \<Rightarrow> u64 list" where
  "seen_tables m level t [] = []"
| "seen_tables m level t (i # is) =
     t # (let e = m (entry_ptr t i)
          in if e AND PRESENT \<noteq> 0 \<and> \<not> (level < 3 \<and> e AND HUGE \<noteq> 0) then seen_tables m (level + 1) (e AND ADDRESS_MASK) is
             else [])"

text \<open>Entries that were present, outside free frames, at most gained the user bit.\<close>

definition keeps_entries :: "Memory \<Rightarrow> Memory \<Rightarrow> bool" where
  "keeps_entries s s' \<longleftrightarrow> (\<forall>a. page_base a \<notin> free_frames s \<longrightarrow> phys s a AND PRESENT \<noteq> 0 \<longrightarrow>
     phys s' a = phys s a \<or> phys s' a = phys s a OR USER)"

lemma keeps_entries_translate:
  assumes "keeps_entries s s'" "aligned t" "\<forall>i \<in> set is. i < 512"
    "set (seen_tables (phys s) level t is) \<inter> free_frames s = {}"
    "translate_walk s va level is t es = Some (pa, es1)"
  shows "\<exists>es2. translate_walk s' va level is t es' = Some (pa, es2)"
  using assms(2-)
proof (induction "is" arbitrary: level t es es')
  case (Cons i "is")
  let ?e = "phys s (entry_ptr t i)" and ?e' = "phys s' (entry_ptr t i)"
  have p: "?e AND PRESENT \<noteq> 0" using Cons.prems(4) by (auto simp: Let_def split: if_splits)
  have "page_base (entry_ptr t i) \<notin> free_frames s" using Cons.prems(1-3) by simp
  then have e': "?e' = ?e \<or> ?e' = ?e OR USER" using assms(1) p by (simp add: keeps_entries_def)
  then have q: "?e' AND PRESENT \<noteq> 0" "(?e' AND HUGE = 0) = (?e AND HUGE = 0)" "?e' AND ADDRESS_MASK = ?e AND ADDRESS_MASK"
    using p or_USER [of ?e] by auto
  show ?case
  proof (cases "level < 3 \<and> ?e AND HUGE \<noteq> 0")
    case True
    then show ?thesis using Cons.prems(4) p q by (auto simp: Let_def)
  next
    case False
    have "\<exists>es2. translate_walk s' va (level + 1) is (?e AND ADDRESS_MASK) (es' @ [?e']) = Some (pa, es2)"
      by (rule Cons.IH) (use Cons.prems False p in \<open>auto simp: Let_def\<close>)
    then show ?thesis using False p q by (auto simp: Let_def)
  qed
qed simp

lemma map_page_keeps_entries:
  assumes "mappable s root va" "map_page_in root va frame flags s = (r, s')"
  shows "keeps_entries s s'"
proof -
  have w: "frames_wf s" "walk_ok s root (take 3 (indexes va))" using assms(1) by (simp_all add: mappable_def)
  show ?thesis
  proof (cases r)
    case (Inl e)
    then obtain r' where "map_levels (flags AND USER) (take 3 (indexes va)) root s = (r', s')"
      using map_page_in_Inl assms(2) by metis
    then have "grown s root (take 3 (indexes va)) s'" by (rule map_levels_grown [OF w(2,1)])
    then show ?thesis unfolding grown_def keeps_entries_def by blast
  next
    case (Inr u)
    then obtain leaf s1 where m: "map_levels (flags AND USER) (take 3 (indexes va)) root s = (Inr leaf, s1)"
        "phys s1 (entry_ptr leaf (indexes va ! 3)) AND PRESENT = 0"
        "phys s' = (phys s1)(entry_ptr leaf (indexes va ! 3) := (frame AND ADDRESS_MASK) OR flags OR PRESENT)"
      using map_page_in_Inr assms(2) by metis
    have g: "grown s root (take 3 (indexes va)) s1" by (rule map_levels_grown [OF w(2,1) m(1)])
    show ?thesis
      unfolding keeps_entries_def
    proof (intro allI impI)
      fix a assume a: "page_base a \<notin> free_frames s" "phys s a AND PRESENT \<noteq> 0"
      then have k: "phys s1 a = phys s a \<or> phys s1 a = phys s a OR USER" using g unfolding grown_def by blast
      then have "phys s1 a AND PRESENT \<noteq> 0" using a(2) or_USER(2) [of "phys s a"] by auto
      then show "phys s' a = phys s a \<or> phys s' a = phys s a OR USER" using k m(2) by (auto simp: m(3))
    qed
  qed
qed

text \<open>Mapping a user page opens every level of its path to ring 3.\<close>

fun user_path :: "(u64 \<Rightarrow> u64) \<Rightarrow> u64 \<Rightarrow> nat list \<Rightarrow> bool" where
  "user_path m t [] = True"
| "user_path m t (i # is) =
     (let e = m (entry_ptr t i) in e AND USER \<noteq> 0 \<and> user_path m (e AND ADDRESS_MASK) is)"

lemma user_path_entries: "user_path m t is \<longleftrightarrow> (\<forall>e \<in> set (walk_entries m t is). e AND USER \<noteq> 0)"
  by (induction "is" arbitrary: t) (auto simp: Let_def)

lemma map_levels_user:
  "walk_ok s t is \<Longrightarrow> frames_wf s \<Longrightarrow> frames_encodable s \<Longrightarrow> map_levels USER is t s = (Inr leaf, s') \<Longrightarrow>
   user_path (phys s') t is"
proof (induction "is" arbitrary: t s)
  case (Cons i "is")
  from Cons.prems(4) show ?case
  proof (cases rule: map_levels_step)
    case (down s1 e)
    note w = walk_ok_put [OF Cons.prems(1,2) down(1,2), folded down(3)]
    have enc: "frames_encodable s1" using Cons.prems(3) w by (simp add: frames_encodable_def)
    have "phys s' (entry_ptr t i) = e" by (rule map_levels_down [OF Cons.prems(1,2) down(1-4)])
    moreover have "user_path (phys s') (e AND ADDRESS_MASK) is" using Cons.IH [OF _ _ enc down(4)] w by blast
    moreover have "e AND USER \<noteq> 0" using down(6) by (simp add: flag_defs)
    ultimately show ?thesis by (simp add: Let_def)
  next
    case (grow new s1)
    let ?v = "new OR PRESENT OR WRITABLE OR USER"
    let ?s2 = "put (entry_ptr t i) ?v (zero_page new s1)"
    note w = walk_ok_grow [OF Cons.prems(1,2) grow(2,1) refl, of ?v]
    have f: "new \<in> free_frames s" "free_frames ?s2 \<subseteq> free_frames s" "walk_ok ?s2 new is" "frames_wf ?s2"
      using w by blast+
    have "new AND ADDRESS_MASK = new" "frames_encodable ?s2"
      using f Cons.prems(3) by (auto simp: frames_encodable_def)
    then have "?v AND ADDRESS_MASK = new" "user_path (phys s') new is"
      using target_new(1) [of new USER] Cons.IH [OF f(3,4) _ grow(3)] by blast+
    moreover have "?v AND USER \<noteq> 0" unfolding flag_test by (simp add: bit_simps)
    moreover have "phys s' (entry_ptr t i) = ?v"
      by (rule map_levels_new [OF Cons.prems(1,2) grow(1,2) refl grow(3)])
    ultimately show ?thesis by (simp only: user_path.simps Let_def) simp
  qed (use Cons.prems in auto)
qed simp

lemma user_path_cong:
  "walk3 b s t is = Some leaf \<Longrightarrow> \<forall>i \<in> set is. i < 512 \<Longrightarrow> aligned t \<Longrightarrow>
   \<forall>a. page_base a \<in> set (read_tables (phys s) t is) \<longrightarrow> m a = phys s a \<Longrightarrow> user_path m t is = user_path (phys s) t is"
proof (induction "is" arbitrary: t)
  case (Cons i "is")
  have e: "m (entry_ptr t i) = phys s (entry_ptr t i)" using Cons.prems by simp
  have "user_path m (phys s (entry_ptr t i) AND ADDRESS_MASK) is = user_path (phys s) (phys s (entry_ptr t i) AND ADDRESS_MASK) is"
    using Cons.prems by (intro Cons.IH) (auto simp: Let_def split: if_splits)
  then show ?case using e by (simp add: Let_def)
qed simp

lemma user_walk_path:
  "walk3 True s t is = Some leaf \<Longrightarrow> user_path (phys s) t is \<Longrightarrow>
   user_walk s level t (is @ [i]) = (phys s (entry_ptr leaf i) AND PRESENT \<noteq> 0 \<and> phys s (entry_ptr leaf i) AND USER \<noteq> 0)"
  by (induction "is" arbitrary: t level) (auto simp: Let_def split: if_splits)

lemma map_page_user_path:
  assumes "mappable s root va" "flags AND USER \<noteq> 0" "map_page_in root va frame flags s = (Inr u, s')"
  shows "user_path (phys s') root (take 3 (indexes va))"
proof -
  obtain leaf s1 where m: "map_levels (flags AND USER) (take 3 (indexes va)) root s = (Inr leaf, s1)"
      "phys s' = (phys s1)(entry_ptr leaf (indexes va ! 3) := (frame AND ADDRESS_MASK) OR flags OR PRESENT)"
    using map_page_in_Inr [OF assms(3)] by metis
  have u: "flags AND USER = USER" using user_flag_cases [of flags] assms(2) by simp
  have w: "frames_wf s" "frames_encodable s" "walk_ok s root (take 3 (indexes va))"
      "no_huge (phys s) root (take 3 (indexes va))"
    using assms(1) by (simp_all add: mappable_def)
  have l: "walk3 True s1 root (take 3 (indexes va)) = Some leaf" "aligned leaf"
      "leaf \<notin> set (read_tables (phys s1) root (take 3 (indexes va)))"
    using map_levels_leaf [OF w(3,1,2,4) user_flag_cases m(1)] by blast+
  have "user_path (phys s') root (take 3 (indexes va)) = user_path (phys s1) root (take 3 (indexes va))"
  proof (rule user_path_cong [OF l(1) indexes_bound(1)])
    show "aligned root" using w(3) by (simp add: walk_ok_def)
    show "\<forall>a. page_base a \<in> set (read_tables (phys s1) root (take 3 (indexes va))) \<longrightarrow> phys s' a = phys s1 a"
      using l(2,3) page_base_entry [OF l(2) indexes_bound(2)] by (auto simp: m(2))
  qed
  then show ?thesis using map_levels_user [OF w(3,1,2) m(1) [unfolded u]] by simp
qed

lemma map_page_user:
  assumes "mappable s root va" "flags AND USER \<noteq> 0" "map_page_in root va frame flags s = (Inr u, s')"
  shows "user_walk s' 0 root (indexes va)"
proof -
  obtain leaf where l: "walk3 True s' root (take 3 (indexes va)) = Some leaf"
      "phys s' (entry_ptr leaf (indexes va ! 3)) = (frame AND ADDRESS_MASK) OR flags OR PRESENT"
    using map_page_in_leaf [OF assms(1,3)] by blast
  have "bit flags 2" using assms(2) flag_test(3) by blast
  then have "(frame AND ADDRESS_MASK OR flags OR PRESENT) AND USER \<noteq> 0"
      "(frame AND ADDRESS_MASK OR flags OR PRESENT) AND PRESENT \<noteq> 0"
    unfolding flag_test by (simp_all add: bit_simps)
  then show ?thesis
    using user_walk_path [OF l(1) map_page_user_path [OF assms], of 0 "indexes va ! 3"] l(2) indexes_split(1) [of va] by simp
qed

section \<open>Checking a user pointer\<close>

text \<open>
  The walk of the check against the walk that resolves an address: the entries read on the way, which a
  walk that ends early at a large page fills up with zeros, all have to let ring 3 through.
\<close>

definition ring3 :: "u64 \<Rightarrow> bool" where
  "ring3 e \<longleftrightarrow> e = 0 \<or> e AND USER \<noteq> 0"

lemma user_walk_translate:
  assumes "\<forall>e \<in> set es. ring3 e"
  shows "user_walk s level t is \<longleftrightarrow> (\<exists>pa es'. translate_walk s va level is t es = Some (pa, es') \<and> (\<forall>e \<in> set es'. ring3 e))"
  using assms
proof (induction "is" arbitrary: t level es)
  case (Cons i "is")
  let ?e = "phys s (entry_ptr t i)"
  have prefix: "set es0 \<subseteq> set es'" if "translate_walk s va l js u es0 = Some (pa, es')" for l js u es0 pa es'
    using that by (induction js arbitrary: l u es0) (fastforce simp: Let_def split: if_splits)+
  consider "?e AND PRESENT = 0" | "?e AND PRESENT \<noteq> 0" "?e AND USER = 0" | "?e AND PRESENT \<noteq> 0" "?e AND USER \<noteq> 0" by blast
  then show ?case
  proof cases
    case 2
    then have n: "\<not> ring3 ?e" by (auto simp: ring3_def)
    then have "\<not> (\<forall>e \<in> set es'. ring3 e)" if "translate_walk s va level (i # is) t es = Some (pa, es')" for pa es'
      using that 2 prefix [of "Suc level" "is" "?e AND ADDRESS_MASK" "es @ [?e]" pa es'] by (auto simp: Let_def split: if_splits)
    then show ?thesis using 2 by (auto simp: Let_def)
  next
    case 3
    then have r: "\<forall>e \<in> set (es @ [?e]). ring3 e" using Cons.prems by (auto simp: ring3_def)
    show ?thesis using 3 Cons.IH [OF r, of "Suc level" "?e AND ADDRESS_MASK"] r by (auto simp: Let_def ring3_def)
  qed (simp add: Let_def)
qed simp

lemma user_walk_ring3:
  "user_walk s 0 (cr3 s) (indexes a) \<longleftrightarrow> (\<exists>pa es. translate_active a s = Some (pa, es) \<and> (\<forall>e \<in> set es. ring3 e))"
  unfolding translate_active_def translate_in_def by (rule user_walk_translate) simp

lemma unat_offset: "unat (a AND 0xFFF :: u64) = unat a mod 4096"
proof -
  have "unat (take_bit 12 a) = unat a mod 2 ^ 12"
    unfolding unsigned_take_bit_eq by (simp only: take_bit_eq_mod)
  then show ?thesis by (simp only: low_mask take_bit_eq_mask) simp
qed

lemma aligned_dvd: "aligned a \<longleftrightarrow> 4096 dvd unat a"
  unfolding aligned_def by (metis dvd_eq_mod_eq_0 unat_eq_zero unat_offset)

lemma page_base_offset: "page_base a = a - (a AND 0xFFF)"
proof -
  have "page_base a AND (a AND mask 12) = 0"
    by (intro bit_eqI) (auto simp: bit_simps bit_page_base)
  then have "page_base a + (a AND mask 12) = page_base a OR (a AND mask 12)"
    by (rule disjunctive_add_eq_or)
  also have "\<dots> = a"
    by (intro bit_eqI) (auto simp: bit_simps bit_page_base)
  finally show ?thesis by (simp only: low_mask) (metis add_diff_cancel_right')
qed

lemma unat_page_base: "unat (page_base a) = 4096 * (unat a div 4096)"
proof -
  have "a AND 0xFFF \<le> a" by (simp add: word_le_nat_alt unat_offset)
  then have "unat (page_base a) = unat a - unat a mod 4096"
    by (simp add: page_base_offset unat_sub unat_offset)
  then show ?thesis by (simp add: minus_mod_eq_mult_div)
qed

lemma indexes_page_base [simp]: "indexes (page_base a) = indexes a"
proof -
  have "drop_bit k (page_base a) AND 0x1FF = drop_bit k a AND 0x1FF" if "12 \<le> k" for k
    using that by (intro bit_eqI) (auto simp: bit_simps bit_page_base)
  then show ?thesis by (simp add: indexes_def)
qed

lemma aligned_step: "aligned p \<Longrightarrow> unat p + 4096 < 2 ^ 64 \<Longrightarrow> unat (p + 4096) = unat p + 4096 \<and> aligned (p + 4096)"
proof -
  assume a: "aligned p" "unat p + 4096 < 2 ^ 64"
  then have "unat (p + 4096) = unat p + 4096" by (subst unat_plus_if') simp
  then show ?thesis using a(1) by (simp add: aligned_dvd)
qed

lemma aligned_next:
  assumes "aligned p" "aligned f" "p \<le> f" "f \<noteq> p"
  shows "unat p + 4096 \<le> unat f"
proof -
  have "4096 dvd unat p" "4096 dvd unat f" using assms(1,2) by (simp_all add: aligned_dvd)
  then obtain j k where "unat p = 4096 * j" "unat f = 4096 * k" by (meson dvdE)
  moreover have "unat p < unat f" using assms(3,4) by (metis le_neq_implies_less unsigned_word_eqI word_le_nat_alt)
  ultimately show ?thesis by simp
qed

lemma user_pages_ok_correct:
  assumes "unat fin \<le> 2 ^ 64 - 4096" "aligned page"
  shows "user_pages_ok s page fin = Some (\<forall>p. aligned p \<and> page \<le> p \<and> p < fin \<longrightarrow> user_walk s 0 (cr3 s) (indexes p))"
  using assms(2)
proof (induction "unat fin - unat page" arbitrary: page rule: less_induct)
  case less
  note unf = user_pages_ok.simps [of s page fin]
  show ?case
  proof (cases "page < fin")
    case False
    then show ?thesis using unf by (auto simp: word_less_nat_alt word_le_nat_alt)
  next
    case True
    have "unat page + 4096 < 2 ^ 64" using True assms(1) by (simp add: word_less_nat_alt)
    note st = aligned_step [OF less.prems this]
    have n: "unat (page + 4096) = unat page + 4096" and al: "aligned (page + 4096)" using st by simp_all
    have next_page: "page + 4096 \<le> p" if "aligned p" "page \<le> p" "p \<noteq> page" for p
      using aligned_next [OF less.prems that] n by (simp add: word_le_nat_alt)
    have "user_pages_ok s (page + 4096) fin =
        Some (\<forall>p. aligned p \<and> page + 4096 \<le> p \<and> p < fin \<longrightarrow> user_walk s 0 (cr3 s) (indexes p))"
      using True n by (intro less.hyps [OF _ al]) (simp add: word_less_nat_alt)
    moreover have "page \<le> p" if "page + 4096 \<le> p" for p using that n by (simp add: word_le_nat_alt)
    ultimately show ?thesis
      using unf True less.prems next_page by (auto simp: word_le_nat_alt)
  qed
qed


lemma is_user_accessible_iff:
  assumes "unat address + unat len \<le> 2 ^ 64 - 4096"
  shows "is_user_accessible address len s =
    Some (\<forall>a. page_base address \<le> a \<and> unat a < unat address + unat len \<longrightarrow> user_walk s 0 (cr3 s) (indexes a))"
proof -
  have "unat address + unat len < 2 ^ LENGTH(64)" using assms by simp
  then have fin: "checked_add address len = Some (address + len)" by (simp only: checked_add_def if_True)
  note fin_unat = checked_add_unat [OF fin]
  have "(\<forall>p. aligned p \<and> page_base address \<le> p \<and> p < address + len \<longrightarrow> user_walk s 0 (cr3 s) (indexes p)) =
      (\<forall>a. page_base address \<le> a \<and> a < address + len \<longrightarrow> user_walk s 0 (cr3 s) (indexes a))"
  proof (intro iffI allI impI)
    fix a assume all: "\<forall>p. aligned p \<and> page_base address \<le> p \<and> p < address + len \<longrightarrow> user_walk s 0 (cr3 s) (indexes p)"
      and a: "page_base address \<le> a \<and> a < address + len"
    have "4096 * x \<le> y \<Longrightarrow> 4096 * x \<le> 4096 * (y div 4096)" for x y :: nat
      using div_le_mono [of "4096 * x" y 4096] by simp
    then have "unat (page_base address) \<le> unat (page_base a)"
      using a unfolding word_le_nat_alt unat_page_base by blast
    moreover have "unat (page_base a) \<le> unat a" by (simp add: unat_page_base)
    ultimately have "page_base address \<le> page_base a" "page_base a < address + len"
      using a by (auto simp: word_le_nat_alt word_less_nat_alt)
    then have "user_walk s 0 (cr3 s) (indexes (page_base a))" using all aligned_page_base by blast
    then show "user_walk s 0 (cr3 s) (indexes a)" by simp
  qed auto
  then show ?thesis
    using user_pages_ok_correct [of "address + len" "page_base address" s] assms fin fin_unat
    by (simp add: is_user_accessible_def word_less_nat_alt)
qed


text \<open>The walk looks at bits 12 to 47 only, and so does the check.\<close>

definition high_bit :: u64 where "high_bit = push_bit 62 1"

lemma bit_high: "bit high_bit n \<longleftrightarrow> n = 62"
  by (simp only: high_bit_def bit_single) auto

lemma unat_high: "unat high_bit = 2 ^ 62"
  by (simp add: high_bit_def)

lemma add_high_or: "unat x < 2 ^ 62 \<Longrightarrow> x + high_bit = x OR high_bit" for x :: u64
proof -
  assume x: "unat x < 2 ^ 62"
  have "\<not> bit (unat x) 62" using x by (simp add: bit_iff_odd)
  then have "\<not> bit x 62" by (simp add: bit_unsigned_iff)
  then have "x AND high_bit = 0" by (intro bit_eqI) (auto simp: bit_simps bit_high)
  then show ?thesis by (rule disjunctive_add_eq_or)
qed

lemma indexes_high: "unat x < 2 ^ 62 \<Longrightarrow> indexes (x + high_bit) = indexes x"
proof -
  assume x: "unat x < 2 ^ 62"
  have m: "(0x1FF :: u64) = mask 9" by (simp add: mask_eq_exp_minus_1)
  have "drop_bit k (x + high_bit) AND 0x1FF = drop_bit k x AND 0x1FF" if "k \<le> 39" for k
    unfolding add_high_or [OF x] m using that by (intro bit_eqI) (auto simp: bit_simps bit_high)
  then show ?thesis by (simp add: indexes_def)
qed

lemma unat_add_high: "unat x < 2 ^ 62 \<Longrightarrow> unat (x + high_bit) = unat x + 2 ^ 62"
  by (subst unat_plus_if') (simp add: unat_high)

section \<open>The free list at boot\<close>

definition whole_frames :: "u64 \<Rightarrow> u64 \<Rightarrow> u64 set" where
  "whole_frames start fin = {f. aligned f \<and> 0x100000 \<le> f \<and> start \<le> f \<and> unat f + 4096 \<le> unat fin}"

lemma whole_frames_step:
  assumes "aligned frame" "unat frame + 4096 \<le> unat fin" "unat fin + 4096 < 2 ^ 64"
  shows "whole_frames frame fin = (if 0x100000 \<le> frame then {frame} else {}) \<union> whole_frames (frame + 4096) fin"
    "frame \<notin> whole_frames (frame + 4096) fin"
proof -
  have n: "unat (frame + 4096) = unat frame + 4096" using aligned_step [OF assms(1)] assms(2,3) by simp
  show "whole_frames frame fin = (if 0x100000 \<le> frame then {frame} else {}) \<union> whole_frames (frame + 4096) fin"
  proof (intro set_eqI)
    fix f
    have "aligned f \<Longrightarrow> frame \<le> f \<longleftrightarrow> f = frame \<or> frame + 4096 \<le> f"
      using aligned_next [OF assms(1), of f] n by (auto simp: word_le_nat_alt)
    then show "f \<in> whole_frames frame fin \<longleftrightarrow> f \<in> (if 0x100000 \<le> frame then {frame} else {}) \<union> whole_frames (frame + 4096) fin"
      using assms by (auto simp: whole_frames_def)
  qed
  show "frame \<notin> whole_frames (frame + 4096) fin" using n by (auto simp: whole_frames_def word_le_nat_alt)
qed

lemma init_region_correct:
  assumes "unat fin + 4096 < 2 ^ 64" "aligned frame" "unat frame + 4096 < 2 ^ 64" "frames_wf s"
    "whole_frames frame fin \<inter> free_frames s = {}"
  shows "\<exists>s'. init_region frame fin s = Some s' \<and> frames_wf s' \<and>
    free_frames s' = free_frames s \<union> whole_frames frame fin \<and> fa_total s' + fa_free s = fa_total s + fa_free s'"
  using assms(2-)
proof (induction "unat fin - unat frame" arbitrary: frame s rule: less_induct)
  case less
  note unf = init_region.simps [of frame fin s]
  note st = aligned_step [OF less.prems(1,2)]
  show ?case
  proof (cases "unat frame + 4096 \<le> unat fin")
    case False
    then have "\<not> frame + 4096 \<le> fin" using st by (simp add: word_le_nat_alt)
    moreover have "whole_frames frame fin = {}" using False by (auto simp: whole_frames_def word_le_nat_alt)
    ultimately show ?thesis using unf less.prems by simp
  next
    case True
    let ?s1 = "if frame \<ge> 0x100000 then (frame_deallocate s frame)\<lparr> fa_total := fa_total s + 1 \<rparr> else s"
    note wf = whole_frames_step [OF less.prems(1) True assms(1)]
    have go: "init_region frame fin s = init_region (frame + 4096) fin ?s1"
      using unf True st by (simp add: word_le_nat_alt)
    have s1: "frames_wf ?s1 \<and> free_frames ?s1 = free_frames s \<union> (if 0x100000 \<le> frame then {frame} else {}) \<and>
        fa_total ?s1 + fa_free s = fa_total s + fa_free ?s1"
    proof (cases "0x100000 \<le> frame")
      case big: True
      have "legal_frame frame" using big less.prems(1) by (auto simp: legal_frame_def)
      moreover have "frame \<notin> free_frames s" using less.prems(4) wf(1) big by auto
      ultimately show ?thesis
        using frame_deallocate_pool [OF less.prems(3)] big
          free_frames_fields [of "(frame_deallocate s frame)\<lparr> fa_total := fa_total s + 1 \<rparr>" "frame_deallocate s frame"]
        by (auto simp: frame_deallocate_def)
    qed (use less.prems in auto)
    have "\<exists>s'. init_region (frame + 4096) fin ?s1 = Some s' \<and> frames_wf s' \<and>
      free_frames s' = free_frames ?s1 \<union> whole_frames (frame + 4096) fin \<and> fa_total s' + fa_free ?s1 = fa_total ?s1 + fa_free s'"
    proof (rule less.hyps)
      show "whole_frames (frame + 4096) fin \<inter> free_frames ?s1 = {}" using s1 less.prems(4) wf by auto
    qed (use True st s1 assms(1) in auto)
    then show ?thesis using go s1 wf(1) by auto
  qed
qed


text \<open>The regions of the memory map that \<open>init\<close> can handle: below the last two pages of the address space, and disjoint.\<close>

definition region_frames :: "MemoryRegion \<Rightarrow> u64 set" where
  "region_frames r = (if region_kind r = Usable
     then {f. aligned f \<and> 0x100000 \<le> f \<and> region_start r \<le> f \<and> unat f + 4096 \<le> unat (region_end r)} else {})"

definition region_ok :: "MemoryRegion \<Rightarrow> bool" where
  "region_ok r \<longleftrightarrow> unat (region_start r) + 8192 < 2 ^ 64 \<and> unat (region_end r) + 4096 < 2 ^ 64"

fun disjoint_regions :: "MemoryRegion list \<Rightarrow> bool" where
  "disjoint_regions [] = True"
| "disjoint_regions (r # rs) \<longleftrightarrow> (\<forall>r' \<in> set rs. region_frames r \<inter> region_frames r' = {}) \<and> disjoint_regions rs"

lemma region_frames_rounded:
  assumes "region_ok r" "region_kind r = Usable"
  shows "whole_frames ((region_start r + 4096 - 1) AND NOT (4096 - 1)) (region_end r AND NOT (4096 - 1)) = region_frames r"
    "unat ((region_start r + 4096 - 1) AND NOT (4096 - 1)) + 4096 < 2 ^ 64"
    "unat (region_end r AND NOT (4096 - 1)) + 4096 < 2 ^ 64"
proof -
  let ?a = "(region_start r + 4096 - 1) AND NOT (4096 - 1)" and ?b = "region_end r AND NOT (4096 - 1)"
  have "unat (region_start r + 4095) = unat (region_start r) + 4095"
    using assms(1) by (subst unat_plus_if') (simp add: region_ok_def)
  then have a: "unat ?a = 4096 * ((unat (region_start r) + 4095) div 4096)" and b: "unat ?b = 4096 * (unat (region_end r) div 4096)"
    using unat_page_base [of "region_start r + 4095"] unat_page_base [of "region_end r"] by (simp_all add: page_base_def add.commute)
  have up: "4096 * ((x + 4095) div 4096) \<le> 4096 * k \<longleftrightarrow> x \<le> 4096 * k" for x k :: nat
    using div_less_iff_less_mult [of 4096 "x + 4095" "Suc k"] by (simp add: less_Suc_eq_le mult.commute)
  have down: "4096 * k + 4096 \<le> 4096 * (x div 4096) \<longleftrightarrow> 4096 * k + 4096 \<le> x" for x k :: nat
  proof -
    have "Suc k \<le> x div 4096 \<longleftrightarrow> Suc k * 4096 \<le> x" by (rule less_eq_div_iff_mult_less_eq) simp
    moreover have "4096 * k + 4096 \<le> 4096 * (x div 4096) \<longleftrightarrow> Suc k \<le> x div 4096" by linarith
    ultimately show ?thesis by (simp add: ac_simps)
  qed
  have "aligned f \<Longrightarrow> (?a \<le> f \<longleftrightarrow> region_start r \<le> f) \<and> (unat f + 4096 \<le> unat ?b \<longleftrightarrow> unat f + 4096 \<le> unat (region_end r))" for f
    using up down unfolding aligned_dvd word_le_nat_alt a b by (metis dvdE)
  then show "whole_frames ?a ?b = region_frames r" using assms(2) by (auto simp: whole_frames_def region_frames_def)
  have "4096 * ((unat (region_start r) + 4095) div 4096) \<le> unat (region_start r) + 4095"
      "4096 * (unat (region_end r) div 4096) \<le> unat (region_end r)" by simp_all
  then show "unat ?a + 4096 < 2 ^ 64" "unat ?b + 4096 < 2 ^ 64"
    using assms(1) unfolding a b region_ok_def by linarith+
qed

lemma memory_init_correct:
  "\<forall>r \<in> set regions. region_ok r \<Longrightarrow> disjoint_regions regions \<Longrightarrow> frames_wf s \<Longrightarrow>
   (\<forall>r \<in> set regions. region_frames r \<inter> free_frames s = {}) \<Longrightarrow>
   \<exists>s'. memory_init regions s = Some s' \<and> frames_wf s' \<and>
     free_frames s' = free_frames s \<union> (\<Union>r \<in> set regions. region_frames r) \<and> fa_total s' + fa_free s = fa_total s + fa_free s'"
proof (induction regions arbitrary: s)
  case (Cons r regions)
  show ?case
  proof (cases "region_kind r = Usable")
    case True
    have ok: "region_ok r" using Cons.prems(1) by simp
    note rr = region_frames_rounded [OF ok True]
    have "aligned ((region_start r + 4096 - 1) AND NOT (4096 - 1))"
      using aligned_page_base [of "region_start r + 4096 - 1"] by (simp only: page_base_def)
    then obtain s1 where s1: "init_region ((region_start r + 4096 - 1) AND NOT (4096 - 1)) (region_end r AND NOT (4096 - 1)) s = Some s1"
        "frames_wf s1" "free_frames s1 = free_frames s \<union> region_frames r" "fa_total s1 + fa_free s = fa_total s + fa_free s1"
      using init_region_correct [OF rr(3) _ rr(2) Cons.prems(3), unfolded rr(1)] Cons.prems(4) by auto
    have "\<forall>r' \<in> set regions. region_frames r' \<inter> free_frames s1 = {}"
      using Cons.prems(2,4) s1(3) by (simp add: Int_Un_distrib Int_commute)
    then obtain s2 where "memory_init regions s1 = Some s2" "frames_wf s2"
        "free_frames s2 = free_frames s1 \<union> (\<Union>r \<in> set regions. region_frames r)" "fa_total s2 + fa_free s1 = fa_total s1 + fa_free s2"
      using Cons.IH [of s1] Cons.prems(1,2) s1(2) by auto
    then show ?thesis using s1 True by (auto simp del: One_nat_def)
  next
    case False
    then show ?thesis using Cons by (auto simp: region_frames_def)
  qed
qed auto


section \<open>Properties\<close>

text \<open>
  After \<open>init\<close> the free list is well formed and holds exactly the whole frames of the usable regions
  from the first megabyte up, each once, and the allocator's two counters are their number.
\<close>

theorem memory_init_free_list:
  assumes "\<forall>r \<in> set regions. region_ok r" "disjoint_regions regions" "fa_head s = 0" "fa_free s = 0" "fa_total s = 0"
  shows "\<exists>s'. memory_init regions s = Some s' \<and> frames_wf s' \<and> free_frames s' = (\<Union>r \<in> set regions. region_frames r) \<and>
    frame_stats s' = (card (free_frames s'), card (free_frames s'))"
proof -
  have e: "free_frames s = {}" "frames_wf s" using assms(3,4) by (simp_all add: free_frames_def frames_wf_def)
  obtain s' where s': "memory_init regions s = Some s'" "frames_wf s'" "free_frames s' = (\<Union>r \<in> set regions. region_frames r)"
      "fa_total s' = fa_free s'"
    using memory_init_correct [OF assms(1,2) e(2)] e(1) assms(4,5) by auto
  moreover have "length (chain m p n) = n" for m p n by (induction n arbitrary: p) auto
  then have "card (free_frames s') = fa_free s'"
    using s'(2) by (simp add: frames_wf_def free_frames_def distinct_card)
  ultimately show ?thesis by (auto simp: frame_stats_def)
qed

text \<open>
  C22: After any sequence of allocations, returns of held frames and writes into held frames, no frame
  held is on the free list, held and free frames together are the frames free at the start, and the list
  is well formed. So the next allocation gives a frame that nobody holds, and it fails exactly when every
  frame is held.
\<close>

theorem frames_distinct:
  assumes "frames_wf s" "frame_step\<^sup>*\<^sup>* (s, {}) (s', held)"
  shows "frames_wf s' \<and> free_frames s' \<inter> held = {} \<and> free_frames s' \<union> held = free_frames s \<and>
    (case frame_allocate s' of None \<Rightarrow> held = free_frames s | Some (f, s'') \<Rightarrow> f \<in> free_frames s - held)"
proof -
  have "frames_split (free_frames s) (s', held)"
    using frame_steps_split [OF assms(2)] frames_legal [OF assms(1)] assms(1) by (auto simp: frames_split_def)
  then have f: "frames_wf s'" "free_frames s' \<inter> held = {}" "free_frames s' \<union> held = free_frames s" by (auto simp: frames_split_def)
  have "case frame_allocate s' of None \<Rightarrow> held = free_frames s | Some (f, s'') \<Rightarrow> f \<in> free_frames s - held"
    using frame_pool.take_None [OF f(1)] frame_pool.take_Some [OF f(1)] f(2,3) by (auto split: option.splits)
  then show ?thesis using f by blast
qed

text \<open>
  C13: After a page is mapped its walk goes through three present tables to a leaf entry that holds the
  frame and exactly the flags asked for, it ends at the frame, and for a page mapped for ring 3 all four
  entries let ring 3 through.
\<close>

theorem map_page_translates:
  assumes "mappable s root va" "flags AND ADDRESS_MASK = 0"
    and "map_page_in root va frame flags s = (Inr (), s')"
  shows "\<exists>e1 e2 e3. translate_in root va s' =
      Some ((frame AND ADDRESS_MASK) + (va AND 0xFFF), [e1, e2, e3, (frame AND ADDRESS_MASK) OR flags OR PRESENT]) \<and>
    e1 AND PRESENT \<noteq> 0 \<and> e2 AND PRESENT \<noteq> 0 \<and> e3 AND PRESENT \<noteq> 0 \<and>
    (flags AND USER = 0 \<or> e1 AND USER \<noteq> 0 \<and> e2 AND USER \<noteq> 0 \<and> e3 AND USER \<noteq> 0)"
proof -
  let ?p = "take 3 (indexes va)" and ?i = "indexes va ! 3" and ?v = "(frame AND ADDRESS_MASK) OR flags OR PRESENT"
  obtain leaf where l: "walk3 True s' root ?p = Some leaf" "phys s' (entry_ptr leaf ?i) = ?v"
    using map_page_in_leaf [OF assms(1,3)] by blast
  have user: "flags AND USER \<noteq> 0 \<Longrightarrow> user_path (phys s') root ?p" using map_page_user_path [OF assms(1) _ assms(3)] .
  let ?es = "walk_entries (phys s') root ?p"
  have t: "translate_in root va s' = Some ((frame AND ADDRESS_MASK) + (va AND 0xFFF), ?es @ [?v])"
    using translate_entries_leaf [OF l(1), of 0 ?i va "[]"] l(2) leaf_word [OF assms(2), of frame] indexes_split [of va]
    by (simp add: translate_in_def)
  have e: "\<forall>e \<in> set ?es. e AND PRESENT \<noteq> 0" "flags AND USER \<noteq> 0 \<Longrightarrow> \<forall>e \<in> set ?es. e AND USER \<noteq> 0"
    using walk_entries_present [OF l(1)] user user_path_entries by auto
  have "length ?es = 3" using indexes_split(2) [of va] by (simp only: length_walk_entries)
  then obtain e1 e2 e3 where es: "?es = [e1, e2, e3]" by (auto simp: numeral_eq_Suc length_Suc_conv)
  show ?thesis using t e unfolding es by auto
qed

text \<open>
  Mapping a page, whether it succeeds or fails, leaves what every address that resolves resolves to, in
  any tree, of the kernel or of a program.
\<close>

theorem map_page_keeps_resolved:
  assumes "mappable s root va" "map_page_in root va frame flags s = (r, s')"
    and "aligned other" "set (seen_tables (phys s) 0 other (indexes va')) \<inter> free_frames s = {}"
    and "translate_in other va' s = Some (pa, es)"
  shows "\<exists>es'. translate_in other va' s' = Some (pa, es')"
  using keeps_entries_translate [OF map_page_keeps_entries [OF assms(1,2)] assms(3) _ assms(4)] assms(5) indexes_less [of _ va']
  by (auto simp: translate_in_def)

text \<open>
  C20: For a range in the lower half, where programs live, the check of a pointer from ring 3 returns, and
  it answers yes exactly when every byte from the start of the first page to the end of the range resolves
  through the tables in force and every entry its walk reads has the user bit. (A walk that ends at a large
  page reads fewer entries and reports the rest as zero.)
\<close>

theorem user_pointer_check:
  assumes "unat address + unat len \<le> 2 ^ 47"
  shows "is_user_accessible address len s =
    Some (\<forall>a. page_base address \<le> a \<and> unat a < unat address + unat len \<longrightarrow>
      (\<exists>pa es. translate_active a s = Some (pa, es) \<and> (\<forall>e \<in> set es. e = 0 \<or> e AND USER \<noteq> 0)))"
  using is_user_accessible_iff [of address len s] assms by (simp add: user_walk_ring3 ring3_def)

text \<open>
  The check does not look at bits 48 to 63 of the address: a non-canonical address, which the
  kernel cannot dereference, passes whenever the canonical address with the same low bits does.
\<close>

theorem user_pointer_check_ignores_high_bits:
  assumes "unat a < 2 ^ 47" "unat len < 2 ^ 47"
  shows "is_user_accessible (a + high_bit) len s = is_user_accessible a len s"
proof -
  let ?h = high_bit
  have ua: "unat (a + ?h) = unat a + 2 ^ 62" using assms(1) by (intro unat_add_high) simp
  have pb: "unat (page_base (a + ?h)) = unat (page_base a) + 2 ^ 62"
  proof -
    have "(unat a + 2 ^ 50 * 4096) div 4096 = 2 ^ 50 + unat a div 4096" by (rule div_mult_self1) simp
    then show ?thesis by (simp add: unat_page_base ua)
  qed
  have "(\<forall>x. page_base (a + ?h) \<le> x \<and> unat x < unat (a + ?h) + unat len \<longrightarrow> user_walk s 0 (cr3 s) (indexes x)) =
      (\<forall>x. page_base a \<le> x \<and> unat x < unat a + unat len \<longrightarrow> user_walk s 0 (cr3 s) (indexes x))"
  proof (intro iffI allI impI)
    fix x assume all: "\<forall>x. page_base (a + ?h) \<le> x \<and> unat x < unat (a + ?h) + unat len \<longrightarrow> user_walk s 0 (cr3 s) (indexes x)"
      and x: "page_base a \<le> x \<and> unat x < unat a + unat len"
    have xl: "unat x < 2 ^ 62" using x assms by simp
    have "page_base (a + ?h) \<le> x + ?h" "unat (x + ?h) < unat (a + ?h) + unat len"
      using x by (simp_all add: word_le_nat_alt pb ua unat_add_high [OF xl])
    then have "user_walk s 0 (cr3 s) (indexes (x + ?h))" using all by blast
    then show "user_walk s 0 (cr3 s) (indexes x)" by (simp only: indexes_high [OF xl])
  next
    fix x assume all: "\<forall>x. page_base a \<le> x \<and> unat x < unat a + unat len \<longrightarrow> user_walk s 0 (cr3 s) (indexes x)"
      and x: "page_base (a + ?h) \<le> x \<and> unat x < unat (a + ?h) + unat len"
    have ge: "2 ^ 62 \<le> unat x" "unat (page_base a) + 2 ^ 62 \<le> unat x"
      using x by (simp_all add: word_le_nat_alt pb)
    have ux: "unat (x - ?h) = unat x - 2 ^ 62" using ge(1) by (subst unat_sub) (simp_all add: word_le_nat_alt unat_high)
    have "page_base a \<le> x - ?h" "unat (x - ?h) < unat a + unat len"
      using x ge by (auto simp: word_le_nat_alt ua ux)
    then have "user_walk s 0 (cr3 s) (indexes (x - ?h))" using all by blast
    moreover have "unat x < unat a + 2 ^ 62 + unat len" using x ua by simp
    then have "unat (x - ?h) < 2 ^ 62" using assms ux by simp
    ultimately show "user_walk s 0 (cr3 s) (indexes x)" using indexes_high [of "x - ?h"] by simp
  qed
  then show ?thesis
    using assms by (subst (1 2) is_user_accessible_iff) (simp_all add: ua)
qed

subsection \<open>Instances\<close>

definition demo_memory :: Memory where
  "demo_memory = \<lparr> phys = (\<lambda>_. 0)(0x200000 := 0x201000, 0x201000 := 0x202000, 0x202000 := 0x203000),
     fa_head = 0x200000, fa_free = 4, fa_total = 4, cr3 = 0x100000, kernel_root = 0x100000,
     shared_tab = [], replacers = Replacers_init, swap_state = Swap_init,
     drive = \<lparr> sectors = (\<lambda>_. []), drive_error = (\<lambda>_. None) \<rparr>, flush_error = None \<rparr>"

definition demo_mapped :: Memory where
  "demo_mapped = snd (map_page_in 0x100000 0x400000 0x300000 (USER OR WRITABLE) demo_memory)"

definition demo_regions :: "MemoryRegion list" where
  "demo_regions = [\<lparr> region_start = 0, region_end = 0xA0000, region_kind = Usable \<rparr>,
     \<lparr> region_start = 0x100800, region_end = 0x103FFF, region_kind = Usable \<rparr>,
     \<lparr> region_start = 0x110000, region_end = 0x120000, region_kind = OtherKind \<rparr>]"

lemma demo_map: "map_page_in 0x100000 0x400000 0x300000 (USER OR WRITABLE) demo_memory = (Inr (), demo_mapped)"
proof -
  have "fst (map_page_in 0x100000 0x400000 0x300000 (USER OR WRITABLE) demo_memory) = Inr ()" by code_simp
  then show ?thesis by (metis demo_mapped_def prod.collapse)
qed

lemma demo_mappable: "mappable demo_memory 0x100000 0x400000" "mappable demo_mapped 0x100000 0x401000"
  by code_simp+

theorem memory_init_free_list_witness:
  "\<exists>s'. memory_init demo_regions (demo_memory\<lparr> fa_head := 0, fa_free := 0, fa_total := 0 \<rparr>) = Some s' \<and> frames_wf s' \<and>
     0x101000 \<in> free_frames s' \<and> 0x103000 \<notin> free_frames s' \<and> 0x110000 \<notin> free_frames s'"
proof -
  have ok: "\<forall>r \<in> set demo_regions. region_ok r" by (simp add: demo_regions_def region_ok_def)
  have d: "disjoint_regions demo_regions"
    by (auto simp: demo_regions_def region_frames_def word_le_nat_alt)
  have "0x101000 \<in> (\<Union>r \<in> set demo_regions. region_frames r)" "0x103000 \<notin> (\<Union>r \<in> set demo_regions. region_frames r)"
      "0x110000 \<notin> (\<Union>r \<in> set demo_regions. region_frames r)"
    by (simp_all add: demo_regions_def region_frames_def aligned_def)
  then show ?thesis
    using memory_init_free_list [OF ok d, of "demo_memory\<lparr> fa_head := 0, fa_free := 0, fa_total := 0 \<rparr>"] by auto
qed

theorem frames_distinct_witness:
  "\<exists>s'. frame_step\<^sup>*\<^sup>* (demo_memory, {}) (s', {0x201000}) \<and> fst (the (frame_allocate s')) = 0x200000 \<and>
     frames_wf s' \<and> free_frames s' = {0x200000, 0x202000, 0x203000}"
proof -
  define s1 s2 s3 s4 where "s1 = snd (the (frame_allocate demo_memory))" and "s2 = snd (the (frame_allocate s1))"
    and "s3 = put 0x201008 7 s2" and "s4 = frame_deallocate s3 0x200000"
  have a: "frame_allocate demo_memory = Some (0x200000, s1)" by (simp add: s1_def frame_allocate_def demo_memory_def)
  have b: "frame_allocate s1 = Some (0x201000, s2)" by (simp add: s2_def s1_def frame_allocate_def demo_memory_def)
  have run: "frame_step\<^sup>*\<^sup>* (demo_memory, {}) (s4, {0x201000})"
  proof -
    have "frame_step (demo_memory, {}) (s1, {0x200000})" by (rule frame_taken [OF a])
    moreover have "frame_step (s1, {0x200000}) (s2, {0x201000, 0x200000})" by (rule frame_taken [OF b])
    moreover have "frame_step (s2, {0x201000, 0x200000}) (s3, {0x201000, 0x200000})"
      unfolding s3_def by (rule frame_written) (simp add: page_base_def)
    moreover have "frame_step (s3, {0x201000, 0x200000}) (s4, {0x201000, 0x200000} - {0x200000})"
      unfolding s4_def by (rule frame_returned) simp
    moreover have "{0x201000, 0x200000} - {0x200000} = {0x201000 :: u64}" by auto
    ultimately show ?thesis by simp
  qed
  have w: "frames_wf demo_memory" using demo_mappable by (simp add: mappable_def)
  have f: "free_frames demo_memory = {0x200000, 0x201000, 0x202000, 0x203000}" by code_simp
  note d = frames_distinct [OF w run]
  have "free_frames s4 = free_frames demo_memory - {0x201000}" using d by blast
  also have "\<dots> = {0x200000, 0x202000, 0x203000}" unfolding f by auto
  finally have "free_frames s4 = {0x200000, 0x202000, 0x203000}" .
  moreover have "fst (the (frame_allocate s4)) = 0x200000" unfolding s4_def s3_def s2_def s1_def by code_simp
  ultimately show ?thesis using run d by blast
qed

theorem map_page_translates_witness:
  "\<exists>e1 e2 e3. translate_in 0x100000 0x400000 demo_mapped = Some (0x300000, [e1, e2, e3, 0x300007]) \<and> e3 AND USER \<noteq> 0"
proof -
  have f: "(USER OR WRITABLE) AND ADDRESS_MASK = 0" "(USER OR WRITABLE) AND USER \<noteq> 0" by (simp_all add: flag_defs ADDRESS_MASK_def)
  have v: "(0x300000 AND ADDRESS_MASK) OR (USER OR WRITABLE) OR PRESENT = 0x300007"
    "(0x300000 AND ADDRESS_MASK) + (0x400000 AND 0xFFF) = 0x300000" by (simp_all add: flag_defs ADDRESS_MASK_def)
  show ?thesis using map_page_translates [OF demo_mappable(1) f(1) demo_map] f(2) unfolding v by blast
qed

theorem map_page_keeps_resolved_witness:
  "\<exists>es. translate_in 0x100000 0x400000 (snd (map_page_in 0x100000 0x401000 0x301000 0 demo_mapped)) = Some (0x300000, es)"
proof -
  have t: "map_option fst (translate_in 0x100000 0x400000 demo_mapped) = Some 0x300000" by code_simp
  then obtain es where "translate_in 0x100000 0x400000 demo_mapped = Some (0x300000, es)" by auto
  moreover have "set (seen_tables (phys demo_mapped) 0 0x100000 (indexes 0x400000)) \<inter> free_frames demo_mapped = {}"
    by code_simp
  moreover have "aligned 0x100000" by (simp add: aligned_def)
  ultimately show ?thesis
    using map_page_keeps_resolved [OF demo_mappable(2) surjective_pairing] by blast
qed

theorem user_pointer_check_witness: "is_user_accessible 0x400FF0 0x20 demo_mapped = Some False"
proof -
  have "translate_active 0x401000 demo_mapped = None" by code_simp
  then have "\<exists>a. page_base 0x400FF0 \<le> a \<and> unat a < unat (0x400FF0 :: u64) + unat (0x20 :: u64) \<and> translate_active a demo_mapped = None"
    by (intro exI [of _ "0x401000"]) (simp add: page_base_def)
  then show ?thesis using user_pointer_check [of "0x400FF0" "0x20" demo_mapped] by fastforce
qed

theorem user_pointer_check_ignores_high_bits_witness:
  "is_user_accessible (0x400000 + high_bit) 8 demo_mapped = Some True"
proof -
  have "is_user_accessible (0x400000 + high_bit) 8 demo_mapped = is_user_accessible 0x400000 8 demo_mapped"
    by (rule user_pointer_check_ignores_high_bits) simp_all
  also have "\<dots> = Some True"
  proof -
    have "user_walk demo_mapped 0 (cr3 demo_mapped) (indexes 0x400000)" by code_simp
    then show ?thesis
      by (simp add: is_user_accessible_def checked_add_def page_base_def user_pages_ok.simps [of _ "0x400000"]
          user_pages_ok.simps [of _ "0x401000"])
  qed
  finally show ?thesis .
qed

end
