(* ===== verification/Sharing.thy ===== *)
theory Sharing
  imports Page_Tables
begin

text \<open>
  Address spaces that share frames (\<open>kernel/src/memory.rs\<close>): the table of owners counts, the
  enumeration of an address space is complete, and a write to a copy-on-write page gives the
  writer a private copy.
\<close>

section \<open>Counting the owners of a frame\<close>

text \<open>
  The table of shared frames holds no frame twice and only frames with two owners or more. What
  it promises is a number of owners per frame, 1 for a frame it does not name.
\<close>

definition shared_wf :: "Memory \<Rightarrow> bool" where
  "shared_wf s \<longleftrightarrow> distinct (map fst (shared_tab s)) \<and> (\<forall>f c. map_of (shared_tab s) f = Some c \<longrightarrow> 2 \<le> unat c)"

definition owners :: "Memory \<Rightarrow> u64 \<Rightarrow> nat" where
  "owners s frame = (case map_of (shared_tab s) frame of Some c \<Rightarrow> unat c | None \<Rightarrow> 1)"

lemma find_map_of: "find (\<lambda>fc. fst fc = k) xs = map_option (\<lambda>v. (k, v)) (map_of xs k)"
  by (induction xs) auto

lemma share_count_owners: "unat (share_count f s) = owners s f"
  by (simp add: share_count_def owners_def find_map_of split: option.split)

lemma owners_pos: "shared_wf s \<Longrightarrow> 1 \<le> owners s f"
  by (force simp: owners_def shared_wf_def split: option.split)

lemma position_key:
  "position (\<lambda>fc. fst fc = k) xs = Some i \<Longrightarrow> i < length xs \<and> fst (xs ! i) = k \<and> map_of xs k = Some (snd (xs ! i))"
  by (induction xs arbitrary: i) (auto split: if_splits)

lemma position_no_key: "position (\<lambda>fc. fst fc = k) xs = None \<longleftrightarrow> map_of xs k = None"
  by (induction xs) auto

lemma map_fst_update: "i < length xs \<Longrightarrow> fst (xs ! i) = k \<Longrightarrow> map fst (xs[i := (k, v)]) = map fst xs"
  by (simp add: map_update) (metis fst_conv list_update_id nth_map)

lemma map_of_update_nth:
  "distinct (map fst xs) \<Longrightarrow> i < length xs \<Longrightarrow> fst (xs ! i) = k \<Longrightarrow> map_of (xs[i := (k, v)]) = (map_of xs)(k \<mapsto> v)"
proof (induction xs arbitrary: i)
  case (Cons x xs)
  show ?case
  proof (cases i)
    case (Suc j)
    have "k \<in> fst ` set xs" using Cons.prems Suc by (metis imageI length_Cons nth_Cons_Suc nth_mem not_less_eq)
    then have "fst x \<noteq> k" using Cons.prems(1) by auto
    then show ?thesis using Cons Suc by (cases x) (auto simp: fun_upd_twist)
  qed (use Cons.prems in \<open>cases x; auto\<close>)
qed simp

lemma swap_remove_split:
  "swap_remove (length ys) (ys @ x # zs) = (if zs = [] then ys else ys @ last zs # butlast zs)"
  by (simp add: swap_remove_def butlast_append)

lemma swap_remove_set:
  assumes "i < length xs" "distinct (map fst xs)"
  shows "set (swap_remove i xs) = set xs - {xs ! i}" "distinct (map fst (swap_remove i xs))"
proof -
  obtain ys zs where x: "xs = ys @ xs ! i # zs" "i = length ys"
    using id_take_nth_drop [OF assms(1)] assms(1) by (metis add.commute add_diff_cancel_right' length_take min.absorb4)
  have zs: "set zs = insert (last zs) (set (butlast zs))" "distinct (map fst (last zs # butlast zs)) = distinct (map fst zs)"
    if ne: "zs \<noteq> []"
  proof -
    obtain us u where "zs = us @ [u]" using ne by (metis rev_exhaust)
    then show "set zs = insert (last zs) (set (butlast zs))"
      "distinct (map fst (last zs # butlast zs)) = distinct (map fst zs)" by auto
  qed
  let ?x = "xs ! i"
  have d: "distinct (map fst (ys @ ?x # zs))" using assms(2) x(1) by simp
  then have nx: "?x \<notin> set ys" "?x \<notin> set zs" by auto
  have sr: "swap_remove i xs = (if zs = [] then ys else ys @ last zs # butlast zs)"
    using swap_remove_split [of ys ?x zs] x by simp
  have "set xs = insert ?x (set ys \<union> set zs)" using x(1) by (metis Un_insert_right list.simps(15) set_append)
  then show "set (swap_remove i xs) = set xs - {?x}"
    using sr zs(1) nx by auto
  show "distinct (map fst (swap_remove i xs))"
  proof (cases "zs = []")
    case False
    have "set (map fst (last zs # butlast zs)) = set (map fst zs)" using zs(1) [OF False] by simp
    then have "distinct (map fst ys @ map fst (last zs # butlast zs))"
      using d zs(2) [OF False] by (simp only: distinct_append map_append list.map distinct.simps) auto
    then show ?thesis using sr False by simp
  qed (use sr d in simp)
qed

lemma map_of_swap_remove:
  assumes "distinct (map fst xs)" "i < length xs" "fst (xs ! i) = k"
  shows "map_of (swap_remove i xs) = (map_of xs)(k := None)"
proof (rule ext)
  fix a
  note r = swap_remove_set [OF assms(2,1)]
  obtain v where v: "xs ! i = (k, v)" using assms(3) by (metis prod.collapse)
  have m: "map_of (swap_remove i xs) a = Some b \<longleftrightarrow> map_of xs a = Some b \<and> (a, b) \<noteq> (k, v)" for b
    using map_of_eq_Some_iff [OF assms(1)] map_of_eq_Some_iff [OF r(2)] r(1) v by simp
  have "map_of xs k = Some v" using v nth_mem [OF assms(2)] map_of_eq_Some_iff [OF assms(1), of k v] by simp
  then have "map_of (swap_remove i xs) a = Some b \<longleftrightarrow> ((map_of xs)(k := None)) a = Some b" for b
    using m by auto
  then show "map_of (swap_remove i xs) a = ((map_of xs)(k := None)) a" by (metis option.exhaust)
qed

lemma share_owners:
  assumes "shared_wf s" "owners s f + 1 < 2 ^ 32"
  shows "shared_wf (share f s) \<and> owners (share f s) = (owners s)(f := owners s f + 1)"
proof (cases "position (\<lambda>fc. fst fc = f) (shared_tab s)")
  case None
  then have n: "map_of (shared_tab s) f = None" by (simp add: position_no_key)
  then have "map_of (shared_tab (share f s)) = (map_of (shared_tab s))(f \<mapsto> 2)"
    using None by (auto simp: share_def map_add_def fun_eq_iff split: option.splits)
  moreover have "distinct (map fst (shared_tab (share f s)))"
    using assms(1) None n by (auto simp: share_def shared_wf_def map_of_eq_None_iff)
  ultimately show ?thesis
    using assms(1) n by (auto simp: shared_wf_def owners_def fun_eq_iff split: if_splits)
next
  case (Some i)
  note p = position_key [OF Some]
  let ?c = "snd (shared_tab s ! i)"
  have c: "unat (?c + 1) = unat ?c + 1" "2 \<le> unat ?c"
    using assms p unfolding shared_wf_def owners_def by (simp add: unat_word_ariths, blast)
  have d: "distinct (map fst (shared_tab s))" using assms(1) by (simp add: shared_wf_def)
  have "map_of (shared_tab (share f s)) = (map_of (shared_tab s))(f \<mapsto> ?c + 1)"
    using map_of_update_nth [OF d, of i f] p Some by (simp add: share_def)
  moreover have "distinct (map fst (shared_tab (share f s)))"
    using Some p d map_fst_update [of i "shared_tab s" f] by (simp add: share_def)
  ultimately show ?thesis
    using assms(1) p c by (auto simp: shared_wf_def owners_def fun_eq_iff split: if_splits)
qed

lemma unshare_owners:
  assumes "shared_wf s" "unshare f s = (left, s')"
  shows "shared_wf s' \<and> owners s' = (owners s)(f := max 1 (owners s f - 1)) \<and> unat left = max 1 (owners s f - 1)"
proof (cases "position (\<lambda>fc. fst fc = f) (shared_tab s)")
  case None
  then have "map_of (shared_tab s) f = None" "s' = s" "left = 1"
    using assms(2) by (simp_all add: unshare_def flip: position_no_key)
  then show ?thesis using assms(1) by (simp add: owners_def fun_eq_iff)
next
  case (Some i)
  obtain c where p: "i < length (shared_tab s)" "shared_tab s ! i = (f, c)" "map_of (shared_tab s) f = Some c"
    using position_key [OF Some] by (metis prod.collapse)
  let ?tab = "(shared_tab s)[i := (f, c - 1)]"
  have d: "distinct (map fst (shared_tab s))" using assms(1) by (simp add: shared_wf_def)
  have c2: "2 \<le> unat c" using assms(1) p(3) unfolding shared_wf_def by blast
  then have c: "unat (c - 1) = unat c - 1" by (simp add: unat_sub word_le_nat_alt)
  have l: "left = c - 1" "shared_tab s' = (if c - 1 \<le> 1 then swap_remove i ?tab else ?tab)"
    using assms(2) Some p(2) by (auto simp: unshare_def Let_def)
  have t: "distinct (map fst ?tab)" "map_of ?tab = (map_of (shared_tab s))(f \<mapsto> c - 1)"
    using map_of_update_nth [OF d, of i f] map_fst_update [of i "shared_tab s" f] p d by simp_all
  have m: "map_of (shared_tab s') = (map_of (shared_tab s))(f := (if unat c = 2 then None else Some (c - 1)))"
      "distinct (map fst (shared_tab s'))"
    using l(2) t map_of_swap_remove [OF t(1), of i f] swap_remove_set(2) [OF _ t(1), of i] p(1) c c2
    by (auto simp: word_le_nat_alt)
  have "2 \<le> unat e" if "map_of (shared_tab s') g = Some e" for g e
  proof (cases "g = f")
    case True
    then show ?thesis using that m(1) c c2 by (auto split: if_splits)
  next
    case False
    then show ?thesis using that m(1) assms(1) by (simp add: shared_wf_def)
  qed
  moreover have "owners s' = (owners s)(f := max 1 (unat c - 1))"
    using m(1) c c2 by (auto simp: owners_def fun_eq_iff)
  ultimately show ?thesis
    using m(2) l(1) c c2 p(3) by (simp add: shared_wf_def owners_def)
qed

section \<open>The pages of an address space\<close>

definition page_address :: "nat \<Rightarrow> nat \<Rightarrow> nat \<Rightarrow> u64" where
  "page_address i3 i2 i1 =
     push_bit 30 (word_of_nat i3) OR push_bit 21 (word_of_nat i2) OR push_bit 12 (word_of_nat i1)"

lemma unat_index: "i < 512 \<Longrightarrow> unat (word_of_nat i :: u64) = i"
  by (simp add: unsigned_of_nat take_bit_eq_mod)

lemma bit_small: "i < 512 \<Longrightarrow> bit (word_of_nat i :: u64) n \<Longrightarrow> n < 9"
proof (rule ccontr)
  assume i: "i < 512" "bit (word_of_nat i :: u64) n" "\<not> n < 9"
  have "bit (unat (word_of_nat i :: u64)) n" using i(2) by (simp add: bit_unsigned_iff)
  then have "bit i n" by (simp only: unat_index [OF i(1)])
  moreover have "i < 2 ^ n" using i power_increasing [of 9 n "2 :: nat"] by simp
  ultimately show False by (simp add: bit_iff_odd)
qed

lemma mask9: "(0x1FF :: u64) = mask 9"
  by (simp add: mask_eq_exp_minus_1)

lemma bit_page_address:
  assumes "i3 < 512" "i2 < 512" "i1 < 512"
  shows "bit (page_address i3 i2 i1) n \<longleftrightarrow>
    n < 39 \<and> (if n < 12 then False else if n < 21 then bit (word_of_nat i1 :: u64) (n - 12)
      else if n < 30 then bit (word_of_nat i2 :: u64) (n - 21) else bit (word_of_nat i3 :: u64) (n - 30))"
proof -
  note b = bit_small [OF assms(1), of "n - 30"] bit_small [OF assms(2), of "n - 21"] bit_small [OF assms(3), of "n - 12"]
  show ?thesis
    unfolding page_address_def using b by (auto simp: bit_simps)
qed

lemma indexes_page_address:
  assumes "i3 < 512" "i2 < 512" "i1 < 512"
  shows "indexes (page_address i3 i2 i1) = [0, i3, i2, i1]"
proof -
  let ?a = "page_address i3 i2 i1"
  note b = bit_page_address [OF assms]
  have "drop_bit 39 ?a AND 0x1FF = 0"
    unfolding mask9 by (intro bit_eqI) (auto simp: bit_simps b)
  moreover have "drop_bit 30 ?a AND 0x1FF = word_of_nat i3"
    unfolding mask9 using bit_small [OF assms(1)] by (intro bit_eqI) (auto simp: bit_simps b)
  moreover have "drop_bit 21 ?a AND 0x1FF = word_of_nat i2"
    unfolding mask9 using bit_small [OF assms(2)] by (intro bit_eqI) (auto simp: bit_simps b)
  moreover have "drop_bit 12 ?a AND 0x1FF = word_of_nat i1"
    unfolding mask9 using bit_small [OF assms(3)] by (intro bit_eqI) (auto simp: bit_simps b)
  ultimately show ?thesis using assms by (simp add: indexes_def unat_index)
qed

lemma page_address_indexes:
  assumes "aligned a" "a < 0x8000000000"
  shows "a = page_address (indexes a ! 1) (indexes a ! 2) (indexes a ! 3)" "indexes a ! 0 = 0"
proof -
  have lt: "indexes a ! k < 512" if "k < 4" for k
    using that nth_mem [of k "indexes a"] by (intro indexes_less [of _ a]) (simp add: indexes_def)
  have hi: "\<not> bit a n" if "39 \<le> n" for n
  proof -
    have "unat a < 2 ^ 39" using assms(2) by (simp add: word_less_nat_alt)
    then have "\<not> bit (unat a) n" using that power_increasing [of 39 n "2 :: nat"] by (simp add: bit_iff_odd)
    then show ?thesis by (auto simp: bit_unsigned_iff)
  qed
  have w: "word_of_nat (indexes a ! 1) = drop_bit 30 a AND 0x1FF" "word_of_nat (indexes a ! 2) = drop_bit 21 a AND 0x1FF"
      "word_of_nat (indexes a ! 3) = drop_bit 12 a AND 0x1FF"
    by (simp_all add: indexes_def)
  have "indexes a ! 1 < 512" "indexes a ! 2 < 512" "indexes a ! 3 < 512" by (rule lt, simp)+
  note bp = bit_page_address [OF this]
  show "a = page_address (indexes a ! 1) (indexes a ! 2) (indexes a ! 3)"
  proof (rule bit_eqI)
    fix n
    have "\<not> bit a n" if "n < 12" using assms(1) that by (simp add: aligned_bits)
    then show "bit a n = bit (page_address (indexes a ! 1) (indexes a ! 2) (indexes a ! 3)) n"
      using hi [of n] unfolding bp w mask9
      by (cases "n < 39") (auto simp: bit_simps)
  qed
  have "drop_bit 39 a AND 0x1FF = 0"
    unfolding mask9 using hi by (intro bit_eqI) (auto simp: bit_simps)
  then show "indexes a ! 0 = 0" by (simp add: indexes_def)
qed


lemma walk3_three:
  "walk3 True s root [i0, i3, i2] = Some table \<longleftrightarrow>
   (let e0 = phys s (entry_ptr root i0); e3 = phys s (entry_ptr (e0 AND ADDRESS_MASK) i3);
        e2 = phys s (entry_ptr (e3 AND ADDRESS_MASK) i2)
    in e0 AND PRESENT \<noteq> 0 \<and> e0 AND HUGE = 0 \<and> e3 AND PRESENT \<noteq> 0 \<and> e3 AND HUGE = 0 \<and>
       e2 AND PRESENT \<noteq> 0 \<and> e2 AND HUGE = 0 \<and> table = e2 AND ADDRESS_MASK)"
  by (auto simp: Let_def)

lemma present_entries_set:
  "set (present_entries s b t) = {(i, e). i < 512 \<and> e = phys s (entry_ptr t i) \<and> e AND PRESENT \<noteq> 0 \<and> (b \<longrightarrow> e AND HUGE = 0)}"
  by (auto simp: present_entries_def)

lemma mem_concat_pairs: "x \<in> set (concat (map (\<lambda>(i, e). f i e) xs)) \<longleftrightarrow> (\<exists>i e. (i, e) \<in> set xs \<and> x \<in> set (f i e))"
  and mem_map_pairs: "y \<in> set (map (\<lambda>(i, e). g i e) xs) \<longleftrightarrow> (\<exists>i e. (i, e) \<in> set xs \<and> y = g i e)"
  by (auto simp: image_iff split: prod.splits)

lemma user_pages_indexed:
  "(address, entry, pointer) \<in> set (user_pages root s) \<longleftrightarrow>
   (let e0 = phys s root in e0 AND PRESENT \<noteq> 0 \<and>
    (\<exists>i3 i2 i1. i3 < 512 \<and> i2 < 512 \<and> i1 < 512 \<and> address = page_address i3 i2 i1 \<and>
      (let e3 = phys s (entry_ptr (e0 AND ADDRESS_MASK) i3); e2 = phys s (entry_ptr (e3 AND ADDRESS_MASK) i2)
       in e3 AND PRESENT \<noteq> 0 \<and> e3 AND HUGE = 0 \<and> e2 AND PRESENT \<noteq> 0 \<and> e2 AND HUGE = 0 \<and>
          pointer = entry_ptr (e2 AND ADDRESS_MASK) i1 \<and> entry = phys s pointer \<and> entry AND PRESENT \<noteq> 0)))"
proof (cases "phys s root AND PRESENT = 0")
  case False
  have "(address, entry, pointer) \<in> set (user_pages root s) \<longleftrightarrow>
    (\<exists>i3 e3. (i3, e3) \<in> set (present_entries s True (phys s root AND ADDRESS_MASK)) \<and>
      (\<exists>i2 e2. (i2, e2) \<in> set (present_entries s True (e3 AND ADDRESS_MASK)) \<and>
        (\<exists>i1 e1. (i1, e1) \<in> set (present_entries s False (e2 AND ADDRESS_MASK)) \<and>
          (address, entry, pointer) = (page_address i3 i2 i1, e1, entry_ptr (e2 AND ADDRESS_MASK) i1))))"
    unfolding user_pages_def Let_def page_address_def mem_concat_pairs mem_map_pairs using False
    by (simp only: if_False mem_concat_pairs mem_map_pairs)
  then show ?thesis
    using False unfolding present_entries_set Let_def mem_Collect_eq case_prod_conv prod.inject by blast
qed (simp add: user_pages_def Let_def)

lemma user_pages_iff:
  assumes "phys s root AND HUGE = 0"
  shows "(address, entry, pointer) \<in> set (user_pages root s) \<longleftrightarrow>
    aligned address \<and> address < USER_SPACE_END \<and> entry AND PRESENT \<noteq> 0 \<and> entry = phys s pointer \<and>
    (\<exists>table. walk3 True s root (take 3 (indexes address)) = Some table \<and> pointer = entry_ptr table (indexes address ! 3))"
    (is "?L = ?R")
proof
  assume ?L
  then obtain i3 i2 i1 where i: "i3 < 512" "i2 < 512" "i1 < 512" "address = page_address i3 i2 i1"
      and w: "\<exists>table. walk3 True s root [0, i3, i2] = Some table \<and> pointer = entry_ptr table i1"
      and e: "entry = phys s pointer" "entry AND PRESENT \<noteq> 0"
    using assms unfolding user_pages_indexed Let_def walk3_three by (auto simp: entry_ptr_def)
  have "take_bit 39 address = address"
    using i by (intro bit_eqI) (auto simp: bit_simps bit_page_address)
  moreover have "unat (take_bit 39 address) < 2 ^ 39"
    unfolding unsigned_take_bit_eq by (simp only: take_bit_eq_mod) simp
  ultimately have "unat address < 2 ^ 39" by simp
  moreover have "aligned address" using i by (simp add: aligned_bits bit_page_address)
  ultimately show ?R
    using i w e by (simp add: indexes_page_address word_less_nat_alt)
next
  assume r: ?R
  then have a: "aligned address" "address < 0x8000000000" by simp_all
  note pa = page_address_indexes [OF a]
  have ix: "take 3 (indexes address) = [0, indexes address ! 1, indexes address ! 2]"
    using pa(2) by (simp add: indexes_def)
  have lt: "indexes address ! 1 < 512" "indexes address ! 2 < 512" "indexes address ! 3 < 512"
    by (rule indexes_less [of _ address], simp add: indexes_def)+
  obtain table where t: "walk3 True s root [0, indexes address ! 1, indexes address ! 2] = Some table"
      "pointer = entry_ptr table (indexes address ! 3)" "entry = phys s pointer" "entry AND PRESENT \<noteq> 0"
    using r unfolding ix by blast
  have "entry_ptr root 0 = root" by (simp add: entry_ptr_def)
  note w = t(1) [unfolded walk3_three Let_def this]
  show ?L
    unfolding user_pages_indexed Let_def using w t(2-) lt pa(1) by blast
qed

section \<open>Copy on write\<close>

lemma unshare_fields:
  "snd (unshare f s) = s\<lparr> shared_tab := shared_tab (snd (unshare f s)) \<rparr>"
  by (simp add: unshare_def Let_def split: option.split)

lemma unshare_same:
  "phys (snd (unshare f s)) = phys s" "cr3 (snd (unshare f s)) = cr3 s"
  "fa_head (snd (unshare f s)) = fa_head s" "fa_free (snd (unshare f s)) = fa_free s"
  by (simp_all add: unshare_def Let_def split: option.split)

lemma owners_fields: "shared_tab s' = shared_tab s \<Longrightarrow> owners s' = owners s"
  by (simp add: owners_def fun_eq_iff)

text \<open>The leaf entry a fault at \<open>address\<close> is about, with the table that holds it.\<close>

definition cow_page :: "Memory \<Rightarrow> u64 \<Rightarrow> u64 \<Rightarrow> u64 \<Rightarrow> bool" where
  "cow_page s address table entry \<longleftrightarrow>
     page_base address < USER_SPACE_END \<and> walk3 True s (cr3 s) (take 3 (indexes address)) = Some table \<and>
     entry = phys s (entry_ptr table (indexes address ! 3)) \<and>
     entry AND PRESENT \<noteq> 0 \<and> entry AND COW \<noteq> 0 \<and> entry AND WRITABLE = 0"

lemma cow_fault_unfold:
  assumes "cow_page s address table entry"
  shows "cow_fault address s =
    (let pointer = entry_ptr table (indexes address ! 3); frame = entry AND ADDRESS_MASK
     in if share_count frame s > 1
        then (case allocate_or_evict (snd (unshare frame s)) of
                (None, s) \<Rightarrow> (False, s)
              | (Some fresh, s) \<Rightarrow>
                  (True, put pointer (fresh OR (((entry AND NOT ADDRESS_MASK) OR WRITABLE) AND NOT COW)) (copy_page frame fresh s)))
        else (True, put pointer ((entry OR WRITABLE) AND NOT COW) s))"
  using assms by (auto simp: cow_page_def cow_fault_def Let_def not_le)

text \<open>
  A fault is resolved as copy on write only for a present page of the user half whose entry carries
  the mark and is not writable: no other page becomes writable.
\<close>

theorem cow_fault_only_marked:
  assumes "cow_fault address s = (handled, s')" "\<nexists>table entry. cow_page s address table entry"
  shows "\<not> handled \<and> s' = s"
  using assms by (auto simp: cow_page_def cow_fault_def Let_def not_le split: option.splits if_splits)

lemma cow_word:
  assumes "fresh AND ADDRESS_MASK = fresh"
  shows "(fresh OR (((entry AND NOT ADDRESS_MASK) OR WRITABLE) AND NOT COW)) AND ADDRESS_MASK = fresh"
    "(fresh OR (((entry AND NOT ADDRESS_MASK) OR WRITABLE) AND NOT COW)) AND NOT ADDRESS_MASK =
       ((entry AND NOT ADDRESS_MASK) OR WRITABLE) AND NOT COW"
proof -
  have b: "\<And>n. bit fresh n \<Longrightarrow> 12 \<le> n \<and> n < 52"
    using assms by (metis bit_ADDRESS_MASK bit_and_iff)
  show "(fresh OR (((entry AND NOT ADDRESS_MASK) OR WRITABLE) AND NOT COW)) AND ADDRESS_MASK = fresh"
    using b by (intro bit_eqI) (auto simp: bit_simps)
  show "(fresh OR (((entry AND NOT ADDRESS_MASK) OR WRITABLE) AND NOT COW)) AND NOT ADDRESS_MASK =
       ((entry AND NOT ADDRESS_MASK) OR WRITABLE) AND NOT COW"
    using b by (intro bit_eqI) (auto simp: bit_simps)
qed

lemma walk3_path:
  "walk3 b s t is = Some leaf \<Longrightarrow> path_tables (phys s) t is = read_tables (phys s) t is @ [leaf]"
  by (induction "is" arbitrary: t) (auto simp: Let_def split: if_splits)

lemma walk_ok_leaf:
  assumes "walk_ok s t is" "walk3 b s t is = Some leaf"
  shows "leaf \<notin> set (read_tables (phys s) t is)" "leaf \<notin> free_frames s"
    "set (read_tables (phys s) t is) \<inter> free_frames s = {}" "aligned t" "\<forall>i \<in> set is. i < 512"
  using assms(1) walk3_path [OF assms(2)] by (auto simp: walk_ok_def)

lemma walk3_weaken: "walk3 True s t is = Some leaf \<Longrightarrow> walk3 False s t is = Some leaf"
  by (induction "is" arbitrary: t) (auto simp: Let_def split: if_splits)

lemma walk3_aligned: "walk3 b s t is = Some leaf \<Longrightarrow> is \<noteq> [] \<Longrightarrow> aligned leaf"
proof (induction "is" arbitrary: t)
  case (Cons i "is")
  then show ?case by (cases "is") (auto simp: Let_def split: if_splits)
qed simp

lemma entry_offset: "aligned t \<Longrightarrow> i < 512 \<Longrightarrow> entry_ptr t i AND 0xFFF = 8 * word_of_nat i"
proof -
  assume a: "aligned t" "i < 512"
  have "entry_ptr t i AND mask 12 = 8 * word_of_nat i"
    unfolding entry_ptr_or [OF a] using a small_bits [OF a(2)]
    by (intro bit_eqI) (auto simp: bit_simps aligned_bits dest: bit_imp_le_length)
  then show ?thesis by (simp only: low_mask)
qed

lemma copied_entry:
  "aligned t \<Longrightarrow> i < 512 \<Longrightarrow> frame + (entry_ptr t i AND 0xFFF) = entry_ptr frame i"
  using entry_offset [of t i] by (simp add: entry_ptr_def)

text \<open>
  C16: While a frame is free, a write to a page that has other owners gives the writer a frame of its own: the entry names a
  frame that was free, is writable and no longer marked, and keeps its other flags; the frame holds
  the words of the old one, which keep their values for the other owners, of whom there is one
  fewer than there were owners.
\<close>

theorem cow_fault_private_copy:
  assumes "frames_wf s" "frames_encodable s" "shared_wf s" "cow_page s address table entry"
    and "frame = entry AND ADDRESS_MASK" "2 \<le> owners s frame" "free_frames s \<noteq> {}"
    and "walk_ok s (cr3 s) (take 3 (indexes address))" "frame \<notin> free_frames s" "table \<noteq> frame"
  shows "\<exists>fresh s'. cow_fault address s = (True, s') \<and> fresh \<in> free_frames s \<and> free_frames s' = free_frames s - {fresh} \<and>
    leaf_entry (cr3 s) address s' = Some (fresh OR (((entry AND NOT ADDRESS_MASK) OR WRITABLE) AND NOT COW)) \<and>
    (\<forall>i < 512. phys s' (entry_ptr fresh i) = phys s (entry_ptr frame i) \<and> phys s' (entry_ptr frame i) = phys s (entry_ptr frame i)) \<and>
    owners s' = (owners s)(frame := owners s frame - 1)"
proof -
  let ?u = "snd (unshare frame s)" and ?p = "entry_ptr table (indexes address ! 3)"
  have al: "aligned frame" using assms(5) by simp
  have sc: "share_count frame s > 1" using assms(6) share_count_owners [of frame s] by (simp add: word_less_nat_alt)
  have ff: "free_frames ?u = free_frames s" "frames_wf ?u"
    using free_frames_fields [of ?u s] unshare_same [of frame s] assms(1) by simp_all
  then obtain fresh s1 where fr: "frame_allocate ?u = Some (fresh, s1)"
    using frame_allocate_None [of ?u] assms(7) by fastforce
  note a = frame_allocate_Some [OF ff(2) fr, unfolded ff(1)]
  have f: "fresh \<in> free_frames s" "free_frames s1 = free_frames s - {fresh}" "phys s1 = phys s" "aligned fresh"
      "fresh AND ADDRESS_MASK = fresh" "frames_wf s1"
    using a unshare_same(1) [of frame s] assms(1,2) by (auto simp: frames_wf_def frames_encodable_def)
  let ?v = "fresh OR (((entry AND NOT ADDRESS_MASK) OR WRITABLE) AND NOT COW)"
  let ?s' = "put ?p ?v (copy_page frame fresh s1)"
  have res: "cow_fault address s = (True, ?s')"
    using cow_fault_unfold [OF assms(4)] sc fr assms(5) by (simp add: allocate_or_evict_def Let_def)
  have w: "walk3 True s (cr3 s) (take 3 (indexes address)) = Some table" using assms(4) by (simp add: cow_page_def)
  note wl = walk_ok_leaf [OF assms(8) w]
  have at: "aligned table" by (rule walk3_aligned [OF w]) (simp add: indexes_def)
  have pb: "page_base ?p = table" using at indexes_bound(2) by simp
  have ph: "phys ?s' x = (if x = ?p then ?v else if page_base x = fresh then phys s (frame + (x AND 0xFFF)) else phys s x)" for x
    using f(3) by (simp add: copy_page_def in_page_iff)
  have nf: "table \<noteq> fresh" "frame \<noteq> fresh" using f(1) wl(2) assms(9) by auto
  have "walk3 False ?s' (cr3 s) (take 3 (indexes address)) = walk3 False s (cr3 s) (take 3 (indexes address))"
  proof (rule walk3_cong [OF wl(5,4)], intro allI impI)
    fix x assume "page_base x \<in> set (read_tables (phys s) (cr3 s) (take 3 (indexes address)))"
    then show "phys ?s' x = phys s x" using ph [of x] pb wl(1,3) f(1) by auto
  qed
  moreover have "walk3 False s (cr3 s) (take 3 (indexes address)) = Some table" by (rule walk3_weaken [OF w])
  ultimately have le: "leaf_entry (cr3 s) address ?s' = Some ?v" by (simp add: leaf_entry_def)
  have ct: "phys ?s' (entry_ptr fresh i) = phys s (entry_ptr frame i) \<and> phys ?s' (entry_ptr frame i) = phys s (entry_ptr frame i)"
    if i: "i < 512" for i
  proof -
    have "page_base (entry_ptr fresh i) = fresh" "page_base (entry_ptr frame i) = frame" using f(4) al i by simp_all
    then have "entry_ptr fresh i \<noteq> ?p" "entry_ptr frame i \<noteq> ?p" using pb nf(1) assms(10) by auto
    then show ?thesis using ph \<open>page_base (entry_ptr fresh i) = fresh\<close> \<open>page_base (entry_ptr frame i) = frame\<close> nf(2)
        copied_entry [OF f(4) i, of frame] by (simp only: if_True if_False) simp
  qed
  have "free_frames ?s' = free_frames s1 \<and> frames_wf ?s' = frames_wf s1"
  proof (rule free_frames_cong)
    show "\<forall>g \<in> free_frames s1. phys ?s' g = phys s1 g"
    proof
      fix g assume g: "g \<in> free_frames s1"
      then have "page_base g = g" "g \<noteq> fresh" "g \<noteq> table"
        using f(2,6) wl(2) page_base_aligned by (auto simp: frames_wf_def)
      then show "phys ?s' g = phys s1 g" using ph [of g] pb f(3) by auto
    qed
  qed (simp_all add: copy_page_def)
  moreover have "owners ?s' = (owners s)(frame := owners s frame - 1)"
  proof -
    have "shared_tab s1 = shared_tab ?u" using fr by (auto simp: frame_allocate_def Let_def split: if_splits)
    then have "owners ?s' = owners ?u" by (intro owners_fields) (simp add: copy_page_def)
    then show ?thesis
      using unshare_owners [OF assms(3), of frame "fst (unshare frame s)" ?u] assms(6) by simp
  qed
  ultimately show ?thesis using res f(1,2) le ct by blast
qed

text \<open>The last owner keeps the frame: nothing is copied or allocated, only its entry changes.\<close>

theorem cow_fault_last_owner:
  assumes "cow_page s address table entry" "owners s (entry AND ADDRESS_MASK) = 1"
  shows "cow_fault address s = (True, put (entry_ptr table (indexes address ! 3)) ((entry OR WRITABLE) AND NOT COW) s)"
  using assms(2) cow_fault_unfold [OF assms(1)] share_count_owners [of "entry AND ADDRESS_MASK" s]
  by (simp add: word_less_nat_alt Let_def)


section \<open>Properties\<close>

text \<open>
  C23: The table of shared frames implements a number of owners per frame: sharing adds one, unsharing
  drops one but never the last, no other frame's number changes, and the table keeps its form.
\<close>

theorem owner_counts:
  assumes "shared_wf s" "owners s f + 1 < 2 ^ 32"
  shows "shared_wf (share f s) \<and> owners (share f s) = (owners s)(f := owners s f + 1) \<and>
    shared_wf (snd (unshare f s)) \<and> owners (snd (unshare f s)) = (owners s)(f := max 1 (owners s f - 1)) \<and>
    unat (share_count f s) = owners s f"
  using share_owners [OF assms] unshare_owners [OF assms(1), of f "fst (unshare f s)" "snd (unshare f s)"]
    share_count_owners [of f s] by simp

text \<open>
  C24: The enumeration of an address space lists exactly the present pages of its user half that are
  mapped by four-level paths, each with its address, its live entry and where that entry is.
\<close>

theorem user_pages_complete:
  assumes "phys s root AND HUGE = 0"
  shows "(address, entry, pointer) \<in> set (user_pages root s) \<longleftrightarrow>
    aligned address \<and> address < USER_SPACE_END \<and> entry AND PRESENT \<noteq> 0 \<and> entry = phys s pointer \<and>
    (\<exists>table. walk3 True s root (take 3 (indexes address)) = Some table \<and> pointer = entry_ptr table (indexes address ! 3))"
  using assms by (rule user_pages_iff)

subsection \<open>Instances\<close>

definition demo_cow :: "u32 \<Rightarrow> Memory" where
  "demo_cow n = demo_memory\<lparr> phys := (phys demo_memory)(0x100000 := 0x101007, 0x101000 := 0x102007, 0x102010 := 0x103007,
       0x103000 := 0x300205, 0x300000 := 42), shared_tab := (if n > 1 then [(0x300000, n)] else []) \<rparr>"

lemma demo_cow_facts:
  "cow_page (demo_cow 2) 0x400123 0x103000 0x300205" "cow_page (demo_cow 1) 0x400123 0x103000 0x300205"
  "frames_wf (demo_cow 2)" "frames_encodable (demo_cow 2)" "walk_ok (demo_cow 2) (cr3 (demo_cow 2)) (take 3 (indexes 0x400123))"
  "free_frames (demo_cow 2) \<noteq> {}" "0x300000 \<notin> free_frames (demo_cow 2)"
  "owners (demo_cow 2) 0x300000 = 2" "owners (demo_cow 1) 0x300000 = 1"
  by code_simp+

lemma demo_cow_shared: "shared_wf (demo_cow n)"
proof -
  have "n > 1 \<Longrightarrow> 2 \<le> unat n" by (simp add: word_less_nat_alt)
  then show ?thesis by (auto simp: shared_wf_def demo_cow_def)
qed

theorem cow_fault_only_marked_witness: "cow_fault 0x401000 (demo_cow 2) = (False, demo_cow 2)"
proof -
  have "cow_page (demo_cow 2) 0x401000 t e \<Longrightarrow> False" for t e
  proof -
    have "walk3 True (demo_cow 2) (cr3 (demo_cow 2)) (take 3 (indexes 0x401000)) = Some 0x103000"
      "phys (demo_cow 2) (entry_ptr 0x103000 (indexes 0x401000 ! 3)) = 0" by code_simp+
    then show "cow_page (demo_cow 2) 0x401000 t e \<Longrightarrow> False" by (auto simp: cow_page_def)
  qed
  then show ?thesis
    using cow_fault_only_marked [of "0x401000" "demo_cow 2"] by (metis prod.collapse)
qed

theorem cow_fault_private_copy_witness:
  "\<exists>fresh s'. cow_fault 0x400123 (demo_cow 2) = (True, s') \<and> fresh \<noteq> 0x300000 \<and>
     phys s' (entry_ptr fresh 0) = 42 \<and> owners s' 0x300000 = 1"
proof -
  have m: "0x300000 = (0x300205 :: u64) AND ADDRESS_MASK" by (simp add: ADDRESS_MASK_def)
  have w: "phys (demo_cow 2) (entry_ptr 0x300000 0) = 42" by code_simp
  obtain fresh s' where "cow_fault 0x400123 (demo_cow 2) = (True, s')" "fresh \<in> free_frames (demo_cow 2)"
      "\<forall>i < 512. phys s' (entry_ptr fresh i) = phys (demo_cow 2) (entry_ptr 0x300000 i)"
      "owners s' = (owners (demo_cow 2))(0x300000 := owners (demo_cow 2) 0x300000 - 1)"
    using cow_fault_private_copy [OF demo_cow_facts(3,4) demo_cow_shared demo_cow_facts(1) m] demo_cow_facts by auto
  then show ?thesis using w demo_cow_facts(7,8) by (intro exI [of _ fresh] exI [of _ s']) auto
qed

theorem cow_fault_last_owner_witness:
  "\<exists>s'. cow_fault 0x400123 (demo_cow 1) = (True, s') \<and> phys s' 0x103000 = 0x300007"
  using cow_fault_last_owner [OF demo_cow_facts(2)] demo_cow_facts(9)
  by (simp add: ADDRESS_MASK_def flag_defs entry_ptr_def indexes_def)

theorem owner_counts_witness:
  "owners (share 0x300000 (demo_cow 2)) 0x300000 = 3 \<and> owners (snd (unshare 0x300000 (demo_cow 2))) 0x300000 = 1"
  using owner_counts [OF demo_cow_shared, of 2 "0x300000"] demo_cow_facts(8) by simp

theorem user_pages_complete_witness: "(0x400000, 0x300205, 0x103000) \<in> set (user_pages 0x100000 (demo_cow 2))"
proof -
  have "phys (demo_cow 2) 0x100000 AND HUGE = 0" "phys (demo_cow 2) 0x103000 = 0x300205"
    "walk3 True (demo_cow 2) 0x100000 (take 3 (indexes 0x400000)) = Some 0x103000"
    "entry_ptr 0x103000 (indexes 0x400000 ! 3) = 0x103000" by code_simp+
  then show ?thesis by (subst user_pages_complete) (auto simp: aligned_def flag_defs)
qed

end
