(* ===== verification/Swapping.thy ===== *)
theory Swapping
  imports Sharing
begin

text \<open>
  Eviction and its undoing (\<open>kernel/src/memory.rs\<close> over \<open>replace.rs\<close>, \<open>swap.rs\<close> and \<open>ata.rs\<close>): a
  page that was evicted comes back with its contents and its permissions.
\<close>

section \<open>Words and bytes\<close>

lemma length_word_bytes [simp]: "length (word_bytes w) = 8"
  by (simp add: word_bytes_def)

lemma bytes_word_bit:
  "bit (bytes_word bs) n \<longleftrightarrow> n < 64 \<and> n div 8 < length bs \<and> bit (bs ! (n div 8)) (n mod 8)"
proof (induction bs arbitrary: n)
  case (Cons b bs)
  show ?case
  proof (cases "n < 8")
    case True
    then show ?thesis by (auto simp: bit_simps)
  next
    case False
    then have "n div 8 = Suc ((n - 8) div 8)" "n mod 8 = (n - 8) mod 8" by (auto simp: le_div_geq le_mod_geq)
    moreover have "\<not> bit b n" using False by (auto dest: bit_imp_le_length)
    ultimately show ?thesis using False Cons.IH [of "n - 8"] by (auto simp: bit_simps)
  qed
qed simp

lemma bytes_word_bytes [simp]: "bytes_word (word_bytes w) = w"
proof (rule bit_eqI)
  fix n
  show "bit (bytes_word (word_bytes w)) n = bit w n"
  proof (cases "n < 64")
    case True
    then have "n div 8 < 8" by auto
    then show ?thesis using True by (simp add: bytes_word_bit word_bytes_def bit_simps)
  next
    case False
    then show ?thesis using bit_imp_le_length [of w n] by (auto simp: bytes_word_bit)
  qed
qed

lemma concat_same_length:
  "\<forall>x \<in> set xss. length x = k \<Longrightarrow> i < length xss \<Longrightarrow> take k (drop (k * i) (concat xss)) = xss ! i"
proof (induction xss arbitrary: i)
  case (Cons xs xss)
  then show ?case by (cases i) (auto simp: )
qed simp

lemma length_page_bytes [simp]: "length (page_bytes f s) = 4096"
  by (simp add: page_bytes_def length_concat comp_def sum_list_triv)

lemma page_bytes_word:
  assumes "i < 512"
  shows "bytes_word (take 8 (drop (8 * i) (page_bytes f s))) = phys s (entry_ptr f i)"
  unfolding page_bytes_def using assms
  by (subst concat_same_length) auto

lemma load_page_word:
  assumes "aligned f" "i < 512"
  shows "phys (load_page f (page_bytes g s0) s) (entry_ptr f i) = phys s0 (entry_ptr g i)"
proof -
  have "unat (entry_ptr f i AND 0xFFF) = 8 * i"
    using assms entry_offset [of f i] by (simp add: unat_word_ariths unat_index)
  then show ?thesis
    using assms page_bytes_word [OF assms(2), of g s0] by (simp add: load_page_def in_page_iff)
qed

section \<open>Entries on their way out and back\<close>

lemma swapped_word:
  assumes "slot < SLOTS"
  shows "swapped_entry slot e AND PRESENT = 0" "swapped_entry slot e AND SWAPPED \<noteq> 0"
    "unat (drop_bit 12 (swapped_entry slot e AND ADDRESS_MASK)) = slot"
    "bit e 0 \<Longrightarrow> \<not> bit e 10 \<Longrightarrow> resident_entry (e AND ADDRESS_MASK) (swapped_entry slot e) = e"
proof -
  have b: "n < 11" if "bit (word_of_nat slot :: u64) n" for n
  proof (rule ccontr)
    assume n: "\<not> n < 11"
    have "bit (unat (word_of_nat slot :: u64)) n" using that by (simp add: bit_unsigned_iff)
    moreover have "unat (word_of_nat slot :: u64) = slot" using assms by (simp add: unsigned_of_nat take_bit_eq_mod)
    moreover have "slot < 2 ^ n" using assms n power_increasing [of 11 n "2 :: nat"] by simp
    ultimately show False by (simp add: bit_iff_odd)
  qed
  have sb: "bit (swapped_entry slot e) n \<longleftrightarrow> n < 64 \<and> (n = 10 \<or> (if 12 \<le> n \<and> n < 52 then bit (word_of_nat slot :: u64) (n - 12) else n \<noteq> 0 \<and> bit e n))" for n
    unfolding swapped_entry_def using b [of "n - 12"] by (auto simp: bit_simps)
  show "swapped_entry slot e AND PRESENT = 0"
    using flag_test(1) [of "swapped_entry slot e"] sb [of 0] by simp
  show "swapped_entry slot e AND SWAPPED \<noteq> 0"
    unfolding flag_test using sb [of 10] by simp
  have "drop_bit 12 (swapped_entry slot e AND ADDRESS_MASK) = word_of_nat slot"
    using b by (intro bit_eqI) (force simp: bit_simps sb)
  then show "unat (drop_bit 12 (swapped_entry slot e AND ADDRESS_MASK)) = slot"
    using assms by (simp add: unsigned_of_nat take_bit_eq_mod)
  show "resident_entry (e AND ADDRESS_MASK) (swapped_entry slot e) = e" if "bit e 0" "\<not> bit e 10"
    unfolding resident_entry_def using that by (intro bit_eqI) (auto simp: bit_simps sb)
qed

lemma resident_word:
  assumes "slot < SLOTS" "bit e 0" "\<not> bit e 10"
  shows "resident_entry g (swapped_entry slot e) = g OR (e AND NOT ADDRESS_MASK)"
proof (rule bit_eqI)
  fix n
  have b: "\<not> bit (word_of_nat slot :: u64) (n - 12)" if "52 \<le> n"
  proof
    assume "bit (word_of_nat slot :: u64) (n - 12)"
    then have "bit (unat (word_of_nat slot :: u64)) (n - 12)" by (simp add: bit_unsigned_iff)
    moreover have "unat (word_of_nat slot :: u64) = slot" using assms(1) by (simp add: unsigned_of_nat take_bit_eq_mod)
    moreover have "(2 :: nat) ^ 11 \<le> 2 ^ (n - 12)" using that by (intro power_increasing) simp_all
    then have "slot < 2 ^ (n - 12)" using assms(1) by simp
    ultimately show False by (simp add: bit_iff_odd)
  qed
  show "bit (resident_entry g (swapped_entry slot e)) n = bit (g OR (e AND NOT ADDRESS_MASK)) n"
    using assms(2,3) b unfolding resident_entry_def swapped_entry_def by (auto simp: bit_simps)
qed

section \<open>Eviction\<close>

text \<open>Words that are the same but for an accessed bit that was cleared.\<close>

definition aged :: "(u64 \<Rightarrow> u64) \<Rightarrow> (u64 \<Rightarrow> u64) \<Rightarrow> bool" where
  "aged m m' \<longleftrightarrow> (\<forall>a. m' a = m a \<or> m' a = m a AND NOT ACCESSED)"


lemma write_back_phys:
  assumes "\<forall>i < length pages. w i \<in> {phys s (snd (snd (pages ! i))), phys s (snd (snd (pages ! i))) AND NOT ACCESSED}"
  shows "aged (phys s) (phys (fold (\<lambda>i s. put (snd (snd (pages ! i))) (w i) s) [0..<length pages] s)) \<and>
    (\<forall>a. a \<notin> (\<lambda>x. snd (snd x)) ` set pages \<longrightarrow>
       phys (fold (\<lambda>i s. put (snd (snd (pages ! i))) (w i) s) [0..<length pages] s) a = phys s a)"
proof -
  have "n \<le> length pages \<Longrightarrow>
      (\<forall>a. phys (fold (\<lambda>i s. put (snd (snd (pages ! i))) (w i) s) [0..<n] s) a \<in> {phys s a, phys s a AND NOT ACCESSED}) \<and>
      (\<forall>a. a \<notin> (\<lambda>x. snd (snd x)) ` set pages \<longrightarrow>
       phys (fold (\<lambda>i s. put (snd (snd (pages ! i))) (w i) s) [0..<n] s) a = phys s a)" for n
  proof (induction n)
    case (Suc n)
    have "snd (snd (pages ! n)) \<in> (\<lambda>x. snd (snd x)) ` set pages" using Suc.prems by (intro imageI) simp
    then show ?case using Suc assms by (auto simp: )
  qed simp
  then show ?thesis unfolding aged_def by blast
qed

lemma write_back_fields:
  "fold (\<lambda>i s. put (p i) (w i) s) is s = s\<lparr> phys := phys (fold (\<lambda>i s. put (p i) (w i) s) is s) \<rparr>"
proof -
  have "\<exists>m. fold (\<lambda>i s. put (p i) (w i) s) is s = s\<lparr> phys := m \<rparr>"
  proof (induction "is" arbitrary: s)
    case Nil
    show ?case by (rule exI [of _ "phys s"]) simp
  next
    case (Cons i "is")
    then obtain m where "fold (\<lambda>i s. put (p i) (w i) s) is (put (p i) (w i) s) = (put (p i) (w i) s)\<lparr> phys := m \<rparr>"
      by blast
    then show ?case by (auto simp: put_def)
  qed
  then show ?thesis by auto
qed

lemma page_set_entry: "i < length pages \<Longrightarrow> ps_entry (page_set pages s) i = phys s (snd (snd (pages ! i)))"
  and page_set_len: "ps_len (page_set pages s) = length pages"
  and page_set_shared: "ps_shared (page_set pages s) = (\<lambda>frame. is_shared frame s)"
  by (simp_all add: ps_entry_def ps_len_def page_set_def split_beta)

lemma write_back_aged:
  assumes "clears_only (page_set pages s) ps"
  obtains m where "write_back pages ps s = s\<lparr> phys := m \<rparr>" "aged (phys s) m"
    "\<forall>a. a \<notin> (\<lambda>x. snd (snd x)) ` set pages \<longrightarrow> m a = phys s a"
proof -
  have "\<forall>i < length pages. ps_entry ps i \<in> {phys s (snd (snd (pages ! i))), phys s (snd (snd (pages ! i))) AND NOT ACCESSED}"
    using assms by (simp add: clears_only_def page_set_len page_set_entry)
  note w = write_back_phys [OF this]
  show ?thesis
    using that [of "phys (write_back pages ps s)"] w
      write_back_fields [of "\<lambda>i. snd (snd (pages ! i))" "ps_entry ps" "[0..<length pages]" s]
    unfolding write_back_def by blast
qed

lemma aged_word:
  assumes "e' = e \<or> e' = e AND NOT ACCESSED"
  shows "(e' AND PRESENT = 0) = (e AND PRESENT = 0)" "(e' AND HUGE = 0) = (e AND HUGE = 0)"
    "(e' AND SWAPPED = 0) = (e AND SWAPPED = 0)" "e' AND ADDRESS_MASK = e AND ADDRESS_MASK"
proof -
  have b: "bit e' n = bit e n" if "n \<noteq> 5" for n
    using assms that bit_imp_le_length [of e n] by (auto simp: bit_simps)
  show "(e' AND PRESENT = 0) = (e AND PRESENT = 0)" "(e' AND HUGE = 0) = (e AND HUGE = 0)"
    "(e' AND SWAPPED = 0) = (e AND SWAPPED = 0)"
    using flag_test(1,4,8) [of e] flag_test(1,4,8) [of e'] b [of 0] b [of 7] b [of 10] by auto
  show "e' AND ADDRESS_MASK = e AND ADDRESS_MASK" using assms clear_keeps_frame by auto
qed

text \<open>A walk sees no difference in entries that only aged.\<close>

lemma walk3_aged:
  assumes "walk3 b s t is = Some leaf" "\<forall>i \<in> set is. i < 512" "aligned t"
    "\<forall>a. page_base a \<in> set (read_tables (phys s) t is) \<longrightarrow> phys s' a = phys s a \<or> phys s' a = phys s a AND NOT ACCESSED"
  shows "walk3 b s' t is = Some leaf"
  using assms
proof (induction "is" arbitrary: t)
  case (Cons i "is")
  let ?e = "phys s (entry_ptr t i)" and ?e' = "phys s' (entry_ptr t i)"
  have p: "?e AND PRESENT \<noteq> 0" "walk3 b s (?e AND ADDRESS_MASK) is = Some leaf" "\<not> (b \<and> ?e AND HUGE \<noteq> 0)"
    using Cons.prems(1) by (auto simp: Let_def split: if_splits)
  have "?e' = ?e \<or> ?e' = ?e AND NOT ACCESSED" using Cons.prems by simp
  note w = aged_word [OF this]
  have "walk3 b s' (?e AND ADDRESS_MASK) is = Some leaf"
    using Cons.prems p(1) by (intro Cons.IH p(2)) (auto simp: Let_def)
  then show ?case using p w by (simp add: Let_def)
qed simp

text \<open>Everything an eviction that succeeds has done.\<close>

definition evicted :: "u64 \<Rightarrow> Memory \<Rightarrow> u64 \<Rightarrow> Memory \<Rightarrow> u64 \<Rightarrow> u64 \<Rightarrow> u64 \<Rightarrow> nat \<Rightarrow> (u64 \<Rightarrow> u64) \<Rightarrow> bool" where
  "evicted root s frame s' address pointer entry slot m \<longleftrightarrow>
     (address, phys s pointer, pointer) \<in> set (user_pages root s) \<and>
     aged (phys s) m \<and> (\<forall>a. a \<notin> (\<lambda>x. snd (snd x)) ` set (user_pages root s) \<longrightarrow> m a = phys s a) \<and>
     entry = m pointer \<and> frame = entry AND ADDRESS_MASK \<and> entry AND PRESENT \<noteq> 0 \<and> entry AND SWAPPED = 0 \<and>
     \<not> is_shared frame s \<and>
     allocate_slot (swap_state s) = Some (slot, snd (the (allocate_slot (swap_state s)))) \<and> phys s' = m(pointer := swapped_entry slot entry) \<and>
     write_out (flush_error s) (drive s) slot (page_bytes frame (s\<lparr> phys := m \<rparr>)) (snd (the (allocate_slot (swap_state s)))) =
       (Inr (), drive s', swap_state s') \<and>
     fa_head s' = fa_head s \<and> fa_free s' = fa_free s \<and> cr3 s' = cr3 s \<and> shared_tab s' = shared_tab s"

lemma user_pages_live: "(a, e, p) \<in> set (user_pages root s) \<Longrightarrow> e = phys s p"
  unfolding user_pages_indexed Let_def by blast

text \<open>What is left to do once the policy has named a page and its accessed bits are written back.\<close>

definition evict_to_slot :: "Memory \<Rightarrow> Replacers \<Rightarrow> (u64 \<Rightarrow> u64) \<Rightarrow> u64 \<Rightarrow> u64 \<Rightarrow> u64 option \<times> Memory" where
  "evict_to_slot s r m address pointer =
    (case allocate_slot (swap_state s) of
       None \<Rightarrow> (None, s\<lparr> replacers := r, phys := m \<rparr>)
     | Some (slot, sw) \<Rightarrow>
         (case write_out (flush_error s) (drive s) slot (page_bytes (m pointer AND ADDRESS_MASK) (s\<lparr> phys := m \<rparr>)) sw of
            (Inl _, d, sw) \<Rightarrow> (None, s\<lparr> replacers := r, phys := m, swap_state := free_slot sw slot, drive := d \<rparr>)
          | (Inr _, d, sw) \<Rightarrow>
              (Some (m pointer AND ADDRESS_MASK),
               s\<lparr> swap_state := sw, drive := d, phys := m(pointer := swapped_entry slot (m pointer)),
                  replacers := note_evicted r address \<rparr>)))"

text \<open>The course of an eviction once the policy has named a page; its answer always passes the re-check.\<close>

lemma evict_one_chosen:
  assumes "replacers_wf (replacers s)" "replace_choose (replacers s) (page_set (user_pages root s) s) = (Some index, r, ps)"
  obtains m address pointer where "(address, phys s pointer, pointer) \<in> set (user_pages root s)" "aged (phys s) m"
    "\<forall>a. a \<notin> (\<lambda>x. snd (snd x)) ` set (user_pages root s) \<longrightarrow> m a = phys s a"
    "phys s pointer AND PRESENT \<noteq> 0" "phys s pointer AND SWAPPED = 0" "\<not> is_shared (phys s pointer AND ADDRESS_MASK) s"
    "evict_one root s = evict_to_slot s r m address pointer"
proof -
  let ?pages = "user_pages root s"
  have cl: "clears_only (page_set ?pages s) ps" by (rule installed.choose_clears [OF assms])
  have ix: "index < length ?pages" "eligible ps index"
    using installed.recheck_passes [OF assms] cl by (simp_all add: clears_only_def page_set_len)
  obtain address e pointer where pg: "?pages ! index = (address, e, pointer)" by (cases "?pages ! index")
  have "page_set ?pages (s\<lparr> replacers := r \<rparr>) = page_set ?pages s"
    by (simp add: page_set_def is_shared_def share_count_def)
  then obtain m where m: "write_back ?pages ps (s\<lparr> replacers := r \<rparr>) = s\<lparr> replacers := r, phys := m \<rparr>"
      "aged (phys s) m" "\<forall>a. a \<notin> (\<lambda>x. snd (snd x)) ` set ?pages \<longrightarrow> m a = phys s a"
    using write_back_aged [of ?pages "s\<lparr> replacers := r \<rparr>" ps] cl by auto
  let ?s1 = "s\<lparr> replacers := r, phys := m \<rparr>"
  have pbs: "page_bytes f ?s1 = page_bytes f (s\<lparr> phys := m \<rparr>)" for f by (simp add: page_bytes_def)
  have ne: "?pages \<noteq> []" "\<not> (length ?pages \<le> index \<or> \<not> eligible ps index)" using ix by auto
  have pe: "ps_entry (page_set ?pages s) index = phys s pointer" using page_set_entry [OF ix(1), of s] pg by simp
  have "eligible (page_set ?pages s) index"
    using clears_only_eligible [OF cl, of index] ix page_set_len [of ?pages s] by simp
  then have el: "phys s pointer AND PRESENT \<noteq> 0" "phys s pointer AND SWAPPED = 0" "\<not> is_shared (phys s pointer AND ADDRESS_MASK) s"
    by (simp_all add: eligible_def Let_def pe page_set_shared)
  have mem: "(address, phys s pointer, pointer) \<in> set ?pages"
    using nth_mem [OF ix(1)] user_pages_live pg by metis
  show ?thesis
  proof (rule that [OF mem m(2,3) el])
    show "evict_one root s = evict_to_slot s r m address pointer"
      using ne unfolding evict_one_def Let_def assms(2) prod.case option.case m(1) pg pbs put_def evict_to_slot_def
      by (simp cong: option.case_cong prod.case_cong sum.case_cong)
  qed
qed

lemma evict_one_Some:
  assumes "replacers_wf (replacers s)" "evict_one root s = (Some frame, s')"
  shows "\<exists>address pointer entry slot m. evicted root s frame s' address pointer entry slot m"
proof -
  obtain index r ps where ch: "replace_choose (replacers s) (page_set (user_pages root s) s) = (Some index, r, ps)"
    using assms(2) by (auto simp: evict_one_def Let_def split: if_splits option.splits prod.splits)
  obtain m address pointer where m: "(address, phys s pointer, pointer) \<in> set (user_pages root s)" "aged (phys s) m"
      "\<forall>a. a \<notin> (\<lambda>x. snd (snd x)) ` set (user_pages root s) \<longrightarrow> m a = phys s a"
      "phys s pointer AND PRESENT \<noteq> 0" "phys s pointer AND SWAPPED = 0" "\<not> is_shared (phys s pointer AND ADDRESS_MASK) s"
    and ev: "evict_one root s = evict_to_slot s r m address pointer"
    using evict_one_chosen [OF assms(1) ch] by metis
  note ev = ev [unfolded evict_to_slot_def]
  obtain slot sw where sl: "allocate_slot (swap_state s) = Some (slot, sw)"
    using ev assms(2) by (cases "allocate_slot (swap_state s)") auto
  obtain d sw' where wo: "write_out (flush_error s) (drive s) slot (page_bytes (m pointer AND ADDRESS_MASK) (s\<lparr> phys := m \<rparr>)) sw = (Inr (), d, sw')"
    using ev assms(2) sl
    by (cases "write_out (flush_error s) (drive s) slot (page_bytes (m pointer AND ADDRESS_MASK) (s\<lparr> phys := m \<rparr>)) sw") (auto split: sum.splits)
  have "m pointer = phys s pointer \<or> m pointer = phys s pointer AND NOT ACCESSED" using m(2) by (simp add: aged_def)
  note aw = aged_word [OF this]
  have "evicted root s frame s' address pointer (m pointer) slot m"
    unfolding evicted_def using ev assms(2) sl wo m aw by auto
  then show ?thesis by blast
qed

lemma eviction_possible:
  assumes "replacers_wf (replacers s)" "swap_wf (swap_state s)" "any_eligible (page_set (user_pages root s) s)"
    "free_slots (swap_state s) \<noteq> {}" "\<forall>n. drive_error (drive s) n = None" "flush_error s = None"
  shows "\<exists>frame s'. evict_one root s = (Some frame, s')"
proof -
  obtain index r ps where ch: "replace_choose (replacers s) (page_set (user_pages root s) s) = (Some index, r, ps)"
    using installed.choose_iff [OF assms(1), of "page_set (user_pages root s) s"] assms(3)
    by (cases "replace_choose (replacers s) (page_set (user_pages root s) s)") auto
  obtain slot sw where sl: "allocate_slot (swap_state s) = Some (slot, sw)"
    using swap_pool.take_None [OF assms(2)] assms(4) by (cases "allocate_slot (swap_state s)") auto
  have "\<exists>d sw'. write_out None (drive s) slot (page_bytes f t) sw = (Inr (), d, sw')" for f t
    using ata_write_read [of "page_bytes f t" 8 "page_bytes f t" "drive s" "slot_lba slot"] assms(5)
    by (auto simp: write_out_def)
  moreover obtain m address pointer where "evict_one root s = evict_to_slot s r m address pointer"
    using evict_one_chosen [OF assms(1) ch] by metis
  ultimately obtain d sw' where "evict_one root s = evict_to_slot s r m address pointer"
      "write_out None (drive s) slot (page_bytes (m pointer AND ADDRESS_MASK) (s\<lparr> phys := m \<rparr>)) sw = (Inr (), d, sw')"
    by blast
  then show ?thesis using sl assms(6) by (simp add: evict_to_slot_def)
qed

text \<open>
  C29: Eviction succeeds whenever it can: a page that may be taken, a free swap slot and a drive that
  reports no error are enough, whichever policy is installed.
\<close>

theorem evict_one_succeeds:
  assumes "replacers_wf (replacers s)" "swap_wf (swap_state s)" "any_eligible (page_set (user_pages root s) s)"
    "free_slots (swap_state s) \<noteq> {}" "\<forall>n. drive_error (drive s) n = None" "flush_error s = None"
  shows "\<exists>frame s'. evict_one root s = (Some frame, s')"
  using assms by (rule eviction_possible)

section \<open>A page comes back\<close>

text \<open>
  The active address space is in order: for every page of it the tables on its path are distinct
  pages, and its frame is neither one of them nor holds entries of the space.
\<close>

definition space_ok :: "Memory \<Rightarrow> bool" where
  "space_ok s \<longleftrightarrow> aligned (cr3 s) \<and> phys s (cr3 s) AND HUGE = 0 \<and>
     (\<forall>(a, e, p) \<in> set (user_pages (cr3 s) s).
        distinct (path_tables (phys s) (cr3 s) (take 3 (indexes a))) \<and> e AND ADDRESS_MASK \<noteq> 0 \<and>
        e AND ADDRESS_MASK \<notin> set (path_tables (phys s) (cr3 s) (take 3 (indexes a))) \<and>
        (\<forall>(a', e', p') \<in> set (user_pages (cr3 s) s). page_base p' \<noteq> e AND ADDRESS_MASK))"

lemma swap_in_unfold:
  assumes "walk3 True s (cr3 s) (take 3 (indexes address)) = Some table"
    "phys s (entry_ptr table (indexes address ! 3)) = swapped_entry slot e" "slot < SLOTS"
    "allocate_or_evict s = (Some frame, s1)"
    "read_in (drive s1) slot (page_bytes frame s1) (swap_state s1) = (Inr (), bytes, sw)"
  shows "swap_in address s =
    (let s = put (entry_ptr table (indexes address ! 3)) (resident_entry frame (swapped_entry slot e))
               (load_page frame bytes (s1\<lparr> swap_state := free_slot sw slot \<rparr>))
     in (True, s\<lparr> replacers := note_resident (replacers s) (page_base address) \<rparr>))"
  using assms swapped_word [OF assms(3), of e] by (simp add: swap_in_def Let_def)

text \<open>Where the entry of an evicted page is, and what the eviction left of its path.\<close>

lemma evicted_path:
  assumes "space_ok s" "evicted (cr3 s) s frame s1 address pointer entry slot m"
  obtains table where "walk3 True s (cr3 s) (take 3 (indexes address)) = Some table"
    "pointer = entry_ptr table (indexes address ! 3)" "page_base pointer = table" "page_base frame = frame"
    "frame \<noteq> 0" "frame = phys s pointer AND ADDRESS_MASK" "table \<noteq> frame"
    "{table, frame} \<inter> set (read_tables (phys s) (cr3 s) (take 3 (indexes address))) = {}"
    "\<And>i. i < 512 \<Longrightarrow> m (entry_ptr frame i) = phys s (entry_ptr frame i)"
proof -
  let ?root = "cr3 s" and ?is = "take 3 (indexes address)"
  have mem: "(address, phys s pointer, pointer) \<in> set (user_pages ?root s)" and ag: "aged (phys s) m"
      and out: "\<And>a. a \<notin> (\<lambda>x. snd (snd x)) ` set (user_pages ?root s) \<Longrightarrow> m a = phys s a"
      and en: "entry = m pointer" "frame = entry AND ADDRESS_MASK"
    using assms(2) unfolding evicted_def by blast+
  have hg: "phys s ?root AND HUGE = 0" using assms(1) by (simp add: space_ok_def)
  obtain table where tb: "walk3 True s ?root ?is = Some table" "pointer = entry_ptr table (indexes address ! 3)"
    using mem unfolding user_pages_iff [OF hg] by blast
  have al: "aligned table" "aligned frame" using walk3_aligned [OF tb(1)] en(2) by (simp_all add: indexes_def)
  have fr: "frame = phys s pointer AND ADDRESS_MASK"
    using ag en aged_word(4) [of entry "phys s pointer"] by (simp add: aged_def)
  have sp: "distinct (path_tables (phys s) ?root ?is)" "frame \<noteq> 0" "frame \<notin> set (path_tables (phys s) ?root ?is)"
      "\<And>p. p \<in> (\<lambda>x. snd (snd x)) ` set (user_pages ?root s) \<Longrightarrow> page_base p \<noteq> frame"
    using assms(1) mem fr unfolding space_ok_def by fastforce+
  have pb: "page_base pointer = table" "page_base frame = frame"
    unfolding tb(2) using al indexes_bound(2) by (simp_all add: page_base_aligned)
  have "m (entry_ptr frame i) = phys s (entry_ptr frame i)" if "i < 512" for i
    using out sp(4) page_base_entry [OF al(2) that] by blast
  moreover have "table \<noteq> frame" "{table, frame} \<inter> set (read_tables (phys s) ?root ?is) = {}"
    using sp(1,3) walk3_path [OF tb(1)] by auto
  ultimately show ?thesis using that tb pb sp(2) fr by blast
qed

text \<open>The sectors of a slot hold the page that was written there, and reading them gives it back.\<close>

lemma write_out_sectors:
  assumes "\<forall>n. drive_error d n = None" "slot < SLOTS" "length page = 4096" "write_out None d slot page sw = (Inr (), d', sw')"
  shows "drive_error d' = drive_error d" "used_words sw' = used_words sw"
    "sectors d' t = (if 32768 + 8 * slot \<le> t \<and> t < 32768 + 8 * slot + 8
       then bytes_to_words (take 512 (drop ((t - (32768 + 8 * slot)) * 512) page)) else sectors d t)"
proof -
  obtain d1 where "ata_write None d (slot_lba slot) page = (Inr (), d1)" "drive_error d1 = drive_error d"
      "\<forall>t. sectors d1 t = (if 32768 + 8 * slot \<le> t \<and> t < 32768 + 8 * slot + 8
         then bytes_to_words (take 512 (drop ((t - (32768 + 8 * slot)) * 512) page)) else sectors d t)"
    using write_sectors_spec [of 8 d "lba_registers (slot_lba slot)" page] assms(1-3)
    by (auto simp: ata_write_def lba_registers_slot)
  then show "drive_error d' = drive_error d" "used_words sw' = used_words sw"
    "sectors d' t = (if 32768 + 8 * slot \<le> t \<and> t < 32768 + 8 * slot + 8
       then bytes_to_words (take 512 (drop ((t - (32768 + 8 * slot)) * 512) page)) else sectors d t)"
    using assms(4) by (auto simp: write_out_def)
qed

lemma read_in_sectors:
  assumes "\<forall>n. drive_error d n = None" "slot < SLOTS" "length page = 4096" "length buffer = 4096"
    "\<forall>k < 8. sectors d (32768 + 8 * slot + k) = bytes_to_words (take 512 (drop (k * 512) page))"
  shows "read_in d slot buffer sw = (Inr (), page, sw\<lparr> faults_in := faults_in sw + 1 \<rparr>)"
proof -
  have "words_to_bytes (sectors d (32768 + 8 * slot + k)) = take 512 (drop (k * 512) page)" if "k < 8" for k
  proof -
    have "k * 512 + 512 \<le> length page" using that assms(3) by simp
    then have "length (take 512 (drop (k * 512) page)) = 512" by simp
    then show ?thesis using assms(5) that by (simp add: words_bytes_words)
  qed
  then have "map (\<lambda>k. words_to_bytes (sectors d (32768 + 8 * slot + k))) [0..<8] = map (\<lambda>k. take 512 (drop (k * 512) page)) [0..<8]"
    by (intro map_cong refl) simp
  then have "concat (map (\<lambda>k. words_to_bytes (sectors d (32768 + 8 * slot + k))) [0..<8]) = page"
    using concat_chunks [of page 8] assms(3) by (simp only: mult_numeral_left_semiring_numeral)
  then have "ata_read d (slot_lba slot) buffer = (Inr (), page)"
    using read_sectors_spec [of 8 d "lba_registers (slot_lba slot)" buffer] assms(1,2,4) by (simp add: ata_read_def lba_registers_slot)
  then show ?thesis by (simp add: read_in_def)
qed

text \<open>
  What later steps may not have done to a page on disk: its path and its entry are as the eviction left them,
  and its slot is still taken and holds the same sectors. All other memory, the frame it had included, all
  other sectors, the policy's state and the pool of frames may be any.
\<close>

definition left_alone :: "Memory \<Rightarrow> u64 \<Rightarrow> nat \<Rightarrow> Memory \<Rightarrow> bool" where
  "left_alone s1 address slot s2 \<longleftrightarrow> cr3 s2 = cr3 s1 \<and>
     walk3 True s2 (cr3 s1) (take 3 (indexes address)) = walk3 True s1 (cr3 s1) (take 3 (indexes address)) \<and>
     leaf_entry (cr3 s1) address s2 = leaf_entry (cr3 s1) address s1 \<and> slot \<notin> free_slots (swap_state s2) \<and>
     (\<forall>t. 32768 + 8 * slot \<le> t \<and> t < 32768 + 8 * slot + 8 \<longrightarrow> sectors (drive s2) t = sectors (drive s1) t)"

text \<open>
  What the fault relies on: the tables on the path of the address are different pages, none of them is free
  or the frame of a page, and the upper ones hold no entry of a page; the drive works, and the pools and
  the policy are in order.
\<close>

definition fault_ready :: "Memory \<Rightarrow> u64 \<Rightarrow> bool" where
  "fault_ready s address \<longleftrightarrow> aligned (cr3 s) \<and> phys s (cr3 s) AND HUGE = 0 \<and> frames_wf s \<and> replacers_wf (replacers s) \<and> swap_wf (swap_state s) \<and>
     (\<forall>n. drive_error (drive s) n = None) \<and> flush_error s = None \<and>
     distinct (path_tables (phys s) (cr3 s) (take 3 (indexes address))) \<and>
     set (path_tables (phys s) (cr3 s) (take 3 (indexes address))) \<inter> free_frames s = {} \<and>
     (\<forall>(a, e, p) \<in> set (user_pages (cr3 s) s). e AND ADDRESS_MASK \<notin> set (path_tables (phys s) (cr3 s) (take 3 (indexes address))) \<and>
        page_base p \<notin> set (read_tables (phys s) (cr3 s) (take 3 (indexes address))))"

text \<open>The frame for a page that comes back, from the free list or from another page: everything of the page is left as it was.\<close>

lemma frame_for_page:
  assumes ok: "fault_ready s address" and w: "walk3 True s (cr3 s) (take 3 (indexes address)) = Some table"
    and off: "phys s (entry_ptr table (indexes address ! 3)) AND PRESENT = 0" and slot: "slot \<notin> free_slots (swap_state s)" "slot < SLOTS"
    and al: "allocate_or_evict s = (Some g, s')"
  shows "aligned g \<and> g \<notin> set (path_tables (phys s) (cr3 s) (take 3 (indexes address))) \<and> cr3 s' = cr3 s \<and>
    phys s' (entry_ptr table (indexes address ! 3)) = phys s (entry_ptr table (indexes address ! 3)) \<and>
    (\<forall>a. page_base a \<in> set (read_tables (phys s) (cr3 s) (take 3 (indexes address))) \<longrightarrow> phys s' a = phys s a \<or> phys s' a = phys s a AND NOT ACCESSED) \<and>
    (\<forall>t. 32768 + 8 * slot \<le> t \<and> t < 32768 + 8 * slot + 8 \<longrightarrow> sectors (drive s') t = sectors (drive s) t) \<and>
    (\<forall>n. drive_error (drive s') n = None) \<and> swap_wf (swap_state s') \<and> slot \<notin> free_slots (swap_state s')"
proof (cases "frame_allocate s")
  case (Some x)
  then have f: "frame_allocate s = Some (g, s')" using al by (cases x) (simp add: allocate_or_evict_def)
  have fields: "cr3 s' = cr3 s" "phys s' = phys s" "drive s' = drive s" "swap_state s' = swap_state s"
    using f by (auto simp: frame_allocate_def Let_def split: if_splits)
  have "frames_wf s" using ok by (simp add: fault_ready_def)
  then have "g \<in> free_frames s" "aligned g" using frame_allocate_Some [OF _ f] frames_legal [of s g] by (auto simp: legal_frame_def)
  then show ?thesis using ok slot(1) unfolding fields fault_ready_def by blast
next
  case None
  let ?is = "take 3 (indexes address)" and ?p = "entry_ptr table (indexes address ! 3)"
  have ev0: "evict_one (cr3 s) s = (Some g, s')" using al None by (simp add: allocate_or_evict_def)
  note o = ok [unfolded fault_ready_def]
  obtain a p e sl m where ev: "evicted (cr3 s) s g s' a p e sl m" using evict_one_Some [OF _ ev0] o by blast
  have mem: "(a, phys s p, p) \<in> set (user_pages (cr3 s) s)" and ag: "aged (phys s) m"
      and out: "\<And>a. a \<notin> (\<lambda>x. snd (snd x)) ` set (user_pages (cr3 s) s) \<Longrightarrow> m a = phys s a"
      and en: "e = m p" "g = e AND ADDRESS_MASK" and ph: "phys s' = m(p := swapped_entry sl e)" and cr: "cr3 s' = cr3 s"
      and sl: "allocate_slot (swap_state s) = Some (sl, snd (the (allocate_slot (swap_state s))))"
      and wo: "write_out None (drive s) sl (page_bytes g (s\<lparr> phys := m \<rparr>)) (snd (the (allocate_slot (swap_state s)))) = (Inr (), drive s', swap_state s')"
    using ev o unfolding evicted_def by auto
  have g: "g = phys s p AND ADDRESS_MASK" using ag en aged_word(4) [of e "phys s p"] by (simp add: aged_def)
  have live: "phys s (snd (snd x)) AND PRESENT \<noteq> 0" if "x \<in> set (user_pages (cr3 s) s)" for x
  proof -
    obtain a e p where x: "x = (a, e, p)" by (cases x)
    have "phys s (cr3 s) AND HUGE = 0" using o by blast
    then show ?thesis using that unfolding x user_pages_iff [OF \<open>phys s (cr3 s) AND HUGE = 0\<close>] by auto
  qed
  have np: "?p \<notin> (\<lambda>x. snd (snd x)) ` set (user_pages (cr3 s) s)" using live off by auto
  then have "?p \<noteq> p" using mem by force
  then have same: "phys s' ?p = phys s ?p" using out [OF np] ph by simp
  have wf: "swap_wf (swap_state s)" using o by blast
  note t = swap_pool.take_Some [OF wf sl]
  have lt: "sl < SLOTS" "sl \<noteq> slot" using t slot by (auto simp: free_slots_def)
  note ws = write_out_sectors [OF _ lt(1) length_page_bytes wo]
  have err: "\<forall>n. drive_error (drive s) n = None" using o by blast
  have "32768 + 8 * slot \<le> t \<and> t < 32768 + 8 * slot + 8 \<longrightarrow> sectors (drive s') t = sectors (drive s) t" for t
    using ws(3) [OF err, of t] lt(2) by auto
  moreover have "swap_wf (swap_state s')" "slot \<notin> free_slots (swap_state s')"
    using ws(2) [OF err] t slot(1) by (auto simp: swap_wf_def free_slots_def slot_used_def)
  moreover have "g \<notin> set (path_tables (phys s) (cr3 s) ?is)" "page_base p \<notin> set (read_tables (phys s) (cr3 s) ?is)" using o mem g by fastforce+
  moreover have "phys s' x = phys s x \<or> phys s' x = phys s x AND NOT ACCESSED" if "page_base x \<in> set (read_tables (phys s) (cr3 s) ?is)" for x
    using that calculation(5) ag ph by (auto simp: aged_def)
  moreover have "aligned g" using en by simp
  ultimately show ?thesis using same cr ws(1) [OF err] err by auto
qed

lemma evicted_slots:
  assumes "swap_wf (swap_state s)" "evicted (cr3 s) s frame s1 address pointer entry slot m"
    "\<forall>n. drive_error (drive s) n = None" "flush_error s = None"
  shows "slot < SLOTS" "slot \<in> free_slots (swap_state s) - free_slots (swap_state s1)"
proof -
  obtain sw where a: "allocate_slot (swap_state s) = Some (slot, sw)"
      "write_out None (drive s) slot (page_bytes frame (s\<lparr> phys := m \<rparr>)) sw = (Inr (), drive s1, swap_state s1)"
    using assms(2) unfolding evicted_def assms(4) by (metis option.sel snd_conv)
  note t = swap_pool.take_Some [OF assms(1) a(1)]
  then show lt: "slot < SLOTS" by (simp add: free_slots_def)
  have "used_words (swap_state s1) = used_words sw" by (rule write_out_sectors(2) [OF assms(3) lt length_page_bytes a(2)])
  then have "free_slots (swap_state s1) = free_slots sw" by (simp add: free_slots_def slot_used_def)
  then show "slot \<in> free_slots (swap_state s) - free_slots (swap_state s1)" using t by simp
qed

text \<open>The fault on an evicted page, in any later state that left it alone.\<close>

lemma evicted_returns:
  assumes ok: "space_ok s" and wf: "swap_wf (swap_state s)" and drv: "\<forall>n. drive_error (drive s) n = None" "flush_error s = None"
    and ev: "evicted (cr3 s) s frame s1 address pointer entry slot m"
    and later: "left_alone s1 address slot s2" "fault_ready s2 address" "allocate_or_evict s2 = (Some g, s2')"
  shows "\<exists>s3. swap_in address s2 = (True, s3) \<and> leaf_entry (cr3 s) address s3 = Some (g OR (entry AND NOT ADDRESS_MASK)) \<and>
    (\<forall>i < 512. phys s3 (entry_ptr g i) = phys s (entry_ptr frame i)) \<and> slot \<in> free_slots (swap_state s3)"
proof -
  let ?root = "cr3 s" and ?is = "take 3 (indexes address)" and ?bytes = "page_bytes frame (s\<lparr> phys := m \<rparr>)"
  obtain table where tb: "walk3 True s ?root ?is = Some table" "pointer = entry_ptr table (indexes address ! 3)"
    and pb: "page_base pointer = table" and f0: "table \<noteq> frame" and nt: "{table, frame} \<inter> set (read_tables (phys s) ?root ?is) = {}"
    and words: "\<And>i. i < 512 \<Longrightarrow> m (entry_ptr frame i) = phys s (entry_ptr frame i)"
    using evicted_path [OF ok ev] by metis
  have ag: "aged (phys s) m" and en: "entry AND PRESENT \<noteq> 0" "entry AND SWAPPED = 0"
      and ph: "phys s1 = m(pointer := swapped_entry slot entry)" and cr: "cr3 s1 = ?root"
      and wo: "write_out None (drive s) slot ?bytes (snd (the (allocate_slot (swap_state s)))) = (Inr (), drive s1, swap_state s1)"
    using ev unfolding evicted_def drv(2) by blast+
  have lt: "slot < SLOTS" by (rule evicted_slots(1) [OF wf ev drv])
  have al: "aligned ?root" using ok by (simp add: space_ok_def)
  have w1: "walk3 True s1 ?root ?is = Some table"
  proof (rule walk3_aged [OF tb(1) indexes_bound(1) al], intro allI impI)
    fix a assume "page_base a \<in> set (read_tables (phys s) ?root ?is)"
    then have "a \<noteq> pointer" using pb nt by auto
    then show "phys s1 a = phys s a \<or> phys s1 a = phys s a AND NOT ACCESSED" using ag ph by (simp add: aged_def)
  qed
  note la = later(1) [unfolded left_alone_def cr]
  have w2: "walk3 True s2 ?root ?is = Some table" "cr3 s2 = ?root" using la w1 by simp_all
  have "leaf_entry ?root address s1 = Some (swapped_entry slot entry)"
    using walk3_weaken [OF w1] by (simp add: leaf_entry_def tb(2) ph)
  then have p2: "phys s2 pointer = swapped_entry slot entry"
    using la walk3_weaken [OF w2(1)] by (simp only: leaf_entry_def tb(2) option.map option.inject)
  note sw = swapped_word(1-3) [OF lt, of entry]
  have "slot \<notin> free_slots (swap_state s2)" using la by blast
  then have fp: "aligned g" "g \<notin> set (path_tables (phys s2) ?root ?is)" "cr3 s2' = ?root"
      "\<And>a. page_base a \<in> set (read_tables (phys s2) ?root ?is) \<Longrightarrow> phys s2' a = phys s2 a \<or> phys s2' a = phys s2 a AND NOT ACCESSED"
      "\<And>t. 32768 + 8 * slot \<le> t \<and> t < 32768 + 8 * slot + 8 \<Longrightarrow> sectors (drive s2') t = sectors (drive s2) t"
      "\<forall>n. drive_error (drive s2') n = None" "swap_wf (swap_state s2')" "slot \<notin> free_slots (swap_state s2')"
    using frame_for_page [OF later(2) _ _ _ lt later(3), of table] w2 p2 sw(1) tb(2) by simp_all
  have "\<forall>k < 8. sectors (drive s2') (32768 + 8 * slot + k) = bytes_to_words (take 512 (drop (k * 512) ?bytes))"
  proof (intro allI impI)
    fix k :: nat assume "k < 8"
    moreover from this have "sectors (drive s2') (32768 + 8 * slot + k) = sectors (drive s1) (32768 + 8 * slot + k)" using fp(5) la by simp
    ultimately show "sectors (drive s2') (32768 + 8 * slot + k) = bytes_to_words (take 512 (drop (k * 512) ?bytes))"
      using write_out_sectors(3) [OF drv(1) lt length_page_bytes wo, of "32768 + 8 * slot + k"] by simp
  qed
  note rd = read_in_sectors [OF fp(6) lt length_page_bytes length_page_bytes this, of g s2' "swap_state s2'"]
  let ?sw = "free_slot ((swap_state s2')\<lparr> faults_in := faults_in (swap_state s2') + 1 \<rparr>) slot"
  let ?v = "g OR (entry AND NOT ADDRESS_MASK)"
  have re: "resident_entry g (swapped_entry slot entry) = ?v"
    by (rule resident_word [OF lt]) (use en flag_test(1,8) [of entry] in blast)+
  define s3 where "s3 = snd (swap_in address s2)"
  have si: "swap_in address s2 = (True, s3)" "phys s3 = (phys (load_page g ?bytes s2'))(pointer := ?v)" "swap_state s3 = ?sw"
    using swap_in_unfold [OF _ _ lt later(3) rd, of address table entry] w2 p2 tb(2)
    by (simp_all add: s3_def Let_def re load_page_def put_def fun_eq_iff)
  have tp: "path_tables (phys s2) ?root ?is = read_tables (phys s2) ?root ?is @ [table]" using walk3_path [OF w2(1)] .
  then have gt: "g \<noteq> table" "g \<notin> set (read_tables (phys s2) ?root ?is)" "table \<notin> set (read_tables (phys s2) ?root ?is)"
    using fp(2) later(2) w2(2) unfolding fault_ready_def by auto
  have "walk3 True s3 ?root ?is = Some table"
  proof (rule walk3_aged [OF w2(1) indexes_bound(1) al], intro allI impI)
    fix a assume a: "page_base a \<in> set (read_tables (phys s2) ?root ?is)"
    then have "a \<noteq> pointer" "page_base a \<noteq> g" using pb gt by auto
    then have "phys s3 a = phys s2' a" by (simp add: si(2) load_page_def in_page_iff)
    then show "phys s3 a = phys s2 a \<or> phys s3 a = phys s2 a AND NOT ACCESSED" using fp(4) [OF a] by simp
  qed
  then have "leaf_entry ?root address s3 = Some ?v" using walk3_weaken by (auto simp: leaf_entry_def tb(2) si(2))
  moreover have "phys s3 (entry_ptr g i) = phys s (entry_ptr frame i)" if i: "i < 512" for i
  proof -
    have "page_base (entry_ptr g i) = g" using fp(1) i by simp
    then have "entry_ptr g i \<noteq> pointer" using pb gt by auto
    then show ?thesis using words [OF i] load_page_word [OF fp(1) i, of frame "s\<lparr> phys := m \<rparr>" s2'] by (simp add: si(2))
  qed
  moreover have "slot \<in> free_slots (swap_state s3)"
    using swap_pool.give_avail [of "(swap_state s2')\<lparr> faults_in := faults_in (swap_state s2') + 1 \<rparr>" slot] fp(7,8) lt
    by (auto simp: si(3) swap_wf_def free_slots_def slot_used_def)
  ultimately show ?thesis using si(1) by blast
qed

text \<open>
  C3: A page survives eviction. After it was evicted its frame may be given to others and overwritten, other pages may
  be evicted, loaded and changed, and files written: as long as its own table entries and the sectors of its
  slot are left alone, the fault that touches it brings it back into whatever frame there is, a free one or one taken
  from yet another page. It then has the entry it had before, but for the accessed bit and the frame, and in the new
  frame all 512 words it had before, read from the disk; its swap slot is free again. Only a page that no other
  space shares is evicted, and its slot was free before.
\<close>

theorem evict_swap_in:
  assumes "space_ok s" "replacers_wf (replacers s)" "swap_wf (swap_state s)"
    "\<forall>n. drive_error (drive s) n = None" "flush_error s = None"
    "evict_one (cr3 s) s = (Some frame, s1)"
  shows "\<exists>address e pointer slot. (address, e, pointer) \<in> set (user_pages (cr3 s) s) \<and> frame = e AND ADDRESS_MASK \<and> \<not> is_shared frame s \<and>
    slot \<in> free_slots (swap_state s) - free_slots (swap_state s1) \<and>
    (\<forall>s2 g s2'. left_alone s1 address slot s2 \<and> fault_ready s2 address \<and> allocate_or_evict s2 = (Some g, s2') \<longrightarrow>
      (\<exists>s3. swap_in address s2 = (True, s3) \<and>
        leaf_entry (cr3 s) address s3 \<in> {Some (g OR (e AND NOT ADDRESS_MASK)), Some (g OR (e AND NOT ADDRESS_MASK AND NOT ACCESSED))} \<and>
        (\<forall>i < 512. phys s3 (entry_ptr g i) = phys s (entry_ptr frame i)) \<and> slot \<in> free_slots (swap_state s3)))"
proof -
  let ?root = "cr3 s"
  obtain address pointer entry slot m where ev: "evicted ?root s frame s1 address pointer entry slot m"
    using evict_one_Some [OF assms(2,6)] by blast
  have ag: "aged (phys s) m" "entry = m pointer" "\<not> is_shared frame s" using ev unfolding evicted_def by blast+
  obtain table where tb: "walk3 True s ?root (take 3 (indexes address)) = Some table" "pointer = entry_ptr table (indexes address ! 3)"
      "frame = phys s pointer AND ADDRESS_MASK"
    using evicted_path [OF assms(1) ev] by metis
  have page: "(address, phys s pointer, pointer) \<in> set (user_pages ?root s)" using ev unfolding evicted_def by blast
  have e: "entry = phys s pointer \<or> entry = phys s pointer AND NOT ACCESSED" using ag(1,2) by (simp add: aged_def)
  have v: "(phys s pointer AND NOT ACCESSED) AND NOT ADDRESS_MASK = phys s pointer AND NOT ADDRESS_MASK AND NOT ACCESSED"
    by (simp add: ac_simps)
  have "\<exists>s3. swap_in address s2 = (True, s3) \<and>
      leaf_entry ?root address s3 \<in> {Some (g OR (phys s pointer AND NOT ADDRESS_MASK)), Some (g OR (phys s pointer AND NOT ADDRESS_MASK AND NOT ACCESSED))} \<and>
      (\<forall>i < 512. phys s3 (entry_ptr g i) = phys s (entry_ptr frame i)) \<and> slot \<in> free_slots (swap_state s3)"
    if "left_alone s1 address slot s2" "fault_ready s2 address" "allocate_or_evict s2 = (Some g, s2')" for s2 g s2'
    using evicted_returns [OF assms(1,3-5) ev that] e v by (elim exE) (rule exI, auto)
  then show ?thesis using page tb(3) ag(3) evicted_slots(2) [OF assms(3) ev assms(4,5)] by blast
qed

subsection \<open>Instances\<close>


text \<open>A memory with one user page: \<open>0x400000\<close>, in the frame \<open>0x300000\<close>, which holds some words.\<close>

definition demo_space :: Memory where
  "demo_space = \<lparr> phys = (\<lambda>_. 0)(0x100000 := 0x101007, 0x101000 := 0x102007, 0x102010 := 0x103007,
       0x103000 := 0x300027, 0x300000 := 42, 0x300FF8 := 7),
     fa_head = 0, fa_free = 0, fa_total = 4, cr3 = 0x100000, kernel_root = 0x100000,
     shared_tab = [], replacers = Replacers_init, swap_state = Swap_init,
     drive = \<lparr> sectors = (\<lambda>_. []), drive_error = (\<lambda>_. None) \<rparr>, flush_error = None \<rparr>"

lemma present_entries_one:
  assumes "i < 512" "e = phys s (entry_ptr t i)" "e AND PRESENT \<noteq> 0" "b \<longrightarrow> e AND HUGE = 0"
    "\<And>j. j < 512 \<Longrightarrow> j \<noteq> i \<Longrightarrow> phys s (entry_ptr t j) = 0"
  shows "present_entries s b t = [(i, e)]"
proof -
  have u: "[0..<512] = [0..<i] @ i # [Suc i..<512]"
    using assms(1) upt_add_eq_append [of 0 i "512 - i"] upt_conv_Cons [of i 512] by simp
  have z: "filter (\<lambda>(i, e). e AND PRESENT \<noteq> 0 \<and> \<not> (b \<and> e AND HUGE \<noteq> 0)) (map (\<lambda>i. (i, phys s (entry_ptr t i))) xs) = []"
    if "\<forall>j \<in> set xs. j < 512 \<and> j \<noteq> i" for xs
    using that assms(5) by (auto simp: filter_empty_conv)
  show ?thesis
    unfolding present_entries_def u map_append filter_append using assms(1-4) z [of "[0..<i]"] z [of "[Suc i..<512]"] by auto
qed

text \<open>The pages of a memory that differs from it in the entry of the page only.\<close>

lemma demo_entries:
  assumes "phys s = (phys demo_space)(0x103000 := v)" "v AND PRESENT \<noteq> 0" "v AND HUGE = 0"
    "(t, i) \<in> {(0x101000, 0), (0x102000, 2), (0x103000, 0)}"
  shows "present_entries s b t = [(i, phys s (entry_ptr t i))]"
proof (rule present_entries_one)
  fix j :: nat assume j: "j < 512" "j \<noteq> i"
  show "phys s (entry_ptr t j) = 0"
  proof (rule ccontr)
    assume "phys s (entry_ptr t j) \<noteq> 0"
    then have a: "entry_ptr t j \<in> {0x100000, 0x101000, 0x102010, 0x103000, 0x300000, 0x300FF8}"
      by (auto simp: assms(1) demo_space_def split: if_splits)
    have t: "aligned t" using assms(4) by (auto simp: aligned_def)
    have "page_base (entry_ptr t j) = t" using t j(1) by simp
    then have "entry_ptr t j = entry_ptr t i" using a assms(4) by (auto simp: page_base_def entry_ptr_def)
    then show False using entry_ptr_inj [of t j i] assms(4) j by auto
  qed
qed (use assms in \<open>auto simp: demo_space_def entry_ptr_def flag_defs\<close>)

lemma demo_pages_entry:
  assumes "phys s = (phys demo_space)(0x103000 := v)" "v AND PRESENT \<noteq> 0" "v AND HUGE = 0"
  shows "user_pages 0x100000 s = [(0x400000, v, 0x103000)]"
proof -
  have "present_entries s b 0x101000 = [(0, 0x102007)]" "present_entries s b 0x102000 = [(2, 0x103007)]"
      "present_entries s b 0x103000 = [(0, v)]" for b
    using demo_entries [OF assms, of "0x101000" 0 b] demo_entries [OF assms, of "0x102000" 2 b] demo_entries [OF assms, of "0x103000" 0 b]
    by (simp_all add: assms(1) entry_ptr_def) (simp_all add: demo_space_def)
  moreover have "phys s 0x100000 = 0x101007" by (simp add: assms(1) demo_space_def)
  ultimately show ?thesis by (simp add: user_pages_def entry_ptr_def flag_defs ADDRESS_MASK_def Let_def)
qed

lemma demo_pages: "user_pages 0x100000 demo_space = [(0x400000, 0x300027, 0x103000)]"
  by (rule demo_pages_entry) (auto simp: demo_space_def flag_defs)

lemma demo_space_ok: "space_ok demo_space"
proof -
  have "cr3 demo_space = 0x100000" by (simp add: demo_space_def)
  moreover have "path_tables (phys demo_space) 0x100000 (take 3 (indexes 0x400000)) = [0x100000, 0x101000, 0x102000, 0x103000]"
    by code_simp
  ultimately show ?thesis
    unfolding space_ok_def by (simp only: demo_pages) (simp add: demo_space_def aligned_def flag_defs ADDRESS_MASK_def page_base_def)
qed

definition demo_set :: PageSet where
  "demo_set = \<lparr> ps_pages = [(0x400000, 0x300027)], ps_shared = (\<lambda>frame. False) \<rparr>"

lemma demo_choose: "fst (replace_choose Replacers_init demo_set) = Some 0"
  by code_simp

lemma demo_set: "page_set (user_pages 0x100000 demo_space) demo_space = demo_set"
  unfolding demo_pages by (auto simp: page_set_def demo_set_def is_shared_def share_count_def demo_space_def)

lemma demo_fields: "cr3 demo_space = 0x100000" "replacers demo_space = Replacers_init" "swap_state demo_space = Swap_init"
  "drive_error (drive demo_space) n = None" "flush_error demo_space = None"
  by (simp_all add: demo_space_def)

lemma demo_slots: "free_slots Swap_init \<noteq> {}" "swap_wf Swap_init"
proof -
  have "\<not> slot_used Swap_init 0" by code_simp
  then have "0 \<in> free_slots Swap_init" by (simp add: free_slots_def)
  then show "free_slots Swap_init \<noteq> {}" by blast
  show "swap_wf Swap_init" by (simp add: swap_wf_def Swap_init_def)
qed

lemma demo_any_eligible: "any_eligible (page_set (user_pages 0x100000 demo_space) demo_space)"
proof -
  have "any_eligible demo_set" by code_simp
  then show ?thesis by (simp only: demo_set)
qed

lemmas demo_eviction = demo_any_eligible demo_fields demo_slots Replacers_init_wf

theorem evict_one_succeeds_witness: "\<exists>frame s'. evict_one 0x100000 demo_space = (Some frame, s')"
  by (rule evict_one_succeeds) (simp_all add: demo_eviction)

text \<open>
  The same memory later: the page is on disk, and its frame was used by another program, cleared, and
  given back.
\<close>

definition demo_later :: "u64 \<Rightarrow> Drive \<Rightarrow> Swap \<Rightarrow> Memory" where
  "demo_later v d sw = demo_space\<lparr> phys := (\<lambda>_. 0)(0x100000 := 0x101007, 0x101000 := 0x102007, 0x102010 := 0x103007, 0x103000 := v),
     fa_head := 0x300000, fa_free := 1, swap_state := sw, drive := d \<rparr>"

lemma demo_indexes: "indexes 0x400000 = [0, 0, 2, 0]" by code_simp

lemma demo_walk:
  assumes "phys s 0x100000 = 0x101007" "phys s 0x101000 = 0x102007" "phys s 0x102010 = 0x103007"
  shows "walk3 b s 0x100000 [0, 0, 2] = Some 0x103000" "read_tables (phys s) 0x100000 [0, 0, 2] = [0x100000, 0x101000, 0x102000]"
    "path_tables (phys s) 0x100000 [0, 0, 2] = [0x100000, 0x101000, 0x102000, 0x103000]"
  using assms by (simp_all add: entry_ptr_def flag_defs ADDRESS_MASK_def Let_def)

lemma demo_later_step:
  assumes "v AND PRESENT = 0" "aligned t" "i < 512" "phys (demo_later v d sw) (entry_ptr t i) AND PRESENT \<noteq> 0"
  shows "(t, phys (demo_later v d sw) (entry_ptr t i) AND ADDRESS_MASK) \<in> {(0x100000, 0x101000), (0x101000, 0x102000), (0x102000, 0x103000)}"
proof -
  have "entry_ptr t i \<in> {0x100000, 0x101000, 0x102010}" using assms(1,4) by (auto simp: demo_later_def split: if_splits)
  moreover have "page_base (entry_ptr t i) = t" using assms(2,3) by simp
  moreover have "page_base 0x100000 = 0x100000" "page_base 0x101000 = 0x101000" "page_base 0x102010 = 0x102000" by code_simp+
  ultimately show ?thesis by (auto simp: demo_later_def ADDRESS_MASK_def)
qed

lemma demo_later_pages:
  assumes "v AND PRESENT = 0"
  shows "user_pages 0x100000 (demo_later v d sw) = []"
proof -
  let ?s = "demo_later v d sw"
  have hg: "phys ?s 0x100000 AND HUGE = 0" by (simp add: demo_later_def flag_defs)
  have "False" if x: "(a, e, p) \<in> set (user_pages 0x100000 ?s)" for a e p
  proof -
    obtain i0 i1 i2 i3 where ix: "indexes a = [i0, i1, i2, i3]" by (simp add: indexes_def)
    then have ib: "i0 < 512" "i1 < 512" "i2 < 512" "i3 < 512" using indexes_less [of _ a] by simp_all
    obtain table where w: "walk3 True ?s 0x100000 [i0, i1, i2] = Some table" "phys ?s (entry_ptr table i3) AND PRESENT \<noteq> 0"
      using x unfolding user_pages_iff [OF hg] by (auto simp: ix)
    have root: "aligned 0x100000" by (simp add: aligned_def)
    note step = demo_later_step [OF assms, where d = d and sw = sw]
    have s1: "phys ?s (entry_ptr 0x100000 i0) AND ADDRESS_MASK = 0x101000" using w(1) step [OF root ib(1)] by (auto simp: Let_def split: if_splits)
    have a1: "aligned 0x101000" by (simp add: aligned_def)
    have s2: "phys ?s (entry_ptr 0x101000 i1) AND ADDRESS_MASK = 0x102000"
      using w(1) step [OF a1 ib(2)] by (auto simp: Let_def s1 split: if_splits)
    have a2: "aligned 0x102000" by (simp add: aligned_def)
    have s3: "phys ?s (entry_ptr 0x102000 i2) AND ADDRESS_MASK = 0x103000"
      using w(1) step [OF a2 ib(3)] by (auto simp: Let_def s1 s2 split: if_splits)
    have "table = 0x103000" using w(1) by (auto simp: Let_def s1 s2 s3 split: if_splits)
    moreover have "aligned 0x103000" by (simp add: aligned_def)
    ultimately show False using step [of "0x103000", OF _ ib(4)] w(2) by simp
  qed
  then show ?thesis by (cases "user_pages 0x100000 ?s") auto
qed

lemma demo_later_ready:
  assumes "v AND PRESENT = 0" "swap_wf sw" "\<forall>n. drive_error d n = None"
  shows "fault_ready (demo_later v d sw) 0x400000"
proof -
  let ?s = "demo_later v d sw"
  have cr: "cr3 ?s = 0x100000" by (simp add: demo_later_def demo_space_def)
  have f: "free_frames ?s = {0x300000}" "frames_wf ?s"
    by (simp_all add: free_frames_def frames_wf_def demo_later_def aligned_def)
  have w: "path_tables (phys ?s) 0x100000 (take 3 (indexes 0x400000)) = [0x100000, 0x101000, 0x102000, 0x103000]"
    unfolding demo_indexes using demo_walk(3) [of ?s] by (simp add: demo_later_def)
  have "replacers_wf (replacers ?s)" "flush_error ?s = None" "swap_state ?s = sw" "drive ?s = d" "aligned 0x100000"
    using demo_eviction by (simp_all add: demo_later_def demo_space_def aligned_def)
  moreover have "phys ?s 0x100000 AND HUGE = 0" by (simp add: demo_later_def flag_defs)
  ultimately show ?thesis unfolding fault_ready_def cr demo_later_pages [OF assms(1)] w f using assms f(2) by simp
qed

theorem evict_swap_in_witness:
  "\<exists>frame s1 s2 s3. evict_one 0x100000 demo_space = (Some frame, s1) \<and> drive s2 = drive s1 \<and> phys s2 0x300000 = 0 \<and> phys s2 0x300FF8 = 0 \<and>
     swap_in 0x400000 s2 = (True, s3) \<and> phys s3 0x300000 = 42 \<and> phys s3 0x300FF8 = 7"
proof -
  note df = demo_fields
  obtain frame s1 where e: "evict_one (cr3 demo_space) demo_space = (Some frame, s1)"
    using eviction_possible [of demo_space "0x100000"] by (auto simp: demo_eviction)
  obtain a p en sl m where ev: "evicted 0x100000 demo_space frame s1 a p en sl m"
    using evict_one_Some [OF _ e] by (auto simp: demo_eviction)
  have dr: "\<forall>n. drive_error (drive demo_space) n = None" "flush_error demo_space = None" "swap_wf (swap_state demo_space)" by (simp_all add: demo_eviction)
  have "(a, phys demo_space p, p) \<in> set (user_pages 0x100000 demo_space)" using ev unfolding evicted_def by blast
  then have p: "a = 0x400000" "p = 0x103000" by (simp_all add: demo_pages)
  have ph: "phys s1 = m(0x103000 := swapped_entry sl en)" "cr3 s1 = 0x100000"
      "\<And>a. a \<notin> (\<lambda>x. snd (snd x)) ` set (user_pages 0x100000 demo_space) \<Longrightarrow> m a = phys demo_space a"
    using ev df(1) unfolding evicted_def p(2) by simp_all
  have lt: "sl < SLOTS" using evicted_slots(1) [OF dr(3)] ev dr by (simp add: df(1))
  let ?v = "swapped_entry sl en"
  define s2 where "s2 = demo_later ?v (drive s1) (swap_state s1)"
  have off: "?v AND PRESENT = 0" by (rule swapped_word(1) [OF lt])
  have "m a = phys demo_space a" if "a \<noteq> 0x103000" for a using ph(3) [of a] that by (simp add: demo_pages)
  then have m: "phys s1 0x100000 = 0x101007" "phys s1 0x101000 = 0x102007" "phys s1 0x102010 = 0x103007"
    by (simp_all add: ph(1) demo_space_def)
  have wo: "\<exists>sw. write_out None (drive demo_space) sl (page_bytes frame (demo_space\<lparr> phys := m \<rparr>)) sw = (Inr (), drive s1, swap_state s1) \<and>
      allocate_slot (swap_state demo_space) = Some (sl, sw)"
    using ev dr(2) unfolding evicted_def by auto
  then obtain sw where wo: "write_out None (drive demo_space) sl (page_bytes frame (demo_space\<lparr> phys := m \<rparr>)) sw = (Inr (), drive s1, swap_state s1)"
      "allocate_slot (swap_state demo_space) = Some (sl, sw)" by blast
  note ws = write_out_sectors(1,2) [OF dr(1) lt length_page_bytes wo(1)]
  have "swap_wf (swap_state s1)" using ws(2) swap_pool.take_Some [OF dr(3) wo(2)] by (simp add: swap_wf_def)
  then have ready: "fault_ready s2 0x400000" unfolding s2_def using demo_later_ready [OF off] ws(1) dr(1) by simp
  have s2: "cr3 s2 = 0x100000" "phys s2 0x100000 = 0x101007" "phys s2 0x101000 = 0x102007" "phys s2 0x102010 = 0x103007"
      "phys s2 0x103000 = ?v" "drive s2 = drive s1" "swap_state s2 = swap_state s1" "phys s2 0x300000 = 0" "phys s2 0x300FF8 = 0"
    by (simp_all add: s2_def demo_later_def demo_space_def)
  have alone: "left_alone s1 0x400000 slot s2" if "slot \<notin> free_slots (swap_state s1)" for slot
    using that s2(1,5-7) ph(1,2) demo_walk(1) [OF m] demo_walk(1) [OF s2(2-4)]
    by (simp add: left_alone_def leaf_entry_def demo_indexes entry_ptr_def del: walk3.simps)
  obtain s2' where al: "allocate_or_evict s2 = (Some 0x300000, s2')"
    by (auto simp: allocate_or_evict_def frame_allocate_def s2_def demo_later_def)
  obtain address x ptr slot where r: "(address, x, ptr) \<in> set (user_pages (cr3 demo_space) demo_space)" "frame = x AND ADDRESS_MASK"
      "slot \<in> free_slots (swap_state demo_space) - free_slots (swap_state s1)"
      "\<forall>s2 g s2'. left_alone s1 address slot s2 \<and> fault_ready s2 address \<and> allocate_or_evict s2 = (Some g, s2') \<longrightarrow>
        (\<exists>s3. swap_in address s2 = (True, s3) \<and> (\<forall>i < 512. phys s3 (entry_ptr g i) = phys demo_space (entry_ptr frame i)))"
    using evict_swap_in [OF demo_space_ok _ dr(3,1,2) e] by (simp add: demo_eviction) blast
  have a: "address = 0x400000" "x = 0x300027" using r(1) by (simp_all add: df(1) demo_pages)
  have fr: "frame = 0x300000" using r(2) a(2) by (simp add: ADDRESS_MASK_def)
  obtain s3 where s3: "swap_in 0x400000 s2 = (True, s3)" "\<forall>i < 512. phys s3 (entry_ptr 0x300000 i) = phys demo_space (entry_ptr 0x300000 i)"
    using r(3,4) alone [of slot] ready al unfolding a(1) fr by blast
  have "phys s3 0x300000 = 42" "phys s3 0x300FF8 = 7"
    using s3(2) [rule_format, of 0] s3(2) [rule_format, of 511] by (simp_all add: entry_ptr_def demo_space_def)
  then show ?thesis using e s3(1) s2(6,8,9) by (auto simp: df(1))
qed

subsection \<open>A copy-on-write fault with no frame left\<close>

text \<open>The page of \<open>demo_space\<close> after a fork: marked copy-on-write, its frame has two owners, and no frame is free.\<close>

definition demo_cow :: Memory where
  "demo_cow = demo_space\<lparr> phys := (phys demo_space)(0x103000 := 0x300225), shared_tab := [(0x300000, 2)] \<rparr>"

lemma demo_cow_unshared: "unshare 0x300000 demo_cow = (1, demo_cow\<lparr> shared_tab := [] \<rparr>)"
  by (simp add: unshare_def demo_cow_def swap_remove_def)

lemma demo_cow_evicts:
  "\<exists>s1. allocate_or_evict (demo_cow\<lparr> shared_tab := [] \<rparr>) = (Some 0x300000, s1)"
proof -
  let ?s = "demo_cow\<lparr> shared_tab := [] \<rparr>"
  have f: "cr3 ?s = 0x100000" "replacers ?s = Replacers_init" "swap_state ?s = Swap_init" "\<forall>n. drive_error (drive ?s) n = None" "flush_error ?s = None"
      "fa_head ?s = 0" by (simp_all add: demo_cow_def demo_space_def)
  have pages: "user_pages 0x100000 ?s = [(0x400000, 0x300225, 0x103000)]"
    by (rule demo_pages_entry) (simp_all add: demo_cow_def flag_defs)
  have "page_set (user_pages 0x100000 ?s) ?s = \<lparr> ps_pages = [(0x400000, 0x300225)], ps_shared = (\<lambda>frame. False) \<rparr>"
    unfolding pages by (auto simp: page_set_def is_shared_def share_count_def demo_cow_def)
  moreover have "any_eligible \<lparr> ps_pages = [(0x400000, 0x300225)], ps_shared = (\<lambda>frame. False) \<rparr>" by code_simp
  ultimately have "any_eligible (page_set (user_pages 0x100000 ?s) ?s)" by simp
  then obtain frame s1 where e: "evict_one 0x100000 ?s = (Some frame, s1)"
    using eviction_possible [of ?s "0x100000"] f demo_slots Replacers_init_wf by auto
  then obtain a p en sl m where ev: "evicted 0x100000 ?s frame s1 a p en sl m"
    using evict_one_Some [OF _ e] f Replacers_init_wf by auto
  have "(a, phys ?s p, p) \<in> set (user_pages 0x100000 ?s)" "en = phys ?s p \<or> en = phys ?s p AND NOT ACCESSED" "frame = en AND ADDRESS_MASK"
    using ev unfolding evicted_def aged_def by blast+
  then have "frame = 0x300000" unfolding pages by (auto simp: demo_cow_def flag_defs ADDRESS_MASK_def)
  moreover have "frame_allocate ?s = None" using f(6) by (simp add: frame_allocate_def)
  ultimately show ?thesis using e f(1) by (simp add: allocate_or_evict_def)
qed

text \<open>
  With no free frame a copy-on-write fault can hand the writer the very frame that another owner still
  maps. Its own share is dropped first, which makes the faulting page the one to evict; the frame that eviction
  returns is then the shared frame itself, and the fault ends with a writable entry for it.
\<close>

theorem cow_fault_evicts_own_page:
  "owners demo_cow 0x300000 = 2 \<and> cow_page demo_cow 0x400000 0x103000 0x300225 \<and>
   (\<exists>s'. cow_fault 0x400000 demo_cow = (True, s') \<and> phys s' 0x103000 = 0x300027)"
proof (intro conjI)
  show "owners demo_cow 0x300000 = 2" by (simp add: owners_def demo_cow_def)
  have w: "walk3 b demo_cow 0x100000 [0, 0, 2] = Some 0x103000" for b
    by (rule demo_walk(1)) (simp_all add: demo_cow_def demo_space_def)
  have cr: "cr3 demo_cow = 0x100000" by (simp add: demo_cow_def demo_space_def)
  show cow: "cow_page demo_cow 0x400000 0x103000 0x300225"
  proof -
    have "phys demo_cow 0x103000 = 0x300225" by (simp add: demo_cow_def)
    then show ?thesis using w by (simp add: cow_page_def cr demo_indexes entry_ptr_def flag_defs page_base_def del: walk3.simps)
  qed
  obtain s1 where "allocate_or_evict (demo_cow\<lparr> shared_tab := [] \<rparr>) = (Some 0x300000, s1)" using demo_cow_evicts by blast
  moreover have "share_count 0x300000 demo_cow > 1" by (simp add: share_count_def demo_cow_def)
  ultimately show "\<exists>s'. cow_fault 0x400000 demo_cow = (True, s') \<and> phys s' 0x103000 = 0x300027"
    using cow_fault_unfold [OF cow] demo_cow_unshared
    by (simp add: Let_def demo_indexes entry_ptr_def flag_defs ADDRESS_MASK_def)
qed

end
