(* ===== verification/Heap.thy ===== *)
theory Heap
  imports Prelude
begin

text \<open>
  \<open>kernel/src/heap.rs\<close>: the kernel's allocator, a free list of holes sorted by address and
  threaded through the free memory itself.

  Addresses and sizes are \<open>usize\<close> and are natural numbers here; \<open>usize_add\<close> writes out the
  wrap-around of a sum, \<open>align_up\<close> computes on words. The memory is seen as a store of \<open>Hole\<close>
  nodes by address: holes of the list are at least 16 bytes long and disjoint, so the nodes at
  two of their addresses do not overlap. The pointer loops are partial functions, where \<open>None\<close>
  is a loop that never ends; on the lists the allocator builds they are shown to return.
\<close>

abbreviation (input) HEAP_START :: nat where "HEAP_START \<equiv> 0x444444440000"
abbreviation (input) HEAP_SIZE :: nat where "HEAP_SIZE \<equiv> 2097152"
abbreviation (input) HOLE_BYTES :: nat where "HOLE_BYTES \<equiv> 16"
abbreviation (input) HOLE_ALIGN :: nat where "HOLE_ALIGN \<equiv> 8"

record Hole =
  hsize :: nat
  hnext :: nat

type_synonym Store = "nat \<Rightarrow> Hole"

record LinkedListAllocator =
  head_ptr :: nat
  allocated :: nat
  live_allocations :: nat

type_synonym HeapState = "Store \<times> LinkedListAllocator"

definition LinkedListAllocator_new :: LinkedListAllocator where
  "LinkedListAllocator_new = \<lparr> head_ptr = 0, allocated = 0, live_allocations = 0 \<rparr>"

definition usize_add :: "nat \<Rightarrow> nat \<Rightarrow> nat" where
  "usize_add a b = (a + b) mod 2 ^ 64"

definition usize_sub :: "nat \<Rightarrow> nat \<Rightarrow> nat" where
  "usize_sub a b = (if b \<le> a then a - b else a + 2 ^ 64 - b)"

definition hole_end :: "Store \<Rightarrow> nat \<Rightarrow> nat" where
  "hole_end m p = usize_add p (hsize (m p))"

definition align_up :: "nat \<Rightarrow> nat \<Rightarrow> nat" where
  "align_up address align =
     unat ((word_of_nat address + word_of_nat align - 1) AND NOT (word_of_nat align - 1) :: u64)"

partial_function (option) locate :: "Store \<Rightarrow> nat \<Rightarrow> nat \<Rightarrow> nat \<Rightarrow> (nat \<times> nat) option" where
  "locate m address previous current =
     (if current \<noteq> 0 \<and> current < address then locate m address current (hnext (m current))
      else Some (previous, current))"

definition add_region :: "nat \<Rightarrow> nat \<Rightarrow> HeapState \<Rightarrow> HeapState option" where
  "add_region address sz st =
     (let (m, al) = st; hole = address; m = m(hole := \<lparr> hsize = sz, hnext = 0 \<rparr>)
      in case locate m address 0 (head_ptr al) of
           None \<Rightarrow> None
         | Some (previous, current) \<Rightarrow>
             (let m = m(hole := (m hole)\<lparr> hnext := current \<rparr>);
                  (m, al) = (if previous = 0 then (m, al\<lparr> head_ptr := hole \<rparr>)
                             else (m(previous := (m previous)\<lparr> hnext := hole \<rparr>), al));
                  m = (if current \<noteq> 0 \<and> hole_end m hole = current
                       then m(hole := \<lparr> hsize = usize_add (hsize (m hole)) (hsize (m current)),
                                        hnext = hnext (m current) \<rparr>)
                       else m);
                  m = (if previous \<noteq> 0 \<and> hole_end m previous = address
                       then m(previous := \<lparr> hsize = usize_add (hsize (m previous)) (hsize (m hole)),
                                            hnext = hnext (m hole) \<rparr>)
                       else m)
              in Some (m, al)))"

definition fits :: "Store \<Rightarrow> nat \<Rightarrow> nat \<Rightarrow> nat \<Rightarrow> nat option" where
  "fits m hole sz align =
     (let start = align_up hole align
      in if start + sz \<ge> 2 ^ 64 then None
         else let fin = start + sz
              in if fin > hole_end m hole then None
                 else let front = usize_sub start hole
                      in if front > 0 \<and> front < HOLE_BYTES then None
                         else let rest = usize_sub (hole_end m hole) fin
                              in if rest > 0 \<and> rest < HOLE_BYTES then None else Some start)"

text \<open>The walk of \<open>take_region\<close>: \<open>Some None\<close> when no hole fits, else the hole, its predecessor and the start.\<close>

partial_function (option) find_fit ::
  "Store \<Rightarrow> nat \<Rightarrow> nat \<Rightarrow> nat \<Rightarrow> nat \<Rightarrow> (nat \<times> nat \<times> nat) option option" where
  "find_fit m sz align previous current =
     (if current = 0 then Some None
      else case fits m current sz align of
        Some start \<Rightarrow> Some (Some (previous, current, start))
      | None \<Rightarrow> find_fit m sz align current (hnext (m current)))"

definition take_region :: "nat \<Rightarrow> nat \<Rightarrow> HeapState \<Rightarrow> ((nat \<times> nat) option \<times> HeapState) option" where
  "take_region sz align st =
     (let (m, al) = st
      in case find_fit m sz align 0 (head_ptr al) of
           None \<Rightarrow> None
         | Some None \<Rightarrow> Some (None, st)
         | Some (Some (previous, current, start)) \<Rightarrow>
             (let region_start = current; region_end = hole_end m current; nxt = hnext (m current);
                  st = (if previous = 0 then (m, al\<lparr> head_ptr := nxt \<rparr>)
                        else (m(previous := (m previous)\<lparr> hnext := nxt \<rparr>), al));
                  fin = start + sz
              in case (if start > region_start then add_region region_start (start - region_start) st
                       else Some st) of
                   None \<Rightarrow> None
                 | Some st \<Rightarrow>
                     (case (if region_end > fin then add_region fin (region_end - fin) st else Some st) of
                        None \<Rightarrow> None
                      | Some st \<Rightarrow> Some (Some (start, sz), st))))"

text \<open>\<open>Layout::align_to\<close> fails (and \<open>expect\<close> panics, \<open>None\<close> here) when rounding up would pass \<open>isize::MAX\<close>.\<close>

record Layout =
  lsize :: nat
  lalign :: nat

definition adjust :: "Layout \<Rightarrow> (nat \<times> nat) option" where
  "adjust layout =
     (let align = max (lalign layout) HOLE_ALIGN
      in if lsize layout > 2 ^ 63 - align then None
         else let sz = (lsize layout + align - 1) div align * align
              in Some (max sz HOLE_BYTES, align))"

text \<open>A null pointer is \<open>0\<close>.\<close>

definition alloc :: "Layout \<Rightarrow> HeapState \<Rightarrow> (nat \<times> HeapState) option" where
  "alloc layout st = (case adjust layout of
     None \<Rightarrow> None
   | Some (sz, align) \<Rightarrow> (case take_region sz align st of
       None \<Rightarrow> None
     | Some (Some (start, sz), m, al) \<Rightarrow>
         Some (start, m, al\<lparr> allocated := usize_add (allocated al) sz,
                             live_allocations := usize_add (live_allocations al) 1 \<rparr>)
     | Some (None, st) \<Rightarrow> Some (0, st)))"

definition dealloc :: "nat \<Rightarrow> Layout \<Rightarrow> HeapState \<Rightarrow> HeapState option" where
  "dealloc p layout st = (case adjust layout of
     None \<Rightarrow> None
   | Some (sz, align) \<Rightarrow> (case add_region p sz st of
       None \<Rightarrow> None
     | Some (m, al) \<Rightarrow> Some (m, al\<lparr> allocated := usize_sub (allocated al) sz,
                                     live_allocations := usize_sub (live_allocations al) 1 \<rparr>)))"

partial_function (option) stats_walk :: "Store \<Rightarrow> nat \<Rightarrow> nat \<Rightarrow> nat \<Rightarrow> (nat \<times> nat) option" where
  "stats_walk m free holes current =
     (if current = 0 then Some (free, holes)
      else stats_walk m (usize_add free (hsize (m current))) (usize_add holes 1) (hnext (m current)))"

definition heap_stats :: "HeapState \<Rightarrow> (nat \<times> nat \<times> nat) option" where
  "heap_stats st = (let (m, al) = st in
     map_option (\<lambda>(free, holes). (free, holes, live_allocations al)) (stats_walk m 0 0 (head_ptr al)))"

text \<open>The last step of \<open>init\<close>, once the pages of the heap are mapped.\<close>

definition heap_init :: "HeapState \<Rightarrow> HeapState option" where
  "heap_init st = add_region HEAP_START HEAP_SIZE st"

section \<open>Alignment\<close>

lemma unat_pow2: "k < 64 \<Longrightarrow> unat (2 ^ k :: u64) = 2 ^ k"
proof -
  assume "k < 64"
  then have "(2 :: nat) ^ k < 2 ^ 64" by (intro power_strict_increasing) simp_all
  then have "unat (word_of_nat (2 ^ k) :: u64) = 2 ^ k"
    by (simp only: unsigned_of_nat take_bit_eq_mod) simp
  then show ?thesis by simp
qed

lemma clear_low_bits:
  assumes "k < 64" "n < 2 ^ 64"
  shows "unat (word_of_nat n AND NOT (mask k) :: u64) = n div 2 ^ k * 2 ^ k"
proof -
  have "(word_of_nat n AND NOT (mask k) :: u64) = push_bit k (drop_bit k (word_of_nat n))"
    by (rule bit_eqI) (auto simp: bit_simps)
  moreover have "unat (drop_bit k (word_of_nat n :: u64)) = n div 2 ^ k"
    using assms(2)
    by (subst unsigned_drop_bit_eq) (simp add: drop_bit_eq_div take_bit_eq_mod unsigned_of_nat)
  moreover have "n div 2 ^ k * 2 ^ k < 2 ^ 64"
    using assms(2) by (metis div_times_less_eq_dividend le_less_trans)
  ultimately show ?thesis
    using assms(1) by (simp add: push_bit_eq_mult unat_word_ariths unat_pow2)
qed

lemma align_up_pow2:
  assumes "k < 64" "address + 2 ^ k - 1 < 2 ^ 64"
  shows "align_up address (2 ^ k) = (address + 2 ^ k - 1) div 2 ^ k * 2 ^ k"
proof -
  have m: "word_of_nat (2 ^ k) - 1 = (mask k :: u64)"
    by (simp add: mask_eq_exp_minus_1)
  have "1 \<le> address + 2 ^ k" by (simp add: Suc_leI)
  then have "word_of_nat address + word_of_nat (2 ^ k) - 1 = (word_of_nat (address + 2 ^ k - 1) :: u64)"
    by (simp only: of_nat_diff of_nat_add of_nat_1)
  then show ?thesis
    by (simp only: align_up_def m clear_low_bits [OF assms])
qed

lemma align_up_bounds:
  assumes "k < 64" "address + 2 ^ k - 1 < 2 ^ 64"
  shows "address \<le> align_up address (2 ^ k)" "align_up address (2 ^ k) < address + 2 ^ k"
    "2 ^ k dvd align_up address (2 ^ k)"
proof -
  let ?n = "address + 2 ^ k - 1"
  have d: "?n div 2 ^ k * 2 ^ k + ?n mod 2 ^ k = ?n" by (rule div_mult_mod_eq)
  have "?n mod 2 ^ k < 2 ^ k" by simp
  moreover have "0 < (2 :: nat) ^ k" by simp
  ultimately show "address \<le> align_up address (2 ^ k)" "align_up address (2 ^ k) < address + 2 ^ k"
    using d unfolding align_up_pow2 [OF assms] by linarith+
  show "2 ^ k dvd align_up address (2 ^ k)" unfolding align_up_pow2 [OF assms] by simp
qed

section \<open>Lists of holes\<close>

text \<open>The holes from \<open>p\<close> up to, but not including, \<open>q\<close>, as start and size.\<close>

fun holes :: "Store \<Rightarrow> nat \<Rightarrow> (nat \<times> nat) list \<Rightarrow> nat \<Rightarrow> bool" where
  "holes m p [] q \<longleftrightarrow> p = q"
| "holes m p ((a, s) # hs) q \<longleftrightarrow> p = a \<and> a \<noteq> 0 \<and> hsize (m a) = s \<and> holes m (hnext (m a)) hs q"

lemma holes_append: "holes m p (xs @ ys) q \<longleftrightarrow> (\<exists>r. holes m p xs r \<and> holes m r ys q)"
  by (induction xs arbitrary: p) (auto split: prod.splits)

lemma holes_frame: "a \<notin> fst ` set hs \<Longrightarrow> holes (m(a := v)) p hs q = holes m p hs q"
  by (induction hs arbitrary: p) auto

lemma holes_head: "holes m p hs q \<Longrightarrow> hs \<noteq> [] \<Longrightarrow> p = fst (hd hs)"
  by (cases hs) auto

lemma holes_last:
  "holes m p (hs @ [(a, s)]) q \<longleftrightarrow> holes m p hs a \<and> a \<noteq> 0 \<and> hsize (m a) = s \<and> hnext (m a) = q"
  by (auto simp: holes_append)

lemma locate_holes:
  "holes m p hs c \<Longrightarrow> (\<forall>h \<in> set hs. fst h < a) \<Longrightarrow> c = 0 \<or> a \<le> c \<Longrightarrow>
   locate m a prev p = Some (if hs = [] then prev else fst (last hs), c)"
proof (induction hs arbitrary: p prev)
  case Nil
  then show ?case by (subst locate.simps) auto
next
  case (Cons h hs)
  obtain b s where h: "h = (b, s)" by (cases h)
  have "locate m a prev p = locate m a b (hnext (m b))"
    using Cons.prems h by (subst locate.simps) auto
  then show ?case using Cons.IH [of "hnext (m b)" b] Cons.prems h by auto
qed

text \<open>
  A free list is well formed between two bounds when its holes are aligned, big enough to hold
  their own node, inside the bounds, sorted, and no two of them touch.
\<close>

fun free_list :: "nat \<Rightarrow> nat \<Rightarrow> (nat \<times> nat) list \<Rightarrow> bool" where
  "free_list lo hi [] \<longleftrightarrow> True"
| "free_list lo hi ((a, s) # hs) \<longleftrightarrow>
     lo \<le> a \<and> 8 dvd a \<and> 8 dvd s \<and> 16 \<le> s \<and> a + s \<le> hi \<and> free_list (a + s + 1) hi hs"

definition covered :: "(nat \<times> nat) list \<Rightarrow> nat set" where
  "covered hs = (\<Union>(a, s) \<in> set hs. {a ..< a + s})"

lemma covered_simps [simp]:
  "covered [] = {}" "covered ((a, s) # hs) = {a ..< a + s} \<union> covered hs"
  "covered (xs @ ys) = covered xs \<union> covered ys"
  by (auto simp: covered_def)

lemma free_list_mono: "free_list lo hi hs \<Longrightarrow> lo' \<le> lo \<Longrightarrow> free_list lo' hi hs"
  by (cases hs) auto

lemma free_list_bounds:
  "free_list lo hi hs \<Longrightarrow> (a, s) \<in> set hs \<Longrightarrow> lo \<le> a \<and> 8 dvd a \<and> 8 dvd s \<and> 16 \<le> s \<and> a + s \<le> hi"
proof (induction hs arbitrary: lo)
  case (Cons h hs)
  obtain b t where h: "h = (b, t)" by (cases h)
  show ?case
  proof (cases "(a, s) = h")
    case False
    then show ?thesis using Cons.IH [of "b + t + 1"] Cons.prems h by auto
  qed (use Cons.prems in auto)
qed simp

lemma free_list_covered: "free_list lo hi hs \<Longrightarrow> covered hs \<subseteq> {lo ..< hi}"
  using free_list_bounds by (fastforce simp: covered_def)

lemma free_list_append:
  "free_list lo hi (xs @ (a, s) # ys) \<longleftrightarrow>
     free_list lo (a - 1) xs \<and> 8 dvd a \<and> 8 dvd s \<and> 16 \<le> s \<and> a + s \<le> hi \<and> lo \<le> a \<and>
     (xs \<noteq> [] \<longrightarrow> 0 < a) \<and> free_list (a + s + 1) hi ys"
proof (induction xs arbitrary: lo)
  case (Cons x xs)
  obtain b t where x: "x = (b, t)" by (cases x)
  show ?case using Cons.IH [of "b + t + 1"] by (auto simp: x)
qed auto

end
