(* ===== verification/Heap_Correct.thy ===== *)
theory Heap_Correct
  imports Heap
begin

text \<open>
  Correctness of the kernel heap: what returning and taking a region do to the free list in the
  store, the partition of the heap into holes and live blocks that every allocation and release
  keeps, and the contract of an allocator, interpreted on \<open>alloc\<close> and \<open>dealloc\<close>.
\<close>

section \<open>Returning a region\<close>

text \<open>The list after a region is added: it is linked in front of the holes behind it and joined on both sides.\<close>

fun join_next :: "nat \<times> nat \<Rightarrow> (nat \<times> nat) list \<Rightarrow> (nat \<times> nat) list" where
  "join_next (a, s) [] = [(a, s)]"
| "join_next (a, s) ((c, t) # hs) = (if a + s = c then (a, s + t) # hs else (a, s) # (c, t) # hs)"

fun join_previous :: "(nat \<times> nat) list \<Rightarrow> (nat \<times> nat) list \<Rightarrow> (nat \<times> nat) list" where
  "join_previous bs [] = bs"
| "join_previous bs ((a, s) # hs) =
     (if bs \<noteq> [] \<and> fst (last bs) + snd (last bs) = a
      then butlast bs @ (fst (last bs), snd (last bs) + s) # hs else bs @ (a, s) # hs)"

lemma join_next_shape: "\<exists>s' hs'. join_next (a, s) hs = (a, s') # hs' \<and> s \<le> s'"
  by (cases "((a, s), hs)" rule: join_next.cases) auto

lemma free_list_split:
  "free_list lo hi (xs @ ys) \<Longrightarrow> free_list lo hi xs \<and> free_list lo hi ys"
proof (induction xs arbitrary: lo)
  case (Cons x xs)
  obtain a s where x: "x = (a, s)" by (cases x)
  then have "free_list (a + s + 1) hi xs \<and> free_list (a + s + 1) hi ys"
    using Cons.IH [of "a + s + 1"] Cons.prems by simp
  then show ?case
    using Cons.prems free_list_mono [of "a + s + 1" hi ys lo] by (simp add: x)
qed simp

lemma free_list_distinct: "free_list lo hi hs \<Longrightarrow> distinct (map fst hs)"
proof (induction hs arbitrary: lo)
  case (Cons h hs)
  obtain a s where h: "h = (a, s)" by (cases h)
  have "a \<notin> fst ` set hs"
    using Cons.prems free_list_bounds [of "a + s + 1" hi hs] by (fastforce simp: h)
  then show ?case using Cons h by auto
qed simp

lemma join_next_free:
  assumes "free_list (a + s) hi hs" "8 dvd a" "8 dvd s" "16 \<le> s" "a + s \<le> hi"
  shows "free_list a hi (join_next (a, s) hs) \<and> covered (join_next (a, s) hs) = {a ..< a + s} \<union> covered hs"
proof (cases hs)
  case (Cons h hs')
  then show ?thesis using assms by (cases h) (auto simp: add.assoc)
qed (use assms in auto)

lemma join_previous_free:
  assumes "free_list lo hi bs" "\<forall>(p, t) \<in> set bs. p + t \<le> a" "free_list a hi ((a, s) # hs)" "lo \<le> a"
  shows "free_list lo hi (join_previous bs ((a, s) # hs)) \<and>
    covered (join_previous bs ((a, s) # hs)) = covered bs \<union> covered ((a, s) # hs)"
proof (cases bs rule: rev_cases)
  case Nil
  then show ?thesis using assms by (auto intro: free_list_mono)
next
  case (snoc bs' h)
  obtain p t where h: "h = (p, t)" by (cases h)
  have pt: "p + t \<le> a" using assms(2) by (auto simp: snoc h)
  have b: "free_list lo (p - 1) bs'" "8 dvd p" "8 dvd t" "16 \<le> t" "lo \<le> p" "bs' \<noteq> [] \<longrightarrow> 0 < p"
    using assms(1) by (auto simp: snoc h free_list_append)
  show ?thesis
  proof (cases "p + t = a")
    case True
    then show ?thesis
      using assms(3) b by (auto simp: snoc h free_list_append add.assoc)
  next
    case False
    then have "free_list lo hi (bs' @ (p, t) # (a, s) # hs)"
      unfolding free_list_append using assms(3) b pt by auto
    then show ?thesis
      using False by (auto simp: snoc h)
  qed
qed

lemma holes_relink:
  assumes "holes m p (bs @ [(b, t)]) q" "b \<notin> fst ` set bs"
  shows "holes (m(b := \<lparr> hsize = t', hnext = r \<rparr>)) p (bs @ [(b, t')]) r"
  using assms by (auto simp: holes_last holes_frame)

text \<open>Where a region that is disjoint from the list belongs.\<close>

lemma region_place:
  assumes fl: "free_list lo hi hs" and dis: "{a ..< a + s} \<inter> covered hs = {}" and s: "16 \<le> s"
  obtains bs cs where "hs = bs @ cs" "\<forall>(p, t) \<in> set bs. p < a \<and> p + t \<le> a"
    "\<forall>(c, t) \<in> set cs. a + s \<le> c" "free_list (a + s) hi cs" "a \<notin> fst ` set hs"
proof -
  let ?bs = "takeWhile (\<lambda>h. fst h < a) hs" and ?cs = "dropWhile (\<lambda>h. fst h < a) hs"
  have sz: "16 \<le> t" "{p ..< p + t} \<inter> {a ..< a + s} = {}" if "(p, t) \<in> set hs" for p t
    using free_list_bounds [OF fl that] dis that unfolding covered_def by blast+
  have out: "p + t \<le> a \<or> a + s \<le> p" if "(p, t) \<in> set hs" for p t
  proof (rule ccontr)
    assume "\<not> ?thesis"
    then have "max p a \<in> {p ..< p + t} \<inter> {a ..< a + s}" using sz(1) [OF that] s by auto
    then show False using sz(2) [OF that] by blast
  qed
  have bs: "p < a \<and> p + t \<le> a" if "(p, t) \<in> set ?bs" for p t
  proof -
    have "(p, t) \<in> set hs" "p < a" using that by (auto dest: set_takeWhileD)
    then show ?thesis using out [of p t] by auto
  qed
  have cs: "\<forall>(c, t) \<in> set ?cs. a + s \<le> c" and fc: "free_list (a + s) hi ?cs"
  proof -
    have f: "free_list lo hi ?cs"
      using fl free_list_split [of lo hi ?bs ?cs] by simp
    show "free_list (a + s) hi ?cs"
    proof (cases ?cs)
      case (Cons h cs')
      then obtain c t where h: "h = (c, t)" "\<not> c < a" "(c, t) \<in> set hs"
        by (cases h) (metis dropWhile_eq_Cons_conv fst_conv list.set_intros(1) set_dropWhileD)
      then have "a + s \<le> c" using out [of c t] sz [of c t] by auto
      then show ?thesis using f Cons h by auto
    next
      case Nil
      then show ?thesis by (simp only: free_list.simps)
    qed
    then show "\<forall>(c, t) \<in> set ?cs. a + s \<le> c" using free_list_bounds by fastforce
  qed
  have "a \<notin> fst ` set hs" using out sz s by force
  then show ?thesis
    using that [of ?bs ?cs] bs cs fc by (auto dest: bs)
qed

lemma holes_split_end:
  "holes m p (bs @ cs) 0 \<Longrightarrow> holes m p bs (if cs = [] then 0 else fst (hd cs)) \<and>
     holes m (if cs = [] then 0 else fst (hd cs)) cs 0"
  by (cases cs) (auto simp: holes_append)

text \<open>
  The two halves of \<open>add_region\<close> on the store: joining the new node with the hole behind it, and
  joining the hole in front of it with the new node.
\<close>

lemma join_next_store:
  assumes "holes m c cs 0" "a \<noteq> 0" "a \<notin> fst ` set cs" "m a = \<lparr> hsize = s, hnext = c \<rparr>"
    "a + s \<le> hi" "free_list (a + s) hi cs" "hi < 2 ^ 64"
  shows "holes (if c \<noteq> 0 \<and> hole_end m a = c
      then m(a := \<lparr> hsize = usize_add (hsize (m a)) (hsize (m c)), hnext = hnext (m c) \<rparr>) else m)
    a (join_next (a, s) cs) 0"
proof (cases cs)
  case Nil
  then show ?thesis using assms by auto
next
  case (Cons h cs')
  obtain c' t where h: "h = (c', t)" by (cases h)
  have e: "hole_end m a = a + s" using assms by (simp add: hole_end_def usize_add_def)
  have "s + t < 2 ^ 64" using assms(6,7) by (auto simp: Cons h)
  then have "usize_add s t = s + t" by (simp add: usize_add_def)
  then show ?thesis
    using assms e by (auto simp: Cons h holes_frame)
qed

lemma join_previous_store:
  assumes "holes m p0 bs a" "holes m a ((a, s) # hs) 0" "distinct (map fst (bs @ (a, s) # hs))"
    "\<forall>(p, t) \<in> set bs. p + t + s < 2 ^ 64"
    "prev = (if bs = [] then 0 else fst (last bs))"
  shows "holes (if prev \<noteq> 0 \<and> hole_end m prev = a
      then m(prev := \<lparr> hsize = usize_add (hsize (m prev)) (hsize (m a)), hnext = hnext (m a) \<rparr>) else m)
    p0 (join_previous bs ((a, s) # hs)) 0"
proof (cases bs rule: rev_cases)
  case Nil
  then show ?thesis using assms by auto
next
  case (snoc bs' h)
  obtain p t where h: "h = (p, t)" by (cases h)
  have pt: "p + t + s < 2 ^ 64" using assms(4) by (auto simp: snoc h)
  have b: "holes m p0 bs' p" "p \<noteq> 0" "hsize (m p) = t" "hnext (m p) = a"
    using assms(1) by (auto simp: snoc h holes_last)
  have e: "hole_end m p = p + t" "usize_add t s = t + s"
    using pt b by (simp_all add: hole_end_def usize_add_def)
  have d: "p \<notin> fst ` set bs'" "p \<notin> fst ` set hs" "p \<noteq> a"
    using assms(3) by (auto simp: snoc h)
  have prev: "prev = p" using assms(5) by (simp add: snoc h)
  show ?thesis
  proof (cases "p + t = a")
    case True
    have "holes (m(p := \<lparr> hsize = t + s, hnext = hnext (m a) \<rparr>)) p0 (bs' @ (p, t + s) # hs) 0"
      using b d assms(2) by (auto simp: holes_append holes_frame)
    then show ?thesis
      using True assms(2) b e by (simp add: prev snoc h)
  next
    case False
    have "holes m p0 (bs' @ (p, t) # (a, s) # hs) 0"
      using b assms(2) by (auto simp: holes_append)
    then show ?thesis using False e b by (simp add: prev snoc h)
  qed
qed

text \<open>Linking the new node in between.\<close>

lemma link_store:
  assumes "holes m p0 bs c" "holes m c cs 0" "a \<notin> fst ` set (bs @ cs)" "distinct (map fst (bs @ cs))"
    "prev = (if bs = [] then 0 else fst (last bs))" "m a = \<lparr> hsize = s, hnext = c \<rparr>"
    "m3 = (if prev = 0 then m else m(prev := (m prev)\<lparr> hnext := a \<rparr>))"
  shows "holes m3 (if prev = 0 then a else p0) bs a \<and> m3 a = \<lparr> hsize = s, hnext = c \<rparr> \<and> holes m3 c cs 0"
proof (cases bs rule: rev_cases)
  case Nil
  then show ?thesis using assms by auto
next
  case (snoc bs' x)
  obtain p t where x: "x = (p, t)" by (cases x)
  have p: "prev = p" "p \<noteq> a" "p \<notin> fst ` set bs'" "p \<notin> fst ` set cs"
    using assms(3-5) by (auto simp: snoc x)
  have mp: "p \<noteq> 0" "hsize (m p) = t" using assms(1) by (auto simp: snoc x holes_last)
  then have m3: "m3 = m(p := \<lparr> hsize = t, hnext = a \<rparr>)" using assms(7) p by auto
  have "holes m3 p0 (bs' @ [(p, t)]) a"
    unfolding m3 using assms(1) by (intro holes_relink [OF _ p(3)]) (simp add: snoc x)
  moreover have "holes m3 c cs 0"
    using assms(2) p(4) unfolding m3 by (simp add: holes_frame)
  ultimately show ?thesis
    using p mp assms(6) unfolding m3 by (simp add: snoc x)
qed

lemma add_region_store:
  assumes h: "holes m (head_ptr al) (bs @ cs) 0" and d: "distinct (map fst (bs @ cs))"
    and bs: "\<forall>(p, t) \<in> set bs. p < a \<and> p + t \<le> a" and cs: "\<forall>(c, t) \<in> set cs. a + s \<le> c"
    and fc: "free_list (a + s) hi cs" and na: "a \<notin> fst ` set (bs @ cs)"
    and a: "a \<noteq> 0" "a + s \<le> hi" "hi < 2 ^ 64" "8 dvd a" "8 dvd s" "16 \<le> s"
  shows "\<exists>m' p'. add_region a s (m, al) = Some (m', al\<lparr> head_ptr := p' \<rparr>) \<and>
    holes m' p' (join_previous bs (join_next (a, s) cs)) 0"
proof -
  define c where "c = (if cs = [] then 0 else fst (hd cs))"
  define prev where "prev = (if bs = [] then 0 else fst (last bs))"
  define m1 where "m1 = m(a := \<lparr> hsize = s, hnext = 0 \<rparr>)"
  define m2 where "m2 = m1(a := (m1 a)\<lparr> hnext := c \<rparr>)"
  define m3 where "m3 = (if prev = 0 then m2 else m2(prev := (m2 prev)\<lparr> hnext := a \<rparr>))"
  define m4 where "m4 = (if c \<noteq> 0 \<and> hole_end m3 a = c
    then m3(a := \<lparr> hsize = usize_add (hsize (m3 a)) (hsize (m3 c)), hnext = hnext (m3 c) \<rparr>) else m3)"
  define m5 where "m5 = (if prev \<noteq> 0 \<and> hole_end m4 prev = a
    then m4(prev := \<lparr> hsize = usize_add (hsize (m4 prev)) (hsize (m4 a)), hnext = hnext (m4 a) \<rparr>) else m4)"
  define p where "p = (if prev = 0 then a else head_ptr al)"
  have nb: "a \<notin> fst ` set bs" "a \<notin> fst ` set cs" using na by auto
  have h0: "holes m (head_ptr al) bs c" "holes m c cs 0"
    using holes_split_end [OF h] by (auto simp: c_def)
  have h1: "holes m1 (head_ptr al) bs c"
    using h0 nb by (simp add: m1_def holes_frame)
  have h2: "holes m2 (head_ptr al) bs c" "holes m2 c cs 0" "m2 a = \<lparr> hsize = s, hnext = c \<rparr>"
    using h0 nb by (simp_all add: m1_def m2_def holes_frame)
  have loc: "locate m1 a 0 (head_ptr al) = Some (prev, c)"
    unfolding prev_def
    by (rule locate_holes [OF h1]) (use bs cs in \<open>auto simp: c_def neq_Nil_conv\<close>)
  have m3: "holes m3 p bs a" "m3 a = \<lparr> hsize = s, hnext = c \<rparr>" "holes m3 c cs 0"
    using link_store [OF h2(1,2) na d prev_def h2(3) m3_def] by (simp_all add: p_def)
  have m4: "holes m4 a (join_next (a, s) cs) 0" "holes m4 p bs a"
    using join_next_store [OF m3(3) a(1) nb(2) m3(2) a(2) fc a(3)] m3(1) nb
    by (simp_all add: m4_def holes_frame)
  obtain s' cs' where X: "join_next (a, s) cs = (a, s') # cs'" using join_next_shape by blast
  have fX: "a + s' \<le> hi" using join_next_free [OF fc a(4-6,2)] X by simp
  have "set cs' \<subseteq> set cs" "distinct (map fst cs) \<Longrightarrow> distinct (map fst cs')"
    using X by (cases cs; auto split: if_splits prod.splits)+
  then have d': "distinct (map fst (bs @ (a, s') # cs'))" using d na by auto
  have bd: "\<forall>(p, t) \<in> set bs. p + t + s' < 2 ^ 64" using bs fX a(3) by fastforce
  have "holes m5 p (join_previous bs ((a, s') # cs')) 0"
    unfolding m5_def by (rule join_previous_store [OF m4(2) m4(1) [unfolded X] d' bd prev_def])
  moreover have "add_region a s (m, al) = Some (m5, al\<lparr> head_ptr := p \<rparr>)"
    unfolding add_region_def using loc
    by (simp add: Let_def p_def m5_def m4_def m3_def m2_def m1_def)
  ultimately show ?thesis using X by auto
qed

definition heap_free :: "nat \<Rightarrow> nat \<Rightarrow> HeapState \<Rightarrow> (nat \<times> nat) list \<Rightarrow> bool" where
  "heap_free lo hi st hs \<longleftrightarrow>
     holes (fst st) (head_ptr (snd st)) hs 0 \<and> free_list lo hi hs \<and> 0 < lo \<and> hi < 2 ^ 64"

lemma add_region_spec:
  assumes hf: "heap_free lo hi st hs" and dis: "{a ..< a + s} \<inter> covered hs = {}"
    and r: "lo \<le> a" "8 dvd a" "8 dvd s" "16 \<le> s" "a + s \<le> hi"
  shows "\<exists>m' p' hs'. add_region a s st = Some (m', (snd st)\<lparr> head_ptr := p' \<rparr>) \<and>
    heap_free lo hi (m', (snd st)\<lparr> head_ptr := p' \<rparr>) hs' \<and> covered hs' = covered hs \<union> {a ..< a + s}"
proof -
  obtain m al where st: "st = (m, al)" by (cases st)
  have fl: "free_list lo hi hs" and h: "holes m (head_ptr al) hs 0" and b: "0 < lo" "hi < 2 ^ 64"
    using hf by (simp_all add: heap_free_def st)
  obtain bs cs where sp: "hs = bs @ cs" "\<forall>(p, t) \<in> set bs. p < a \<and> p + t \<le> a"
      "\<forall>(c, t) \<in> set cs. a + s \<le> c" "free_list (a + s) hi cs" and na: "a \<notin> fst ` set hs"
    by (rule region_place [OF fl dis r(4)])
  obtain m' p' where r': "add_region a s (m, al) = Some (m', al\<lparr> head_ptr := p' \<rparr>)"
      "holes m' p' (join_previous bs (join_next (a, s) cs)) 0"
    using add_region_store [of m al bs cs a s hi] h free_list_distinct [OF fl] sp na r b by auto
  obtain s' cs' where X: "join_next (a, s) cs = (a, s') # cs'" using join_next_shape by blast
  have fX: "free_list a hi ((a, s') # cs')" "covered ((a, s') # cs') = {a ..< a + s} \<union> covered cs"
    using join_next_free [OF sp(4) r(2-5)] X by simp_all
  have "free_list lo hi bs" using fl free_list_split [of lo hi bs cs] by (simp add: sp(1))
  moreover have "\<forall>(p, t) \<in> set bs. p + t \<le> a" using sp(2) by auto
  ultimately have "free_list lo hi (join_previous bs ((a, s') # cs'))"
      "covered (join_previous bs ((a, s') # cs')) = covered bs \<union> covered ((a, s') # cs')"
    using join_previous_free [OF _ _ fX(1) r(1)] by blast+
  then show ?thesis
    using r' b fX(2) unfolding st by (auto simp: heap_free_def X sp(1))
qed

section \<open>Taking a region\<close>

lemma fits_Some:
  assumes "fits m r sz (2 ^ k) = Some start" "r + hsize (m r) \<le> 2 ^ 63" "k < 64" "0 < hsize (m r)"
  shows "start = align_up r (2 ^ k)" "r \<le> start" "start + sz \<le> r + hsize (m r)"
    "start - r = 0 \<or> 16 \<le> start - r"
    "r + hsize (m r) - (start + sz) = 0 \<or> 16 \<le> r + hsize (m r) - (start + sz)" "2 ^ k dvd start"
proof -
  have e: "hole_end m r = r + hsize (m r)"
    using assms(2) by (simp add: hole_end_def usize_add_def)
  have "k \<le> 63" using assms(3) by simp
  then have "(2 :: nat) ^ k \<le> 2 ^ 63" by (rule power_increasing) simp
  then have a: "r + 2 ^ k - 1 < 2 ^ 64" using assms(2,4) by simp
  show s: "start = align_up r (2 ^ k)" and f: "start + sz \<le> r + hsize (m r)"
    using assms(1) by (auto simp: fits_def e Let_def split: if_splits)
  show le: "r \<le> start" "2 ^ k dvd start"
    using align_up_bounds [OF assms(3) a] by (simp_all add: s)
  show "start - r = 0 \<or> 16 \<le> start - r"
      "r + hsize (m r) - (start + sz) = 0 \<or> 16 \<le> r + hsize (m r) - (start + sz)"
    using assms(1) le(1) f by (auto simp: fits_def e usize_sub_def Let_def s split: if_splits)
qed

lemma find_fit_holes:
  "holes m p hs 0 \<Longrightarrow>
   (find_fit m sz al prev p = Some None \<and> (\<forall>(r, t) \<in> set hs. fits m r sz al = None)) \<or>
   (\<exists>bs r t cs start. hs = bs @ (r, t) # cs \<and> fits m r sz al = Some start \<and>
      (\<forall>(b, t) \<in> set bs. fits m b sz al = None) \<and>
      find_fit m sz al prev p = Some (Some (if bs = [] then prev else fst (last bs), r, start)))"
proof (induction hs arbitrary: p prev)
  case Nil
  then show ?case by (subst find_fit.simps) simp
next
  case (Cons h hs)
  obtain a s where h: "h = (a, s)" by (cases h)
  have p: "p = a" "a \<noteq> 0" "holes m (hnext (m a)) hs 0" using Cons.prems by (simp_all add: h)
  show ?case
  proof (cases "fits m a sz al")
    case None
    then have f: "find_fit m sz al prev p = find_fit m sz al a (hnext (m a))"
      using p by (subst find_fit.simps) simp
    from Cons.IH [OF p(3), of a] show ?thesis
    proof (elim disjE exE conjE)
      fix bs r t cs start
      assume *: "hs = bs @ (r, t) # cs" "fits m r sz al = Some start"
        "\<forall>(b, t) \<in> set bs. fits m b sz al = None"
        "find_fit m sz al a (hnext (m a)) = Some (Some (if bs = [] then a else fst (last bs), r, start))"
      show ?thesis
        by (rule disjI2, rule exI [of _ "h # bs"], rule exI [of _ r], rule exI [of _ t],
            rule exI [of _ cs], rule exI [of _ start]) (use * None f h in auto)
    qed (use None f h in auto)
  next
    case (Some start)
    then have "find_fit m sz al prev p = Some (Some (prev, a, start))"
      using p by (subst find_fit.simps) simp
    then show ?thesis
      by (intro disjI2 exI [of _ "[]"] exI [of _ a] exI [of _ s] exI [of _ hs] exI [of _ start])
        (use Some h in simp)
  qed
qed

lemma unlink_store:
  assumes "holes m p (bs @ (r, t) # cs) 0" "distinct (map fst (bs @ (r, t) # cs))"
    "prev = (if bs = [] then 0 else fst (last bs))"
  shows "holes (if prev = 0 then m else m(prev := (m prev)\<lparr> hnext := hnext (m r) \<rparr>))
    (if prev = 0 then hnext (m r) else p) (bs @ cs) 0"
proof (cases bs rule: rev_cases)
  case Nil
  then show ?thesis using assms by simp
next
  case (snoc bs' x)
  obtain b u where x: "x = (b, u)" by (cases x)
  have b: "prev = b" "b \<notin> fst ` set bs'" "b \<notin> fst ` set cs" using assms(2,3) by (auto simp: snoc x)
  have h: "holes m p (bs' @ [(b, u)]) r" "holes m (hnext (m r)) cs 0"
    using assms(1) by (auto simp: snoc x holes_append)
  then have mb: "b \<noteq> 0" "hsize (m b) = u" by (simp_all add: holes_last)
  have "holes (m(b := \<lparr> hsize = u, hnext = hnext (m r) \<rparr>)) p (bs' @ [(b, u)]) (hnext (m r))"
    by (rule holes_relink [OF h(1) b(2)])
  moreover have "holes (m(b := \<lparr> hsize = u, hnext = hnext (m r) \<rparr>)) (hnext (m r)) cs 0"
    using h(2) b(3) by (simp add: holes_frame)
  moreover have "(m b)\<lparr> hnext := hnext (m r) \<rparr> = \<lparr> hsize = u, hnext = hnext (m r) \<rparr>" using mb by auto
  ultimately have "holes (m(b := (m b)\<lparr> hnext := hnext (m r) \<rparr>)) p ((bs' @ [(b, u)]) @ cs) 0"
    unfolding holes_append [of _ _ "bs' @ [(b, u)]"] by auto
  then show ?thesis using mb b(1) by (simp add: snoc x)
qed

lemma free_list_remove:
  assumes "free_list lo hi (bs @ (r, t) # cs)"
  shows "free_list lo hi (bs @ cs)" "{r ..< r + t} \<inter> covered (bs @ cs) = {}"
proof -
  have b: "free_list lo (r - 1) bs" "free_list (r + t + 1) hi cs" "r + t \<le> hi" "lo \<le> r" "bs \<noteq> [] \<longrightarrow> 0 < r"
    using assms by (auto simp: free_list_append)
  have "covered bs \<subseteq> {lo ..< r - 1}" "covered cs \<subseteq> {r + t + 1 ..< hi}"
    using b(1,2) by (auto dest!: free_list_covered)
  then show "{r ..< r + t} \<inter> covered (bs @ cs) = {}" by fastforce
  show "free_list lo hi (bs @ cs)"
  proof (cases bs rule: rev_cases)
    case Nil
    then show ?thesis using b free_list_mono [of "r + t + 1" hi cs lo] by simp
  next
    case (snoc bs' x)
    obtain c u where x: "x = (c, u)" by (cases x)
    have "free_list lo (r - 1) (bs' @ (c, u) # [])" using b(1) by (simp add: snoc x)
    then have "free_list lo (c - 1) bs'" "8 dvd c" "8 dvd u" "16 \<le> u" "c + u \<le> r - 1" "lo \<le> c"
        "bs' \<noteq> [] \<longrightarrow> 0 < c"
      unfolding free_list_append by simp_all
    then show ?thesis
      unfolding snoc x append_assoc append_Cons append_Nil free_list_append
      using b free_list_mono [of "r + t + 1" hi cs "c + u + 1"] by simp
  qed
qed

lemma maybe_add_region:
  assumes "heap_free lo hi st hs" "{a ..< a + s} \<inter> covered hs = {}" "lo \<le> a" "8 dvd a" "8 dvd s"
    "s = 0 \<or> 16 \<le> s" "a + s \<le> hi" "b \<longleftrightarrow> 0 < s"
  shows "\<exists>m' p' hs'. (if b then add_region a s st else Some st) = Some (m', (snd st)\<lparr> head_ptr := p' \<rparr>) \<and>
    heap_free lo hi (m', (snd st)\<lparr> head_ptr := p' \<rparr>) hs' \<and> covered hs' = covered hs \<union> {a ..< a + s}"
proof (cases "s = 0")
  case True
  then show ?thesis
    using assms(1,8) by (intro exI [of _ "fst st"] exI [of _ "head_ptr (snd st)"] exI [of _ hs]) simp
next
  case False
  then show ?thesis
    using add_region_spec [OF assms(1-5)] assms(6-8) by simp
qed

text \<open>Giving back what is left in front of and behind an allocation.\<close>

lemma give_back:
  assumes hf: "heap_free lo hi st hs" and dis: "{r ..< r + t} \<inter> covered hs = {}"
    and r: "lo \<le> r" "8 dvd r" "8 dvd t" "r + t \<le> hi" and s: "r \<le> start" "8 dvd start" "8 dvd sz"
    and e: "start + sz \<le> r + t" and front: "start - r = 0 \<or> 16 \<le> start - r"
    and rest: "r + t - (start + sz) = 0 \<or> 16 \<le> r + t - (start + sz)"
  shows "\<exists>st1 m' p' hs'.
    (if start > r then add_region r (start - r) st else Some st) = Some st1 \<and>
    (if r + t > start + sz then add_region (start + sz) (r + t - (start + sz)) st1 else Some st1) =
      Some (m', (snd st)\<lparr> head_ptr := p' \<rparr>) \<and>
    heap_free lo hi (m', (snd st)\<lparr> head_ptr := p' \<rparr>) hs' \<and>
    covered hs' = covered hs \<union> ({r ..< r + t} - {start ..< start + sz})"
proof -
  have "{r ..< r + (start - r)} \<subseteq> {r ..< r + t}" using e by auto
  then have "{r ..< r + (start - r)} \<inter> covered hs = {}" "8 dvd start - r" "r + (start - r) \<le> hi"
    using dis r s e by (blast, auto simp: dvd_diff_nat)
  then obtain m1 p1 hs1 where 1: "(if start > r then add_region r (start - r) st else Some st) =
        Some (m1, (snd st)\<lparr> head_ptr := p1 \<rparr>)"
      "heap_free lo hi (m1, (snd st)\<lparr> head_ptr := p1 \<rparr>) hs1" "covered hs1 = covered hs \<union> {r ..< start}"
    using maybe_add_region [OF hf, of r "start - r" "start > r"] r s front by auto
  let ?a = "start + sz" and ?s = "r + t - (start + sz)"
  have "{?a ..< ?a + ?s} \<subseteq> {r ..< r + t}" "{?a ..< ?a + ?s} \<inter> {r ..< start} = {}" using s(1) e by auto
  then have "{?a ..< ?a + ?s} \<inter> covered hs1 = {}" "8 dvd ?s" "?a + ?s \<le> hi" "lo \<le> ?a" "8 dvd ?a"
    using dis r s e 1(3) by (blast, auto simp: dvd_diff_nat)
  then obtain m2 p2 hs2 where 2: "(if r + t > ?a then add_region ?a ?s (m1, (snd st)\<lparr> head_ptr := p1 \<rparr>)
        else Some (m1, (snd st)\<lparr> head_ptr := p1 \<rparr>)) = Some (m2, (snd st)\<lparr> head_ptr := p2 \<rparr>)"
      "heap_free lo hi (m2, (snd st)\<lparr> head_ptr := p2 \<rparr>) hs2" "covered hs2 = covered hs1 \<union> {?a ..< ?a + ?s}"
    using maybe_add_region [OF 1(2), of ?a ?s "r + t > ?a"] rest by auto
  have "covered hs2 = covered hs \<union> ({r ..< r + t} - {start ..< start + sz})"
    using 1(3) 2(3) s e by auto
  then show ?thesis using 1(1) 2(1,2) by blast
qed

lemma take_region_spec:
  assumes hf: "heap_free lo hi st hs" and hi: "hi \<le> 2 ^ 63" and k: "3 \<le> k" "k < 64"
    and sz: "8 dvd sz"
  shows "(take_region sz (2 ^ k) st = Some (None, st) \<and> (\<forall>(r, t) \<in> set hs. fits (fst st) r sz (2 ^ k) = None)) \<or>
    (\<exists>start m' p' hs'. take_region sz (2 ^ k) st = Some (Some (start, sz), m', (snd st)\<lparr> head_ptr := p' \<rparr>) \<and>
       2 ^ k dvd start \<and> {start ..< start + sz} \<subseteq> covered hs \<and> 0 < start \<and> start + sz \<le> hi \<and> lo \<le> start \<and>
       heap_free lo hi (m', (snd st)\<lparr> head_ptr := p' \<rparr>) hs' \<and>
       covered hs' = covered hs - {start ..< start + sz})"
proof -
  obtain m al where st: "st = (m, al)" by (cases st)
  have h: "holes m (head_ptr al) hs 0" and fl: "free_list lo hi hs" and b: "0 < lo" "hi < 2 ^ 64"
    using hf by (simp_all add: heap_free_def st)
  from find_fit_holes [OF h, of sz "2 ^ k" 0] show ?thesis
  proof (elim disjE exE conjE)
    fix bs cs :: "(nat \<times> nat) list" and r t start :: nat
    define prev where "prev = (if bs = [] then 0 else fst (last bs))"
    assume hs: "hs = bs @ (r, t) # cs" and ft: "fits m r sz (2 ^ k) = Some start"
      and "find_fit m sz (2 ^ k) 0 (head_ptr al) = Some (Some (if bs = [] then 0 else fst (last bs), r, start))"
    then have ff: "find_fit m sz (2 ^ k) 0 (head_ptr al) = Some (Some (prev, r, start))"
      by (simp add: prev_def)
    have r: "lo \<le> r" "8 dvd r" "8 dvd t" "16 \<le> t" "r + t \<le> hi" "hsize (m r) = t"
      using free_list_bounds [OF fl, of r t] h by (auto simp: hs holes_append)
    have t0: "0 < t" using r(4) by simp
    note f = fits_Some [OF ft, unfolded r(6), OF order.trans [OF r(5) hi] k(2) t0]
    have s8: "8 dvd start"
      using dvd_trans [OF le_imp_power_dvd [OF k(1), of "2 :: nat"] f(6)] by simp
    define st1 where "st1 = (if prev = 0 then (m, al\<lparr> head_ptr := hnext (m r) \<rparr>)
      else (m(prev := (m prev)\<lparr> hnext := hnext (m r) \<rparr>), al))"
    have hf1: "heap_free lo hi st1 (bs @ cs)"
      using unlink_store [OF h [unfolded hs] free_list_distinct [OF fl [unfolded hs]] prev_def]
        free_list_remove(1) [OF fl [unfolded hs]] b
      by (auto simp: heap_free_def st1_def)
    have he: "hole_end m r = r + t" using r b by (simp add: hole_end_def usize_add_def)
    have sn: "(snd st1)\<lparr> head_ptr := p' \<rparr> = al\<lparr> head_ptr := p' \<rparr>" for p' by (simp add: st1_def)
    note dis = free_list_remove(2) [OF fl [unfolded hs]]
    obtain st2 m' p' hs' where g:
        "(if start > r then add_region r (start - r) st1 else Some st1) = Some st2"
        "(if r + t > start + sz then add_region (start + sz) (r + t - (start + sz)) st2 else Some st2) =
           Some (m', al\<lparr> head_ptr := p' \<rparr>)"
        "heap_free lo hi (m', al\<lparr> head_ptr := p' \<rparr>) hs'"
        "covered hs' = covered (bs @ cs) \<union> ({r ..< r + t} - {start ..< start + sz})"
      using give_back [OF hf1 dis r(1-3,5) f(2) s8 sz f(3-5)] unfolding sn by auto
    have "take_region sz (2 ^ k) st = Some (Some (start, sz), m', al\<lparr> head_ptr := p' \<rparr>)"
      by (simp only: take_region_def st Let_def prod.case ff option.case he st1_def [symmetric] g(1,2))
    moreover have sub: "{start ..< start + sz} \<subseteq> {r ..< r + t}" using f(2,3) by auto
    moreover have "covered hs = covered (bs @ cs) \<union> {r ..< r + t}" by (auto simp: hs)
    moreover have "covered hs' = covered hs - {start ..< start + sz}"
      using dis sub g(4) unfolding \<open>covered hs = _\<close> by blast
    ultimately show ?thesis
      using g(3) f(2,3,6) b(1) r(1,5) by (auto simp: st)
  qed (simp add: st take_region_def)
qed

section \<open>The allocator in use\<close>

text \<open>What Rust guarantees of a \<open>Layout\<close>, with room to round the size up to a multiple of 8.\<close>

definition valid_layout :: "Layout \<Rightarrow> bool" where
  "valid_layout l \<longleftrightarrow> (\<exists>k < 64. lalign l = 2 ^ k) \<and> lsize l \<le> 2 ^ 63 - max (lalign l) 8"

definition block_size :: "Layout \<Rightarrow> nat" where
  "block_size l = fst (the (adjust l))"

definition block :: "nat \<times> Layout \<Rightarrow> nat \<times> nat" where
  "block b = (fst b, block_size (snd b))"

lemma round_up: "0 < a \<Longrightarrow> n \<le> (n + a - 1) div a * (a :: nat)"
proof -
  assume a: "0 < a"
  let ?n = "n + a - 1"
  have "?n div a * a + ?n mod a = ?n" by (rule div_mult_mod_eq)
  moreover have "?n mod a < a" using a by simp
  ultimately show ?thesis by linarith
qed

lemma dvd_max_16: "8 dvd n \<Longrightarrow> 8 dvd max n (16 :: nat)"
  by (simp add: max_def)

lemma adjust_valid:
  assumes "valid_layout l"
  obtains k where "adjust l = Some (block_size l, 2 ^ k)" "3 \<le> k" "k < 64" "8 dvd block_size l"
    "16 \<le> block_size l" "lsize l \<le> block_size l" "lalign l dvd 2 ^ k"
proof -
  obtain j where j: "j < 64" "lalign l = 2 ^ j" using assms by (auto simp: valid_layout_def)
  let ?k = "max j 3"
  have al: "max (lalign l) 8 = 2 ^ ?k"
  proof (cases "j \<le> 3")
    case True
    then have "(2 :: nat) ^ j \<le> 2 ^ 3" by (rule power_increasing) simp
    then show ?thesis using True j by simp
  next
    case False
    then have "(2 :: nat) ^ 3 \<le> 2 ^ j" by (intro power_increasing) simp_all
    then show ?thesis using False j by simp
  qed
  let ?sz = "max ((lsize l + 2 ^ ?k - 1) div 2 ^ ?k * 2 ^ ?k) 16"
  have ad: "adjust l = Some (?sz, 2 ^ ?k)"
    using assms unfolding adjust_def al Let_def valid_layout_def by simp
  then have sz: "block_size l = ?sz" by (simp add: block_size_def)
  have "(2 :: nat) ^ 3 dvd 2 ^ ?k" by (rule le_imp_power_dvd) simp
  then have "(8 :: nat) dvd 2 ^ ?k" by simp
  then have "8 dvd block_size l" unfolding sz by (intro dvd_max_16 dvd_mult)
  moreover have "adjust l = Some (block_size l, 2 ^ ?k)" unfolding sz by (rule ad)
  moreover have "16 \<le> block_size l" unfolding sz by (rule max.cobounded2)
  moreover have "lsize l \<le> block_size l"
    unfolding sz by (rule order.trans [OF round_up max.cobounded1]) simp
  moreover have "lalign l dvd 2 ^ ?k" unfolding j(2) by (rule le_imp_power_dvd) simp
  moreover have "3 \<le> ?k" "?k < 64" using j(1) by simp_all
  ultimately show ?thesis using that by blast
qed

fun apart :: "(nat \<times> nat) list \<Rightarrow> bool" where
  "apart [] \<longleftrightarrow> True"
| "apart ((a, s) # bs) \<longleftrightarrow> {a ..< a + s} \<inter> covered bs = {} \<and> apart bs"

lemma apart_remove:
  "apart (xs @ (a, s) # ys) \<Longrightarrow> apart (xs @ ys) \<and>
   covered (xs @ ys) = covered (xs @ (a, s) # ys) - {a ..< a + s}"
proof (induction xs)
  case Nil
  then show ?case by auto
next
  case (Cons x xs)
  then show ?case by (cases x) (simp, blast)
qed

lemma finite_covered [simp]: "finite (covered bs)"
  by (auto simp: covered_def)

lemma card_apart: "apart bs \<Longrightarrow> card (covered bs) = sum_list (map snd bs)"
  by (induction bs rule: apart.induct) (auto simp: card_Un_disjoint)

lemma free_list_apart: "free_list lo hi hs \<Longrightarrow> apart hs"
proof (induction hs arbitrary: lo)
  case (Cons h hs)
  obtain a s where h: "h = (a, s)" by (cases h)
  then show ?case
    using Cons free_list_covered [of "a + s + 1" hi hs] by fastforce
qed simp

definition HEAP_END :: nat where "HEAP_END = HEAP_START + HEAP_SIZE"

text \<open>
  The state of a heap in use: its free list \<open>hs\<close> and the blocks handed out and not yet returned
  partition the heap, and the counters count the blocks.
\<close>

definition heap_inv :: "HeapState \<Rightarrow> (nat \<times> Layout) list \<Rightarrow> (nat \<times> nat) list \<Rightarrow> bool" where
  "heap_inv st live hs \<longleftrightarrow>
     heap_free HEAP_START HEAP_END st hs \<and> apart (map block live) \<and>
     covered hs \<inter> covered (map block live) = {} \<and>
     covered hs \<union> covered (map block live) = {HEAP_START ..< HEAP_END} \<and>
     (\<forall>(p, l) \<in> set live. valid_layout l \<and> lalign l dvd p \<and> 8 dvd p \<and> HEAP_START \<le> p \<and> p + block_size l \<le> HEAP_END) \<and>
     allocated (snd st) = sum_list (map (snd \<circ> block) live) \<and>
     live_allocations (snd st) = length live"

lemma heap_free_counters [simp]:
  "heap_free lo hi (m, al\<lparr> allocated := x \<rparr>) hs = heap_free lo hi (m, al) hs"
  "heap_free lo hi (m, al\<lparr> live_allocations := y \<rparr>) hs = heap_free lo hi (m, al) hs"
  by (simp_all add: heap_free_def)

lemma heap_init_inv:
  "\<exists>m' al'. heap_init (m, LinkedListAllocator_new) = Some (m', al') \<and>
     heap_inv (m', al') [] [(HEAP_START, HEAP_SIZE)]"
proof -
  let ?st = "(m, LinkedListAllocator_new)"
  let ?m = "m(HEAP_START := \<lparr> hsize = HEAP_SIZE, hnext = 0 \<rparr>)"
  have "locate ?m HEAP_START 0 0 = Some (0, 0)" by (subst locate.simps) simp
  then have "heap_init ?st = Some (?m, LinkedListAllocator_new\<lparr> head_ptr := HEAP_START \<rparr>)"
    by (simp add: heap_init_def add_region_def LinkedListAllocator_new_def)
  moreover have "heap_inv (?m, LinkedListAllocator_new\<lparr> head_ptr := HEAP_START \<rparr>) [] [(HEAP_START, HEAP_SIZE)]"
    by (simp add: heap_inv_def heap_free_def HEAP_END_def LinkedListAllocator_new_def)
  ultimately show ?thesis by blast
qed

lemma heap_live_bound:
  assumes "heap_inv st live hs"
  shows "sum_list (map (snd \<circ> block) live) = HEAP_SIZE - card (covered hs)" "card (covered hs) \<le> HEAP_SIZE"
    "16 * length live \<le> HEAP_SIZE"
proof -
  have "card (covered hs) + card (covered (map block live)) = card {HEAP_START ..< HEAP_END}"
    using assms card_Un_disjoint [of "covered hs" "covered (map block live)"] by (simp add: heap_inv_def)
  then have *: "card (covered hs) + sum_list (map (snd \<circ> block) live) = HEAP_SIZE"
    using assms card_apart [of "map block live"] by (simp add: heap_inv_def HEAP_END_def)
  then show "sum_list (map (snd \<circ> block) live) = HEAP_SIZE - card (covered hs)" "card (covered hs) \<le> HEAP_SIZE"
    by simp_all
  have "16 \<le> block_size l" if "(p, l) \<in> set live" for p l
  proof -
    have "valid_layout l" using assms that by (auto simp: heap_inv_def)
    then show ?thesis by (rule adjust_valid)
  qed
  then have "16 * length live \<le> sum_list (map (snd \<circ> block) live)"
    by (induction live) (force simp: block_def)+
  then show "16 * length live \<le> HEAP_SIZE" using * by simp
qed

lemma heap_alloc_step:
  assumes inv: "heap_inv st live hs" and l: "valid_layout l"
  shows "(alloc l st = Some (0, st) \<and> (\<forall>(r, t) \<in> set hs. \<forall>k. adjust l = Some (block_size l, 2 ^ k) \<longrightarrow>
            fits (fst st) r (block_size l) (2 ^ k) = None)) \<or>
    (\<exists>p st' hs'. alloc l st = Some (p, st') \<and> 0 < p \<and> {p ..< p + block_size l} \<subseteq> covered hs \<and>
       heap_inv st' ((p, l) # live) hs')"
proof -
  obtain m al where st: "st = (m, al)" by (cases st)
  obtain k where k: "adjust l = Some (block_size l, 2 ^ k)" "3 \<le> k" "k < 64" "8 dvd block_size l"
      "16 \<le> block_size l" "lsize l \<le> block_size l" "lalign l dvd 2 ^ k"
    using adjust_valid [OF l] .
  have hf: "heap_free HEAP_START HEAP_END st hs" using inv by (simp add: heap_inv_def)
  have he: "HEAP_END \<le> 2 ^ 63" by (simp add: HEAP_END_def)
  from take_region_spec [OF hf he k(2-4)] show ?thesis
  proof (elim disjE exE conjE)
    fix p m' p' hs'
    assume t: "take_region (block_size l) (2 ^ k) st = Some (Some (p, block_size l), m', (snd st)\<lparr> head_ptr := p' \<rparr>)"
      and p: "2 ^ k dvd p" "{p ..< p + block_size l} \<subseteq> covered hs" "0 < p" "p + block_size l \<le> HEAP_END" "HEAP_START \<le> p"
      and hf': "heap_free HEAP_START HEAP_END (m', (snd st)\<lparr> head_ptr := p' \<rparr>) hs'"
      and c: "covered hs' = covered hs - {p ..< p + block_size l}"
    let ?al = "al\<lparr> head_ptr := p', allocated := usize_add (allocated al) (block_size l),
        live_allocations := usize_add (live_allocations al) 1 \<rparr>"
    have "alloc l st = Some (p, m', ?al)" using t by (simp add: alloc_def k(1) st)
    moreover have "heap_inv (m', ?al) ((p, l) # live) hs'"
    proof -
      have "block_size l + sum_list (map (snd \<circ> block) live) \<le> HEAP_SIZE"
      proof -
        have "block_size l \<le> card (covered hs)"
          using card_mono [OF finite_covered p(2)] by simp
        then show ?thesis using heap_live_bound [OF inv] by simp
      qed
      moreover have "lalign l dvd p" "8 dvd p"
        using p(1) k(7) le_imp_power_dvd [OF k(2), of "2 :: nat"] by (auto intro: dvd_trans)
      moreover have "{p ..< p + block_size l} \<inter> covered (map block live) = {}"
          "covered hs' \<inter> covered (map block live) = {}"
          "covered hs' \<union> ({p ..< p + block_size l} \<union> covered (map block live)) = {HEAP_START ..< HEAP_END}"
        using inv p(2) c unfolding heap_inv_def by blast+
      moreover have "covered hs' \<inter> {p ..< p + block_size l} = {}" using c by blast
      ultimately show ?thesis
        using inv hf' l p(4,5) heap_live_bound(3) [OF inv]
        by (auto simp: heap_inv_def st block_def usize_add_def Int_Un_distrib)
    qed
    ultimately show ?thesis using p by blast
  qed (use k(1) in \<open>auto simp: alloc_def\<close>)
qed

lemma heap_dealloc_step:
  assumes inv: "heap_inv st (xs @ (p, l) # ys) hs"
  shows "\<exists>st' hs'. dealloc p l st = Some st' \<and> heap_inv st' (xs @ ys) hs'"
proof -
  obtain m al where st: "st = (m, al)" by (cases st)
  let ?live = "xs @ (p, l) # ys"
  have v: "valid_layout l" "8 dvd p" "HEAP_START \<le> p" "p + block_size l \<le> HEAP_END"
    using inv by (auto simp: heap_inv_def)
  obtain k where k: "adjust l = Some (block_size l, 2 ^ k)" "8 dvd block_size l" "16 \<le> block_size l"
    using adjust_valid [OF v(1)] by metis
  have hf: "heap_free HEAP_START HEAP_END st hs" using inv by (simp add: heap_inv_def)
  have ap: "apart (map block xs @ (p, block_size l) # map block ys)"
    using inv by (simp add: heap_inv_def block_def)
  have bl: "block (p, l) = (p, block_size l)" by (simp add: block_def)
  have "{p ..< p + block_size l} \<inter> covered hs = {}"
    using inv unfolding heap_inv_def map_append list.map bl covered_simps by blast
  then obtain m' p' hs' where a: "add_region p (block_size l) st = Some (m', (snd st)\<lparr> head_ptr := p' \<rparr>)"
      "heap_free HEAP_START HEAP_END (m', (snd st)\<lparr> head_ptr := p' \<rparr>) hs'"
      "covered hs' = covered hs \<union> {p ..< p + block_size l}"
    using add_region_spec [OF hf, of p "block_size l"] v k by auto
  let ?al = "al\<lparr> head_ptr := p', allocated := usize_sub (allocated al) (block_size l),
      live_allocations := usize_sub (live_allocations al) 1 \<rparr>"
  have "dealloc p l st = Some (m', ?al)" using a(1) by (simp add: dealloc_def k(1) st)
  moreover have "heap_inv (m', ?al) (xs @ ys) hs'"
  proof -
    note r = apart_remove [OF ap]
    have full: "covered hs \<union> covered (map block ?live) = {HEAP_START ..< HEAP_END}"
        "covered hs \<inter> covered (map block ?live) = {}"
      using inv by (simp_all add: heap_inv_def)
    have cov: "covered (map block ?live) = covered (map block xs @ (p, block_size l) # map block ys)"
      by (simp add: block_def)
    have sub: "{p ..< p + block_size l} \<subseteq> covered (map block ?live)" by (auto simp: block_def)
    have r2: "covered (map block (xs @ ys)) = covered (map block ?live) - {p ..< p + block_size l}"
      using r unfolding cov by simp
    have "covered hs' \<inter> covered (map block (xs @ ys)) = {}"
        "covered hs' \<union> covered (map block (xs @ ys)) = {HEAP_START ..< HEAP_END}"
      unfolding r2 a(3) full(1) [symmetric] using full(2) sub by blast+
    moreover have "apart (map block (xs @ ys))" using r by simp
    ultimately show ?thesis
      using inv a(2) by (auto simp: heap_inv_def st usize_sub_def block_def)
  qed
  ultimately show ?thesis by blast
qed

section \<open>The allocator's contract\<close>

text \<open>A script of allocations and releases; a release names a live block by its position.\<close>

datatype 'l heap_op = Allocate 'l | Release nat

fun run_ops ::
  "('l \<Rightarrow> 's \<Rightarrow> (nat \<times> 's) option) \<Rightarrow> (nat \<Rightarrow> 'l \<Rightarrow> 's \<Rightarrow> 's option) \<Rightarrow> 'l heap_op list \<Rightarrow>
   's \<times> (nat \<times> 'l) list \<Rightarrow> ('s \<times> (nat \<times> 'l) list) option" where
  "run_ops al de [] (s, live) = Some (s, live)"
| "run_ops al de (Allocate l # ops) (s, live) = (case al l s of
     None \<Rightarrow> None
   | Some (p, s') \<Rightarrow> run_ops al de ops (s', if p = 0 then live else (p, l) # live))"
| "run_ops al de (Release i # ops) (s, live) =
     (if i < length live
      then (case de (fst (live ! i)) (snd (live ! i)) s of
              None \<Rightarrow> None
            | Some s' \<Rightarrow> run_ops al de ops (s', take i live @ drop (Suc i) live))
      else run_ops al de ops (s, live))"

locale block_allocator =
  fixes al :: "'l \<Rightarrow> 's \<Rightarrow> (nat \<times> 's) option"
    and de :: "nat \<Rightarrow> 'l \<Rightarrow> 's \<Rightarrow> 's option"
    and ok :: "'l \<Rightarrow> bool"
    and inv :: "'s \<Rightarrow> (nat \<times> 'l) list \<Rightarrow> bool"
  assumes alloc_returns: "inv s live \<Longrightarrow> ok l \<Longrightarrow>
      \<exists>p s'. al l s = Some (p, s') \<and> inv s' (if p = 0 then live else (p, l) # live)"
    and dealloc_returns: "inv s (xs @ (p, l) # ys) \<Longrightarrow> \<exists>s'. de p l s = Some s' \<and> inv s' (xs @ ys)"
begin

lemma script_runs:
  "inv s live \<Longrightarrow> (\<forall>l. Allocate l \<in> set ops \<longrightarrow> ok l) \<Longrightarrow>
   \<exists>s' live'. run_ops al de ops (s, live) = Some (s', live') \<and> inv s' live'"
proof (induction ops arbitrary: s live)
  case (Cons op ops)
  show ?case
  proof (cases op)
    case (Allocate l)
    then obtain p s' where "al l s = Some (p, s')" "inv s' (if p = 0 then live else (p, l) # live)"
      using alloc_returns [OF Cons.prems(1), of l] Cons.prems(2) by auto
    then show ?thesis using Cons.IH Cons.prems(2) Allocate by auto
  next
    case (Release i)
    show ?thesis
    proof (cases "i < length live")
      case True
      obtain p l where pl: "live ! i = (p, l)" by (cases "live ! i")
      have "live = take i live @ (p, l) # drop (Suc i) live" using id_take_nth_drop [OF True] pl by simp
      then obtain s' where "de p l s = Some s'" "inv s' (take i live @ drop (Suc i) live)"
        using dealloc_returns [of s "take i live" p l "drop (Suc i) live"] Cons.prems(1) by auto
      then show ?thesis using Cons.IH Cons.prems(2) Release True pl by auto
    qed (use Cons Release in auto)
  qed
qed auto

end

interpretation kernel_heap: block_allocator alloc dealloc valid_layout "\<lambda>st live. \<exists>hs. heap_inv st live hs"
proof
  fix st live l xs ys p
  show "\<exists>p s'. alloc l st = Some (p, s') \<and> (\<exists>hs. heap_inv s' (if p = 0 then live else (p, l) # live) hs)"
    if e: "\<exists>hs. heap_inv st live hs" and v: "valid_layout l"
  proof -
    obtain hs where hs: "heap_inv st live hs" using e by blast
    from heap_alloc_step [OF this v] show ?thesis
    proof (elim disjE exE conjE)
      fix q s' hs' assume "alloc l st = Some (q, s')" "0 < q" "heap_inv s' ((q, l) # live) hs'"
      then show ?thesis by (intro exI [of _ q] exI [of _ s']) auto
    qed (use hs in auto)
  qed
  show "\<exists>s'. dealloc p l st = Some s' \<and> (\<exists>hs. heap_inv s' (xs @ ys) hs)"
    if "\<exists>hs. heap_inv st (xs @ (p, l) # ys) hs"
    using heap_dealloc_step that by blast
qed

lemma heap_init_Some:
  "heap_init (m, LinkedListAllocator_new) = Some st \<Longrightarrow> heap_inv st [] [(HEAP_START, HEAP_SIZE)]"
  using heap_init_inv [of m] by auto

lemma covered_full_single:
  assumes "free_list lo hi hs" "covered hs = {lo ..< hi}" "lo < hi"
  shows "hs = [(lo, hi - lo)]"
proof (cases hs)
  case Nil
  then show ?thesis using assms by simp
next
  case (Cons h hs')
  obtain a s where h: "h = (a, s)" by (cases h)
  have f: "lo \<le> a" "a + s \<le> hi" "free_list (a + s + 1) hi hs'" "16 \<le> s"
    using assms(1) by (simp_all add: Cons h)
  have rest: "covered hs' \<subseteq> {a + s + 1 ..< hi}" by (rule free_list_covered [OF f(3)])
  have "lo \<in> covered hs" using assms by simp
  then have "a = lo" using f rest by (auto simp: Cons h)
  have "a + s \<notin> covered hs" using rest by (auto simp: Cons h)
  then have "a + s = hi" using assms(2) f by auto
  then have "covered hs' = {}" using rest by auto
  then have "hs' = []" using f(3) by (cases hs') (auto split: prod.splits)
  then show ?thesis using \<open>a = lo\<close> \<open>a + s = hi\<close> by (simp add: Cons h)
qed

lemma stats_walk_holes:
  "holes m p hs 0 \<Longrightarrow> free + sum_list (map snd hs) < 2 ^ 64 \<Longrightarrow> n + length hs < 2 ^ 64 \<Longrightarrow>
   stats_walk m free n p = Some (free + sum_list (map snd hs), n + length hs)"
proof (induction hs arbitrary: p free n)
  case Nil
  then show ?case by (subst stats_walk.simps) simp
next
  case (Cons h hs)
  obtain a s where h: "h = (a, s)" by (cases h)
  then show ?case
    using Cons by (subst stats_walk.simps) (auto simp: usize_add_def add.assoc)
qed

section \<open>Properties\<close>

text \<open>
  C4: The kernel heap, under every script of allocations and releases from its initialisation:
  every call returns, and afterwards the holes of the free list and the blocks handed out
  partition the heap, so that no byte is in two blocks, in a block and a hole, or lost. The
  holes are sorted, aligned, and no two of them touch.
\<close>

theorem heap_partition:
  assumes "heap_init (m, LinkedListAllocator_new) = Some st" "\<forall>l. Allocate l \<in> set ops \<longrightarrow> valid_layout l"
  shows "\<exists>m' al' live hs. run_ops alloc dealloc ops (st, []) = Some ((m', al'), live) \<and>
    holes m' (head_ptr al') hs 0 \<and> free_list HEAP_START (HEAP_START + HEAP_SIZE) hs \<and>
    apart (map block live) \<and> covered hs \<inter> covered (map block live) = {} \<and>
    covered hs \<union> covered (map block live) = {HEAP_START ..< HEAP_START + HEAP_SIZE}"
proof -
  obtain m' al' live hs where "run_ops alloc dealloc ops (st, []) = Some ((m', al'), live)"
      "heap_inv (m', al') live hs"
    using kernel_heap.script_runs [OF _ assms(2), of st "[]"] heap_init_Some [OF assms(1)] by auto
  then show ?thesis
    unfolding heap_inv_def heap_free_def HEAP_END_def by auto
qed

lemma sample_layouts_valid: "valid_layout \<lparr> lsize = 24, lalign = 8 \<rparr>" "valid_layout \<lparr> lsize = 16, lalign = 16 \<rparr>"
  by (auto simp: valid_layout_def intro: exI [of _ 3] exI [of _ 4])

theorem heap_partition_witness:
  "\<exists>st m' al' live hs. heap_init (\<lambda>_. \<lparr> hsize = 0, hnext = 0 \<rparr>, LinkedListAllocator_new) = Some st \<and>
    run_ops alloc dealloc [Allocate \<lparr> lsize = 24, lalign = 8 \<rparr>, Release 0] (st, []) = Some ((m', al'), live) \<and>
    covered hs \<union> covered (map block live) = {HEAP_START ..< HEAP_START + HEAP_SIZE}"
proof -
  obtain st where st: "heap_init (\<lambda>_. \<lparr> hsize = 0, hnext = 0 \<rparr>, LinkedListAllocator_new) = Some st"
    using heap_init_inv by blast
  show ?thesis
    using heap_partition [OF st, of "[Allocate \<lparr> lsize = 24, lalign = 8 \<rparr>, Release 0]"]
      sample_layouts_valid(1) st by fastforce
qed

text \<open>
  C30: A successful allocation is aligned as asked, at least as long as asked, inside the heap,
  and overlaps no live block.
\<close>

theorem heap_alloc_block:
  assumes "heap_inv st live hs" "valid_layout l" "alloc l st = Some (p, st')" "p \<noteq> 0"
  shows "lalign l dvd p \<and> HEAP_START \<le> p \<and> p + lsize l \<le> HEAP_START + HEAP_SIZE \<and>
    {p ..< p + lsize l} \<inter> covered (map block live) = {}"
proof -
  obtain hs' where i: "heap_inv st' ((p, l) # live) hs'"
    using heap_alloc_step [OF assms(1,2)] assms(3,4) by auto
  have "lsize l \<le> block_size l" using adjust_valid [OF assms(2)] by blast
  moreover have "{p ..< p + block_size l} \<inter> covered (map block live) = {}"
    using i by (simp add: heap_inv_def block_def)
  ultimately show ?thesis
    using i by (fastforce simp: heap_inv_def HEAP_END_def)
qed

text \<open>
  The statistics are exact: \<open>stats\<close> returns, its free bytes plus the bytes of the live blocks
  are the size of the heap, and it counts the holes and the live blocks.
\<close>

theorem heap_stats_exact:
  assumes "heap_inv st live hs"
  shows "\<exists>free. heap_stats st = Some (free, length hs, length live) \<and>
    free + sum_list (map (snd \<circ> block) live) = HEAP_SIZE"
proof -
  have hf: "holes (fst st) (head_ptr (snd st)) hs 0" "free_list HEAP_START HEAP_END hs"
    using assms by (simp_all add: heap_inv_def heap_free_def)
  have sum: "sum_list (map snd hs) = card (covered hs)"
    using card_apart [OF free_list_apart [OF hf(2)]] by simp
  have "\<forall>h \<in> set hs. 16 \<le> snd h" using free_list_bounds [OF hf(2)] by fastforce
  then have "length hs \<le> sum_list (map snd hs)"
    by (induction hs) (auto simp: Suc_le_eq)
  then have "stats_walk (fst st) 0 0 (head_ptr (snd st)) = Some (card (covered hs), length hs)"
    using stats_walk_holes [OF hf(1), of 0 0] heap_live_bound(2) [OF assms] sum by simp
  then show ?thesis
    using heap_live_bound [OF assms] assms by (auto simp: heap_stats_def heap_inv_def split: prod.splits)
qed

text \<open>
  C31: Freed memory recombines completely. Whatever was allocated and released since the initialisation, and
  in whatever order, once every block has been returned the statistics report the whole heap free in one
  hole with no live block, and the list in memory is that one hole.
\<close>

theorem heap_coalesces:
  assumes "heap_init (m, LinkedListAllocator_new) = Some st" "\<forall>l. Allocate l \<in> set ops \<longrightarrow> valid_layout l"
    and "run_ops alloc dealloc ops (st, []) = Some (st', [])"
  shows "heap_stats st' = Some (HEAP_SIZE, 1, 0) \<and> head_ptr (snd st') = HEAP_START \<and>
    fst st' HEAP_START = \<lparr> hsize = HEAP_SIZE, hnext = 0 \<rparr>"
proof -
  obtain hs where inv: "heap_inv st' [] hs"
    using kernel_heap.script_runs [OF _ assms(2), of st "[]"] heap_init_Some [OF assms(1)] assms(3) by auto
  then have hs: "hs = [(HEAP_START, HEAP_SIZE)]"
    using covered_full_single [of HEAP_START HEAP_END hs] by (simp add: heap_inv_def heap_free_def HEAP_END_def)
  have "holes (fst st') (head_ptr (snd st')) hs 0" using inv by (simp add: heap_inv_def heap_free_def)
  then have "head_ptr (snd st') = HEAP_START" "fst st' HEAP_START = \<lparr> hsize = HEAP_SIZE, hnext = 0 \<rparr>"
    unfolding hs by (auto intro!: Hole.equality)
  then show ?thesis using heap_stats_exact [OF inv] hs by simp
qed

theorem heap_coalesces_witness:
  "\<exists>st st'. heap_init (\<lambda>_. \<lparr> hsize = 0, hnext = 0 \<rparr>, LinkedListAllocator_new) = Some st \<and>
    run_ops alloc dealloc [Allocate \<lparr> lsize = 24, lalign = 8 \<rparr>, Allocate \<lparr> lsize = 16, lalign = 16 \<rparr>, Release 1, Release 0, Release 0] (st, []) =
      Some (st', []) \<and> heap_stats st' = Some (HEAP_SIZE, 1, 0)"
proof -
  let ?ops = "[Allocate \<lparr> lsize = 24, lalign = 8 \<rparr>, Allocate \<lparr> lsize = 16, lalign = 16 \<rparr>, Release 1, Release 0, Release 0]"
  obtain st where st: "heap_init (\<lambda>_. \<lparr> hsize = 0, hnext = 0 \<rparr>, LinkedListAllocator_new) = Some st"
    using heap_init_inv by blast
  have v: "\<forall>l. Allocate l \<in> set ?ops \<longrightarrow> valid_layout l" using sample_layouts_valid by auto
  obtain st' live where r: "run_ops alloc dealloc ?ops (st, []) = Some (st', live)"
    using kernel_heap.script_runs [OF _ v, of st "[]"] heap_init_Some [OF st] by auto
  then have "live = []" by (auto split: option.splits prod.splits if_splits)
  then show ?thesis using heap_coalesces [OF st v] r st by blast
qed

definition stuck_heap :: HeapState where
  "stuck_heap = ((\<lambda>_. \<lparr> hsize = 0, hnext = 0 \<rparr>)(HEAP_START + 24 := \<lparr> hsize = HEAP_SIZE - 24, hnext = 0 \<rparr>),
     \<lparr> head_ptr = HEAP_START + 24, allocated = 24, live_allocations = 1 \<rparr>)"

lemma adjust_samples:
  "adjust \<lparr> lsize = 24, lalign = 8 \<rparr> = Some (24, 8)" "adjust \<lparr> lsize = 16, lalign = 16 \<rparr> = Some (16, 16)"
  by (simp_all add: adjust_def)

lemma stuck_heap_inv:
  "heap_inv stuck_heap [(HEAP_START, \<lparr> lsize = 24, lalign = 8 \<rparr>)] [(HEAP_START + 24, HEAP_SIZE - 24)]"
  using sample_layouts_valid(1)
  by (auto simp: heap_inv_def heap_free_def stuck_heap_def HEAP_END_def block_def block_size_def adjust_samples)

lemma align_samples:
  "align_up 0x444444440018 16 = 0x444444440020" "align_up 0x444444440018 8 = 0x444444440018"
  using align_up_pow2 [of 4 "0x444444440018"] align_up_pow2 [of 3 "0x444444440018"] by simp_all

text \<open>
  A request whose alignment leaves 8 bytes in front of the block is refused by a hole of any
  size: with one 24-byte block live and the remaining 2097128 bytes of the heap free in one
  hole, an allocation of 16 bytes aligned to 16 returns null.
\<close>

theorem heap_alignment_refused:
  "heap_inv stuck_heap [(HEAP_START, \<lparr> lsize = 24, lalign = 8 \<rparr>)] [(HEAP_START + 24, HEAP_SIZE - 24)] \<and>
   alloc \<lparr> lsize = 16, lalign = 16 \<rparr> stuck_heap = Some (0, stuck_heap)"
proof
  have "fits (fst stuck_heap) 0x444444440018 16 16 = None"
    by (simp add: fits_def align_samples usize_sub_def hole_end_def usize_add_def stuck_heap_def)
  then have "find_fit (fst stuck_heap) 16 16 0 0x444444440018 = Some None"
    by (subst find_fit.simps, simp) (subst find_fit.simps, simp add: stuck_heap_def)
  then show "alloc \<lparr> lsize = 16, lalign = 16 \<rparr> stuck_heap = Some (0, stuck_heap)"
    by (simp add: alloc_def adjust_samples take_region_def stuck_heap_def)
qed (rule stuck_heap_inv)

theorem heap_alloc_block_witness:
  "\<exists>p st'. alloc \<lparr> lsize = 24, lalign = 8 \<rparr> stuck_heap = Some (p, st') \<and> p \<noteq> 0 \<and> 8 dvd p"
proof -
  let ?l = "\<lparr> lsize = 24, lalign = 8 \<rparr>"
  have "fits (fst stuck_heap) 0x444444440018 24 (2 ^ 3) \<noteq> None"
    by (simp add: fits_def align_samples usize_sub_def hole_end_def usize_add_def stuck_heap_def)
  then have "\<not> (\<forall>(r, t) \<in> set [(HEAP_START + 24, HEAP_SIZE - 24)]. \<forall>k. adjust ?l = Some (block_size ?l, 2 ^ k) \<longrightarrow>
      fits (fst stuck_heap) r (block_size ?l) (2 ^ k) = None)"
    by (auto simp: adjust_samples block_size_def intro!: exI [of _ 3])
  then obtain p st' where p: "alloc ?l stuck_heap = Some (p, st')" "p \<noteq> 0"
    using heap_alloc_step [OF stuck_heap_inv sample_layouts_valid(1)] by blast
  then show ?thesis
    using heap_alloc_block [OF stuck_heap_inv sample_layouts_valid(1) p] by auto
qed

theorem heap_stats_exact_witness:
  "\<exists>free. heap_stats stuck_heap = Some (free, 1, 1) \<and> free + 24 = HEAP_SIZE"
  using heap_stats_exact [OF stuck_heap_inv] by (simp add: block_def block_size_def adjust_samples)

end
