(* ===== verification/Sync.thy ===== *)
theory Sync
  imports Prelude
begin

text \<open>
  \<open>kernel/src/sync.rs\<close>: the spin lock that turns interrupts off, the claim, and the semaphore that
  sleeps. The interrupt flag of the processor is a Boolean that the operations take and return. The
  kernel runs these locks on one processor: what another task can do in between is another
  step of the transition systems below.
\<close>

section \<open>Spin locks\<close>

record 'a SpinLock =
  locked :: bool
  lock_value :: 'a

record Guard =
  interrupts_were_enabled :: bool

definition SpinLock_new :: "'a \<Rightarrow> 'a SpinLock" where
  "SpinLock_new v = \<lparr> locked = False, lock_value = v \<rparr>"

definition try_lock :: "'a SpinLock \<Rightarrow> bool \<Rightarrow> Guard option \<times> 'a SpinLock \<times> bool" where
  "try_lock l enabled =
     (if \<not> locked l then (Some \<lparr> interrupts_were_enabled = enabled \<rparr>, l\<lparr> locked := True \<rparr>, False)
      else (None, l, if enabled then True else False))"

partial_function (option) lock :: "'a SpinLock \<Rightarrow> bool \<Rightarrow> (Guard \<times> 'a SpinLock \<times> bool) option" where
  "lock l enabled = (case try_lock l enabled of
     (Some g, l, enabled) \<Rightarrow> Some (g, l, enabled)
   | (None, l, enabled) \<Rightarrow> lock l enabled)"

definition guard_drop :: "Guard \<Rightarrow> 'a SpinLock \<Rightarrow> bool \<Rightarrow> 'a SpinLock \<times> bool" where
  "guard_drop g l enabled = (l\<lparr> locked := False \<rparr>, if interrupts_were_enabled g then True else enabled)"

definition force_unlock :: "'a SpinLock \<Rightarrow> 'a SpinLock" where
  "force_unlock l = l\<lparr> locked := False \<rparr>"

section \<open>Claims\<close>

definition claim_try_take :: "bool \<Rightarrow> bool \<times> bool" where
  "claim_try_take taken = (if taken then (False, taken) else (True, True))"

definition claim_drop :: "bool \<Rightarrow> bool" where
  "claim_drop taken = False"

section \<open>Semaphores\<close>

text \<open>\<open>try_take\<close>: the value after a successful exchange.\<close>

definition sem_try_take :: "u32 \<Rightarrow> u32 option" where
  "sem_try_take count = (if count = 0 then None else Some (count - 1))"

definition sem_try_wait :: "u32 \<Rightarrow> bool \<times> u32" where
  "sem_try_wait count = (case sem_try_take count of Some c \<Rightarrow> (True, c) | None \<Rightarrow> (False, count))"

text \<open>
  A task that uses a semaphore: outside its operations, about to run the test of \<open>block_until\<close>, blocked on the
  semaphore's channel, and in the two steps of \<open>signal\<close>: the count goes up, then the waiters are woken.
  Taking a permit leaves no trace in the task: it may take several, and signal without having taken any, as
  a producer does. Two counters record what happened so far: the permits that \<open>wait\<close> and \<open>try_wait\<close> gave
  out, and the permits that \<open>signal\<close> added.
\<close>

datatype SemThread = Outside | WaitTest | SemParked | SignalAdd | SignalWake

record SemSys =
  sem_count :: u32
  sem_threads :: "SemThread list"
  sem_taken :: nat
  sem_given :: nat

definition sem_set :: "nat \<Rightarrow> SemThread \<Rightarrow> SemSys \<Rightarrow> SemSys" where
  "sem_set i t s = s\<lparr> sem_threads := (sem_threads s)[i := t] \<rparr>"

definition sem_wake :: "SemThread \<Rightarrow> SemThread" where
  "sem_wake t = (if t = SemParked then WaitTest else t)"

fun sem_run :: "SemThread \<Rightarrow> nat \<Rightarrow> SemSys \<Rightarrow> SemSys" where
  "sem_run WaitTest i s = (case sem_try_take (sem_count s) of
     Some c \<Rightarrow> sem_set i Outside (s\<lparr> sem_count := c, sem_taken := sem_taken s + 1 \<rparr>)
   | None \<Rightarrow> sem_set i SemParked s)"
| "sem_run SignalAdd i s = sem_set i SignalWake (s\<lparr> sem_count := sem_count s + 1, sem_given := sem_given s + 1 \<rparr>)"
| "sem_run SignalWake i s = sem_set i Outside (s\<lparr> sem_threads := map sem_wake (sem_threads s) \<rparr>)"
| "sem_run t i s = s"

text \<open>Any task may start any of the three operations at any time.\<close>

inductive sem_step :: "SemSys \<Rightarrow> SemSys \<Rightarrow> bool" where
  wait: "i < length (sem_threads s) \<Longrightarrow> sem_threads s ! i = Outside \<Longrightarrow> sem_step s (sem_set i WaitTest s)"
| try_wait: "i < length (sem_threads s) \<Longrightarrow> sem_threads s ! i = Outside \<Longrightarrow> sem_try_wait (sem_count s) = (got, c) \<Longrightarrow>
    sem_step s (s\<lparr> sem_count := c, sem_taken := sem_taken s + (if got then 1 else 0) \<rparr>)"
| signal: "i < length (sem_threads s) \<Longrightarrow> sem_threads s ! i = Outside \<Longrightarrow> sem_step s (sem_set i SignalAdd s)"
| run: "i < length (sem_threads s) \<Longrightarrow> sem_step s (sem_run (sem_threads s ! i) i s)"

definition Semaphore_new :: "u32 \<Rightarrow> nat \<Rightarrow> SemSys" where
  "Semaphore_new count n = \<lparr> sem_count = count, sem_threads = replicate n Outside, sem_taken = 0, sem_given = 0 \<rparr>"

section \<open>Locks nest\<close>

text \<open>
  Locks taken and released in the order of a stack: the locks, the interrupt flag, and the guards
  that are alive, the last one taken first.
\<close>

record 'k Locks =
  lk_lock :: "'k \<Rightarrow> unit SpinLock"
  lk_enabled :: bool
  lk_held :: "('k \<times> Guard) list"

inductive lock_step :: "'k Locks \<Rightarrow> 'k Locks \<Rightarrow> bool" where
  take_lock: "try_lock (lk_lock s k) (lk_enabled s) = (Some g, l, e) \<Longrightarrow>
    lock_step s \<lparr> lk_lock = (lk_lock s)(k := l), lk_enabled = e, lk_held = (k, g) # lk_held s \<rparr>"
| refused: "try_lock (lk_lock s k) (lk_enabled s) = (None, l, e) \<Longrightarrow>
    lock_step s (s\<lparr> lk_lock := (lk_lock s)(k := l), lk_enabled := e \<rparr>)"
| drop_lock: "lk_held s = (k, g) # rest \<Longrightarrow> guard_drop g (lk_lock s k) (lk_enabled s) = (l, e) \<Longrightarrow>
    lock_step s \<lparr> lk_lock = (lk_lock s)(k := l), lk_enabled = e, lk_held = rest \<rparr>"

definition Locks_new :: "bool \<Rightarrow> 'k Locks" where
  "Locks_new e = \<lparr> lk_lock = (\<lambda>_. SpinLock_new ()), lk_enabled = e, lk_held = [] \<rparr>"

text \<open>
  The guard at the bottom of the stack remembers the flag as it was at the start, all others that it
  was off.
\<close>

definition locks_inv :: "bool \<Rightarrow> 'k Locks \<Rightarrow> bool" where
  "locks_inv e s \<longleftrightarrow> distinct (map fst (lk_held s)) \<and> (\<forall>k. locked (lk_lock s k) \<longleftrightarrow> k \<in> set (map fst (lk_held s))) \<and>
     (lk_enabled s \<longleftrightarrow> e \<and> lk_held s = []) \<and>
     map (interrupts_were_enabled \<circ> snd) (lk_held s) = (if lk_held s = [] then [] else replicate (length (lk_held s) - 1) False @ [e])"

lemma lock_step_inv: "lock_step s s' \<Longrightarrow> locks_inv e s \<Longrightarrow> locks_inv e s'"
proof (induction rule: lock_step.induct)
  case (take_lock s k g l e')
  then show ?case
    by (cases "lk_held s") (auto simp: locks_inv_def try_lock_def split: if_splits)
next
  case (refused s k l e')
  then show ?case by (auto simp: locks_inv_def try_lock_def split: if_splits)
next
  case (drop_lock s k g rest l e')
  then show ?case
    by (cases rest) (auto simp: locks_inv_def guard_drop_def)
qed

lemma locks_inv_new: "locks_inv e (Locks_new e)"
  by (simp add: locks_inv_def Locks_new_def SpinLock_new_def)

interpretation locks: invariant "\<lambda>s. s = Locks_new e" lock_step "locks_inv e" for e
  by unfold_locales (use locks_inv_new lock_step_inv in blast)+

text \<open>
  C37: Kernel locks nest. However locks are taken and released, as long as the guards go in the order of a
  stack, interrupts are off while any lock is held, a lock is taken exactly while its guard is alive, and
  once all are released the interrupt flag is what it was at the start.
\<close>

theorem nested_locks_restore_interrupts:
  assumes "lock_step\<^sup>*\<^sup>* (Locks_new e) s"
  shows "(lk_enabled s \<longleftrightarrow> e \<and> lk_held s = []) \<and> (\<forall>k. locked (lk_lock s k) \<longleftrightarrow> k \<in> set (map fst (lk_held s))) \<and>
    distinct (map fst (lk_held s))"
  using locks.reached [OF refl assms] by (simp add: locks_inv_def)

text \<open>
  On one processor \<open>lock\<close> returns exactly when the lock is free: a lock that is held makes it spin
  for ever.
\<close>

theorem lock_returns_iff_free: "lock l enabled \<noteq> None \<longleftrightarrow> \<not> locked l"
proof -
  have "\<not> locked l" if "lock l enabled = Some r" for r
    by (rule lock.raw_induct [OF _ that]) (auto simp: try_lock_def split: if_splits)
  moreover have "lock l enabled \<noteq> None" if "\<not> locked l"
    using that by (simp add: lock.simps try_lock_def)
  ultimately show ?thesis by auto
qed

section \<open>The semaphore\<close>

text \<open>The count is what it was at the start, plus what was given, less what was taken, unless it wrapped around.\<close>

definition sem_inv :: "u32 \<Rightarrow> SemSys \<Rightarrow> bool" where
  "sem_inv n s \<longleftrightarrow> (unat n + sem_given s < 2 ^ 32 \<longrightarrow> unat (sem_count s) + sem_taken s = unat n + sem_given s) \<and>
     (sem_count s \<noteq> 0 \<longrightarrow> SemParked \<in> set (sem_threads s) \<longrightarrow> SignalWake \<in> set (sem_threads s))"

lemma parked_set: "x \<in> set (sem_threads (sem_set i t s)) \<Longrightarrow> x = t \<or> x \<in> set (sem_threads s)"
  unfolding sem_set_def by (auto dest: set_update_subset_insert [THEN subsetD])

lemma waker_set:
  "i < length (sem_threads s) \<Longrightarrow> x \<in> set (sem_threads s) \<Longrightarrow> sem_threads s ! i \<noteq> x \<Longrightarrow> x \<in> set (sem_threads (sem_set i t s))"
  unfolding sem_set_def by (simp add: in_set_conv_nth) (metis nth_list_update_neq)

lemma sem_set_fields [simp]:
  "sem_count (sem_set i t s) = sem_count s" "sem_taken (sem_set i t s) = sem_taken s" "sem_given (sem_set i t s) = sem_given s"
  by (simp_all add: sem_set_def)

lemma unat_sem_dec: "c \<noteq> 0 \<Longrightarrow> unat (c - 1) + 1 = unat c" for c :: u32
  by (simp add: unat_minus_one Suc_leI unat_gt_0)

text \<open>A task that moves, but not from waking the waiters and not to its sleep, keeps the promise of a wakeup.\<close>

lemma sem_move:
  assumes "sem_inv n s" "i < length (sem_threads s)" "sem_threads s ! i \<noteq> SignalWake" "t \<noteq> SemParked"
  shows "sem_inv n (sem_set i t s)"
  using assms parked_set [of SemParked i t s] waker_set [OF assms(2), of SignalWake t] unfolding sem_inv_def by auto

lemma sem_take:
  assumes "sem_inv n s" "sem_count s \<noteq> 0"
  shows "sem_inv n (s\<lparr> sem_count := sem_count s - 1, sem_taken := sem_taken s + 1 \<rparr>)"
  using assms unat_sem_dec [OF assms(2)] unfolding sem_inv_def by auto

lemma sem_add:
  assumes "sem_inv n s" "i < length (sem_threads s)"
  shows "sem_inv n (sem_set i SignalWake (s\<lparr> sem_count := sem_count s + 1, sem_given := sem_given s + 1 \<rparr>))"
proof -
  have "unat (sem_count s + 1) + sem_taken s = unat n + (sem_given s + 1)" if g: "unat n + (sem_given s + 1) < 2 ^ 32"
  proof -
    have e: "unat (sem_count s) + sem_taken s = unat n + sem_given s" using assms(1) g by (simp add: sem_inv_def)
    then have "unat (sem_count s) + 1 < 2 ^ 32" using g by linarith
    then have "sem_count s \<noteq> - 1" by (auto simp: unsigned_minus_1_eq_mask mask_eq_exp_minus_1)
    then have "unat (sem_count s + 1) = unat (sem_count s) + 1" using unat_inc [of "sem_count s"] by simp
    then show ?thesis using e by simp
  qed
  moreover have "SignalWake \<in> set ((sem_threads s)[i := SignalWake])" using assms(2) by (simp add: set_update_memI)
  ultimately show ?thesis by (simp add: sem_inv_def sem_set_def)
qed

lemma sem_run_inv:
  assumes "sem_inv n s" "i < length (sem_threads s)"
  shows "sem_inv n (sem_run (sem_threads s ! i) i s)"
proof (cases "sem_threads s ! i")
  case WaitTest
  show ?thesis
  proof (cases "sem_count s = 0")
    case True
    then show ?thesis using WaitTest assms(1) by (simp add: sem_try_take_def sem_inv_def)
  next
    case False
    then show ?thesis
      using WaitTest sem_move [OF sem_take [OF assms(1) False], of i Outside] assms(2) by (simp add: sem_try_take_def)
  qed
next
  case SignalAdd
  then show ?thesis using sem_add [OF assms] by simp
next
  case SignalWake
  let ?s = "s\<lparr> sem_threads := map sem_wake (sem_threads s) \<rparr>"
  have "SemParked \<notin> set (sem_threads (sem_set i Outside ?s))"
    using parked_set [of SemParked i Outside ?s] by (auto simp: sem_wake_def split: if_splits)
  then show ?thesis using SignalWake assms(1) by (simp add: sem_inv_def)
qed (use assms(1) in simp_all)

lemma sem_step_inv: "sem_step s s' \<Longrightarrow> sem_inv n s \<Longrightarrow> sem_inv n s'"
proof (induction rule: sem_step.induct)
  case (try_wait i s got c)
  then show ?case
    using sem_take [of n s] by (auto simp: sem_try_wait_def sem_try_take_def sem_inv_def split: if_splits)
qed (simp_all add: sem_move sem_run_inv)

interpretation sem: invariant "\<lambda>s. \<exists>threads. s = Semaphore_new n threads" sem_step "sem_inv n" for n
proof
  show "sem_inv n s" if "\<exists>threads. s = Semaphore_new n threads" for s
    using that by (auto simp: sem_inv_def Semaphore_new_def)
qed (rule sem_step_inv)

text \<open>
  C36: A semaphore neither loses nor invents permits, and no waiter sleeps through one. After any interleaving of
  \<open>wait\<close>, \<open>try_wait\<close> and \<open>signal\<close> by any tasks, whether or not they took a permit before they signal, the
  count and the permits taken add up to the initial count and the permits given, as long as these do not
  exceed 32 bits. So never more permits are out than the initial count allows: with an initial count of one and
  tasks that signal only for a permit they took, it is a mutex. And while a task is blocked although the count
  is positive, a call of \<open>signal\<close> is on its way to wake it.
\<close>

theorem semaphore_permits:
  assumes "sem_step\<^sup>*\<^sup>* (Semaphore_new n threads) s"
  shows "(unat n + sem_given s < 2 ^ 32 \<longrightarrow> unat (sem_count s) + sem_taken s = unat n + sem_given s) \<and>
    (SemParked \<in> set (sem_threads s) \<and> sem_count s \<noteq> 0 \<longrightarrow> SignalWake \<in> set (sem_threads s))"
proof -
  have "sem_inv n s" by (rule sem.reached [OF _ assms]) blast
  then show ?thesis by (auto simp: sem_inv_def)
qed

text \<open>A producer signals an empty semaphore on which a consumer sleeps.\<close>

definition sem_demo :: SemSys where
  "sem_demo = \<lparr> sem_count = 1, sem_threads = [SemParked, SignalWake], sem_taken = 0, sem_given = 1 \<rparr>"

lemma sem_demo_reached: "sem_step\<^sup>*\<^sup>* (Semaphore_new 0 2) sem_demo"
proof -
  let ?s = "\<lambda>a b. \<lparr> sem_count = 0, sem_threads = [a, b], sem_taken = 0, sem_given = 0 \<rparr>"
  have "sem_step (Semaphore_new 0 2) (?s WaitTest Outside)"
    using sem_step.wait [of 0 "Semaphore_new 0 2"] by (simp add: Semaphore_new_def sem_set_def numeral_2_eq_2)
  moreover have "sem_step (?s WaitTest Outside) (?s SemParked Outside)"
    using sem_step.run [of 0 "?s WaitTest Outside"] by (simp add: sem_set_def sem_try_take_def)
  moreover have "sem_step (?s SemParked Outside) (?s SemParked SignalAdd)"
    using sem_step.signal [of 1 "?s SemParked Outside"] by (simp add: sem_set_def)
  moreover have "sem_step (?s SemParked SignalAdd) sem_demo"
    using sem_step.run [of 1 "?s SemParked SignalAdd"] by (simp add: sem_set_def sem_demo_def)
  ultimately show ?thesis by (blast intro: converse_rtranclp_into_rtranclp)
qed

theorem semaphore_permits_witness:
  "unat (sem_count sem_demo) + sem_taken sem_demo = 1 \<and> sem_threads sem_demo = [SemParked, SignalWake]"
  using semaphore_permits [OF sem_demo_reached] by (simp add: sem_demo_def)

theorem nested_locks_restore_interrupts_witness:
  "let s = \<lparr> lk_lock = (\<lambda>_. SpinLock_new ())(0 := \<lparr> locked = True, lock_value = () \<rparr>), lk_enabled = False,
             lk_held = [(0 :: nat, \<lparr> interrupts_were_enabled = True \<rparr>)] \<rparr>
   in lock_step (Locks_new True) s \<and> \<not> lk_enabled s \<and> locked (lk_lock s 0)"
proof -
  let ?s = "\<lparr> lk_lock = (\<lambda>_. SpinLock_new ())(0 := \<lparr> locked = True, lock_value = () \<rparr>), lk_enabled = False,
             lk_held = [(0 :: nat, \<lparr> interrupts_were_enabled = True \<rparr>)] \<rparr>"
  have "lock_step (Locks_new True) ?s"
    using lock_step.take_lock [of "Locks_new True" "0 :: nat" _ _ False] by (simp add: Locks_new_def SpinLock_new_def try_lock_def)
  moreover from this have "lock_step\<^sup>*\<^sup>* (Locks_new True) ?s" by (rule r_into_rtranclp)
  from nested_locks_restore_interrupts [OF this] have "\<not> lk_enabled ?s" "locked (lk_lock ?s 0)" by simp_all
  ultimately show ?thesis by (simp add: Let_def)
qed

text \<open>
  Released out of order, the locks do not keep interrupts off: dropping the outer guard first turns
  them on while the inner lock is still held.
\<close>

theorem out_of_order_release_enables_interrupts:
  "let (g1, l1, e) = try_lock (SpinLock_new ()) True; (g2, l2, e) = try_lock (SpinLock_new ()) e;
       (l1, e) = guard_drop (the g1) l1 e
   in e \<and> locked l2"
  by (simp add: try_lock_def guard_drop_def SpinLock_new_def)

end
