(* ===== verification/Bytes.thy ===== *)
theory Bytes
  imports Prelude
begin

text \<open>
  Little-endian fields in byte buffers, as \<open>elf.rs\<close> and \<open>fat.rs\<close> read and write them, and the
  iterator and string idioms the two share.
\<close>

definition read_u16 :: "u8 list \<Rightarrow> nat \<Rightarrow> u16" where
  "read_u16 data at = ucast (data ! at) OR push_bit 8 (ucast (data ! (at + 1)))"

definition read_u32 :: "u8 list \<Rightarrow> nat \<Rightarrow> u32" where
  "read_u32 data at = ucast (data ! at) OR push_bit 8 (ucast (data ! (at + 1))) OR
     push_bit 16 (ucast (data ! (at + 2))) OR push_bit 24 (ucast (data ! (at + 3)))"

definition read_u64 :: "u8 list \<Rightarrow> nat \<Rightarrow> u64" where
  "read_u64 data at = fold (\<lambda>k w. w OR push_bit (8 * k) (ucast (data ! (at + k)))) [0..<8] 0"

text \<open>\<open>to_le_bytes\<close>.\<close>

definition u16_bytes :: "u16 \<Rightarrow> u8 list" where
  "u16_bytes w = [ucast w, ucast (drop_bit 8 w)]"

definition u32_bytes :: "u32 \<Rightarrow> u8 list" where
  "u32_bytes w = [ucast w, ucast (drop_bit 8 w), ucast (drop_bit 16 w), ucast (drop_bit 24 w)]"

text \<open>\<open>buffer[at..at + bytes.len()].copy_from_slice(bytes)\<close>.\<close>

definition patch :: "nat \<Rightarrow> 'a list \<Rightarrow> 'a list \<Rightarrow> 'a list" where
  "patch at bytes buffer = take at buffer @ bytes @ drop (at + length bytes) buffer"

text \<open>\<open>chunks_exact\<close>.\<close>

function chunks_exact :: "nat \<Rightarrow> 'a list \<Rightarrow> 'a list list" where
  "chunks_exact n xs = (if n = 0 \<or> length xs < n then [] else take n xs # chunks_exact n (drop n xs))"
  by pat_completeness auto
termination by (relation "measure (length \<circ> snd)") auto

declare chunks_exact.simps [simp del]

definition to_ascii_uppercase :: "u8 \<Rightarrow> u8" where
  "to_ascii_uppercase b = (if 0x61 \<le> b \<and> b \<le> 0x7A then b - 0x20 else b)"

definition to_ascii_lowercase :: "u8 \<Rightarrow> u8" where
  "to_ascii_lowercase b = (if 0x41 \<le> b \<and> b \<le> 0x5A then b + 0x20 else b)"

definition eq_ignore_ascii_case :: "u8 list \<Rightarrow> u8 list \<Rightarrow> bool" where
  "eq_ignore_ascii_case a b \<longleftrightarrow> map to_ascii_lowercase a = map to_ascii_lowercase b"

text \<open>\<open>String::push(byte as char)\<close>: the UTF-8 bytes of the character with that code.\<close>

definition byte_char :: "u8 \<Rightarrow> u8 list" where
  "byte_char b = (if b < 0x80 then [b] else [0xC0 OR drop_bit 6 b, 0x80 OR (b AND 0x3F)])"

text \<open>\<open>rsplit_once('.')\<close>.\<close>

definition rsplit_dot :: "u8 list \<Rightarrow> (u8 list \<times> u8 list) option" where
  "rsplit_dot s = (case position (\<lambda>c. c = 46) (rev s) of
     None \<Rightarrow> None
   | Some i \<Rightarrow> Some (take (length s - i - 1) s, drop (length s - i) s))"

definition div_ceil :: "nat \<Rightarrow> nat \<Rightarrow> nat" where
  "div_ceil a b = a div b + (if a mod b = 0 then 0 else 1)"

definition is_power_of_two :: "u32 \<Rightarrow> bool" where
  "is_power_of_two w \<longleftrightarrow> w \<noteq> 0 \<and> w AND (w - 1) = 0"

section \<open>Lemmas\<close>

lemma length_patch [simp]: "at + length bytes \<le> length buffer \<Longrightarrow> length (patch at bytes buffer) = length buffer"
  by (simp add: patch_def)

lemma nth_patch:
  assumes "at + length bytes \<le> length buffer" "i < length buffer"
  shows "patch at bytes buffer ! i = (if at \<le> i \<and> i < at + length bytes then bytes ! (i - at) else buffer ! i)"
  using assms by (auto simp: patch_def nth_append min_def)

lemma length_chunks: "0 < n \<Longrightarrow> length xs = k * n \<Longrightarrow> length (chunks_exact n xs) = k"
proof (induction k arbitrary: xs)
  case 0
  then show ?case by (simp add: chunks_exact.simps)
next
  case (Suc k)
  then show ?case by (subst chunks_exact.simps) simp
qed

lemma nth_chunks: "0 < n \<Longrightarrow> length xs = k * n \<Longrightarrow> i < k \<Longrightarrow> chunks_exact n xs ! i = take n (drop (i * n) xs)"
proof (induction k arbitrary: xs i)
  case (Suc k)
  then show ?case
    by (cases i; subst chunks_exact.simps) (auto simp: add.commute)
qed simp

lemma u16_round_trip: "(ucast (ucast w :: u8) :: u16) OR push_bit 8 (ucast (ucast (drop_bit 8 w) :: u8)) = w" for w :: u16
  by (rule bit_eqI) (auto simp: bit_simps dest: bit_imp_le_length)

lemma read_u16_patch:
  assumes "at + 2 \<le> length buffer"
  shows "read_u16 (patch at (u16_bytes w) buffer) at = w"
proof -
  have "at + length (u16_bytes w) \<le> length buffer" using assms by (simp add: u16_bytes_def)
  note n = nth_patch [OF this]
  show ?thesis using assms n [of at] n [of "at + 1"] u16_round_trip [of w]
    by (simp add: read_u16_def u16_bytes_def)
qed

lemma read_u16_patch_other:
  assumes "at' + length bytes \<le> length buffer" "at + 2 \<le> at' \<or> at' + length bytes \<le> at" "at + 2 \<le> length buffer"
  shows "read_u16 (patch at' bytes buffer) at = read_u16 buffer at"
  using assms nth_patch [OF assms(1), of at] nth_patch [OF assms(1), of "at + 1"] by (auto simp: read_u16_def)

lemma u32_round_trip:
  "(ucast (ucast w :: u8) :: u32) OR push_bit 8 (ucast (ucast (drop_bit 8 w) :: u8)) OR
     push_bit 16 (ucast (ucast (drop_bit 16 w) :: u8)) OR push_bit 24 (ucast (ucast (drop_bit 24 w) :: u8)) = w" for w :: u32
proof (rule bit_eqI)
  fix n :: nat
  consider "n < 8" | "8 \<le> n \<and> n < 16" | "16 \<le> n \<and> n < 24" | "24 \<le> n" by linarith
  then show "bit ((ucast (ucast w :: u8) :: u32) OR push_bit 8 (ucast (ucast (drop_bit 8 w) :: u8)) OR
     push_bit 16 (ucast (ucast (drop_bit 16 w) :: u8)) OR push_bit 24 (ucast (ucast (drop_bit 24 w) :: u8))) n = bit w n"
    by cases (auto simp: bit_simps dest: bit_imp_le_length)
qed

lemma read_u32_patch:
  assumes "at + 4 \<le> length buffer"
  shows "read_u32 (patch at (u32_bytes w) buffer) at = w"
proof -
  have "at + length (u32_bytes w) \<le> length buffer" using assms by (simp add: u32_bytes_def)
  note n = nth_patch [OF this]
  show ?thesis using assms n [of at] n [of "at + 1"] n [of "at + 2"] n [of "at + 3"] u32_round_trip [of w]
    by (simp add: read_u32_def u32_bytes_def)
qed

end
