(* ===== verification/Fat.thy ===== *)
theory Fat
  imports Ata Bytes
begin

text \<open>
  \<open>kernel/src/fat.rs\<close>: a FAT16 volume with a root directory, read and written sector by sector.

  The disk is the drive of \<open>ata.rs\<close> together with what it reports after a cache flush. An
  operation is a function of the disk that returns its result and the disk it leaves behind: an
  error in the middle of an operation keeps the writes that were made. Strings are their UTF-8 bytes.
\<close>

record Disk =
  disk_drive :: Drive
  disk_flush :: "string option"

type_synonym 'a io = "Disk \<Rightarrow> (string + 'a) \<times> Disk"

definition io_return :: "'a \<Rightarrow> 'a io" where
  "io_return x d = (Inr x, d)"

definition io_error :: "string \<Rightarrow> 'a io" where
  "io_error e d = (Inl e, d)"

definition io_bind :: "'a io \<Rightarrow> ('a \<Rightarrow> 'b io) \<Rightarrow> 'b io" where
  "io_bind m f d = (case m d of (Inl e, d) \<Rightarrow> (Inl e, d) | (Inr x, d) \<Rightarrow> f x d)"

text \<open>\<open>ata::read\<close> into a buffer of \<open>n\<close> zero bytes, and \<open>ata::write\<close>.\<close>

definition io_read :: "u32 \<Rightarrow> nat \<Rightarrow> u8 list io" where
  "io_read lba n d = (case ata_read (disk_drive d) lba (replicate n 0) of
     (Inl e, _) \<Rightarrow> (Inl e, d) | (Inr _, bytes) \<Rightarrow> (Inr bytes, d))"

definition io_write :: "u32 \<Rightarrow> u8 list \<Rightarrow> unit io" where
  "io_write lba bytes d = (case ata_write (disk_flush d) (disk_drive d) lba bytes of
     (r, drv) \<Rightarrow> (r, d\<lparr> disk_drive := drv \<rparr>))"

fun io_each :: "('a \<Rightarrow> unit io) \<Rightarrow> 'a list \<Rightarrow> unit io" where
  "io_each f [] = io_return ()"
| "io_each f (x # xs) = io_bind (f x) (\<lambda>_. io_each f xs)"

section \<open>The volume\<close>

abbreviation (input) DIRECTORY_ENTRY_SIZE :: nat where "DIRECTORY_ENTRY_SIZE \<equiv> 32"
abbreviation (input) ATTRIBUTE_VOLUME_LABEL :: u8 where "ATTRIBUTE_VOLUME_LABEL \<equiv> 0x08"
abbreviation (input) ATTRIBUTE_DIRECTORY :: u8 where "ATTRIBUTE_DIRECTORY \<equiv> 0x10"
abbreviation (input) ENTRY_FREE :: u8 where "ENTRY_FREE \<equiv> 0x00"
abbreviation (input) ENTRY_DELETED :: u8 where "ENTRY_DELETED \<equiv> 0xE5"
abbreviation (input) END_OF_CHAIN :: u16 where "END_OF_CHAIN \<equiv> 0xFFF8"

record Volume =
  bytes_per_sector :: u32
  fat_count :: u32
  sectors_per_cluster :: u32
  fat_start :: u32
  sectors_per_fat :: u32
  root_start :: u32
  root_entries :: u32
  data_start :: u32
  clusters :: u32

record Entry =
  entry_name :: "u8 list"
  entry_size :: u32
  first_cluster :: u16

definition u32_div_ceil :: "u32 \<Rightarrow> u32 \<Rightarrow> u32" where
  "u32_div_ceil a b = a div b + (if a mod b = 0 then 0 else 1)"

text \<open>What the boot sector describes.\<close>

definition parse_boot_sector :: "u8 list \<Rightarrow> string + Volume" where
  "parse_boot_sector sector =
     (if sector ! 510 \<noteq> 0x55 \<or> sector ! 511 \<noteq> 0xAA then Inl ''sector 0 is not a boot sector''
      else let bps = ucast (read_u16 sector 11)
      in if unat bps \<noteq> SECTOR_SIZE then Inl ''this reader only handles 512-byte sectors''
      else let spc = ucast (sector ! 13)
      in if spc = 0 \<or> \<not> is_power_of_two spc then Inl ''sectors per cluster must be a power of two''
      else let reserved = ucast (read_u16 sector 14); fats = ucast (sector ! 16);
               entries = ucast (read_u16 sector 17); spf = ucast (read_u16 sector 22);
               total = (if (ucast (read_u16 sector 19) :: u32) = 0 then read_u32 sector 32 else ucast (read_u16 sector 19))
      in if reserved = 0 \<or> fats = 0 \<or> spf = 0 \<or> total = 0 then Inl ''the BPB has a zero where it must not''
      else let root = reserved + fats * spf; data = root + u32_div_ceil (entries * 32) bps
      in if data \<ge> total then Inl ''the data region starts past the end of the volume''
      else let count = (total - data) div spc
      in if \<not> (4085 \<le> count \<and> count < 65525) then Inl ''cluster count is not in the FAT16 range''
      else Inr \<lparr> bytes_per_sector = bps, fat_count = fats, sectors_per_cluster = spc, fat_start = reserved,
                 sectors_per_fat = spf, root_start = root, root_entries = entries, data_start = data, clusters = count \<rparr>)"

text \<open>\<open>present\<close>: the answer of \<open>ata::present\<close>, which reads the drive's status port.\<close>

definition mount :: "bool \<Rightarrow> Volume io" where
  "mount present =
     (if \<not> present then io_error ''no disk on the primary slave (did run.sh attach fs.img?)''
      else io_bind (io_read 0 SECTOR_SIZE) (\<lambda>sector.
             case parse_boot_sector sector of Inl e \<Rightarrow> io_error e | Inr v \<Rightarrow> io_return v))"

section \<open>Reading\<close>

definition cluster_to_sector :: "Volume \<Rightarrow> u16 \<Rightarrow> u32" where
  "cluster_to_sector v cluster = data_start v + (ucast cluster - 2) * sectors_per_cluster v"

definition cluster_bytes :: "Volume \<Rightarrow> nat" where
  "cluster_bytes v = unat (sectors_per_cluster v * bytes_per_sector v)"

definition fat_entry_location :: "Volume \<Rightarrow> u16 \<Rightarrow> u32 \<times> nat" where
  "fat_entry_location v cluster =
     (let offset = ucast cluster * 2
      in (fat_start v + offset div bytes_per_sector v, unat (offset mod bytes_per_sector v)))"

definition next_cluster :: "Volume \<Rightarrow> u16 \<Rightarrow> u16 io" where
  "next_cluster v cluster =
     (let (sector, within) = fat_entry_location v cluster
      in io_bind (io_read sector SECTOR_SIZE) (\<lambda>buffer. io_return (read_u16 buffer within)))"

definition decode_name :: "u8 list \<Rightarrow> u8 list" where
  "decode_name slot =
     (let stem = concat (map byte_char (filter (\<lambda>b. b \<noteq> 32) (take 8 slot)));
          extension = concat (map byte_char (filter (\<lambda>b. b \<noteq> 32) (take 3 (drop 8 slot))))
      in if extension \<noteq> [] then stem @ [46] @ extension else stem)"

definition slot_entry :: "u8 list \<Rightarrow> Entry" where
  "slot_entry slot = \<lparr> entry_name = decode_name slot, entry_size = read_u32 slot 28, first_cluster = read_u16 slot 26 \<rparr>"

text \<open>The slots of one directory sector: the entries found so far, and whether the never-used slot was met.\<close>

fun list_slots :: "u8 list list \<Rightarrow> Entry list \<Rightarrow> bool \<times> Entry list" where
  "list_slots [] entries = (False, entries)"
| "list_slots (slot # slots) entries =
     (if slot ! 0 = ENTRY_FREE then (True, entries)
      else if slot ! 0 = ENTRY_DELETED then list_slots slots entries
      else if slot ! 11 AND ATTRIBUTE_VOLUME_LABEL \<noteq> 0 then list_slots slots entries
      else if slot ! 11 AND ATTRIBUTE_DIRECTORY \<noteq> 0 then list_slots slots entries
      else list_slots slots (entries @ [slot_entry slot]))"

definition root_sectors :: "Volume \<Rightarrow> nat" where
  "root_sectors v = unat (u32_div_ceil (root_entries v * 32) (bytes_per_sector v))"

fun list_sectors :: "Volume \<Rightarrow> nat list \<Rightarrow> Entry list \<Rightarrow> Entry list io" where
  "list_sectors v [] entries = io_return entries"
| "list_sectors v (i # is) entries =
     io_bind (io_read (root_start v + word_of_nat i) SECTOR_SIZE) (\<lambda>buffer.
       case list_slots (chunks_exact DIRECTORY_ENTRY_SIZE buffer) entries of
         (True, entries) \<Rightarrow> io_return entries
       | (False, entries) \<Rightarrow> list_sectors v is entries)"

definition fat_list :: "Volume \<Rightarrow> Entry list io" where
  "fat_list v = list_sectors v [0..<root_sectors v] []"

definition fat_find :: "Volume \<Rightarrow> u8 list \<Rightarrow> Entry io" where
  "fat_find v name = io_bind (fat_list v) (\<lambda>entries.
     case find (\<lambda>entry. eq_ignore_ascii_case (entry_name entry) name) entries of
       None \<Rightarrow> io_error ''no such file'' | Some entry \<Rightarrow> io_return entry)"

text \<open>The loop of \<open>read_file\<close>: \<open>data\<close> are the bytes read so far, \<open>size\<close> how many are wanted.\<close>

function read_chain :: "Volume \<Rightarrow> nat \<Rightarrow> u16 \<Rightarrow> nat \<Rightarrow> u8 list \<Rightarrow> u8 list io" where
  "read_chain v sz cluster visited data =
     (if length data \<ge> sz then io_return data
      else if cluster < 2 \<or> (ucast cluster :: u32) \<ge> clusters v + 2 then io_error ''chain left the volume''
      else if visited + 1 > unat (clusters v) then io_error ''cluster chain loops''
      else io_bind (io_read (cluster_to_sector v cluster) (cluster_bytes v)) (\<lambda>buffer.
             let data = data @ take (sz - length data) buffer
             in if length data \<ge> sz then io_return data
                else io_bind (next_cluster v cluster) (\<lambda>next.
                       if next \<ge> END_OF_CHAIN then io_error ''chain ended before the file did''
                       else read_chain v sz next (visited + 1) data)))"
  by pat_completeness auto
termination by (relation "measure (\<lambda>(v, sz, cluster, visited, data). unat (clusters v) - visited)") auto

declare read_chain.simps [simp del]

definition read_file :: "Volume \<Rightarrow> Entry \<Rightarrow> u8 list io" where
  "read_file v entry =
     (if entry_size entry = 0 then io_return []
      else read_chain v (unat (entry_size entry)) (first_cluster entry) 0 [])"

section \<open>Writing\<close>

definition set_fat_entry :: "Volume \<Rightarrow> u16 \<Rightarrow> u16 \<Rightarrow> unit io" where
  "set_fat_entry v cluster val =
     (let (sector, within) = fat_entry_location v cluster
      in io_each (\<lambda>copy. let target = sector + word_of_nat copy * sectors_per_fat v
           in io_bind (io_read target SECTOR_SIZE) (\<lambda>buffer. io_write target (patch within (u16_bytes val) buffer)))
         [0..<unat (fat_count v)])"

fun find_free_in :: "Volume \<Rightarrow> nat list \<Rightarrow> u16 io" where
  "find_free_in v [] = io_error ''the volume is full''"
| "find_free_in v (c # cs) = io_bind (next_cluster v (word_of_nat c)) (\<lambda>n.
     if n = 0 then io_return (word_of_nat c) else find_free_in v cs)"

definition find_free_cluster :: "Volume \<Rightarrow> u16 \<Rightarrow> u16 io" where
  "find_free_cluster v after = find_free_in v [unat (max after 2)..<unat ((ucast (clusters v) :: u16) + 2)]"

fun reserve :: "Volume \<Rightarrow> nat \<Rightarrow> u16 \<Rightarrow> u16 list \<Rightarrow> u16 list io" where
  "reserve v 0 search_from chain = io_return chain"
| "reserve v (Suc n) search_from chain = io_bind (find_free_cluster v search_from) (\<lambda>cluster.
     io_bind (set_fat_entry v cluster 0xFFFF) (\<lambda>_. reserve v n (cluster + 1) (chain @ [cluster])))"

definition cluster_data :: "Volume \<Rightarrow> u8 list \<Rightarrow> nat \<Rightarrow> u8 list" where
  "cluster_data v data index =
     (let piece = take (cluster_bytes v) (drop (index * cluster_bytes v) data)
      in piece @ replicate (cluster_bytes v - length piece) 0)"

definition write_data :: "Volume \<Rightarrow> u16 list \<Rightarrow> u8 list \<Rightarrow> unit io" where
  "write_data v chain data =
     io_each (\<lambda>index. io_write (cluster_to_sector v (chain ! index)) (cluster_data v data index)) [0..<length chain]"

definition link_chain :: "Volume \<Rightarrow> u16 list \<Rightarrow> unit io" where
  "link_chain v chain =
     io_each (\<lambda>index. set_fat_entry v (chain ! index) (if index + 1 = length chain then 0xFFFF else chain ! (index + 1)))
       (rev [0..<length chain])"

definition write_chain :: "Volume \<Rightarrow> u8 list \<Rightarrow> u16 io" where
  "write_chain v data =
     io_bind (reserve v (max (div_ceil (length data) (cluster_bytes v)) 1) 2 []) (\<lambda>chain.
     io_bind (write_data v chain data) (\<lambda>_.
     io_bind (link_chain v chain) (\<lambda>_. io_return (chain ! 0))))"

fun count_free_in :: "Volume \<Rightarrow> nat list \<Rightarrow> u32 \<Rightarrow> u32 io" where
  "count_free_in v [] free = io_return free"
| "count_free_in v (c # cs) free = io_bind (next_cluster v (word_of_nat c)) (\<lambda>n.
     count_free_in v cs (if n = 0 then free + 1 else free))"

definition count_free :: "Volume \<Rightarrow> u32 io" where
  "count_free v = count_free_in v [2..<unat ((ucast (clusters v) :: u16) + 2)] 0"

function free_chain_loop :: "Volume \<Rightarrow> u16 \<Rightarrow> nat \<Rightarrow> unit io" where
  "free_chain_loop v cluster visited =
     (if \<not> (2 \<le> cluster \<and> cluster < END_OF_CHAIN) then io_return ()
      else if visited > unat (clusters v) then io_error ''cluster chain loops''
      else io_bind (next_cluster v cluster) (\<lambda>next.
             io_bind (set_fat_entry v cluster 0) (\<lambda>_. free_chain_loop v next (visited + 1))))"
  by pat_completeness auto
termination by (relation "measure (\<lambda>(v, cluster, visited). unat (clusters v) + 1 - visited)") auto

declare free_chain_loop.simps [simp del]

definition free_chain :: "Volume \<Rightarrow> u16 \<Rightarrow> unit io" where
  "free_chain v first = free_chain_loop v first 0"

text \<open>
  The slots of one sector of the root directory: the first reusable slot so far, and the answer
  once the scan is over.
\<close>

fun slot_in :: "u8 list \<Rightarrow> u32 \<Rightarrow> nat \<Rightarrow> u8 list list \<Rightarrow> (u32 \<times> nat) option \<Rightarrow>
    (u32 \<times> nat \<times> Entry option) option \<times> (u32 \<times> nat) option" where
  "slot_in name sector i [] first_empty = (None, first_empty)"
| "slot_in name sector i (slot # slots) first_empty =
     (if slot ! 0 = ENTRY_FREE \<or> slot ! 0 = ENTRY_DELETED
      then let (s, off) = (case first_empty of Some so \<Rightarrow> so | None \<Rightarrow> (sector, i * DIRECTORY_ENTRY_SIZE))
           in if slot ! 0 = ENTRY_FREE then (Some (s, off, None), Some (s, off))
              else slot_in name sector (i + 1) slots (Some (s, off))
      else if slot ! 11 AND (ATTRIBUTE_VOLUME_LABEL OR ATTRIBUTE_DIRECTORY) \<noteq> 0
      then slot_in name sector (i + 1) slots first_empty
      else if eq_ignore_ascii_case (decode_name slot) name
      then (Some (sector, i * DIRECTORY_ENTRY_SIZE, Some (slot_entry slot)), first_empty)
      else slot_in name sector (i + 1) slots first_empty)"

fun slot_sectors :: "Volume \<Rightarrow> u8 list \<Rightarrow> nat list \<Rightarrow> (u32 \<times> nat) option \<Rightarrow> (u32 \<times> nat \<times> Entry option) io" where
  "slot_sectors v name [] first_empty = (case first_empty of
     Some (sector, offset) \<Rightarrow> io_return (sector, offset, None)
   | None \<Rightarrow> io_error ''the root directory is full'')"
| "slot_sectors v name (i # is) first_empty =
     (let sector = root_start v + word_of_nat i
      in io_bind (io_read sector SECTOR_SIZE) (\<lambda>buffer.
           case slot_in name sector 0 (chunks_exact DIRECTORY_ENTRY_SIZE buffer) first_empty of
             (Some r, _) \<Rightarrow> io_return r
           | (None, first_empty) \<Rightarrow> slot_sectors v name is first_empty))"

definition directory_slot :: "Volume \<Rightarrow> u8 list \<Rightarrow> (u32 \<times> nat \<times> Entry option) io" where
  "directory_slot v name = slot_sectors v name [0..<root_sectors v] None"

definition new_slot :: "u8 list \<Rightarrow> u8 list \<Rightarrow> u16 \<Rightarrow> u32 \<Rightarrow> u8 list" where
  "new_slot stem extension cluster sz =
     patch 28 (u32_bytes sz) (patch 26 (u16_bytes cluster) (
       (patch 8 (map to_ascii_uppercase extension) (patch 0 (map to_ascii_uppercase stem)
          (replicate 11 32 @ replicate 21 0)))[11 := 0x20]))"

definition fat_create :: "Volume \<Rightarrow> u8 list \<Rightarrow> u8 list \<Rightarrow> unit io" where
  "fat_create v name data =
     (let (stem, extension) = (case rsplit_dot name of Some (s, e) \<Rightarrow> (s, e) | None \<Rightarrow> (name, []))
      in if stem = [] \<or> length stem > 8 \<or> length extension > 3 then io_error ''name must fit 8.3''
         else io_bind (directory_slot v name) (\<lambda>(sector, offset, existing).
              io_bind (if data = [] then io_return 0 else write_chain v data) (\<lambda>cluster.
              io_bind (case existing of
                         Some old \<Rightarrow> if first_cluster old \<ge> 2 then free_chain v (first_cluster old) else io_return ()
                       | None \<Rightarrow> io_return ()) (\<lambda>_.
              io_bind (io_read sector SECTOR_SIZE) (\<lambda>buffer.
              io_write sector (patch offset (new_slot stem extension cluster (word_of_nat (length data))) buffer))))))"

definition fat_remove :: "Volume \<Rightarrow> u8 list \<Rightarrow> unit io" where
  "fat_remove v name =
     io_bind (directory_slot v name) (\<lambda>(sector, offset, existing).
       case existing of
         None \<Rightarrow> io_error ''no such file''
       | Some entry \<Rightarrow>
           io_bind (io_read sector SECTOR_SIZE) (\<lambda>buffer.
           io_bind (io_write sector (buffer[offset := ENTRY_DELETED])) (\<lambda>_.
             if first_cluster entry \<ge> 2 then free_chain v (first_cluster entry) else io_return ())))"

end
