(* ===== verification/Fat_Volume.thy ===== *)
theory Fat_Volume
  imports Fat
begin

text \<open>
  The disk and the layout under the FAT file system. On a disk that reports no error, reads and writes are
  equations on sectors. The layout places tables, root directory and clusters in disjoint sectors, so
  that a volume is an abstract record (\<open>View\<close>) of links, cluster contents and directory sectors, and every
  primitive of \<open>fat.rs\<close> is an update of one of its fields.
\<close>

section \<open>A disk that reports no error\<close>

definition sector_bytes :: "Disk \<Rightarrow> nat \<Rightarrow> u8 list" where
  "sector_bytes d s = words_to_bytes (sectors (disk_drive d) s)"

definition healthy :: "Disk \<Rightarrow> bool" where
  "healthy d \<longleftrightarrow> disk_flush d = None \<and> (\<forall>s. drive_error (disk_drive d) s = None) \<and>
     (\<forall>s. length (sectors (disk_drive d) s) = 256)"

definition sector_run :: "Disk \<Rightarrow> nat \<Rightarrow> nat \<Rightarrow> u8 list" where
  "sector_run d s n = concat (map (\<lambda>k. sector_bytes d (s + k)) [0..<n])"

lemma length_words_to_bytes [simp]: "length (words_to_bytes ws) = 2 * length ws"
  by (induction ws) auto

lemma length_bytes_to_words: "even (length bs) \<Longrightarrow> 2 * length (bytes_to_words bs) = length bs"
  by (induction bs rule: bytes_to_words.induct) auto

lemma length_sector_bytes [simp]: "healthy d \<Longrightarrow> length (sector_bytes d s) = 512"
  by (simp add: healthy_def sector_bytes_def)

lemma length_sector_run [simp]: "healthy d \<Longrightarrow> length (sector_run d s n) = n * 512"
  by (induction n) (simp_all add: sector_run_def)

lemma lba_registers_small: "unat lba < 2 ^ 28 \<Longrightarrow> lba_registers lba = unat lba" for lba :: u32
proof -
  assume "unat lba < 2 ^ 28"
  moreover have "lba AND 0x0FFFFFFF = take_bit 28 lba"
    using take_bit_eq_mask [of 28 lba] by (simp add: mask_eq_exp_minus_1)
  ultimately show ?thesis by (simp add: lba_registers_def unsigned_take_bit_eq take_bit_nat_eq_self)
qed

lemma io_bind_Inr: "m d = (Inr x, d') \<Longrightarrow> io_bind m f d = f x d'"
  by (simp add: io_bind_def)

lemma io_bind_Inl: "m d = (Inl e, d') \<Longrightarrow> io_bind m f d = (Inl e, d')"
  by (simp add: io_bind_def)

lemma io_each_append: "io_each f (xs @ ys) d = io_bind (io_each f xs) (\<lambda>_. io_each f ys) d"
  by (induction xs arbitrary: d) (auto simp: io_bind_def io_return_def split: prod.splits sum.splits)

lemma io_read_run:
  assumes "healthy d" "unat lba < 2 ^ 28" "0 < n" "n \<le> 256"
  shows "io_read lba (n * 512) d = (Inr (sector_run d (unat lba) n), d)"
  using assms read_sectors_spec [of n "disk_drive d" "unat lba" "replicate (n * 512) 0"]
  by (simp add: io_read_def ata_read_def lba_registers_small healthy_def sector_run_def sector_bytes_def)

lemma io_read_sector:
  assumes "healthy d" "unat lba < 2 ^ 28"
  shows "io_read lba 512 d = (Inr (sector_bytes d (unat lba)), d)"
  using io_read_run [OF assms, of 1] by (simp add: sector_run_def)

lemma io_write_run:
  assumes "healthy d" "unat lba < 2 ^ 28" "0 < n" "n \<le> 256" "length bytes = n * 512"
  shows "\<exists>d'. io_write lba bytes d = (Inr (), d') \<and> healthy d' \<and>
    (\<forall>t. sector_bytes d' t = (if unat lba \<le> t \<and> t < unat lba + n then take 512 (drop ((t - unat lba) * 512) bytes)
                              else sector_bytes d t))"
proof -
  let ?s = "unat lba"
  obtain drv where drv: "write_sectors (disk_drive d) ?s n bytes = (Inr (), drv)" "drive_error drv = drive_error (disk_drive d)"
      "\<forall>t. sectors drv t = (if ?s \<le> t \<and> t < ?s + n
         then bytes_to_words (take 512 (drop ((t - ?s) * 512) bytes)) else sectors (disk_drive d) t)"
    using write_sectors_spec [of n "disk_drive d" ?s bytes] assms by (auto simp: healthy_def)
  have len: "length (take 512 (drop ((t - ?s) * 512) bytes)) = 512" if "?s \<le> t" "t < ?s + n" for t
  proof -
    have "t - ?s < n" using that by simp
    then have "(t - ?s) * 512 + 512 \<le> length bytes" using assms(5) by simp
    then show ?thesis by simp
  qed
  have io: "io_write lba bytes d = (Inr (), d\<lparr> disk_drive := drv \<rparr>)"
    using assms drv(1) by (simp add: io_write_def ata_write_def lba_registers_small healthy_def)
  have "length (sectors drv t) = 256" for t
    using drv(3) len [of t] length_bytes_to_words [of "take 512 (drop ((t - ?s) * 512) bytes)"] assms(1)
    by (auto simp: healthy_def)
  then have "healthy (d\<lparr> disk_drive := drv \<rparr>)" using assms(1) drv(2) by (simp add: healthy_def)
  moreover have "sector_bytes (d\<lparr> disk_drive := drv \<rparr>) t = (if ?s \<le> t \<and> t < ?s + n
      then take 512 (drop ((t - ?s) * 512) bytes) else sector_bytes d t)" for t
    using drv(3) len [of t] by (auto simp: sector_bytes_def words_bytes_words)
  ultimately show ?thesis using io by blast
qed

lemma io_write_sector:
  assumes "healthy d" "unat lba < 2 ^ 28" "length bytes = 512"
  shows "\<exists>d'. io_write lba bytes d = (Inr (), d') \<and> healthy d' \<and>
    (\<forall>t. sector_bytes d' t = (if t = unat lba then bytes else sector_bytes d t))"
proof -
  obtain d' where d': "io_write lba bytes d = (Inr (), d')" "healthy d'"
      "\<And>t. sector_bytes d' t = (if unat lba \<le> t \<and> t < unat lba + 1 then take 512 (drop ((t - unat lba) * 512) bytes)
                              else sector_bytes d t)"
    using io_write_run [OF assms(1,2), of 1 bytes] assms(3) by auto
  have "sector_bytes d' t = (if t = unat lba then bytes else sector_bytes d t)" for t
    using d'(3) [of t] assms(3) by auto
  then show ?thesis using d'(1,2) by blast
qed

lemma sector_run_cong:
  "(\<And>t. s \<le> t \<Longrightarrow> t < s + n \<Longrightarrow> sector_bytes d' t = sector_bytes d t) \<Longrightarrow> sector_run d' s n = sector_run d s n"
  unfolding sector_run_def by (intro arg_cong [where f = concat] map_cong) auto

lemma sector_run_written:
  assumes "\<And>t. s \<le> t \<Longrightarrow> t < s + n \<Longrightarrow> sector_bytes d' t = take 512 (drop ((t - s) * 512) bytes)" "length bytes = n * 512"
  shows "sector_run d' s n = bytes"
proof -
  have "map (\<lambda>k. sector_bytes d' (s + k)) [0..<n] = map (\<lambda>k. take 512 (drop (k * 512) bytes)) [0..<n]"
    using assms(1) by (intro map_cong) auto
  then show ?thesis using concat_chunks [OF assms(2)] unfolding sector_run_def by argo
qed

section \<open>The layout of a volume\<close>

text \<open>What \<open>mount\<close> establishes.\<close>

definition volume_layout :: "Volume \<Rightarrow> bool" where
  "volume_layout v \<longleftrightarrow> bytes_per_sector v = 512 \<and> 0 < unat (sectors_per_cluster v) \<and> unat (sectors_per_cluster v) \<le> 128 \<and>
     0 < unat (fat_start v) \<and> unat (fat_start v) < 2 ^ 16 \<and> 0 < unat (fat_count v) \<and> unat (fat_count v) < 2 ^ 8 \<and>
     0 < unat (sectors_per_fat v) \<and> unat (sectors_per_fat v) < 2 ^ 16 \<and>
     unat (root_entries v) < 2 ^ 16 \<and> unat (root_start v) = unat (fat_start v) + unat (fat_count v) * unat (sectors_per_fat v) \<and>
     root_sectors v = div_ceil (unat (root_entries v) * 32) 512 \<and>
     unat (data_start v) = unat (root_start v) + root_sectors v \<and>
     4085 \<le> unat (clusters v) \<and> unat (clusters v) < 65525"

text \<open>
  What it does not check and the rest relies on: the tables have an entry for every cluster, and
  the last sector has a 28-bit address.
\<close>

definition volume_ok :: "Volume \<Rightarrow> bool" where
  "volume_ok v \<longleftrightarrow> volume_layout v \<and> unat (clusters v) + 2 \<le> unat (sectors_per_fat v) * 256 \<and>
     unat (data_start v) + unat (clusters v) * unat (sectors_per_cluster v) \<le> 2 ^ 28"

definition valid_cluster :: "Volume \<Rightarrow> u16 \<Rightarrow> bool" where
  "valid_cluster v c \<longleftrightarrow> 2 \<le> unat c \<and> unat c < unat (clusters v) + 2"

definition fat_sector :: "Volume \<Rightarrow> nat \<Rightarrow> u16 \<Rightarrow> nat" where
  "fat_sector v copy c = unat (fat_start v) + copy * unat (sectors_per_fat v) + unat c div 256"

definition data_sector :: "Volume \<Rightarrow> u16 \<Rightarrow> nat" where
  "data_sector v c = unat (data_start v) + (unat c - 2) * unat (sectors_per_cluster v)"

lemma unat_ucast_u16_u32 [simp]: "unat (ucast c :: u32) = unat c" for c :: u16
  by (simp add: unsigned_ucast_eq take_bit_nat_eq_self less_le_trans [OF unsigned_less])

lemma unat_fat_offset: "unat (ucast c * 2 :: u32) = 2 * unat c" for c :: u16
proof -
  have "unat c < 2 ^ 16" using unsigned_less [of c] by simp
  then show ?thesis by (simp add: unat_word_ariths)
qed

lemma unat_word_small: "n < 2 ^ 32 \<Longrightarrow> unat (word_of_nat n :: u32) = n"
  by (simp add: unat_of_nat take_bit_nat_eq_self)

lemma fat_entry_location_eq:
  assumes "bytes_per_sector v = 512"
  shows "fat_entry_location v c = (fat_start v + word_of_nat (unat c div 256), 2 * (unat c mod 256))"
proof -
  have "unat (ucast c * 2 div 512 :: u32) = unat c div 256" by (simp add: unat_div unat_fat_offset)
  then have "(ucast c * 2 div 512 :: u32) = word_of_nat (unat c div 256)" by (metis unat_eq_nat_uint of_nat_unat ucast_id)
  moreover have "unat (ucast c * 2 mod 512 :: u32) = 2 * (unat c mod 256)"
    by (simp add: unat_mod unat_fat_offset mult_mod_right)
  ultimately show ?thesis by (simp add: fat_entry_location_def assms)
qed

lemma fat_sector_bounds:
  assumes "volume_ok v" "valid_cluster v c" "copy < unat (fat_count v)"
  shows "unat (fat_start v) \<le> fat_sector v copy c \<and> fat_sector v copy c < unat (root_start v)"
proof -
  have "unat c div 256 < unat (sectors_per_fat v)"
    using assms by (simp add: volume_ok_def valid_cluster_def less_mult_imp_div_less)
  moreover have "copy * unat (sectors_per_fat v) + unat (sectors_per_fat v) \<le> unat (fat_count v) * unat (sectors_per_fat v)"
    using assms(3) by (metis Suc_leI add.commute mult_Suc mult_le_mono1)
  ultimately show ?thesis using assms(1) by (auto simp: fat_sector_def volume_ok_def volume_layout_def)
qed

lemma unat_add_exact: "unat a + unat b < 2 ^ LENGTH('a) \<Longrightarrow> unat (a + b) = unat a + unat b" for a b :: "'a::len word"
  by (simp add: unat_word_ariths)

lemma unat_mult_exact: "unat a * unat b < 2 ^ LENGTH('a) \<Longrightarrow> unat (a * b) = unat a * unat b" for a b :: "'a::len word"
  by (simp add: unat_word_ariths)

lemma fat_sector_word:
  assumes "volume_ok v" "valid_cluster v c" "copy < unat (fat_count v)"
  shows "unat (fat_start v + word_of_nat (unat c div 256) + word_of_nat copy * sectors_per_fat v) = fat_sector v copy c"
proof -
  have b: "fat_sector v copy c < 2 ^ 32"
    using fat_sector_bounds [OF assms] unat_u32_less [of "root_start v"] by simp
  have w: "unat (word_of_nat copy :: u32) = copy" "unat (word_of_nat (unat c div 256) :: u32) = unat c div 256"
    using assms(3) unat_u32_less [of "fat_count v"] unat_u16_less [of c] by (simp_all add: unat_word_small)
  have m: "unat (word_of_nat copy * sectors_per_fat v) = copy * unat (sectors_per_fat v)"
    using b w(1) by (subst unat_mult_exact) (simp_all add: fat_sector_def)
  have a: "unat (fat_start v + word_of_nat (unat c div 256)) = unat (fat_start v) + unat c div 256"
    using b w(2) by (subst unat_add_exact) (simp_all add: fat_sector_def)
  show ?thesis using b by (subst unat_add_exact) (simp_all add: a m fat_sector_def)
qed

lemma fat_sector_inj:
  assumes "volume_ok v" "valid_cluster v c" "valid_cluster v c'"
  shows "fat_sector v k c = fat_sector v k' c' \<longleftrightarrow> k = k' \<and> unat c div 256 = unat c' div 256"
proof -
  let ?f = "unat (sectors_per_fat v)"
  have b: "unat c div 256 < ?f" "unat c' div 256 < ?f"
    using assms by (simp_all add: volume_ok_def valid_cluster_def less_mult_imp_div_less)
  have "k = k' \<and> unat c div 256 = unat c' div 256" if "k * ?f + unat c div 256 = k' * ?f + unat c' div 256"
    using arg_cong [OF that, of "\<lambda>x. x div ?f"] arg_cong [OF that, of "\<lambda>x. x mod ?f"] b by simp
  then show ?thesis by (auto simp: fat_sector_def)
qed

lemma data_sector_bounds:
  assumes "volume_ok v" "valid_cluster v c"
  shows "unat (data_start v) \<le> data_sector v c \<and> data_sector v c + unat (sectors_per_cluster v) \<le> 2 ^ 28"
proof -
  let ?k = "unat (sectors_per_cluster v)"
  have "unat c - 2 + 1 \<le> unat (clusters v)" using assms(2) by (auto simp: valid_cluster_def)
  then have "(unat c - 2 + 1) * ?k \<le> unat (clusters v) * ?k" by (rule mult_le_mono1)
  then show ?thesis using assms(1) by (simp add: data_sector_def volume_ok_def)
qed

lemma cluster_sector_word:
  assumes "volume_ok v" "valid_cluster v c"
  shows "unat (cluster_to_sector v c) = data_sector v c"
proof -
  have "2 \<le> unat c" using assms(2) by (simp add: valid_cluster_def)
  then have "unat (ucast c - 2 :: u32) = unat c - 2" by (simp add: unat_sub word_le_nat_alt)
  moreover have "data_sector v c < 2 ^ 32" using data_sector_bounds [OF assms] by simp
  moreover from this have "(unat c - 2) * unat (sectors_per_cluster v) < 2 ^ 32" by (simp add: data_sector_def)
  ultimately show ?thesis by (simp add: cluster_to_sector_def unat_word_ariths data_sector_def)
qed

lemma data_sector_apart:
  assumes "valid_cluster v c" "valid_cluster v c'" "c \<noteq> c'" "data_sector v c \<le> t" "t < data_sector v c + unat (sectors_per_cluster v)"
  shows "\<not> (data_sector v c' \<le> t \<and> t < data_sector v c' + unat (sectors_per_cluster v))"
proof
  let ?k = "unat (sectors_per_cluster v)"
  assume a: "data_sector v c' \<le> t \<and> t < data_sector v c' + ?k"
  have "(t - unat (data_start v)) div ?k = unat c - 2" "(t - unat (data_start v)) div ?k = unat c' - 2"
    using a assms(4,5) by (auto simp: data_sector_def mult.commute intro!: div_nat_eqI)
  then have "unat c = unat c'" using assms(1,2) by (auto simp: valid_cluster_def)
  then show False using assms(3) word_unat_eq_iff by blast
qed

lemma cluster_bytes_eq: "volume_ok v \<Longrightarrow> cluster_bytes v = unat (sectors_per_cluster v) * 512"
  by (simp add: cluster_bytes_def volume_ok_def volume_layout_def unat_word_ariths)

section \<open>The abstract volume\<close>

text \<open>
  What the rest of the module works on: a table of links, the contents of the clusters and
  the sectors of the root directory. Entries that do not exist have a default value, so that the
  effect of an operation is an equation.
\<close>

record View =
  links :: "u16 \<Rightarrow> u16"
  content :: "u16 \<Rightarrow> u8 list"
  root :: "nat \<Rightarrow> u8 list"

definition fat_copy :: "Volume \<Rightarrow> Disk \<Rightarrow> nat \<Rightarrow> u16 \<Rightarrow> u16" where
  "fat_copy v d copy c = (if valid_cluster v c then read_u16 (sector_bytes d (fat_sector v copy c)) (2 * (unat c mod 256)) else 0)"

definition view :: "Volume \<Rightarrow> Disk \<Rightarrow> View" where
  "view v d = \<lparr> links = fat_copy v d 0,
     content = (\<lambda>c. if valid_cluster v c then sector_run d (data_sector v c) (unat (sectors_per_cluster v)) else []),
     root = (\<lambda>i. if i < root_sectors v then sector_bytes d (unat (root_start v) + i) else []) \<rparr>"

text \<open>The disk works and all copies of the table agree.\<close>

definition fs_ok :: "Volume \<Rightarrow> Disk \<Rightarrow> bool" where
  "fs_ok v d \<longleftrightarrow> volume_ok v \<and> healthy d \<and> (\<forall>copy < unat (fat_count v). fat_copy v d copy = fat_copy v d 0)"

lemma fs_ok_parts: "fs_ok v d \<Longrightarrow> volume_ok v" "fs_ok v d \<Longrightarrow> healthy d"
  by (simp_all add: fs_ok_def)

lemma volume_ok_parts:
  assumes "volume_ok v"
  shows "bytes_per_sector v = 512" "0 < unat (sectors_per_cluster v)" "unat (sectors_per_cluster v) \<le> 128"
    "0 < unat (fat_count v)" "unat (clusters v) < 65525" "unat (data_start v) = unat (root_start v) + root_sectors v"
    "unat (data_start v) < 2 ^ 28"
proof -
  have "0 < unat (clusters v) * unat (sectors_per_cluster v)"
    using assms by (simp add: volume_ok_def volume_layout_def)
  moreover have "unat (data_start v) + unat (clusters v) * unat (sectors_per_cluster v) \<le> 2 ^ 28"
    using assms by (simp add: volume_ok_def)
  ultimately show "unat (data_start v) < 2 ^ 28" by linarith
qed (use assms in \<open>simp_all add: volume_ok_def volume_layout_def\<close>)

lemma view_eqI:
  assumes "fat_copy v d 0 = links w"
    "\<And>c. valid_cluster v c \<Longrightarrow> sector_run d (data_sector v c) (unat (sectors_per_cluster v)) = content w c"
    "\<And>c. \<not> valid_cluster v c \<Longrightarrow> content w c = []"
    "\<And>i. i < root_sectors v \<Longrightarrow> sector_bytes d (unat (root_start v) + i) = root w i"
    "\<And>i. \<not> i < root_sectors v \<Longrightarrow> root w i = []"
  shows "view v d = w"
proof -
  have "(\<lambda>c. if valid_cluster v c then sector_run d (data_sector v c) (unat (sectors_per_cluster v)) else []) = content w"
    using assms(2,3) by (intro ext) simp
  moreover have "(\<lambda>i. if i < root_sectors v then sector_bytes d (unat (root_start v) + i) else []) = root w"
    using assms(4,5) by (intro ext) simp
  ultimately show ?thesis using assms(1) by (simp add: view_def)
qed

lemma view_simps:
  "links (view v d) = fat_copy v d 0"
  "valid_cluster v c \<Longrightarrow> content (view v d) c = sector_run d (data_sector v c) (unat (sectors_per_cluster v))"
  "\<not> valid_cluster v c \<Longrightarrow> content (view v d) c = []"
  "i < root_sectors v \<Longrightarrow> root (view v d) i = sector_bytes d (unat (root_start v) + i)"
  "\<not> i < root_sectors v \<Longrightarrow> root (view v d) i = []"
  by (simp_all add: view_def)

lemma fs_ok_copy: "fs_ok v d \<Longrightarrow> copy < unat (fat_count v) \<Longrightarrow> fat_copy v d copy = links (view v d)"
  unfolding fs_ok_def view_simps by blast

lemma fs_okI:
  assumes "volume_ok v" "healthy d" "\<And>copy. copy < unat (fat_count v) \<Longrightarrow> fat_copy v d copy = f"
  shows "fs_ok v d" "fat_copy v d 0 = f"
  using assms volume_ok_parts(4) [OF assms(1)] by (auto simp: fs_ok_def)

lemma length_content: "fs_ok v d \<Longrightarrow> valid_cluster v c \<Longrightarrow> length (content (view v d) c) = cluster_bytes v"
  by (simp add: view_def fs_ok_parts cluster_bytes_eq)

lemma length_root: "fs_ok v d \<Longrightarrow> i < root_sectors v \<Longrightarrow> length (root (view v d) i) = 512"
  by (simp add: view_def fs_ok_parts)

lemma fat_sector_lba:
  assumes "volume_ok v" "valid_cluster v c" "copy < unat (fat_count v)"
  shows "fat_sector v copy c < 2 ^ 28"
  using fat_sector_bounds [OF assms] volume_ok_parts(6,7) [OF assms(1)] by linarith

lemma next_cluster_view:
  assumes "fs_ok v d" "valid_cluster v c"
  shows "next_cluster v c d = (Inr (links (view v d) c), d)"
proof -
  note p = volume_ok_parts [OF fs_ok_parts(1) [OF assms(1)]]
  have s: "unat (fat_start v + word_of_nat (unat c div 256)) = fat_sector v 0 c"
    using fat_sector_word [OF fs_ok_parts(1) [OF assms(1)] assms(2) p(4)] by simp
  have "io_read (fat_start v + word_of_nat (unat c div 256)) 512 d = (Inr (sector_bytes d (fat_sector v 0 c)), d)"
    using io_read_sector [OF fs_ok_parts(2) [OF assms(1)]] fat_sector_lba [OF fs_ok_parts(1) [OF assms(1)] assms(2) p(4)] s
    by metis
  then show ?thesis
    using assms(2) by (simp add: next_cluster_def fat_entry_location_eq [OF p(1)] io_bind_Inr io_return_def view_def fat_copy_def)
qed

lemma set_fat_copies:
  assumes "volume_ok v" "healthy d" "valid_cluster v c" "n \<le> unat (fat_count v)"
  shows "\<exists>d'. io_each (\<lambda>copy. let target = fat_start v + word_of_nat (unat c div 256) + word_of_nat copy * sectors_per_fat v
           in io_bind (io_read target 512) (\<lambda>buffer. io_write target (patch (2 * (unat c mod 256)) (u16_bytes x) buffer)))
         [0..<n] d = (Inr (), d') \<and> healthy d' \<and>
    (\<forall>s. sector_bytes d' s = (if \<exists>copy < n. s = fat_sector v copy c
        then patch (2 * (unat c mod 256)) (u16_bytes x) (sector_bytes d s) else sector_bytes d s))"
  using assms(4)
proof (induction n)
  case 0
  then show ?case using assms(2) by (simp add: io_return_def)
next
  case (Suc n)
  let ?p = "patch (2 * (unat c mod 256)) (u16_bytes x)"
  let ?t = "fat_start v + word_of_nat (unat c div 256) + word_of_nat n * sectors_per_fat v"
  from Suc obtain d1 where d1: "io_each (\<lambda>copy. let target = fat_start v + word_of_nat (unat c div 256) + word_of_nat copy * sectors_per_fat v
           in io_bind (io_read target 512) (\<lambda>buffer. io_write target (?p buffer))) [0..<n] d = (Inr (), d1)" "healthy d1"
      "\<And>s. sector_bytes d1 s = (if \<exists>copy < n. s = fat_sector v copy c then ?p (sector_bytes d s) else sector_bytes d s)"
    by auto
  have n: "n < unat (fat_count v)" using Suc.prems by simp
  have t: "unat ?t = fat_sector v n c" by (rule fat_sector_word [OF assms(1,3) n])
  have b: "unat ?t < 2 ^ 28" using fat_sector_lba [OF assms(1,3) n] t by simp
  have old: "sector_bytes d1 (fat_sector v n c) = sector_bytes d (fat_sector v n c)"
    using d1(3) fat_sector_inj [OF assms(1,3,3)] by auto
  have "length (?p (sector_bytes d (fat_sector v n c))) = 512"
    using assms(2) by (simp add: u16_bytes_def)
  from io_write_sector [OF d1(2) b this] obtain d2 where d2:
      "io_write ?t (?p (sector_bytes d (fat_sector v n c))) d1 = (Inr (), d2)" "healthy d2"
      "\<And>s. sector_bytes d2 s = (if s = fat_sector v n c then ?p (sector_bytes d (fat_sector v n c)) else sector_bytes d1 s)"
    unfolding t by blast
  have "io_read ?t 512 d1 = (Inr (sector_bytes d (fat_sector v n c)), d1)"
    using io_read_sector [OF d1(2) b] old t by simp
  with d1(1) d2(1) show ?case
    using d2(2,3) d1(3) by (auto simp: io_each_append io_bind_Inr Let_def io_return_def less_Suc_eq)
qed

lemma set_fat_entry_view:
  assumes "fs_ok v d" "valid_cluster v c"
  shows "\<exists>d'. set_fat_entry v c x d = (Inr (), d') \<and> fs_ok v d' \<and> view v d' = (view v d)\<lparr> links := (links (view v d))(c := x) \<rparr>"
proof -
  note vol = fs_ok_parts(1) [OF assms(1)] and hl = fs_ok_parts(2) [OF assms(1)]
  note p = volume_ok_parts [OF vol]
  let ?p = "patch (2 * (unat c mod 256)) (u16_bytes x)"
  obtain d' where d': "set_fat_entry v c x d = (Inr (), d')" "healthy d'"
      "\<And>s. sector_bytes d' s = (if \<exists>copy < unat (fat_count v). s = fat_sector v copy c then ?p (sector_bytes d s) else sector_bytes d s)"
    using set_fat_copies [OF vol hl assms(2) order_refl, of x] unfolding set_fat_entry_def fat_entry_location_eq [OF p(1)]
    by auto
  have other: "sector_bytes d' s = sector_bytes d s" if "unat (root_start v) \<le> s" for s
    using d'(3) [of s] fat_sector_bounds [OF vol assms(2)] that by (metis not_le)
  have copy: "fat_copy v d' k = (fat_copy v d k)(c := x)" if k: "k < unat (fat_count v)" for k
  proof
    fix c'
    show "fat_copy v d' k c' = ((fat_copy v d k)(c := x)) c'"
    proof (cases "valid_cluster v c'")
      case True
      let ?s = "sector_bytes d (fat_sector v k c')"
      have len: "length ?s = 512" using hl by simp
      have in_sector: "(\<exists>copy < unat (fat_count v). fat_sector v k c' = fat_sector v copy c) \<longleftrightarrow> unat c' div 256 = unat c div 256"
        using fat_sector_inj [OF vol True assms(2)] k by blast
      have b: "2 * (unat c mod 256) + 2 \<le> 512" "2 * (unat c' mod 256) + 2 \<le> 512"
        using mod_less_divisor [of 256 "unat c"] mod_less_divisor [of 256 "unat c'"] by linarith+
      show ?thesis
      proof (cases "c' = c")
        case True
        then show ?thesis using in_sector d'(3) [of "fat_sector v k c'"] read_u16_patch [of "2 * (unat c mod 256)" ?s x] b len assms(2)
          by (simp add: fat_copy_def)
      next
        case False
        have "read_u16 (?p ?s) (2 * (unat c' mod 256)) = read_u16 ?s (2 * (unat c' mod 256))" if "unat c' div 256 = unat c div 256"
        proof -
          have "unat c' mod 256 \<noteq> unat c mod 256"
            using that False by (metis div_mult_mod_eq word_unat_eq_iff)
          then show ?thesis using len b by (intro read_u16_patch_other) (auto simp: u16_bytes_def)
        qed
        then show ?thesis using False in_sector d'(3) [of "fat_sector v k c'"] by (auto simp: fat_copy_def)
      qed
    next
      case False
      then show ?thesis using assms(2) by (auto simp: fat_copy_def)
    qed
  qed
  have "fat_copy v d' k = (links (view v d))(c := x)" if "k < unat (fat_count v)" for k
    using copy [OF that] fs_ok_copy [OF assms(1) that] by simp
  note ok = fs_okI [OF vol d'(2) this]
  have "view v d' = (view v d)\<lparr> links := (links (view v d))(c := x) \<rparr>"
  proof -
    have "sector_run d' (data_sector v k) (unat (sectors_per_cluster v)) = sector_run d (data_sector v k) (unat (sectors_per_cluster v))" if "valid_cluster v k" for k
      using data_sector_bounds [OF vol that] p(6) by (intro sector_run_cong other) linarith
    then show ?thesis using ok(2) other by (intro view_eqI) (simp_all add: view_simps)
  qed
  then show ?thesis using d'(1) ok(1) by blast
qed

lemma read_cluster_view:
  assumes "fs_ok v d" "valid_cluster v c"
  shows "io_read (cluster_to_sector v c) (cluster_bytes v) d = (Inr (content (view v d) c), d)"
proof -
  note vol = fs_ok_parts(1) [OF assms(1)]
  note s = cluster_sector_word [OF vol assms(2)] and p = volume_ok_parts [OF vol]
  have "unat (cluster_to_sector v c) < 2 ^ 28" using data_sector_bounds [OF vol assms(2)] p(2) s by linarith
  then show ?thesis
    using io_read_run [OF fs_ok_parts(2) [OF assms(1)] _ p(2)] p(3) assms(2) s by (simp add: cluster_bytes_eq [OF vol] view_def)
qed

lemma write_cluster_view:
  assumes "fs_ok v d" "valid_cluster v c" "length bytes = cluster_bytes v"
  shows "\<exists>d'. io_write (cluster_to_sector v c) bytes d = (Inr (), d') \<and> fs_ok v d' \<and>
    view v d' = (view v d)\<lparr> content := (content (view v d))(c := bytes) \<rparr>"
proof -
  note vol = fs_ok_parts(1) [OF assms(1)]
  note s = cluster_sector_word [OF vol assms(2)] and p = volume_ok_parts [OF vol]
  let ?n = "unat (sectors_per_cluster v)"
  have b: "unat (cluster_to_sector v c) < 2 ^ 28" using data_sector_bounds [OF vol assms(2)] p(2) s by linarith
  obtain d' where d': "io_write (cluster_to_sector v c) bytes d = (Inr (), d')" "healthy d'"
      "\<And>t. sector_bytes d' t = (if data_sector v c \<le> t \<and> t < data_sector v c + ?n
          then take 512 (drop ((t - data_sector v c) * 512) bytes) else sector_bytes d t)"
    using io_write_run [OF fs_ok_parts(2) [OF assms(1)] b p(2), of bytes] p(3) assms(3) s cluster_bytes_eq [OF vol] by auto
  have low: "sector_bytes d' t = sector_bytes d t" if "t < unat (data_start v)" for t
    using d'(3) [of t] data_sector_bounds [OF vol assms(2)] that by auto
  have "fat_copy v d' k = fat_copy v d k" if "k < unat (fat_count v)" for k
    using low fat_sector_bounds [OF vol _ that] p(6) by (fastforce simp: fat_copy_def)
  then have "fat_copy v d' k = links (view v d)" if "k < unat (fat_count v)" for k
    using fs_ok_copy [OF assms(1) that] that by simp
  note ok = fs_okI [OF vol d'(2) this]
  have "sector_run d' (data_sector v c') ?n = (if c' = c then bytes else sector_run d (data_sector v c') ?n)" if "valid_cluster v c'" for c'
  proof (cases "c' = c")
    case True
    then show ?thesis using d'(3) sector_run_written [of "data_sector v c" ?n d' bytes] assms(3) cluster_bytes_eq [OF vol] by simp
  next
    case False
    have "sector_bytes d' t = sector_bytes d t" if "data_sector v c' \<le> t" "t < data_sector v c' + ?n" for t
      using d'(3) [of t] data_sector_apart [OF \<open>valid_cluster v c'\<close> assms(2) False that] by auto
    then have "sector_run d' (data_sector v c') ?n = sector_run d (data_sector v c') ?n" by (rule sector_run_cong)
    then show ?thesis using False by simp
  qed
  then have "view v d' = (view v d)\<lparr> content := (content (view v d))(c := bytes) \<rparr>"
  proof (intro view_eqI)
    fix i
    assume "i < root_sectors v"
    then have "sector_bytes d' (unat (root_start v) + i) = sector_bytes d (unat (root_start v) + i)"
      using p(6) by (intro low) linarith
    then show "sector_bytes d' (unat (root_start v) + i) = root ((view v d)\<lparr> content := (content (view v d))(c := bytes) \<rparr>) i"
      using \<open>i < root_sectors v\<close> by (simp add: view_simps)
  qed (use ok(2) assms(2) in \<open>auto simp: view_simps\<close>)
  then show ?thesis using d'(1) ok(1) by blast
qed

lemma root_sector_word:
  assumes "volume_ok v" "i < root_sectors v"
  shows "unat (root_start v + word_of_nat i) = unat (root_start v) + i" "unat (root_start v) + i < 2 ^ 28"
proof -
  show b: "unat (root_start v) + i < 2 ^ 28" using volume_ok_parts(6,7) [OF assms(1)] assms(2) by linarith
  then show "unat (root_start v + word_of_nat i) = unat (root_start v) + i"
    by (subst unat_add_exact) (simp_all add: unat_word_small)
qed

lemma read_root_view:
  assumes "fs_ok v d" "i < root_sectors v"
  shows "io_read (root_start v + word_of_nat i) 512 d = (Inr (root (view v d) i), d)"
  using io_read_sector [OF fs_ok_parts(2) [OF assms(1)]] root_sector_word [OF fs_ok_parts(1) [OF assms(1)] assms(2)] assms(2)
  by (simp add: view_def)

lemma write_root_view:
  assumes "fs_ok v d" "i < root_sectors v" "length bytes = 512"
  shows "\<exists>d'. io_write (root_start v + word_of_nat i) bytes d = (Inr (), d') \<and> fs_ok v d' \<and>
    view v d' = (view v d)\<lparr> root := (root (view v d))(i := bytes) \<rparr>"
proof -
  note vol = fs_ok_parts(1) [OF assms(1)]
  note s = root_sector_word [OF vol assms(2)] and p = volume_ok_parts [OF vol]
  obtain d' where d': "io_write (root_start v + word_of_nat i) bytes d = (Inr (), d')" "healthy d'"
      "\<And>t. sector_bytes d' t = (if t = unat (root_start v) + i then bytes else sector_bytes d t)"
    using io_write_sector [OF fs_ok_parts(2) [OF assms(1)] _ assms(3), of "root_start v + word_of_nat i"] s by auto
  have "fat_copy v d' k = fat_copy v d k" if "k < unat (fat_count v)" for k
    using d'(3) fat_sector_bounds [OF vol _ that] by (fastforce simp: fat_copy_def)
  then have "fat_copy v d' k = links (view v d)" if "k < unat (fat_count v)" for k
    using fs_ok_copy [OF assms(1) that] that by simp
  note ok = fs_okI [OF vol d'(2) this]
  have "sector_run d' (data_sector v c) n = sector_run d (data_sector v c) n" if "valid_cluster v c" for c n
    using d'(3) data_sector_bounds [OF vol that] p(6) assms(2) by (intro sector_run_cong) auto
  then have "view v d' = (view v d)\<lparr> root := (root (view v d))(i := bytes) \<rparr>"
    using assms(2) d'(3) ok(2) by (intro view_eqI) (auto simp: view_simps)
  then show ?thesis using d'(1) ok(1) by blast
qed

end
