(* ===== verification/Fat_Chains.thy ===== *)
theory Fat_Chains
  imports Fat_Volume
begin

text \<open>
  Chains of clusters: reserving, storing, reading back and releasing them, as functions on the abstract
  volume.
\<close>

section \<open>Chains\<close>

definition cluster_limit :: "Volume \<Rightarrow> nat" where
  "cluster_limit v = unat (clusters v) + 2"

text \<open>The free clusters from \<open>a\<close> on, in the order of the scan.\<close>

definition free_from :: "Volume \<Rightarrow> View \<Rightarrow> nat \<Rightarrow> u16 list" where
  "free_from v w a = filter (\<lambda>c. links w c = 0) (map word_of_nat [a..<cluster_limit v])"

definition mark :: "u16 list \<Rightarrow> u16 \<Rightarrow> View \<Rightarrow> View" where
  "mark cs x w = w\<lparr> links := (\<lambda>c. if c \<in> set cs then x else links w c) \<rparr>"

fun linked :: "(u16 \<Rightarrow> u16) \<Rightarrow> u16 list \<Rightarrow> bool" where
  "linked f [] = False"
| "linked f [c] = (END_OF_CHAIN \<le> f c)"
| "linked f (c # c' # cs) = (f c = c' \<and> linked f (c' # cs))"

definition chain_ok :: "Volume \<Rightarrow> View \<Rightarrow> u16 list \<Rightarrow> bool" where
  "chain_ok v w cs \<longleftrightarrow> linked (links w) cs \<and> distinct cs \<and> (\<forall>c \<in> set cs. valid_cluster v c)"

lemma unat_u16_small: "n < 65536 \<Longrightarrow> unat (word_of_nat n :: u16) = n"
  by (simp add: unat_of_nat take_bit_nat_eq_self)

lemma cluster_limit_word: "volume_ok v \<Longrightarrow> unat ((ucast (clusters v) :: u16) + 2) = cluster_limit v"
proof -
  assume v: "volume_ok v"
  note p = volume_ok_parts(5) [OF v]
  then have "unat (ucast (clusters v) :: u16) = unat (clusters v)"
    by (simp add: unsigned_ucast_eq take_bit_nat_eq_self)
  then show ?thesis using p by (subst unat_add_exact) (simp_all add: cluster_limit_def)
qed

lemma cluster_limit_bound: "volume_ok v \<Longrightarrow> cluster_limit v < 65527"
  using volume_ok_parts(5) [of v] by (simp add: cluster_limit_def)

lemma valid_cluster_iff: "valid_cluster v c \<longleftrightarrow> 2 \<le> unat c \<and> unat c < cluster_limit v"
  by (simp add: valid_cluster_def cluster_limit_def)

lemma valid_cluster_nat: "volume_ok v \<Longrightarrow> 2 \<le> n \<Longrightarrow> n < cluster_limit v \<Longrightarrow> valid_cluster v (word_of_nat n)"
  using cluster_limit_bound [of v] by (simp add: valid_cluster_iff unat_u16_small)

lemma free_from_valid: "volume_ok v \<Longrightarrow> 2 \<le> a \<Longrightarrow> c \<in> set (free_from v w a) \<Longrightarrow> valid_cluster v c \<and> links w c = 0 \<and> a \<le> unat c"
  using cluster_limit_bound [of v] by (auto simp: free_from_def valid_cluster_nat unat_u16_small)

lemma free_from_complete:
  "valid_cluster v c \<Longrightarrow> links w c = 0 \<Longrightarrow> c \<in> set (free_from v w 2)"
  by (auto simp: free_from_def valid_cluster_iff intro!: image_eqI [of c word_of_nat "unat c"])

lemma distinct_free_from: "volume_ok v \<Longrightarrow> distinct (free_from v w a)"
proof -
  assume v: "volume_ok v"
  have "inj_on (word_of_nat :: nat \<Rightarrow> u16) (set [a..<cluster_limit v])"
    using cluster_limit_bound [OF v] by (intro inj_on_inverseI [of _ unat]) (simp add: unat_u16_small)
  then show ?thesis by (simp add: free_from_def distinct_map)
qed

lemma find_free_in_view:
  assumes "fs_ok v d" "\<forall>n \<in> set ns. 2 \<le> n \<and> n < cluster_limit v"
  shows "find_free_in v ns d = (case filter (\<lambda>c. links (view v d) c = 0) (map word_of_nat ns) of
     [] \<Rightarrow> (Inl ''the volume is full'', d) | c # _ \<Rightarrow> (Inr c, d))"
  using assms(2)
proof (induction ns)
  case (Cons n ns)
  then show ?case
    using next_cluster_view [OF assms(1) valid_cluster_nat [OF fs_ok_parts(1) [OF assms(1)], of n]]
    by (simp add: io_bind_Inr io_return_def)
qed (simp add: io_error_def)

lemma find_free_cluster_view:
  assumes "fs_ok v d" "2 \<le> unat a"
  shows "find_free_cluster v a d = (case free_from v (view v d) (unat a) of
     [] \<Rightarrow> (Inl ''the volume is full'', d) | c # _ \<Rightarrow> (Inr c, d))"
proof -
  have "max a 2 = a" using assms(2) by (auto simp: max_def word_le_nat_alt word_unat_eq_iff)
  then show ?thesis
    unfolding find_free_cluster_def cluster_limit_word [OF fs_ok_parts(1) [OF assms(1)]] free_from_def
    using assms by (subst find_free_in_view) auto
qed

lemma free_from_rest:
  assumes "volume_ok v" "2 \<le> a" "free_from v w a = c # cs"
  shows "free_from v (mark [c] x w) (unat c + 1) = cs" "unat (c + 1) = unat c + 1"
proof -
  let ?P = "\<lambda>n. links w (word_of_nat n) = 0" and ?N = "cluster_limit v"
  note p = cluster_limit_bound [OF assms(1)]
  have f: "map word_of_nat (filter ?P [a..<?N]) = c # cs"
    using assms(3) by (simp add: free_from_def filter_map o_def)
  then obtain m ms where m: "filter ?P [a..<?N] = m # ms" "c = word_of_nat m" "cs = map word_of_nat ms"
    by (auto simp: map_eq_Cons_conv)
  have mN: "a \<le> m" "m < ?N" using arg_cong [OF m(1), of set] by (auto simp: set_eq_iff)
  have u: "unat c = m" using m(2) mN p by (simp add: unat_u16_small)
  have "[a..<?N] = [a..<m] @ m # [Suc m..<?N]"
    using mN by (metis less_imp_le_nat upt_add_eq_append upt_conv_Cons le_iff_add)
  then have split: "filter ?P [a..<m] @ filter ?P (m # [Suc m..<?N]) = m # ms" using m(1) by simp
  have "filter ?P [a..<m] = []"
  proof (rule ccontr)
    assume ne: "filter ?P [a..<m] \<noteq> []"
    then have "m \<in> set (filter ?P [a..<m])" using split by (cases "filter ?P [a..<m]") auto
    then show False by simp
  qed
  moreover have "?P m" using arg_cong [OF m(1), of set] by (auto simp: set_eq_iff)
  ultimately have "filter ?P [Suc m..<?N] = ms" using split by simp
  moreover have "filter (\<lambda>n. links (mark [c] x w) (word_of_nat n) = 0) [Suc m..<?N] = filter ?P [Suc m..<?N]"
  proof (rule filter_cong [OF refl])
    fix n
    assume n: "n \<in> set [Suc m..<?N]"
    then have "unat (word_of_nat n :: u16) = n" using p by (simp add: unat_u16_small)
    then have "word_of_nat n \<noteq> c" using u n by auto
    then show "(links (mark [c] x w) (word_of_nat n) = 0) = ?P n" by (simp add: mark_def)
  qed
  ultimately show "free_from v (mark [c] x w) (unat c + 1) = cs"
    using m(3) u by (simp add: free_from_def filter_map o_def)
  show "unat (c + 1) = unat c + 1" using u mN p by (subst unat_add_exact) simp_all
qed

lemma mark_Cons: "mark cs x (mark [c] x w) = mark (c # cs) x w"
  by (auto simp: mark_def fun_eq_iff)

text \<open>Reserving takes the first free clusters; when there are too few it takes all and fails.\<close>

lemma reserve_view:
  assumes "fs_ok v d" "2 \<le> unat a"
  shows "\<exists>d'. reserve v n a chain d =
      (if n \<le> length (free_from v (view v d) (unat a)) then Inr (chain @ take n (free_from v (view v d) (unat a)))
       else Inl ''the volume is full'', d') \<and> fs_ok v d' \<and>
    view v d' = mark (take n (free_from v (view v d) (unat a))) 0xFFFF (view v d)"
  using assms
proof (induction n arbitrary: a chain d)
  case 0
  then show ?case by (simp add: io_return_def mark_def)
next
  case (Suc n)
  note vol = fs_ok_parts(1) [OF Suc.prems(1)]
  show ?case
  proof (cases "free_from v (view v d) (unat a)")
    case Nil
    then show ?thesis using find_free_cluster_view [OF Suc.prems] Suc.prems(1) by (simp add: io_bind_Inl mark_def)
  next
    case (Cons c cs)
    have "valid_cluster v c" using free_from_valid [OF vol Suc.prems(2)] Cons by (metis list.set_intros(1))
    from set_fat_entry_view [OF Suc.prems(1) this] obtain d1 where
        d1: "set_fat_entry v c 0xFFFF d = (Inr (), d1)" "fs_ok v d1" "view v d1 = mark [c] 0xFFFF (view v d)"
      by (auto simp: mark_def fun_upd_def)
    note rest = free_from_rest(1) [OF vol Suc.prems(2) Cons, of "0xFFFF"] free_from_rest(2) [OF vol Suc.prems(2) Cons]
    have "2 \<le> unat (c + 1)" using rest(2) \<open>valid_cluster v c\<close> by (simp add: valid_cluster_iff)
    from Suc.IH [OF d1(2) this, of "chain @ [c]"] obtain d' where d': "reserve v n (c + 1) (chain @ [c]) d1 =
        (if n \<le> length cs then Inr (chain @ c # take n cs) else Inl ''the volume is full'', d')" "fs_ok v d'"
        "view v d' = mark (take n cs) 0xFFFF (mark [c] 0xFFFF (view v d))"
      using rest d1(3) by auto
    have "reserve v (Suc n) a chain d = reserve v n (c + 1) (chain @ [c]) d1"
      using find_free_cluster_view [OF Suc.prems] Cons d1(1) by (simp add: io_bind_Inr)
    then show ?thesis using d' Cons by (simp add: mark_Cons)
  qed
qed

text \<open>A loop whose body acts on the volume as \<open>g\<close> acts as the iteration of \<open>g\<close>.\<close>

lemma io_each_view:
  assumes "\<And>x d. x \<in> set xs \<Longrightarrow> fs_ok v d \<Longrightarrow> \<exists>d'. f x d = (Inr (), d') \<and> fs_ok v d' \<and> view v d' = g x (view v d)" "fs_ok v d"
  shows "\<exists>d'. io_each f xs d = (Inr (), d') \<and> fs_ok v d' \<and> view v d' = fold g xs (view v d)"
  using assms
proof (induction xs arbitrary: d)
  case (Cons x xs)
  obtain d1 where d1: "f x d = (Inr (), d1)" "fs_ok v d1" "view v d1 = g x (view v d)"
    using Cons.prems(1) [of x d] Cons.prems(2) by auto
  then show ?case using Cons.IH [of d1] Cons.prems(1) by (auto simp: io_bind_Inr)
qed (simp add: io_return_def)

lemma fold_content:
  "fold (\<lambda>i w. w\<lparr> content := (content w)(k i := x i) \<rparr>) is w = w\<lparr> content := fold (\<lambda>i f. f(k i := x i)) is (content w) \<rparr>"
  by (induction "is" arbitrary: w) simp_all

lemma fold_links:
  "fold (\<lambda>i w. w\<lparr> links := (links w)(k i := x i) \<rparr>) is w = w\<lparr> links := fold (\<lambda>i f. f(k i := x i)) is (links w) \<rparr>"
  by (induction "is" arbitrary: w) simp_all

lemma fold_upd_other: "c \<notin> k ` set is \<Longrightarrow> fold (\<lambda>i f. f(k i := x i)) is f c = f c"
  by (induction "is" arbitrary: f) auto

lemma fold_upd_at: "i \<in> set is \<Longrightarrow> inj_on k (set is) \<Longrightarrow> fold (\<lambda>i f. f(k i := x i)) is f (k i) = x i"
proof (induction "is" arbitrary: f)
  case (Cons j js)
  show ?case
  proof (cases "i \<in> set js")
    case True
    then show ?thesis using Cons by (simp add: inj_on_def)
  next
    case False
    then have "k i \<notin> k ` set js" using Cons.prems by (auto simp: inj_on_def)
    then have "fold (\<lambda>i f. f(k i := x i)) js (f(k j := x j)) (k i) = (f(k j := x j)) (k i)" by (rule fold_upd_other)
    then show ?thesis using False Cons.prems(1) by (simp del: fun_upd_apply) simp
  qed
qed simp

lemma fold_upd_list:
  assumes "distinct cs" "set is = {0..<length cs}"
  shows "fold (\<lambda>i f. f(cs ! i := x i)) is f c = (case position (\<lambda>c'. c' = c) cs of None \<Rightarrow> f c | Some i \<Rightarrow> x i)"
proof (cases "position (\<lambda>c'. c' = c) cs")
  case None
  then have "c \<notin> set cs" by (auto simp: position_None)
  then have "c \<notin> (!) cs ` set is" using assms(2) by auto
  then show ?thesis using None by (simp add: fold_upd_other)
next
  case (Some i)
  then have "i < length cs" "cs ! i = c" using position_Some [OF Some] by blast+
  moreover have "inj_on ((!) cs) (set is)" using assms by (simp add: inj_on_nth)
  ultimately show ?thesis using Some fold_upd_at [of i "is" "(!) cs" x f] assms(2) by auto
qed

lemma position_nth: "distinct cs \<Longrightarrow> i < length cs \<Longrightarrow> position (\<lambda>c'. c' = cs ! i) cs = Some i"
proof -
  assume a: "distinct cs" "i < length cs"
  then obtain j where j: "position (\<lambda>c'. c' = cs ! i) cs = Some j"
    using position_complete [of i cs "\<lambda>c'. c' = cs ! i"] by blast
  then have "j < length cs" "cs ! j = cs ! i" using position_Some [OF j] by blast+
  then show ?thesis using j a nth_eq_iff_index_eq [of cs i j] by simp
qed

section \<open>Writing and reading a chain\<close>

definition needed :: "Volume \<Rightarrow> u8 list \<Rightarrow> nat" where
  "needed v data = max (div_ceil (length data) (cluster_bytes v)) 1"

text \<open>The volume after \<open>data\<close> was stored in the clusters \<open>cs\<close>.\<close>

definition chain_links :: "u16 list \<Rightarrow> (u16 \<Rightarrow> u16) \<Rightarrow> u16 \<Rightarrow> u16" where
  "chain_links cs f c = (case position (\<lambda>c'. c' = c) cs of None \<Rightarrow> f c
     | Some i \<Rightarrow> if i + 1 = length cs then 0xFFFF else cs ! (i + 1))"

definition chain_content :: "Volume \<Rightarrow> u16 list \<Rightarrow> u8 list \<Rightarrow> (u16 \<Rightarrow> u8 list) \<Rightarrow> u16 \<Rightarrow> u8 list" where
  "chain_content v cs data f c = (case position (\<lambda>c'. c' = c) cs of None \<Rightarrow> f c | Some i \<Rightarrow> cluster_data v data i)"

definition stored :: "Volume \<Rightarrow> u16 list \<Rightarrow> u8 list \<Rightarrow> View \<Rightarrow> View" where
  "stored v cs data w = w\<lparr> links := chain_links cs (links w), content := chain_content v cs data (content w) \<rparr>"

lemma stored_mark: "stored v cs data (mark cs x w) = stored v cs data w"
proof -
  have "chain_links cs (\<lambda>c. if c \<in> set cs then x else links w c) = chain_links cs (links w)"
    by (rule ext) (auto simp: chain_links_def position_None split: option.splits)
  then show ?thesis by (simp add: stored_def mark_def)
qed

lemma length_cluster_data [simp]: "length (cluster_data v data i) = cluster_bytes v"
  by (simp add: cluster_data_def Let_def)

lemma write_data_view:
  assumes "fs_ok v d" "\<forall>c \<in> set cs. valid_cluster v c" "distinct cs"
  shows "\<exists>d'. write_data v cs data d = (Inr (), d') \<and> fs_ok v d' \<and>
    view v d' = (view v d)\<lparr> content := content (stored v cs data (view v d)) \<rparr>"
proof -
  let ?g = "\<lambda>i w. w\<lparr> content := (content w)(cs ! i := cluster_data v data i) \<rparr>"
  have "\<exists>d'. io_write (cluster_to_sector v (cs ! i)) (cluster_data v data i) d = (Inr (), d') \<and> fs_ok v d' \<and> view v d' = ?g i (view v d)"
    if "i \<in> set [0..<length cs]" "fs_ok v d" for i d
    using write_cluster_view [OF that(2), of "cs ! i" "cluster_data v data i"] assms(2) that(1) by simp
  note r = io_each_view [where g = ?g and xs = "[0..<length cs]", OF this assms(1)]
  have "fold (\<lambda>i f. f(cs ! i := cluster_data v data i)) [0..<length cs] f = chain_content v cs data f" for f
    using assms(3) by (intro ext) (simp add: fold_upd_list chain_content_def)
  then show ?thesis using r by (simp add: write_data_def fold_content stored_def)
qed

lemma link_chain_view:
  assumes "fs_ok v d" "\<forall>c \<in> set cs. valid_cluster v c" "distinct cs"
  shows "\<exists>d'. link_chain v cs d = (Inr (), d') \<and> fs_ok v d' \<and>
    view v d' = (view v d)\<lparr> links := links (stored v cs data (view v d)) \<rparr>"
proof -
  let ?x = "\<lambda>i. if i + 1 = length cs then 0xFFFF else cs ! (i + 1)"
  let ?g = "\<lambda>i w. w\<lparr> links := (links w)(cs ! i := ?x i) \<rparr>"
  have "\<exists>d'. set_fat_entry v (cs ! i) (?x i) d = (Inr (), d') \<and> fs_ok v d' \<and> view v d' = ?g i (view v d)"
    if "i \<in> set (rev [0..<length cs])" "fs_ok v d" for i d
    using set_fat_entry_view [OF that(2), of "cs ! i" "?x i"] assms(2) that(1) by simp
  note r = io_each_view [where g = ?g and xs = "rev [0..<length cs]", OF this assms(1)]
  have "fold (\<lambda>i f. f(cs ! i := ?x i)) (rev [0..<length cs]) f = chain_links cs f" for f
    using assms(3) fold_upd_list [of cs "rev [0..<length cs]" ?x f] by (intro ext) (simp add: chain_links_def)
  then show ?thesis using r by (simp add: link_chain_def fold_links stored_def)
qed

text \<open>
  \<open>write_chain\<close> stores the data in the first free clusters. With too few of them it fails, and every
  free cluster stays marked as used.
\<close>

lemma write_chain_view:
  fixes data :: "u8 list"
  assumes "fs_ok v d"
  defines "free \<equiv> free_from v (view v d) 2"
  defines "cs \<equiv> take (needed v data) free"
  shows "needed v data \<le> length free \<Longrightarrow>
      \<exists>d'. write_chain v data d = (Inr (hd cs), d') \<and> fs_ok v d' \<and> view v d' = stored v cs data (view v d)"
    "length free < needed v data \<Longrightarrow>
      \<exists>d'. write_chain v data d = (Inl ''the volume is full'', d') \<and> fs_ok v d' \<and> view v d' = mark free 0xFFFF (view v d)"
proof -
  obtain d1 where d1: "reserve v (needed v data) 2 [] d = (if needed v data \<le> length free then Inr cs else Inl ''the volume is full'', d1)"
      "fs_ok v d1" "view v d1 = mark cs 0xFFFF (view v d)"
    using reserve_view [OF assms(1), of 2 "needed v data" "[]"] by (auto simp: free_def cs_def)
  note vol = fs_ok_parts(1) [OF assms(1)]
  {
    assume n: "needed v data \<le> length free"
    have cs: "\<forall>c \<in> set cs. valid_cluster v c" "distinct cs" "cs \<noteq> []"
      using n free_from_valid [OF vol order_refl] distinct_free_from [OF vol]
      by (auto simp: cs_def free_def needed_def dest: in_set_takeD)
    obtain d2 where d2: "write_data v cs data d1 = (Inr (), d2)" "fs_ok v d2"
        "view v d2 = (view v d1)\<lparr> content := content (stored v cs data (view v d1)) \<rparr>"
      using write_data_view [OF d1(2) cs(1,2)] by blast
    obtain d3 where d3: "link_chain v cs d2 = (Inr (), d3)" "fs_ok v d3"
        "view v d3 = (view v d2)\<lparr> links := links (stored v cs data (view v d2)) \<rparr>"
      using link_chain_view [OF d2(2) cs(1,2)] by blast
    have "view v d3 = stored v cs data (view v d1)"
      using d2(3) d3(3) by (simp add: stored_def)
    then have "view v d3 = stored v cs data (view v d)" using d1(3) by (simp add: stored_mark)
    moreover have "write_chain v data d = (Inr (hd cs), d3)"
      unfolding write_chain_def needed_def [symmetric]
      using d1(1) d2(1) d3(1) n cs(3) by (simp add: io_bind_Inr io_return_def hd_conv_nth)
    ultimately show "\<exists>d'. write_chain v data d = (Inr (hd cs), d') \<and> fs_ok v d' \<and> view v d' = stored v cs data (view v d)"
      using d3(2) by blast
  next
    assume n: "length free < needed v data"
    then have "write_chain v data d = (Inl ''the volume is full'', d1)"
      unfolding write_chain_def needed_def [symmetric] using d1(1) by (simp add: io_bind_Inl)
    moreover have "cs = free" using n by (simp add: cs_def)
    ultimately show "\<exists>d'. write_chain v data d = (Inl ''the volume is full'', d') \<and> fs_ok v d' \<and> view v d' = mark free 0xFFFF (view v d)"
      using d1(2,3) by auto
  }
qed

lemma linked_iff_nth:
  "linked f cs \<longleftrightarrow> cs \<noteq> [] \<and> (\<forall>i. Suc i < length cs \<longrightarrow> f (cs ! i) = cs ! Suc i) \<and> END_OF_CHAIN \<le> f (cs ! (length cs - 1))"
proof (induction f cs rule: linked.induct)
  case (3 f c c' cs)
  have split: "(\<forall>i. P i) \<longleftrightarrow> P 0 \<and> (\<forall>i. P (Suc i))" for P by (metis not0_implies_Suc)
  have "(\<forall>i. Suc i < length (c # c' # cs) \<longrightarrow> f ((c # c' # cs) ! i) = (c # c' # cs) ! Suc i) \<longleftrightarrow>
      f c = c' \<and> (\<forall>i. Suc i < length (c' # cs) \<longrightarrow> f ((c' # cs) ! i) = (c' # cs) ! Suc i)"
    using split [of "\<lambda>i. Suc i < length (c # c' # cs) \<longrightarrow> f ((c # c' # cs) ! i) = (c # c' # cs) ! Suc i"] by simp
  then show ?case using 3 by auto
qed auto

lemma linked_cong: "(\<And>c. c \<in> set cs \<Longrightarrow> f c = g c) \<Longrightarrow> linked f cs = linked g cs"
  by (induction f cs rule: linked.induct) auto

lemma chain_ok_length: "chain_ok v w cs \<Longrightarrow> length cs \<le> unat (clusters v)"
proof -
  assume a: "chain_ok v w cs"
  have "unat ` set cs \<subseteq> {2..<unat (clusters v) + 2}" using a by (auto simp: chain_ok_def valid_cluster_def)
  then have "card (unat ` set cs) \<le> card {2..<unat (clusters v) + 2}" by (intro card_mono) simp_all
  moreover have "inj_on unat (set cs)" by (intro inj_onI) (simp add: word_unat_eq_iff)
  ultimately show ?thesis using a by (simp add: card_image chain_ok_def distinct_card)
qed

lemma valid_cluster_words:
  assumes "volume_ok v" "valid_cluster v c"
  shows "\<not> c < 2" "\<not> (ucast c :: u32) \<ge> clusters v + 2" "2 \<le> c" "c < END_OF_CHAIN"
proof -
  have "unat (clusters v + 2) = unat (clusters v) + 2"
    using volume_ok_parts(5) [OF assms(1)] by (subst unat_add_exact) simp_all
  then show "\<not> c < 2" "\<not> (ucast c :: u32) \<ge> clusters v + 2" "2 \<le> c" "c < END_OF_CHAIN"
    using assms(2) volume_ok_parts(5) [OF assms(1)] by (simp_all add: valid_cluster_def word_less_nat_alt word_le_nat_alt not_le not_less)
qed

text \<open>Following a chain that is long enough reads its clusters in order.\<close>

lemma read_chain_view:
  assumes "fs_ok v d" "linked (links (view v d)) cs" "\<forall>c \<in> set cs. valid_cluster v c"
    "visited + length cs \<le> unat (clusters v)" "length data < sz" "sz \<le> length data + length cs * cluster_bytes v"
  shows "read_chain v sz (hd cs) visited data d = (Inr (data @ take (sz - length data) (concat (map (content (view v d)) cs))), d)"
  using assms(2-)
proof (induction cs arbitrary: visited data)
  case (Cons c cs)
  note vol = fs_ok_parts(1) [OF assms(1)]
  have c: "valid_cluster v c" using Cons.prems(2) by simp
  let ?b = "content (view v d) c" and ?data = "data @ take (sz - length data) (content (view v d) c)"
  have len: "length ?b = cluster_bytes v" by (rule length_content [OF assms(1) c])
  have step: "read_chain v sz c visited data d =
      (if length ?data \<ge> sz then io_return ?data else io_bind (next_cluster v c) (\<lambda>next.
         if next \<ge> END_OF_CHAIN then io_error ''chain ended before the file did'' else read_chain v sz next (visited + 1) ?data)) d"
    using Cons.prems(3,4) valid_cluster_words [OF vol c] read_cluster_view [OF assms(1) c]
    by (subst read_chain.simps) (simp add: io_bind_Inr Let_def)
  show ?case
  proof (cases "sz \<le> length data + cluster_bytes v")
    case True
    then have "length ?data = sz" using len Cons.prems(4) by simp
    then show ?thesis using step True len by (simp add: io_return_def)
  next
    case False
    then have data: "?data = data @ ?b" "length ?data < sz" using len by simp_all
    obtain c' cs' where cs: "cs = c' # cs'" using False Cons.prems(5) by (cases cs) auto
    have "links (view v d) c = c'" using Cons.prems(1) cs by simp
    moreover have "\<not> c' \<ge> END_OF_CHAIN" using valid_cluster_words(4) [OF vol, of c'] Cons.prems(2) cs by simp
    ultimately have "read_chain v sz c visited data d = read_chain v sz c' (visited + 1) ?data d"
      using step False len next_cluster_view [OF assms(1) c] by (simp add: io_bind_Inr)
    moreover have "read_chain v sz (hd cs) (visited + 1) ?data d =
        (Inr (?data @ take (sz - length ?data) (concat (map (content (view v d)) cs))), d)"
      using Cons.prems cs data len by (intro Cons.IH) auto
    ultimately show ?thesis using cs data len False by simp
  qed
qed simp

lemma concat_cluster_data:
  "length data \<le> n * cluster_bytes v \<Longrightarrow> take (length data) (concat (map (cluster_data v data) [0..<n])) = data"
proof (induction n arbitrary: data)
  case (Suc n)
  let ?k = "cluster_bytes v"
  have shift: "cluster_data v data (Suc i) = cluster_data v (drop ?k data) i" for i
    by (simp add: cluster_data_def add.commute)
  have m: "map (cluster_data v data) [0..<Suc n] = cluster_data v data 0 # map (cluster_data v (drop ?k data)) [0..<n]"
    by (simp add: upt_conv_Cons map_Suc_upt [symmetric] shift o_def del: upt_Suc)
  show ?case
  proof (cases "length data \<le> ?k")
    case True
    then have "cluster_data v data 0 = data @ replicate (?k - length data) 0" by (simp add: cluster_data_def)
    then show ?thesis using m by simp
  next
    case False
    then have "cluster_data v data 0 = take ?k data" by (simp add: cluster_data_def)
    moreover have "take (length data - ?k) (concat (map (cluster_data v (drop ?k data)) [0..<n])) = drop ?k data"
      using Suc.IH [of "drop ?k data"] Suc.prems by simp
    ultimately show ?thesis using m False by simp
  qed
qed simp

lemma div_ceil_covers: "0 < b \<Longrightarrow> a \<le> div_ceil a b * b"
proof -
  assume "0 < b"
  then have m: "a mod b < b" "a div b * b + a mod b = a" by simp_all
  show ?thesis
  proof (cases "a mod b = 0")
    case False
    then have "div_ceil a b * b = a div b * b + b" by (simp add: div_ceil_def)
    then show ?thesis using m by linarith
  qed (use m in \<open>simp add: div_ceil_def\<close>)
qed

lemma stored_chain:
  assumes "volume_ok v" "cs \<noteq> []" "distinct cs" "\<forall>c \<in> set cs. valid_cluster v c"
  shows "chain_ok v (stored v cs data w) cs" "map (content (stored v cs data w)) cs = map (cluster_data v data) [0..<length cs]"
proof -
  have at: "links (stored v cs data w) (cs ! i) = (if i + 1 = length cs then 0xFFFF else cs ! (i + 1))"
      "content (stored v cs data w) (cs ! i) = cluster_data v data i" if "i < length cs" for i
    using that position_nth [OF assms(3) that] by (simp_all add: stored_def chain_links_def chain_content_def)
  show "chain_ok v (stored v cs data w) cs"
    using assms at(1) by (auto simp: chain_ok_def linked_iff_nth)
  show "map (content (stored v cs data w)) cs = map (cluster_data v data) [0..<length cs]"
    using at(2) by (intro nth_equalityI) simp_all
qed

lemma stored_other: "c \<notin> set cs \<Longrightarrow> links (stored v cs data w) c = links w c \<and> content (stored v cs data w) c = content w c"
  by (auto simp: stored_def chain_links_def chain_content_def split: option.splits dest: position_Some)

lemma root_stored [simp]: "root (stored v cs data w) = root w"
  by (simp add: stored_def)

text \<open>What a file of a given size and chain holds.\<close>

definition file_bytes :: "View \<Rightarrow> nat \<Rightarrow> u16 list \<Rightarrow> u8 list" where
  "file_bytes w sz cs = take sz (concat (map (content w) cs))"

lemma read_file_view:
  assumes "fs_ok v d" "entry_size e \<noteq> 0" "chain_ok v (view v d) cs" "hd cs = first_cluster e"
    "unat (entry_size e) \<le> length cs * cluster_bytes v"
  shows "read_file v e d = (Inr (file_bytes (view v d) (unat (entry_size e)) cs), d)"
proof -
  have "0 < unat (entry_size e)" using assms(2) by (simp add: unat_gt_0)
  then have "read_chain v (unat (entry_size e)) (hd cs) 0 [] d = (Inr ([] @ take (unat (entry_size e) - length ([] :: u8 list)) (concat (map (content (view v d)) cs))), d)"
    using assms(3,5) chain_ok_length [OF assms(3)] by (intro read_chain_view [OF assms(1)]) (auto simp: chain_ok_def)
  then show ?thesis using assms(2,4) by (simp add: read_file_def file_bytes_def)
qed

section \<open>Releasing a chain\<close>

lemma free_chain_loop_view:
  assumes "fs_ok v d" "chain_ok v (view v d) cs" "visited + length cs \<le> unat (clusters v)"
  shows "\<exists>d'. free_chain_loop v (hd cs) visited d = (Inr (), d') \<and> fs_ok v d' \<and> view v d' = mark cs 0 (view v d)"
  using assms
proof (induction cs arbitrary: visited d)
  case (Cons c cs)
  note prems = Cons.prems and IH = Cons.IH
  note vol = fs_ok_parts(1) [OF Cons.prems(1)]
  have c: "valid_cluster v c" "c \<notin> set cs" using Cons.prems(2) by (auto simp: chain_ok_def)
  obtain d1 where d1: "set_fat_entry v c 0 d = (Inr (), d1)" "fs_ok v d1" "view v d1 = mark [c] 0 (view v d)"
    using set_fat_entry_view [OF Cons.prems(1) c(1), of 0] by (auto simp: mark_def fun_upd_def)
  have step: "free_chain_loop v c visited d = free_chain_loop v (links (view v d) c) (visited + 1) d1"
    using Cons.prems(3) valid_cluster_words [OF vol c(1)] next_cluster_view [OF Cons.prems(1) c(1)] d1(1)
    by (subst free_chain_loop.simps) (simp add: io_bind_Inr)
  show ?case
  proof (cases cs)
    case Nil
    then have "END_OF_CHAIN \<le> links (view v d) c" using Cons.prems(2) by (simp add: chain_ok_def)
    then have "free_chain_loop v (links (view v d) c) (visited + 1) d1 = (Inr (), d1)"
      by (subst free_chain_loop.simps) (simp add: io_return_def not_less)
    then show ?thesis using step d1 Nil by simp
  next
    case (Cons c' cs')
    have "links (view v d) c = c'" using prems(2) Cons by (simp add: chain_ok_def)
    have "linked (links (mark [c] 0 (view v d))) cs = linked (links (view v d)) cs"
      using c(2) by (intro linked_cong) (auto simp: mark_def)
    then have "chain_ok v (view v d1) cs"
      using prems(2) Cons d1(3) by (simp add: chain_ok_def)
    then obtain d' where "free_chain_loop v (hd cs) (visited + 1) d1 = (Inr (), d')" "fs_ok v d'"
        "view v d' = mark cs 0 (view v d1)"
      using IH [OF d1(2), of "visited + 1"] prems(3) by auto
    then show ?thesis using step \<open>links (view v d) c = c'\<close> Cons d1(3) by (simp add: mark_Cons)
  qed
qed (simp add: chain_ok_def)

lemma free_chain_view:
  assumes "fs_ok v d" "chain_ok v (view v d) cs"
  shows "\<exists>d'. free_chain v (hd cs) d = (Inr (), d') \<and> fs_ok v d' \<and> view v d' = mark cs 0 (view v d)"
  using free_chain_loop_view [OF assms, of 0] chain_ok_length [OF assms(2)] by (simp add: free_chain_def)

end
