(* ===== verification/Fat_Files.thy ===== *)
theory Fat_Files
  imports Fat_Chains
begin

text \<open>
  Files: the root directory as a list of slots, 8.3 names, and the theorems about \<open>create\<close>, \<open>find\<close>,
  \<open>read_file\<close>, \<open>remove\<close>, \<open>count_free\<close> and \<open>mount\<close>.
\<close>

section \<open>The directory as a list of slots\<close>

definition dir_slots :: "Volume \<Rightarrow> View \<Rightarrow> u8 list list" where
  "dir_slots v w = concat (map (\<lambda>i. chunks_exact 32 (root w i)) [0..<root_sectors v])"

definition in_use :: "u8 list \<Rightarrow> bool" where
  "in_use slot \<longleftrightarrow> slot ! 0 \<noteq> ENTRY_FREE"

definition is_file :: "u8 list \<Rightarrow> bool" where
  "is_file slot \<longleftrightarrow> slot ! 0 \<noteq> ENTRY_DELETED \<and> slot ! 11 AND ATTRIBUTE_VOLUME_LABEL = 0 \<and> slot ! 11 AND ATTRIBUTE_DIRECTORY = 0"

definition holds_name :: "u8 list \<Rightarrow> u8 list \<Rightarrow> bool" where
  "holds_name name slot \<longleftrightarrow> is_file slot \<and> eq_ignore_ascii_case (decode_name slot) name"

definition reusable :: "u8 list \<Rightarrow> bool" where
  "reusable slot \<longleftrightarrow> slot ! 0 = ENTRY_FREE \<or> slot ! 0 = ENTRY_DELETED"

text \<open>The slot of a file, and the slot a new file would get.\<close>

definition slot_of_name :: "u8 list \<Rightarrow> u8 list list \<Rightarrow> nat option" where
  "slot_of_name name slots = position (holds_name name) (takeWhile in_use slots)"

lemma list_slots_spec:
  "list_slots slots es = (\<not> (\<forall>s \<in> set slots. in_use s), es @ map slot_entry (filter is_file (takeWhile in_use slots)))"
  by (induction slots arbitrary: es) (auto simp: in_use_def is_file_def)

lemma takeWhile_concat_stop: "\<not> (\<forall>x \<in> set xs. P x) \<Longrightarrow> takeWhile P (xs @ ys) = takeWhile P xs"
  by (auto simp: takeWhile_append1)

lemma list_sectors_view:
  assumes "fs_ok v d" "\<forall>i \<in> set is. i < root_sectors v"
  shows "list_sectors v is es d = (Inr (es @ map slot_entry (filter is_file (takeWhile in_use
      (concat (map (\<lambda>i. chunks_exact 32 (root (view v d) i)) is))))), d)"
  using assms(2)
proof (induction "is" arbitrary: es)
  case (Cons i "is")
  let ?s = "chunks_exact 32 (root (view v d) i)"
  have r: "io_read (root_start v + word_of_nat i) 512 d = (Inr (root (view v d) i), d)"
    using read_root_view [OF assms(1)] Cons.prems by simp
  show ?case
  proof (cases "\<forall>s \<in> set ?s. in_use s")
    case True
    then have all: "takeWhile in_use ?s = ?s" "takeWhile in_use (?s @ ys) = ?s @ takeWhile in_use ys" for ys
      by (simp_all add: takeWhile_eq_all_conv)
    then show ?thesis using True r Cons.IH Cons.prems by (simp add: io_bind_Inr list_slots_spec all del: takeWhile_eq_all_conv)
  next
    case False
    then show ?thesis using r by (simp add: io_bind_Inr list_slots_spec takeWhile_concat_stop io_return_def)
  qed
qed (simp add: io_return_def)

lemma find_slot_entry:
  "find (\<lambda>e. eq_ignore_ascii_case (entry_name e) name) (map slot_entry (filter is_file slots)) =
     map_option (\<lambda>n. slot_entry (slots ! n)) (position (holds_name name) slots)"
proof (induction slots)
  case (Cons s slots)
  have "entry_name (slot_entry s) = decode_name s" by (simp add: slot_entry_def)
  then show ?case using Cons by (simp add: holds_name_def [of name s] option.map_comp o_def)
qed simp

lemma fat_find_view:
  assumes "fs_ok v d"
  shows "fat_find v name d = (case slot_of_name name (dir_slots v (view v d)) of
     None \<Rightarrow> (Inl ''no such file'', d) | Some n \<Rightarrow> (Inr (slot_entry (dir_slots v (view v d) ! n)), d))"
proof -
  let ?ss = "dir_slots v (view v d)"
  have "fat_list v d = (Inr (map slot_entry (filter is_file (takeWhile in_use ?ss))), d)"
    using list_sectors_view [OF assms, of "[0..<root_sectors v]" "[]"] by (simp add: fat_list_def dir_slots_def)
  moreover have "takeWhile in_use ?ss ! n = ?ss ! n" if "slot_of_name name ?ss = Some n" for n
    using position_Some [of "holds_name name" "takeWhile in_use ?ss" n] that by (simp add: slot_of_name_def takeWhile_nth)
  ultimately show ?thesis
    by (simp add: fat_find_def io_bind_Inr find_slot_entry slot_of_name_def io_error_def io_return_def split: option.splits)
qed

text \<open>\<open>directory_slot\<close> on slot numbers.\<close>

fun scan :: "u8 list \<Rightarrow> nat \<Rightarrow> u8 list list \<Rightarrow> nat option \<Rightarrow> (nat \<times> Entry option) option \<times> nat option" where
  "scan name i [] first_empty = (None, first_empty)"
| "scan name i (slot # slots) first_empty =
     (if reusable slot
      then let n = (case first_empty of Some n \<Rightarrow> n | None \<Rightarrow> i)
           in if in_use slot then scan name (i + 1) slots (Some n) else (Some (n, None), Some n)
      else if holds_name name slot then (Some (i, Some (slot_entry slot)), first_empty)
      else scan name (i + 1) slots first_empty)"

definition slot_place :: "Volume \<Rightarrow> nat \<Rightarrow> u32 \<times> nat" where
  "slot_place v n = (root_start v + word_of_nat (n div 16), n mod 16 * 32)"

lemma attribute_bits: "a AND 24 = 0 \<longleftrightarrow> a AND 8 = 0 \<and> a AND 16 = 0" for a :: u8
proof -
  have "a AND 24 = (a AND 8) OR (a AND 16)" by (simp add: bit.conj_disj_distrib [symmetric])
  then show ?thesis by (metis or.left_neutral or_eq_0_iff)
qed

lemma slot_in_scan:
  assumes "i + length slots \<le> 16"
  shows "slot_in name (root_start v + word_of_nat s) i slots (map_option (slot_place v) first_empty) =
    (case scan name (16 * s + i) slots first_empty of
       (r, e) \<Rightarrow> (map_option (\<lambda>(n, x). (fst (slot_place v n), snd (slot_place v n), x)) r, map_option (slot_place v) e))"
  using assms
proof (induction slots arbitrary: i first_empty)
  case (Cons slot slots)
  have p: "slot_place v (16 * s + i) = (root_start v + word_of_nat s, i * 32)"
    using Cons.prems by (simp add: slot_place_def)
  note IH = Cons.IH [of "i + 1"]
  show ?case
    using Cons.prems IH [of first_empty] IH [of "Some (16 * s + i)"] p
    by (cases first_empty) (auto simp: reusable_def in_use_def holds_name_def is_file_def attribute_bits Let_def split: prod.splits)
qed simp

lemma scan_append:
  "scan name i (xs @ ys) e = (case scan name i xs e of (Some r, e) \<Rightarrow> (Some r, e) | (None, e) \<Rightarrow> scan name (i + length xs) ys e)"
  by (induction xs arbitrary: i e) (auto simp: Let_def split: option.splits prod.splits)

definition scan_answer :: "(nat \<times> Entry option) option \<times> nat option \<Rightarrow> (nat \<times> Entry option) option" where
  "scan_answer r = (case r of (Some x, _) \<Rightarrow> Some x | (None, Some n) \<Rightarrow> Some (n, None) | (None, None) \<Rightarrow> None)"

lemma scan_spec:
  "scan_answer (scan name i slots e) = (case slot_of_name name slots of
     Some n \<Rightarrow> Some (i + n, Some (slot_entry (slots ! n)))
   | None \<Rightarrow> (case e of Some n \<Rightarrow> Some (n, None) | None \<Rightarrow> map_option (\<lambda>n. (i + n, None)) (position reusable slots)))"
proof (induction slots arbitrary: i e)
  case (Cons slot slots)
  have h: "reusable slot \<Longrightarrow> in_use slot \<Longrightarrow> \<not> holds_name name slot" "\<not> reusable slot \<Longrightarrow> in_use slot"
    by (auto simp: reusable_def in_use_def holds_name_def is_file_def)
  show ?case
    using h Cons.IH [of "i + 1"]
    by (auto simp: slot_of_name_def Let_def scan_answer_def option.map_comp o_def split: option.splits)
qed (simp add: scan_answer_def slot_of_name_def split: option.splits)

lemma slot_sectors_view:
  assumes "fs_ok v d" "\<forall>i < root_sectors v. length (chunks_exact 32 (root (view v d) i)) = 16" "s \<le> root_sectors v"
  shows "slot_sectors v name [s..<root_sectors v] (map_option (slot_place v) e) d =
    (case scan_answer (scan name (16 * s) (concat (map (\<lambda>i. chunks_exact 32 (root (view v d) i)) [s..<root_sectors v])) e) of
       None \<Rightarrow> (Inl ''the root directory is full'', d)
     | Some (n, x) \<Rightarrow> (Inr (fst (slot_place v n), snd (slot_place v n), x), d))"
  using assms(3)
proof (induction "root_sectors v - s" arbitrary: s e)
  case 0
  then show ?case by (cases e) (auto simp: scan_answer_def io_error_def io_return_def split: prod.splits)
next
  case (Suc k)
  then have s: "s < root_sectors v" "[s..<root_sectors v] = s # [Suc s..<root_sectors v]" by (simp_all add: upt_conv_Cons)
  let ?c = "chunks_exact 32 (root (view v d) s)"
  have len: "length ?c = 16" using assms(2) s(1) by simp
  obtain r e' where r: "scan name (16 * s) ?c e = (r, e')" by fastforce
  have "slot_in name (root_start v + word_of_nat s) 0 ?c (map_option (slot_place v) e) =
      (map_option (\<lambda>(n, x). (fst (slot_place v n), snd (slot_place v n), x)) r, map_option (slot_place v) e')"
    using slot_in_scan [of 0 ?c name v s e] r len by simp
  moreover have "io_read (root_start v + word_of_nat s) 512 d = (Inr (root (view v d) s), d)"
    by (rule read_root_view [OF assms(1) s(1)])
  ultimately have step: "slot_sectors v name [s..<root_sectors v] (map_option (slot_place v) e) d =
      (case r of Some (n, x) \<Rightarrow> (Inr (fst (slot_place v n), snd (slot_place v n), x), d)
       | None \<Rightarrow> slot_sectors v name [Suc s..<root_sectors v] (map_option (slot_place v) e') d)"
    using s(2) by (cases r) (auto simp: Let_def io_bind_Inr io_return_def split: prod.splits)
  have sc: "scan name (16 * s) (concat (map (\<lambda>i. chunks_exact 32 (root (view v d) i)) [s..<root_sectors v])) e =
      (case r of Some x \<Rightarrow> (Some x, e')
       | None \<Rightarrow> scan name (16 * Suc s) (concat (map (\<lambda>i. chunks_exact 32 (root (view v d) i)) [Suc s..<root_sectors v])) e')"
    using s(2) r len by (simp add: scan_append add.commute split: option.splits)
  show ?case
  proof (cases r)
    case None
    then show ?thesis using step sc Suc.hyps(1) [of "Suc s" e'] Suc.hyps(2) s(1) by simp
  qed (use step sc in \<open>simp add: scan_answer_def\<close>)
qed

lemma sixteen_slots: "fs_ok v d \<Longrightarrow> i < root_sectors v \<Longrightarrow> length (chunks_exact 32 (root (view v d) i)) = 16"
  by (rule length_chunks) (simp_all add: length_root)

lemma directory_slot_view:
  assumes "fs_ok v d"
  shows "directory_slot v name d = (case slot_of_name name (dir_slots v (view v d)) of
     Some n \<Rightarrow> (Inr (fst (slot_place v n), snd (slot_place v n), Some (slot_entry (dir_slots v (view v d) ! n))), d)
   | None \<Rightarrow> (case position reusable (dir_slots v (view v d)) of
       Some n \<Rightarrow> (Inr (fst (slot_place v n), snd (slot_place v n), None), d)
     | None \<Rightarrow> (Inl ''the root directory is full'', d)))"
  using slot_sectors_view [OF assms _ le0, of name None] sixteen_slots [OF assms]
  by (simp add: directory_slot_def scan_spec dir_slots_def [symmetric] split: option.splits)

lemma concat_blocks:
  "(\<And>i. i < m \<Longrightarrow> length (f i) = k) \<Longrightarrow> length (concat (map f [0..<m])) = m * k \<and>
     (\<forall>n < m * k. concat (map f [0..<m]) ! n = f (n div k) ! (n mod k))"
proof (induction m)
  case (Suc m)
  then have IH: "length (concat (map f [0..<m])) = m * k" "\<And>n. n < m * k \<Longrightarrow> concat (map f [0..<m]) ! n = f (n div k) ! (n mod k)"
    by auto
  have "(concat (map f [0..<m]) @ f m) ! n = f (n div k) ! (n mod k)" if "n < m * k + k" for n
  proof (cases "n < m * k")
    case False
    then have "n div k = m" using that by (intro div_nat_eqI) (simp_all add: mult.commute)
    moreover from this have "n mod k = n - m * k" by (simp add: modulo_nat_def mult.commute)
    ultimately show ?thesis using False IH(1) by (simp add: nth_append)
  qed (use IH in \<open>simp add: nth_append\<close>)
  then show ?case using Suc.prems IH(1) by (simp add: add.commute)
qed simp

lemma length_dir_slots: "fs_ok v d \<Longrightarrow> length (dir_slots v (view v d)) = root_sectors v * 16"
  using concat_blocks [of "root_sectors v" "\<lambda>i. chunks_exact 32 (root (view v d) i)" 16] sixteen_slots
  by (simp add: dir_slots_def)

lemma nth_dir_slots:
  "fs_ok v d \<Longrightarrow> n < root_sectors v * 16 \<Longrightarrow> dir_slots v (view v d) ! n = chunks_exact 32 (root (view v d) (n div 16)) ! (n mod 16)"
  using concat_blocks [of "root_sectors v" "\<lambda>i. chunks_exact 32 (root (view v d) i)" 16] sixteen_slots
  by (simp add: dir_slots_def)

lemma chunks_patch:
  assumes "length buffer = 512" "length slot = 32" "k < 16"
  shows "chunks_exact 32 (patch (k * 32) slot buffer) = (chunks_exact 32 buffer)[k := slot]"
proof (rule nth_equalityI)
  have len: "length (patch (k * 32) slot buffer) = 16 * 32" using assms by simp
  show "length (chunks_exact 32 (patch (k * 32) slot buffer)) = length ((chunks_exact 32 buffer)[k := slot])"
    using length_chunks [OF _ len] length_chunks [of 32 buffer 16] assms(1) by simp
  fix i
  assume "i < length (chunks_exact 32 (patch (k * 32) slot buffer))"
  then have i: "i < 16" using length_chunks [OF _ len] by simp
  have "take 32 (drop (i * 32) (patch (k * 32) slot buffer)) = (if i = k then slot else take 32 (drop (i * 32) buffer))"
  proof (rule nth_equalityI)
    show "length (take 32 (drop (i * 32) (patch (k * 32) slot buffer))) = length (if i = k then slot else take 32 (drop (i * 32) buffer))"
      using i assms by simp
    fix j
    assume "j < length (take 32 (drop (i * 32) (patch (k * 32) slot buffer)))"
    then have j: "j < 32" "i * 32 + j < length buffer" using i assms(1) by simp_all
    have "k * 32 \<le> i * 32 + j \<and> i * 32 + j < k * 32 + 32 \<longleftrightarrow> i = k" using j(1) by auto
    then show "take 32 (drop (i * 32) (patch (k * 32) slot buffer)) ! j = (if i = k then slot else take 32 (drop (i * 32) buffer)) ! j"
      using nth_patch [of "k * 32" slot buffer "i * 32 + j"] assms j by (auto simp: len)
  qed
  then show "chunks_exact 32 (patch (k * 32) slot buffer) ! i = (chunks_exact 32 buffer)[k := slot] ! i"
    using nth_chunks [OF _ len i] nth_chunks [of 32 buffer 16 i] i assms length_chunks [of 32 buffer 16]
    by (auto simp: nth_list_update)
qed

lemma write_slot_view:
  assumes "fs_ok v d" "n < length (dir_slots v (view v d))" "length slot = 32"
  shows "\<exists>d'. io_bind (io_read (fst (slot_place v n)) 512) (\<lambda>buffer. io_write (fst (slot_place v n)) (patch (snd (slot_place v n)) slot buffer)) d = (Inr (), d') \<and>
    fs_ok v d' \<and> links (view v d') = links (view v d) \<and> content (view v d') = content (view v d) \<and>
    dir_slots v (view v d') = (dir_slots v (view v d))[n := slot]"
proof -
  let ?w = "view v d" and ?s = "n div 16" and ?k = "n mod 16"
  have s: "?s < root_sectors v" using assms(2) length_dir_slots [OF assms(1)] by (simp add: less_mult_imp_div_less)
  let ?b = "patch (?k * 32) slot (root ?w ?s)"
  have k: "?k < 16" by simp
  then have "?k * 32 + 32 \<le> 512" by linarith
  then have len: "length ?b = 512" using assms(3) length_root [OF assms(1) s] by simp
  obtain d' where d': "io_write (root_start v + word_of_nat ?s) ?b d = (Inr (), d')" "fs_ok v d'"
      "view v d' = ?w\<lparr> root := (root ?w)(?s := ?b) \<rparr>"
    using write_root_view [OF assms(1) s len] by blast
  have "dir_slots v (view v d') = (dir_slots v ?w)[n := slot]"
  proof (rule nth_equalityI)
    fix m
    assume "m < length (dir_slots v (view v d'))"
    then have m: "m < root_sectors v * 16" using length_dir_slots [OF d'(2)] by simp
    have "chunks_exact 32 (root (view v d') (m div 16)) = (if m div 16 = ?s then (chunks_exact 32 (root ?w ?s))[?k := slot] else chunks_exact 32 (root ?w (m div 16)))"
      using d'(3) chunks_patch [OF length_root [OF assms(1) s] assms(3) k] by simp
    moreover have "m = n \<longleftrightarrow> m div 16 = ?s \<and> m mod 16 = ?k" by (metis div_mult_mod_eq)
    moreover note nth_dir_slots [OF d'(2) m] nth_dir_slots [OF assms(1) m] sixteen_slots [OF assms(1) s]
    moreover have "(dir_slots v ?w)[n := slot] ! m = (if m = n then slot else dir_slots v ?w ! m)"
      using m length_dir_slots [OF assms(1)] by (simp add: nth_list_update)
    ultimately show "dir_slots v (view v d') ! m = (dir_slots v ?w)[n := slot] ! m"
      by (cases "m div 16 = ?s"; cases "m mod 16 = ?k") simp_all
  qed (simp add: length_dir_slots assms(1) d'(2))
  moreover have "io_read (root_start v + word_of_nat ?s) 512 d = (Inr (root ?w ?s), d)" by (rule read_root_view [OF assms(1) s])
  ultimately show ?thesis using d' by (simp add: slot_place_def io_bind_Inr)
qed

lemma dir_slots_cong: "root w = root w' \<Longrightarrow> dir_slots v w = dir_slots v w'"
  by (simp add: dir_slots_def)

section \<open>Names\<close>

text \<open>
  A name that the directory can represent: a stem of one to eight and an extension of at most three
  printable ASCII characters without spaces, and no dot at the end.
\<close>

definition split_name :: "u8 list \<Rightarrow> u8 list \<times> u8 list" where
  "split_name name = (case rsplit_dot name of Some (s, e) \<Rightarrow> (s, e) | None \<Rightarrow> (name, []))"

definition name_ok :: "u8 list \<Rightarrow> bool" where
  "name_ok name \<longleftrightarrow> (let (stem, extension) = split_name name
     in stem \<noteq> [] \<and> length stem \<le> 8 \<and> length extension \<le> 3 \<and> (extension = [] \<longrightarrow> rsplit_dot name = None)) \<and>
     (\<forall>b \<in> set name. 0x20 < b \<and> b < 0x7F)"

lemma rsplit_dot_Some: "rsplit_dot name = Some (s, e) \<Longrightarrow> name = s @ [46] @ e"
proof -
  assume a: "rsplit_dot name = Some (s, e)"
  then obtain i where i: "position (\<lambda>c. c = 46) (rev name) = Some i" "s = take (length name - i - 1) name" "e = drop (length name - i) name"
    by (auto simp: rsplit_dot_def split: option.splits)
  have "i < length name" "name ! (length name - Suc i) = 46"
    using position_Some [OF i(1)] by (auto simp: rev_nth)
  then show ?thesis
    using i(2,3) id_take_nth_drop [of "length name - Suc i" name] by (simp add: Suc_diff_Suc)
qed

lemma split_name_join:
  assumes "name_ok name" "split_name name = (s, e)"
  shows "name = (if e = [] then s else s @ [46] @ e)"
  using assms rsplit_dot_Some [of name] by (auto simp: name_ok_def split_name_def split: option.splits)

lemma upper_small:
  fixes b :: u8
  assumes "0x61 \<le> b" "b \<le> 0x7A"
  shows "unat (b - 0x20) = unat b - 32"
  using assms by (simp add: unat_sub word_le_nat_alt)

lemma upper_facts:
  assumes "0x20 < b" "b < 0x7F"
  shows "to_ascii_uppercase b \<noteq> 0" "to_ascii_uppercase b \<noteq> 32" "to_ascii_uppercase b \<noteq> 0xE5" "to_ascii_uppercase b < 0x80"
    "to_ascii_lowercase (to_ascii_uppercase b) = to_ascii_lowercase b"
proof -
  have "unat (to_ascii_uppercase b) = (if 0x61 \<le> unat b \<and> unat b \<le> 0x7A then unat b - 32 else unat b)"
    using upper_small [of b] by (simp add: to_ascii_uppercase_def word_le_nat_alt)
  moreover have "32 < unat b" "unat b < 127" using assms by (simp_all add: word_less_nat_alt)
  ultimately show "to_ascii_uppercase b \<noteq> 0" "to_ascii_uppercase b \<noteq> 32" "to_ascii_uppercase b \<noteq> 0xE5" "to_ascii_uppercase b < 0x80"
    by (auto simp: word_unat_eq_iff word_less_nat_alt split: if_splits)
  show "to_ascii_lowercase (to_ascii_uppercase b) = to_ascii_lowercase b"
    using upper_small [of b] by (auto simp: to_ascii_lowercase_def to_ascii_uppercase_def word_le_nat_alt)
qed

lemma filter_pad: "32 \<notin> set xs \<Longrightarrow> filter (\<lambda>b. b \<noteq> 32) (xs @ replicate n 32) = xs" for xs :: "u8 list"
  by (auto simp: filter_id_conv)

lemma concat_byte_char: "\<forall>b \<in> set xs. b < 0x80 \<Longrightarrow> concat (map byte_char xs) = xs"
  by (induction xs) (simp_all add: byte_char_def)

lemma patch_append: "at = length xs \<Longrightarrow> length bytes = length ys \<Longrightarrow> patch at bytes (xs @ ys @ zs) = xs @ bytes @ zs"
  by (simp add: patch_def)

text \<open>The four parts of a directory slot.\<close>

lemma new_slot_parts:
  assumes "length stem \<le> 8" "length extension \<le> 3"
  shows "new_slot stem extension cluster sz =
    (map to_ascii_uppercase stem @ replicate (8 - length stem) 32) @
    (map to_ascii_uppercase extension @ replicate (3 - length extension) 32) @
    [0x20] @ replicate 14 0 @ u16_bytes cluster @ u32_bytes sz"
proof -
  let ?u = "map to_ascii_uppercase stem" and ?e = "map to_ascii_uppercase extension"
  define U where "U = ?u @ replicate (8 - length stem) (32 :: u8)"
  define E where "E = ?e @ replicate (3 - length extension) (32 :: u8)"
  have len: "length U = 8" "length E = 3" using assms by (simp_all add: U_def E_def)
  have "replicate 11 32 = replicate (length stem) (32 :: u8) @ replicate (8 - length stem) 32 @ replicate 3 32"
    using assms(1) by (simp add: replicate_add [symmetric])
  then have "patch 0 ?u (replicate 11 32 @ replicate 21 0) = U @ replicate 3 32 @ replicate 21 0"
    by (simp add: patch_def U_def)
  moreover have "replicate 3 (32 :: u8) = replicate (length extension) 32 @ replicate (3 - length extension) 32"
    using assms(2) by (simp add: replicate_add [symmetric])
  ultimately have "patch 8 ?e (patch 0 ?u (replicate 11 32 @ replicate 21 0)) = U @ E @ replicate 21 0"
    using len(1) by (simp add: patch_def E_def)
  moreover have "(U @ E @ replicate 21 0)[11 := 0x20] = (U @ E @ [0x20] @ replicate 14 0) @ replicate 2 0 @ replicate 4 0"
    using len by (simp add: list_update_append numeral_eq_Suc)
  moreover have "patch 26 (u16_bytes cluster) ((U @ E @ [0x20] @ replicate 14 0) @ replicate 2 0 @ replicate 4 0) =
      (U @ E @ [0x20] @ replicate 14 0) @ u16_bytes cluster @ replicate 4 0"
    using len by (intro patch_append) (simp_all add: u16_bytes_def)
  moreover have "patch 28 (u32_bytes sz) ((U @ E @ [0x20] @ replicate 14 0 @ u16_bytes cluster) @ replicate 4 0 @ []) =
      (U @ E @ [0x20] @ replicate 14 0 @ u16_bytes cluster) @ u32_bytes sz @ []"
    using len by (intro patch_append) (simp_all add: u16_bytes_def u32_bytes_def)
  ultimately show ?thesis by (simp add: new_slot_def U_def E_def)
qed

lemma new_slot_facts:
  fixes cluster :: u16 and sz :: u32
  assumes "name_ok name" "split_name name = (stem, extension)"
  defines "slot \<equiv> new_slot stem extension cluster sz"
  shows "length slot = 32" "in_use slot" "is_file slot" "eq_ignore_ascii_case (decode_name slot) name"
    "first_cluster (slot_entry slot) = cluster" "entry_size (slot_entry slot) = sz"
proof -
  have n: "stem \<noteq> []" "length stem \<le> 8" "length extension \<le> 3"
    using assms(1,2) by (simp_all add: name_ok_def)
  have j: "name = (if extension = [] then stem else stem @ [46] @ extension)"
    by (rule split_name_join [OF assms(1,2)])
  then have "set stem \<subseteq> set name" "set extension \<subseteq> set name" by auto
  then have ascii: "\<forall>b \<in> set stem. 0x20 < b \<and> b < 0x7F" "\<forall>b \<in> set extension. 0x20 < b \<and> b < 0x7F"
    using assms(1) by (auto simp: name_ok_def)
  note p = new_slot_parts [OF n(2,3), of cluster sz, folded slot_def]
  let ?u = "map to_ascii_uppercase stem" and ?e = "map to_ascii_uppercase extension"
  show len: "length slot = 32" using p n(2,3) by (simp add: u16_bytes_def u32_bytes_def)
  have first: "slot ! 0 = to_ascii_uppercase (hd stem)" using p n(1) by (cases stem) simp_all
  moreover have "hd stem \<in> set stem" using n(1) by simp
  ultimately show "in_use slot" using ascii(1) upper_facts(1) [of "hd stem"] by (simp add: in_use_def)
  have "length (?u @ replicate (8 - length stem) 32) = 8" "length (?e @ replicate (3 - length extension) 32) = 3" using n(2,3) by simp_all
  then have "slot ! 11 = 0x20" unfolding p by (simp only: nth_append) simp
  then show "is_file slot" using first ascii(1) upper_facts(3) [of "hd stem"] \<open>hd stem \<in> set stem\<close> by (simp add: is_file_def)
  have t: "take 8 slot = ?u @ replicate (8 - length stem) 32" "take 3 (drop 8 slot) = ?e @ replicate (3 - length extension) 32"
    using n(2,3) by (simp_all add: p)
  have no_space: "32 \<notin> set ?u" "32 \<notin> set ?e" using ascii upper_facts(2) by force+
  have "concat (map byte_char ?u) = ?u" "concat (map byte_char ?e) = ?e"
    using ascii upper_facts(4) by - (rule concat_byte_char, simp)+
  then have "decode_name slot = (if ?e = [] then ?u else ?u @ [46] @ ?e)"
    unfolding decode_name_def t filter_pad [OF no_space(1)] filter_pad [OF no_space(2)] Let_def by auto
  moreover have "map to_ascii_lowercase ?u = map to_ascii_lowercase stem" "map to_ascii_lowercase ?e = map to_ascii_lowercase extension"
    using ascii upper_facts(5) by auto
  ultimately show "eq_ignore_ascii_case (decode_name slot) name" unfolding j eq_ignore_ascii_case_def by simp
  have "read_u16 slot 26 = cluster"
    using len read_u16_patch [of 26 "(patch 8 ?e (patch 0 ?u (replicate 11 32 @ replicate 21 0)))[11 := 0x20]" cluster] n(2,3)
      read_u16_patch_other [of 28 "u32_bytes sz" _ 26]
    by (simp add: slot_def new_slot_def u32_bytes_def u16_bytes_def)
  then show "first_cluster (slot_entry slot) = cluster" by (simp add: slot_entry_def)
  have "read_u32 slot 28 = sz" unfolding slot_def new_slot_def
    using n(2,3) by (intro read_u32_patch) (simp add: u16_bytes_def)
  then show "entry_size (slot_entry slot) = sz" by (simp add: slot_entry_def)
qed

section \<open>Creating and removing files\<close>

lemma chain_not_free:
  assumes "chain_ok v w cs" "c \<in> set cs"
  shows "links w c \<noteq> 0"
proof -
  obtain i where i: "i < length cs" "cs ! i = c" using assms(2) by (auto simp: in_set_conv_nth)
  show ?thesis
  proof (cases "Suc i < length cs")
    case True
    then have "links w c = cs ! Suc i" "valid_cluster v (cs ! Suc i)"
      using assms(1) i by (auto simp: chain_ok_def linked_iff_nth)
    then show ?thesis by (auto simp: valid_cluster_def)
  next
    case False
    then have "i = length cs - 1" using i by simp
    then have "END_OF_CHAIN \<le> links w c" using assms(1) i by (auto simp: chain_ok_def linked_iff_nth)
    then show ?thesis by auto
  qed
qed

text \<open>The slot \<open>directory_slot\<close> answers, and the clusters of the file that is there.\<close>

definition target_slot :: "u8 list \<Rightarrow> u8 list list \<Rightarrow> nat option" where
  "target_slot name slots = (case slot_of_name name slots of Some n \<Rightarrow> Some n | None \<Rightarrow> position reusable slots)"

definition chain_of :: "Volume \<Rightarrow> View \<Rightarrow> Entry \<Rightarrow> u16 list \<Rightarrow> bool" where
  "chain_of v w e cs \<longleftrightarrow> (if 2 \<le> first_cluster e then chain_ok v w cs \<and> hd cs = first_cluster e else cs = [])"

definition occupies :: "Volume \<Rightarrow> View \<Rightarrow> u8 list \<Rightarrow> u16 list \<Rightarrow> bool" where
  "occupies v w name cs \<longleftrightarrow> (case slot_of_name name (dir_slots v w) of
     None \<Rightarrow> cs = [] | Some n \<Rightarrow> chain_of v w (slot_entry (dir_slots v w ! n)) cs)"

lemma slot_of_name_Cons:
  "slot_of_name name (s # ss) = (if in_use s then if holds_name name s then Some 0 else map_option Suc (slot_of_name name ss) else None)"
  by (simp add: slot_of_name_def)

lemma slot_of_name_Some:
  "slot_of_name name slots = Some n \<longleftrightarrow> n < length slots \<and> in_use (slots ! n) \<and> holds_name name (slots ! n) \<and>
     (\<forall>j < n. in_use (slots ! j) \<and> \<not> holds_name name (slots ! j))"
proof (induction slots arbitrary: n)
  case (Cons s ss)
  then show ?case by (cases n) (auto simp: slot_of_name_Cons less_Suc_eq_0_disj)
qed (simp add: slot_of_name_def)

lemma slot_of_name_None:
  "slot_of_name name slots = None \<Longrightarrow> n \<le> length slots \<Longrightarrow> \<forall>j < n. in_use (slots ! j) \<Longrightarrow> \<forall>j < n. \<not> holds_name name (slots ! j)"
proof (induction slots arbitrary: n)
  case (Cons s ss)
  then show ?case by (cases n) (auto simp: slot_of_name_Cons All_less_Suc2 split: if_splits)
qed simp

lemma target_slot_less: "target_slot name slots = Some n \<Longrightarrow> n < length slots"
  using position_Some [of reusable slots n] by (auto simp: target_slot_def slot_of_name_Some split: option.splits)

lemma free_old_view:
  assumes "fs_ok v d" "chain_of v (view v d) e cs"
  shows "\<exists>d'. (if first_cluster e \<ge> 2 then free_chain v (first_cluster e) else io_return ()) d = (Inr (), d') \<and> fs_ok v d' \<and>
    view v d' = mark cs 0 (view v d)"
proof (cases "2 \<le> first_cluster e")
  case True
  then show ?thesis using free_chain_view [OF assms(1), of cs] assms(2) by (simp add: chain_of_def)
next
  case False
  then show ?thesis using assms by (simp add: chain_of_def io_return_def mark_def)
qed

lemma chain_ok_stored:
  assumes "\<forall>c \<in> set cs. links w c = 0" "chain_ok v w olds"
  shows "chain_ok v (stored v cs data w) olds" "set olds \<inter> set cs = {}"
proof -
  show d: "set olds \<inter> set cs = {}" using chain_not_free [OF assms(2)] assms(1) by blast
  have "linked (links (stored v cs data w)) olds = linked (links w) olds"
    using d stored_other by (intro linked_cong) blast
  then show "chain_ok v (stored v cs data w) olds" using assms(2) by (simp add: chain_ok_def)
qed

text \<open>The clusters a file of that contents would get.\<close>

definition new_chain :: "Volume \<Rightarrow> View \<Rightarrow> u8 list \<Rightarrow> u16 list" where
  "new_chain v w data = (if data = [] then [] else take (needed v data) (free_from v w 2))"

definition has_room :: "Volume \<Rightarrow> View \<Rightarrow> u8 list \<Rightarrow> bool" where
  "has_room v w data \<longleftrightarrow> data = [] \<or> needed v data \<le> length (free_from v w 2)"

lemma stored_Nil [simp]: "stored v [] data w = w"
proof -
  have "chain_links [] f = f" "chain_content v [] data g = g" for f g
    by (simp_all add: chain_links_def chain_content_def fun_eq_iff)
  then show ?thesis by (simp add: stored_def)
qed

lemma new_chain_facts:
  assumes "volume_ok v" "c \<in> set (new_chain v w data)"
  shows "valid_cluster v c" "links w c = 0"
  using assms free_from_valid [OF assms(1) order_refl] by (auto simp: new_chain_def dest: in_set_takeD split: if_splits)

lemma write_new_view:
  assumes "fs_ok v d" "has_room v (view v d) data"
  shows "\<exists>d'. (if data = [] then io_return 0 else write_chain v data) d = (Inr (if data = [] then 0 else hd (new_chain v (view v d) data)), d') \<and>
    fs_ok v d' \<and> view v d' = stored v (new_chain v (view v d) data) data (view v d)"
proof (cases "data = []")
  case True
  then show ?thesis using assms(1) by (simp add: io_return_def new_chain_def)
next
  case False
  then show ?thesis using write_chain_view(1) [OF assms(1), of data] assms(2) by (simp add: has_room_def new_chain_def)
qed

lemma fat_create_unfold:
  "fat_create v name data = (case split_name name of (stem, extension) \<Rightarrow>
     if stem = [] \<or> length stem > 8 \<or> length extension > 3 then io_error ''name must fit 8.3''
     else io_bind (directory_slot v name) (\<lambda>(sector, offset, existing).
          io_bind (if data = [] then io_return 0 else write_chain v data) (\<lambda>cluster.
          io_bind (case existing of
                     Some old \<Rightarrow> if first_cluster old \<ge> 2 then free_chain v (first_cluster old) else io_return ()
                   | None \<Rightarrow> io_return ()) (\<lambda>_.
          io_bind (io_read sector SECTOR_SIZE) (\<lambda>buffer.
          io_write sector (patch offset (new_slot stem extension cluster (word_of_nat (length data))) buffer))))))"
  by (simp add: fat_create_def split_name_def Let_def)

lemma fat_create_view:
  assumes "fs_ok v d" "name_ok name" "target_slot name (dir_slots v (view v d)) = Some n"
    "occupies v (view v d) name olds" "has_room v (view v d) data"
  defines "cs \<equiv> new_chain v (view v d) data"
  defines "slot \<equiv> new_slot (fst (split_name name)) (snd (split_name name)) (if data = [] then 0 else hd cs) (word_of_nat (length data))"
  shows "\<exists>d'. fat_create v name data d = (Inr (), d') \<and> fs_ok v d' \<and>
    dir_slots v (view v d') = (dir_slots v (view v d))[n := slot] \<and>
    links (view v d') = links (mark olds 0 (stored v cs data (view v d))) \<and>
    content (view v d') = content (stored v cs data (view v d))"
proof -
  let ?w = "view v d"
  obtain stem extension where se: "split_name name = (stem, extension)" by fastforce
  have n: "stem \<noteq> []" "length stem \<le> 8" "length extension \<le> 3" using assms(2) se by (simp_all add: name_ok_def)
  define existing where "existing = map_option (\<lambda>n. slot_entry (dir_slots v ?w ! n)) (slot_of_name name (dir_slots v ?w))"
  have ds: "directory_slot v name d = (Inr (fst (slot_place v n), snd (slot_place v n), existing), d)"
    using directory_slot_view [OF assms(1), of name] assms(3) by (auto simp: target_slot_def existing_def split: option.splits)
  obtain d1 where d1: "(if data = [] then io_return 0 else write_chain v data) d = (Inr (if data = [] then 0 else hd cs), d1)"
      "fs_ok v d1" "view v d1 = stored v cs data ?w"
    using write_new_view [OF assms(1,5)] by (auto simp: cs_def)
  have zero: "\<forall>c \<in> set cs. links ?w c = 0" using new_chain_facts(2) [OF fs_ok_parts(1) [OF assms(1)]] by (simp add: cs_def)
  have "\<exists>d2. (case existing of Some old \<Rightarrow> if first_cluster old \<ge> 2 then free_chain v (first_cluster old) else io_return ()
       | None \<Rightarrow> io_return ()) d1 = (Inr (), d2) \<and> fs_ok v d2 \<and> view v d2 = mark olds 0 (view v d1)"
  proof (cases existing)
    case None
    then show ?thesis using assms(4) d1(2) by (auto simp: existing_def occupies_def io_return_def mark_def)
  next
    case (Some e)
    then have "chain_of v ?w e olds" using assms(4) by (auto simp: existing_def occupies_def split: option.splits)
    then have "chain_of v (view v d1) e olds"
      using chain_ok_stored(1) [OF zero] d1(3) by (auto simp: chain_of_def)
    from free_old_view [OF d1(2) this] show ?thesis using Some by simp
  qed
  then obtain d2 where d2: "(case existing of Some old \<Rightarrow> if first_cluster old \<ge> 2 then free_chain v (first_cluster old) else io_return ()
       | None \<Rightarrow> io_return ()) d1 = (Inr (), d2)" "fs_ok v d2" "view v d2 = mark olds 0 (view v d1)"
    by blast
  have dir: "dir_slots v (view v d2) = dir_slots v ?w"
    using d1(3) d2(3) by (intro dir_slots_cong) (simp add: mark_def)
  have len: "length slot = 32" unfolding slot_def se fst_conv snd_conv by (rule new_slot_facts(1) [OF assms(2) se])
  have "n < length (dir_slots v (view v d2))" using target_slot_less [OF assms(3)] dir by simp
  from write_slot_view [OF d2(2) this len] obtain d3 where d3:
      "io_bind (io_read (fst (slot_place v n)) 512) (\<lambda>buffer. io_write (fst (slot_place v n)) (patch (snd (slot_place v n)) slot buffer)) d2 = (Inr (), d3)"
      "fs_ok v d3" "links (view v d3) = links (view v d2)" "content (view v d3) = content (view v d2)"
      "dir_slots v (view v d3) = (dir_slots v (view v d2))[n := slot]"
    by blast
  have "fat_create v name data d = (Inr (), d3)"
    unfolding fat_create_unfold se using n ds d1(1) d2(1) d3(1) by (simp add: io_bind_Inr slot_def se)
  then show ?thesis using d3(2-) d2(3) d1(3) dir by (simp add: mark_def)
qed

lemma slot_of_name_update:
  assumes "target_slot name slots = Some n" "in_use slot" "holds_name name slot"
  shows "slot_of_name name (slots[n := slot]) = Some n"
proof -
  have n: "n < length slots" by (rule target_slot_less [OF assms(1)])
  have "in_use (slots ! j) \<and> \<not> holds_name name (slots ! j)" if "j < n" for j
  proof (cases "slot_of_name name slots")
    case None
    then have p: "position reusable slots = Some n" using assms(1) by (simp add: target_slot_def)
    then have "\<forall>i < n. in_use (slots ! i)" using position_Some [OF p] by (auto simp: reusable_def in_use_def)
    then show ?thesis using slot_of_name_None [OF None, of n] n that by auto
  next
    case (Some m)
    then have "slot_of_name name slots = Some n" using assms(1) by (simp add: target_slot_def)
    then show ?thesis using that by (simp add: slot_of_name_Some)
  qed
  then show ?thesis using n assms(2,3) by (simp add: slot_of_name_Some)
qed

lemma slot_of_name_keep:
  assumes "slot_of_name name slots = Some m" "m \<noteq> n" "in_use slot" "\<not> holds_name name slot"
  shows "slot_of_name name (slots[n := slot]) = Some m"
proof -
  have "in_use (slots[n := slot] ! j) \<and> \<not> holds_name name (slots[n := slot] ! j)" if "j < m" for j
    using assms that by (cases "j = n") (simp_all add: slot_of_name_Some)
  then show ?thesis using assms(1,2) by (simp add: slot_of_name_Some)
qed

text \<open>A file whose chain is long enough for its size.\<close>

definition intact :: "Volume \<Rightarrow> View \<Rightarrow> Entry \<Rightarrow> u16 list \<Rightarrow> bool" where
  "intact v w e cs \<longleftrightarrow> entry_size e = 0 \<or>
     chain_ok v w cs \<and> hd cs = first_cluster e \<and> unat (entry_size e) \<le> length cs * cluster_bytes v"

definition intact_bytes :: "View \<Rightarrow> Entry \<Rightarrow> u16 list \<Rightarrow> u8 list" where
  "intact_bytes w e cs = (if entry_size e = 0 then [] else file_bytes w (unat (entry_size e)) cs)"

lemma read_intact: "fs_ok v d \<Longrightarrow> intact v (view v d) e cs \<Longrightarrow> read_file v e d = (Inr (intact_bytes (view v d) e cs), d)"
  using read_file_view [of v d e cs] by (auto simp: intact_def intact_bytes_def read_file_def io_return_def)

lemma intact_cong:
  assumes "\<And>c. c \<in> set cs \<Longrightarrow> links w' c = links w c \<and> content w' c = content w c"
  shows "intact v w' e cs = intact v w e cs" "intact_bytes w' e cs = intact_bytes w e cs"
proof -
  have "linked (links w') cs = linked (links w) cs" using assms by (intro linked_cong) blast
  then show "intact v w' e cs = intact v w e cs" by (simp add: intact_def chain_ok_def)
  have "map (content w') cs = map (content w) cs" using assms by auto
  then show "intact_bytes w' e cs = intact_bytes w e cs" by (simp only: intact_bytes_def file_bytes_def)
qed

lemma unat_length: "length data < 2 ^ 32 \<Longrightarrow> unat (word_of_nat (length data) :: u32) = length data"
  by (rule unat_word_small)

lemma new_file_intact:
  assumes "fs_ok v d" "has_room v w data" "data \<noteq> []" "length data < 2 ^ 32"
    "first_cluster e = hd (new_chain v w data)" "entry_size e = word_of_nat (length data)"
  defines "cs \<equiv> new_chain v w data"
  shows "intact v (stored v cs data w) e cs" "intact_bytes (stored v cs data w) e cs = data"
proof -
  note vol = fs_ok_parts(1) [OF assms(1)]
  have cs: "cs \<noteq> []" "distinct cs" "\<forall>c \<in> set cs. valid_cluster v c" "length cs = needed v data"
    using assms(2,3) new_chain_facts(1) [OF vol, of _ w data] distinct_free_from [OF vol, of w 2]
    by (auto simp: cs_def new_chain_def has_room_def needed_def)
  have "0 < cluster_bytes v" using cluster_bytes_eq [OF vol] volume_ok_parts(2) [OF vol] by simp
  from div_ceil_covers [OF this, of "length data"] have room: "length data \<le> length cs * cluster_bytes v"
    using cs(4) by (metis le_trans max.cobounded1 mult_le_mono1 needed_def)
  have sz: "unat (entry_size e) = length data" using assms(4,6) by (simp add: unat_length)
  note st = stored_chain [OF vol cs(1-3), of data w]
  show "intact v (stored v cs data w) e cs" using st(1) room sz assms(5) by (simp add: intact_def cs_def)
  have "entry_size e \<noteq> 0" using sz assms(3) by auto
  then show "intact_bytes (stored v cs data w) e cs = data"
    using st(2) room sz concat_cluster_data [of data "length cs" v] by (simp add: intact_bytes_def file_bytes_def)
qed

lemma fat_create_outcome:
  assumes "fs_ok v d" "name_ok name" "target_slot name (dir_slots v (view v d)) = Some n" "occupies v (view v d) name olds"
    "has_room v (view v d) data" "length data < 2 ^ 32"
  shows "\<exists>d' e. fat_create v name data d = (Inr (), d') \<and> fs_ok v d' \<and> fat_find v name d' = (Inr e, d') \<and>
    eq_ignore_ascii_case (entry_name e) name \<and> unat (entry_size e) = length data \<and> intact v (view v d') e (new_chain v (view v d) data) \<and>
    intact_bytes (view v d') e (new_chain v (view v d) data) = data \<and> first_cluster e = (if data = [] then 0 else hd (new_chain v (view v d) data))"
proof -
  let ?w = "view v d" and ?cs = "new_chain v (view v d) data"
  obtain stem extension where se: "split_name name = (stem, extension)" by fastforce
  define slot where "slot = new_slot stem extension (if data = [] then 0 else hd ?cs) (word_of_nat (length data))"
  obtain d' where d': "fat_create v name data d = (Inr (), d')" "fs_ok v d'" "dir_slots v (view v d') = (dir_slots v ?w)[n := slot]"
      "links (view v d') = links (mark olds 0 (stored v ?cs data ?w))" "content (view v d') = content (stored v ?cs data ?w)"
    using fat_create_view [OF assms(1-5)] by (auto simp: se slot_def)
  note slot = new_slot_facts [OF assms(2) se, of "if data = [] then 0 else hd ?cs" "word_of_nat (length data)", folded slot_def]
  have "holds_name name slot" using slot(3,4) by (simp add: holds_name_def)
  then have "slot_of_name name (dir_slots v (view v d')) = Some n"
    unfolding d'(3) by (rule slot_of_name_update [OF assms(3) slot(2)])
  then have find: "fat_find v name d' = (Inr (slot_entry slot), d')"
    using fat_find_view [OF d'(2), of name] target_slot_less [OF assms(3)] d'(3) by simp
  let ?e = "slot_entry slot"
  have sz: "unat (entry_size ?e) = length data" using slot(6) assms(6) by (simp add: unat_length)
  have "set olds \<inter> set ?cs = {}"
    using assms(4) chain_ok_stored(2) [of ?cs ?w v olds] new_chain_facts(2) [OF fs_ok_parts(1) [OF assms(1)]]
    by (auto simp: occupies_def chain_of_def split: option.splits if_splits)
  then have same: "links (view v d') c = links (stored v ?cs data ?w) c \<and> content (view v d') c = content (stored v ?cs data ?w) c" if "c \<in> set ?cs" for c
    using d'(4,5) that by (auto simp: mark_def)
  have "intact v (view v d') ?e ?cs \<and> intact_bytes (view v d') ?e ?cs = data"
  proof (cases "data = []")
    case True
    then have "entry_size ?e = 0" using slot(6) by simp
    then show ?thesis using True by (simp add: intact_def intact_bytes_def)
  next
    case False
    note i = intact_cong [of ?cs "view v d'" "stored v ?cs data ?w", OF same]
    show ?thesis using i new_file_intact [OF assms(1,5) False assms(6), of ?e] slot(5,6) False by simp
  qed
  moreover have "eq_ignore_ascii_case (entry_name ?e) name" using slot(4) by (simp add: slot_entry_def)
  ultimately show ?thesis using d'(1,2) find sz slot(5) by auto
qed

text \<open>
  C6: What is created can be read back. On a working volume with a free directory slot (or an old file of
  that name, whose chain is intact) and enough free clusters, creating a file succeeds, and looking
  the name up and reading the entry gives exactly the data.
\<close>

theorem create_then_read:
  assumes "fs_ok v d" "name_ok name" "target_slot name (dir_slots v (view v d)) = Some n" "occupies v (view v d) name olds"
    "has_room v (view v d) data" "length data < 2 ^ 32"
  shows "\<exists>d' e. fat_create v name data d = (Inr (), d') \<and> fs_ok v d' \<and> fat_find v name d' = (Inr e, d') \<and>
    eq_ignore_ascii_case (entry_name e) name \<and> unat (entry_size e) = length data \<and> read_file v e d' = (Inr data, d')"
  using fat_create_outcome [OF assms] read_intact by metis

lemma eq_ignore_simps: "eq_ignore_ascii_case a b \<Longrightarrow> eq_ignore_ascii_case a c \<longleftrightarrow> eq_ignore_ascii_case b c"
  by (simp add: eq_ignore_ascii_case_def)

text \<open>
  C7: Creating or replacing a file leaves the others alone. A file of another name that was found before is found
  with the same entry afterwards, and it reads the same, provided that its clusters are not those of the
  file that is replaced.
\<close>

theorem create_keeps_other_files:
  assumes "fs_ok v d" "name_ok name" "target_slot name (dir_slots v (view v d)) = Some n" "occupies v (view v d) name olds"
    "has_room v (view v d) data" "fat_find v other d = (Inr e, d)" "\<not> eq_ignore_ascii_case name other"
    "intact v (view v d) e cs" "set cs \<inter> set olds = {}"
  shows "\<exists>d'. fat_create v name data d = (Inr (), d') \<and> fat_find v other d' = (Inr e, d') \<and>
    fst (read_file v e d') = fst (read_file v e d)"
proof -
  let ?w = "view v d" and ?new = "new_chain v (view v d) data"
  obtain stem extension where se: "split_name name = (stem, extension)" by fastforce
  define slot where "slot = new_slot stem extension (if data = [] then 0 else hd ?new) (word_of_nat (length data))"
  obtain d' where d': "fat_create v name data d = (Inr (), d')" "fs_ok v d'" "dir_slots v (view v d') = (dir_slots v ?w)[n := slot]"
      "links (view v d') = links (mark olds 0 (stored v ?new data ?w))" "content (view v d') = content (stored v ?new data ?w)"
    using fat_create_view [OF assms(1-5)] by (auto simp: se slot_def)
  note slot = new_slot_facts [OF assms(2) se, of "if data = [] then 0 else hd ?new" "word_of_nat (length data)", folded slot_def]
  obtain m where m: "slot_of_name other (dir_slots v ?w) = Some m" "e = slot_entry (dir_slots v ?w ! m)"
    using fat_find_view [OF assms(1), of other] assms(6) by (auto split: option.splits)
  have other: "\<not> holds_name other slot" using slot(4) eq_ignore_simps assms(7) by (auto simp: holds_name_def)
  have "m \<noteq> n"
  proof
    assume "m = n"
    then have h: "holds_name other (dir_slots v ?w ! n)" using m(1) by (simp add: slot_of_name_Some)
    then have "\<not> reusable (dir_slots v ?w ! n)" using m(1) \<open>m = n\<close> by (auto simp: reusable_def holds_name_def is_file_def slot_of_name_Some in_use_def)
    then have "slot_of_name name (dir_slots v ?w) = Some n"
      using assms(3) position_Some [of reusable "dir_slots v ?w" n] by (auto simp: target_slot_def split: option.splits)
    then have "holds_name name (dir_slots v ?w ! n)" by (simp add: slot_of_name_Some)
    then show False using h eq_ignore_simps assms(7) by (auto simp: holds_name_def)
  qed
  then have "slot_of_name other (dir_slots v (view v d')) = Some m"
    unfolding d'(3) by (rule slot_of_name_keep [OF m(1) _ slot(2) other])
  then have find: "fat_find v other d' = (Inr e, d')"
    using fat_find_view [OF d'(2), of other] \<open>m \<noteq> n\<close> d'(3) m(2) by simp
  have "fst (read_file v e d') = fst (read_file v e d)"
  proof (cases "entry_size e = 0")
    case False
    then have "chain_ok v ?w cs" using assms(8) by (simp add: intact_def)
    then have "c \<notin> set ?new" if "c \<in> set cs" for c
      using new_chain_facts(2) [OF fs_ok_parts(1) [OF assms(1)]] chain_not_free that by blast
    then have same: "links (view v d') c = links ?w c \<and> content (view v d') c = content ?w c" if "c \<in> set cs" for c
      using d'(4,5) assms(9) stored_other that by (auto simp: mark_def)
    note i = intact_cong [of cs "view v d'" ?w, OF same]
    have "intact v (view v d') e cs" using i(1) assms(8) by simp
    from read_intact [OF d'(2) this] read_intact [OF assms(1,8)] show ?thesis using i(2) by simp
  qed (simp add: read_file_def io_return_def)
  then show ?thesis using d'(1) find by blast
qed

section \<open>Removing\<close>

lemma mark_byte:
  assumes "length buffer = 512" "k < 16"
  shows "buffer[k * 32 := x] = patch (k * 32) ((chunks_exact 32 buffer ! k)[0 := x]) buffer"
proof -
  let ?m = "take 32 (drop (k * 32) buffer)"
  have k: "k * 32 + 32 \<le> 512" using assms(2) by simp
  have c: "chunks_exact 32 buffer ! k = ?m" using nth_chunks [of 32 buffer 16 k] assms by simp
  have "buffer = take (k * 32) buffer @ ?m @ drop (k * 32 + 32) buffer"
    by (metis add.commute append_take_drop_id drop_drop)
  then have "buffer[k * 32 := x] = (take (k * 32) buffer @ ?m @ drop (k * 32 + 32) buffer)[k * 32 := x]" by simp
  also have "\<dots> = take (k * 32) buffer @ ?m[0 := x] @ drop (k * 32 + 32) buffer"
    using k assms(1) by (simp add: list_update_append)
  finally show ?thesis using c k assms(1) by (simp add: patch_def)
qed

lemma length_dir_slot:
  assumes "fs_ok v d" "n < length (dir_slots v (view v d))"
  shows "length (dir_slots v (view v d) ! n) = 32"
proof -
  have n: "n < root_sectors v * 16" using assms length_dir_slots by simp
  then have "n div 16 < root_sectors v" by (simp add: less_mult_imp_div_less)
  then show ?thesis
    using nth_dir_slots [OF assms(1) n] nth_chunks [of 32 "root (view v d) (n div 16)" 16 "n mod 16"] length_root [OF assms(1)] by simp
qed

lemma fat_remove_view:
  assumes "fs_ok v d" "slot_of_name name (dir_slots v (view v d)) = Some n"
    "chain_of v (view v d) (slot_entry (dir_slots v (view v d) ! n)) cs"
  shows "\<exists>d'. fat_remove v name d = (Inr (), d') \<and> fs_ok v d' \<and>
    dir_slots v (view v d') = (dir_slots v (view v d))[n := (dir_slots v (view v d) ! n)[0 := ENTRY_DELETED]] \<and>
    links (view v d') = links (mark cs 0 (view v d)) \<and> content (view v d') = content (view v d)"
proof -
  let ?w = "view v d" and ?s = "n div 16" and ?k = "n mod 16"
  let ?slot = "dir_slots v ?w ! n"
  have n: "n < length (dir_slots v ?w)" using assms(2) by (simp add: slot_of_name_Some)
  have m: "n < root_sectors v * 16" using n length_dir_slots [OF assms(1)] by simp
  then have s: "?s < root_sectors v" by (simp add: less_mult_imp_div_less)
  have k: "?k < 16" by simp
  note slot = nth_dir_slots [OF assms(1) m]
  have len: "length (?slot[0 := ENTRY_DELETED]) = 32" using length_dir_slot [OF assms(1) n] by simp
  from write_slot_view [OF assms(1) n len] obtain d1 where d1:
      "io_bind (io_read (fst (slot_place v n)) 512) (\<lambda>buffer. io_write (fst (slot_place v n)) (patch (snd (slot_place v n)) (?slot[0 := ENTRY_DELETED]) buffer)) d = (Inr (), d1)"
      "fs_ok v d1" "links (view v d1) = links ?w" "content (view v d1) = content ?w"
      "dir_slots v (view v d1) = (dir_slots v ?w)[n := ?slot[0 := ENTRY_DELETED]]"
    by blast
  have rd: "io_read (fst (slot_place v n)) 512 d = (Inr (root ?w ?s), d)"
    using read_root_view [OF assms(1) s] by (simp add: slot_place_def)
  have "(root ?w ?s)[snd (slot_place v n) := ENTRY_DELETED] = patch (snd (slot_place v n)) (?slot[0 := ENTRY_DELETED]) (root ?w ?s)"
    using mark_byte [OF length_root [OF assms(1) s] k] slot by (simp add: slot_place_def)
  then have wr: "io_write (fst (slot_place v n)) ((root ?w ?s)[snd (slot_place v n) := ENTRY_DELETED]) d = (Inr (), d1)"
    using d1(1) rd by (simp add: io_bind_Inr)
  have "linked (links (view v d1)) cs = linked (links ?w) cs" using d1(3) by simp
  then have "chain_of v (view v d1) (slot_entry ?slot) cs" using assms(3) by (auto simp: chain_of_def chain_ok_def split: if_splits)
  from free_old_view [OF d1(2) this] obtain d2 where
      d2: "(if first_cluster (slot_entry ?slot) \<ge> 2 then free_chain v (first_cluster (slot_entry ?slot)) else io_return ()) d1 = (Inr (), d2)"
      "fs_ok v d2" "view v d2 = mark cs 0 (view v d1)" by blast
  have "fat_remove v name d = (Inr (), d2)"
    unfolding fat_remove_def using directory_slot_view [OF assms(1), of name] assms(2) rd wr d2(1) by (simp add: io_bind_Inr)
  moreover have "dir_slots v (view v d2) = dir_slots v (view v d1)" using d2(3) by (intro dir_slots_cong) (simp add: mark_def)
  moreover have "links (mark cs 0 (view v d1)) = links (mark cs 0 ?w)" using d1(3) by (auto simp: mark_def)
  ultimately show ?thesis using d2(2,3) d1(4,5) by (simp add: mark_def)
qed

lemma count_free_in_view:
  assumes "fs_ok v d" "\<forall>n \<in> set ns. 2 \<le> n \<and> n < cluster_limit v"
  shows "count_free_in v ns k d = (Inr (k + word_of_nat (length (filter (\<lambda>c. links (view v d) c = 0) (map word_of_nat ns)))), d)"
  using assms(2)
proof (induction ns arbitrary: k)
  case (Cons n ns)
  then show ?case
    using next_cluster_view [OF assms(1) valid_cluster_nat [OF fs_ok_parts(1) [OF assms(1)], of n]]
    by (simp add: io_bind_Inr add.assoc)
qed (simp add: io_return_def)

lemma count_free_view: "fs_ok v d \<Longrightarrow> count_free v d = (Inr (word_of_nat (length (free_from v (view v d) 2))), d)"
  unfolding count_free_def using count_free_in_view [of v d "[2..<cluster_limit v]" 0] cluster_limit_word [OF fs_ok_parts(1)]
  by (simp add: free_from_def)

lemma set_free_from: "volume_ok v \<Longrightarrow> set (free_from v w 2) = {c. valid_cluster v c \<and> links w c = 0}"
  using free_from_valid [of v 2 _ w] free_from_complete [of v _ w] by blast

lemma free_from_released:
  assumes "volume_ok v" "chain_of v w e cs" "links w' = links (mark cs 0 w)"
  shows "length (free_from v w' 2) = length (free_from v w 2) + length cs"
proof -
  have cs: "distinct cs" "\<forall>c \<in> set cs. valid_cluster v c" "\<forall>c \<in> set cs. links w c \<noteq> 0"
    using assms(2) chain_not_free by (auto simp: chain_of_def chain_ok_def split: if_splits)
  have "set (free_from v w' 2) = set (free_from v w 2) \<union> set cs"
    using cs(2) assms(3) by (auto simp: set_free_from [OF assms(1)] mark_def)
  moreover have "set (free_from v w 2) \<inter> set cs = {}" using cs(3) by (auto simp: set_free_from [OF assms(1)])
  ultimately show ?thesis
    using distinct_free_from [OF assms(1)] cs(1) by (metis card_Un_disjoint distinct_card List.finite_set)
qed

lemma slot_of_name_swap:
  assumes "n < length slots" "in_use (slots ! n)" "in_use slot" "\<not> holds_name name slot" "\<not> holds_name name (slots ! n)"
  shows "slot_of_name name (slots[n := slot]) = slot_of_name name slots"
proof -
  have h: "in_use (slots[n := slot] ! j) = in_use (slots ! j)" "holds_name name (slots[n := slot] ! j) = holds_name name (slots ! j)" for j
    using assms by (cases "j = n"; simp)+
  have "slot_of_name name (slots[n := slot]) = Some m \<longleftrightarrow> slot_of_name name slots = Some m" for m
    unfolding slot_of_name_Some h by simp
  then show ?thesis by (metis not_Some_eq)
qed

text \<open>
  C38: Removing a file takes its name away and gives back exactly its clusters: if no second slot carries
  the name, looking it up fails afterwards, the free count grows by the length of the chain, and every
  other name is found as before.
\<close>

theorem remove_frees_clusters:
  assumes "fs_ok v d" "fat_find v name d = (Inr e, d)" "chain_of v (view v d) e cs"
    "\<forall>m < length (dir_slots v (view v d)). holds_name name (dir_slots v (view v d) ! m) \<longrightarrow> slot_of_name name (dir_slots v (view v d)) = Some m"
  shows "\<exists>d' k. fat_remove v name d = (Inr (), d') \<and> fs_ok v d' \<and> fat_find v name d' = (Inl ''no such file'', d') \<and>
    count_free v d = (Inr k, d) \<and> count_free v d' = (Inr (k + word_of_nat (length cs)), d') \<and>
    (\<forall>other. eq_ignore_ascii_case name other \<or> fst (fat_find v other d') = fst (fat_find v other d))"
proof -
  let ?ss = "dir_slots v (view v d)"
  obtain n where n: "slot_of_name name ?ss = Some n" "e = slot_entry (?ss ! n)"
    using fat_find_view [OF assms(1), of name] assms(2) by (auto split: option.splits)
  then have at: "n < length ?ss" "in_use (?ss ! n)" "holds_name name (?ss ! n)" by (simp_all add: slot_of_name_Some)
  define slot where "slot = (?ss ! n)[0 := ENTRY_DELETED]"
  obtain d' where d': "fat_remove v name d = (Inr (), d')" "fs_ok v d'" "dir_slots v (view v d') = ?ss[n := slot]"
      "links (view v d') = links (mark cs 0 (view v d))" "content (view v d') = content (view v d)"
    using fat_remove_view [OF assms(1) n(1)] assms(3) n(2) by (auto simp: slot_def)
  have "slot ! 0 = ENTRY_DELETED" unfolding slot_def using length_dir_slot [OF assms(1) at(1)] by simp
  then have del: "in_use slot" "\<not> holds_name x slot" for x by (simp_all add: in_use_def holds_name_def is_file_def)
  have "slot_of_name name (?ss[n := slot]) \<noteq> Some m" for m
  proof
    assume "slot_of_name name (?ss[n := slot]) = Some m"
    then have m: "m < length ?ss" "holds_name name (?ss[n := slot] ! m)" by (simp_all add: slot_of_name_Some)
    then have "m \<noteq> n" using del(2) by auto
    then show False using m assms(4) n(1) by auto
  qed
  then have "slot_of_name name (?ss[n := slot]) = None" by (metis not_Some_eq)
  then have gone: "fat_find v name d' = (Inl ''no such file'', d')" using fat_find_view [OF d'(2), of name] d'(3) by simp
  have "fst (fat_find v other d') = fst (fat_find v other d)" if "\<not> eq_ignore_ascii_case name other" for other
  proof -
    have no: "\<not> holds_name other (?ss ! n)" using at(3) eq_ignore_simps that by (auto simp: holds_name_def)
    from slot_of_name_swap [OF at(1,2) del(1,2) this]
    have "slot_of_name other (?ss[n := slot]) = slot_of_name other ?ss" .
    moreover have "?ss[n := slot] ! m = ?ss ! m" if "slot_of_name other ?ss = Some m" for m
      using that no by (cases "m = n") (auto simp: slot_of_name_Some)
    ultimately show ?thesis
      using fat_find_view [OF d'(2), of other] fat_find_view [OF assms(1), of other] d'(3) by (auto split: option.splits)
  qed
  moreover have "count_free v d' = (Inr (word_of_nat (length (free_from v (view v d) 2)) + word_of_nat (length cs)), d')"
    using count_free_view [OF d'(2)] free_from_released [OF fs_ok_parts(1) [OF assms(1)] assms(3) d'(4)] by simp
  ultimately show ?thesis using d'(1,2) gone count_free_view [OF assms(1)] by blast
qed

text \<open>
  C39: When the volume has fewer free clusters than a file needs, \<open>create\<close> fails, and all the clusters that were
  free are left marked as used: nothing can be created any more.
\<close>

theorem create_full_leaks_clusters:
  assumes "fs_ok v d" "name_ok name" "target_slot name (dir_slots v (view v d)) = Some n" "data \<noteq> []"
    "length (free_from v (view v d) 2) < needed v data"
  shows "\<exists>d'. fat_create v name data d = (Inl ''the volume is full'', d') \<and> count_free v d' = (Inr 0, d')"
proof -
  let ?free = "free_from v (view v d) 2"
  obtain stem extension where se: "split_name name = (stem, extension)" by fastforce
  have n: "stem \<noteq> []" "length stem \<le> 8" "length extension \<le> 3" using assms(2) se by (simp_all add: name_ok_def)
  obtain x where ds: "directory_slot v name d = (Inr x, d)"
    using directory_slot_view [OF assms(1), of name] assms(3) by (auto simp: target_slot_def split: option.splits)
  obtain d' where d': "write_chain v data d = (Inl ''the volume is full'', d')" "fs_ok v d'" "view v d' = mark ?free 0xFFFF (view v d)"
    using write_chain_view(2) [OF assms(1,5)] by blast
  have "fat_create v name data d = (Inl ''the volume is full'', d')"
    unfolding fat_create_unfold se using n ds d'(1) assms(4) by (cases x) (simp add: io_bind_Inr io_bind_Inl)
  moreover have "set (free_from v (view v d') 2) = {}"
    using d'(3) by (auto simp: set_free_from [OF fs_ok_parts(1) [OF assms(1)]] mark_def)
  then have "count_free v d' = (Inr 0, d')" using count_free_view [OF d'(2)] by simp
  ultimately show ?thesis by blast
qed

section \<open>Mounting\<close>

definition boot_total :: "u8 list \<Rightarrow> u32" where
  "boot_total sector = (if (ucast (read_u16 sector 19) :: u32) = 0 then read_u32 sector 32 else ucast (read_u16 sector 19))"

lemma power_of_two_u8:
  fixes w :: u8
  assumes "is_power_of_two (ucast w)"
  shows "unat w \<le> 128"
proof (rule ccontr)
  assume "\<not> unat w \<le> 128"
  then have w: "unat w div 128 = 1" "(unat w - 1) div 128 = 1" using unat_u8_less [of w] by auto
  have "unat (ucast w :: u32) = unat w" by (simp add: unsigned_ucast_eq take_bit_nat_eq_self less_le_trans [OF unsigned_less])
  moreover from this have "unat (ucast w - 1 :: u32) = unat w - 1" using w by (subst unat_minus_one) auto
  moreover have "bit (unat x) 7 \<longleftrightarrow> bit x 7" for x :: u32 by (simp add: bit_unsigned_iff)
  moreover have "bit (unat w) 7" "bit (unat w - 1) 7" using w by (simp_all add: bit_iff_odd)
  ultimately have "bit (ucast w :: u32) 7" "bit (ucast w - 1 :: u32) 7" by metis+
  then have "bit (ucast w AND (ucast w - 1) :: u32) 7" by (simp add: bit_and_iff)
  then show False using assms by (simp add: is_power_of_two_def)
qed

lemma io_read_same_disk: "io_read lba n d = (r, d') \<Longrightarrow> d' = d"
  by (auto simp: io_read_def split: prod.splits sum.splits)

lemma unat_u32_div_ceil:
  assumes "unat a < 2 ^ 31" "0 < unat b"
  shows "unat (u32_div_ceil a b) = div_ceil (unat a) (unat b)"
proof -
  have "unat a div unat b < 2 ^ 31" using assms div_le_dividend le_less_trans by blast
  moreover have "a mod b = 0 \<longleftrightarrow> unat a mod unat b = 0" by (simp add: word_unat_eq_iff unat_mod)
  ultimately show ?thesis by (simp add: u32_div_ceil_def div_ceil_def unat_div unat_word_ariths)
qed

lemma unat_ucast_u8_u32: "unat (ucast w :: u32) = unat w" for w :: u8
  by (simp add: unsigned_ucast_eq take_bit_nat_eq_self less_le_trans [OF unsigned_less])

lemma boot_arithmetic:
  fixes reserved fats spf entries total spc :: u32
  assumes "unat reserved < 2 ^ 16" "unat fats < 2 ^ 8" "unat spf < 2 ^ 16" "unat entries < 2 ^ 16" "0 < unat spc"
  defines "rs \<equiv> reserved + fats * spf"
  defines "data \<equiv> rs + u32_div_ceil (entries * 32) 512"
  assumes "\<not> data \<ge> total"
  shows "unat rs = unat reserved + unat fats * unat spf"
    "unat (u32_div_ceil (entries * 32) 512) = div_ceil (unat entries * 32) 512"
    "unat data = unat rs + unat (u32_div_ceil (entries * 32) 512)"
    "unat data + unat ((total - data) div spc) * unat spc \<le> unat total"
proof -
  have "unat fats * unat spf \<le> 2 ^ 8 * 2 ^ 16" using assms(2,3) by (intro mult_le_mono) simp_all
  then have m: "unat fats * unat spf \<le> 2 ^ 24" by simp
  have fs: "unat (fats * spf) = unat fats * unat spf" using m by (intro unat_mult_exact) simp
  show r: "unat rs = unat reserved + unat fats * unat spf"
    unfolding rs_def fs [symmetric] using assms(1) m fs by (intro unat_add_exact) simp
  have e: "unat (entries * 32) = unat entries * 32" using assms(4) by (subst unat_mult_exact) simp_all
  show c: "unat (u32_div_ceil (entries * 32) 512) = div_ceil (unat entries * 32) 512"
    using assms(4) e unat_u32_div_ceil [of "entries * 32" 512] by simp
  have "div_ceil (unat entries * 32) 512 \<le> 2 ^ 17" using assms(4) div_le_dividend [of "unat entries" 16] by (auto simp: div_ceil_def)
  then show d: "unat data = unat rs + unat (u32_div_ceil (entries * 32) 512)"
    unfolding data_def using r c m assms(1) by (intro unat_add_exact) simp
  have le: "data \<le> total" using assms(8) by simp
  then have "unat ((total - data) div spc) * unat spc \<le> unat total - unat data"
    by (simp add: unat_div unat_sub)
  moreover have "unat data \<le> unat total" using le by (simp add: word_le_nat_alt)
  ultimately show "unat data + unat ((total - data) div spc) * unat spc \<le> unat total" by linarith
qed

lemma parse_boot_sector_layout:
  assumes "parse_boot_sector sector = Inr v"
  shows "volume_layout v" "unat (data_start v) + unat (clusters v) * unat (sectors_per_cluster v) \<le> unat (boot_total sector)"
proof -
  define reserved fats entries spf spc :: u32 where
    "reserved = ucast (read_u16 sector 14)" and "fats = ucast (sector ! 16)" and "entries = ucast (read_u16 sector 17)" and
    "spf = ucast (read_u16 sector 22)" and "spc = ucast (sector ! 13)"
  note fields = reserved_def fats_def entries_def spf_def spc_def
  let ?bps = "ucast (read_u16 sector 11) :: u32" and ?rs = "reserved + fats * spf"
  let ?data = "?rs + u32_div_ceil (entries * 32) ?bps" and ?total = "boot_total sector"
  have ok: "unat ?bps = 512" "spc \<noteq> 0" "is_power_of_two spc" "reserved \<noteq> 0" "fats \<noteq> 0" "spf \<noteq> 0" "\<not> ?data \<ge> ?total"
      "4085 \<le> (?total - ?data) div spc" "(?total - ?data) div spc < 65525"
      "v = \<lparr> bytes_per_sector = ?bps, fat_count = fats, sectors_per_cluster = spc, fat_start = reserved,
             sectors_per_fat = spf, root_start = ?rs, root_entries = entries, data_start = ?data, clusters = (?total - ?data) div spc \<rparr>"
    using assms unfolding parse_boot_sector_def Let_def boot_total_def [symmetric] fields [symmetric] by (simp_all split: if_splits)
  have bps: "?bps = 512" using ok(1) by (simp add: word_unat_eq_iff)
  have b: "unat reserved < 2 ^ 16" "unat fats < 2 ^ 8" "unat spf < 2 ^ 16" "unat entries < 2 ^ 16" "unat spc \<le> 128"
    using unat_u16_less unat_u8_less power_of_two_u8 ok(3) by (simp_all add: fields unat_ucast_u8_u32)
  have pos: "0 < unat spc" "0 < unat reserved" "0 < unat fats" "0 < unat spf" using ok(2,4-6) by (simp_all add: unat_gt_0)
  have lim: "\<not> ?rs + u32_div_ceil (entries * 32) 512 \<ge> ?total" using ok(7) bps by simp
  note a = boot_arithmetic [OF b(1-4) pos(1) lim]
  show "unat (data_start v) + unat (clusters v) * unat (sectors_per_cluster v) \<le> unat ?total"
    using a(4) by (simp add: ok(10) bps)
  have "root_sectors v = unat (u32_div_ceil (entries * 32) 512)" by (simp add: ok(10) root_sectors_def bps)
  then show "volume_layout v"
    using a(1-3) b pos ok(8,9) by (simp add: volume_layout_def ok(10) bps word_le_nat_alt word_less_nat_alt)
qed

text \<open>
  A volume that mounts has a consistent layout. The tables, the root directory and the data region follow
  each other without overlap or overflow, the last cluster ends inside the volume the boot sector
  describes, the cluster size is at most 64 KiB and the number of clusters is that of FAT16. Mounting does
  not write.
\<close>

theorem mount_layout:
  assumes "mount present d = (Inr v, d')"
  shows "d' = d \<and> volume_layout v \<and> (\<exists>sector. io_read 0 SECTOR_SIZE d = (Inr sector, d) \<and>
    unat (data_start v) + unat (clusters v) * unat (sectors_per_cluster v) \<le> unat (boot_total sector))"
proof -
  obtain sector where s: "io_read 0 SECTOR_SIZE d = (Inr sector, d)" "parse_boot_sector sector = Inr v" "d' = d"
    using assms io_read_same_disk [of 0 512 d]
    by (auto simp: mount_def io_bind_def io_error_def io_return_def split: if_splits prod.splits sum.splits)
  then show ?thesis using parse_boot_sector_layout [OF s(2)] by blast
qed

section \<open>Examples\<close>

definition demo_volume :: Volume where
  "demo_volume = \<lparr> bytes_per_sector = 512, fat_count = 2, sectors_per_cluster = 1, fat_start = 1, sectors_per_fat = 16,
     root_start = 33, root_entries = 16, data_start = 34, clusters = 4085 \<rparr>"

definition clean_disk :: Disk where
  "clean_disk = \<lparr> disk_drive = \<lparr> sectors = (\<lambda>_. replicate 256 0), drive_error = (\<lambda>_. None) \<rparr>, disk_flush = None \<rparr>"

abbreviation (input) a_txt :: "u8 list" where "a_txt \<equiv> [0x61, 0x2E, 0x74, 0x78, 0x74]"
abbreviation (input) b_txt :: "u8 list" where "b_txt \<equiv> [0x62, 0x2E, 0x74, 0x78, 0x74]"

lemma demo_volume_ok: "volume_ok demo_volume" "root_sectors demo_volume = 1" "cluster_bytes demo_volume = 512"
  by (simp_all add: volume_ok_def volume_layout_def demo_volume_def root_sectors_def u32_div_ceil_def div_ceil_def cluster_bytes_def)

lemma words_to_bytes_zero: "words_to_bytes (replicate n 0) = replicate (2 * n) 0"
  by (induction n) simp_all

lemma clean_sector: "sector_bytes clean_disk s = replicate 512 0"
  by (simp add: sector_bytes_def clean_disk_def words_to_bytes_zero)

lemma clean_ok: "fs_ok demo_volume clean_disk" "links (view demo_volume clean_disk) c = 0"
  "dir_slots demo_volume (view demo_volume clean_disk) = replicate 16 (replicate 32 0)"
proof -
  have z: "fat_copy demo_volume clean_disk k = (\<lambda>_. 0)" for k
  proof
    fix c :: u16
    have "2 * (unat c mod 256) + 1 < 512" using mod_less_divisor [of 256 "unat c"] by linarith
    then show "fat_copy demo_volume clean_disk k c = 0" by (simp add: fat_copy_def clean_sector read_u16_def)
  qed
  have "healthy clean_disk" by (simp add: healthy_def clean_disk_def)
  then show "fs_ok demo_volume clean_disk" using z demo_volume_ok(1) by (simp add: fs_ok_def)
  show "links (view demo_volume clean_disk) c = 0" by (simp add: view_simps z)
  have c: "chunks_exact 32 (replicate 512 0) = replicate 16 (replicate 32 (0 :: u8))"
  proof (rule nth_equalityI)
    show len: "length (chunks_exact 32 (replicate 512 (0 :: u8))) = length (replicate 16 (replicate 32 (0 :: u8)))"
      using length_chunks [of 32 "replicate 512 0" 16] by simp
    show "chunks_exact 32 (replicate 512 0) ! i = replicate 16 (replicate 32 (0 :: u8)) ! i"
      if "i < length (chunks_exact 32 (replicate 512 (0 :: u8)))" for i
    proof -
      have i: "i < 16" using that len by simp
      then show ?thesis using nth_chunks [of 32 "replicate 512 0" 16 i] by simp
    qed
  qed
  have "root (view demo_volume clean_disk) 0 = replicate 512 0"
    using demo_volume_ok(2) by (simp add: view_simps clean_sector)
  then show "dir_slots demo_volume (view demo_volume clean_disk) = replicate 16 (replicate 32 0)"
    using c demo_volume_ok(2) by (simp add: dir_slots_def)
qed

lemma demo_names: "name_ok a_txt" "name_ok b_txt" "split_name a_txt = ([0x61], [0x74, 0x78, 0x74])" "\<not> eq_ignore_ascii_case b_txt a_txt"
  by code_simp+

lemma empty_directory:
  "slot_of_name name (replicate n (replicate 32 0)) = None"
  "0 < n \<Longrightarrow> target_slot name (replicate n (replicate 32 0)) = Some 0"
  by (cases n; simp add: slot_of_name_def in_use_def target_slot_def reusable_def)+

lemma demo_limit: "cluster_limit demo_volume = 4087"
  by (simp add: cluster_limit_def demo_volume_def)

lemma clean_room: "has_room demo_volume (view demo_volume clean_disk) [1, 2, 3]" "length (free_from demo_volume (view demo_volume clean_disk) 2) = 4085"
proof -
  show l: "length (free_from demo_volume (view demo_volume clean_disk) 2) = 4085"
    by (simp add: free_from_def clean_ok(2) demo_limit del: upt_rec_numeral)
  show "has_room demo_volume (view demo_volume clean_disk) [1, 2, 3]"
    unfolding has_room_def l needed_def demo_volume_ok(3) by (simp add: div_ceil_def)
qed

lemma clean_target:
  "target_slot a_txt (dir_slots demo_volume (view demo_volume clean_disk)) = Some 0" "occupies demo_volume (view demo_volume clean_disk) a_txt []"
  by (simp_all add: clean_ok(3) empty_directory occupies_def)

theorem create_then_read_witness:
  "\<exists>d' e. fat_create demo_volume a_txt [1, 2, 3] clean_disk = (Inr (), d') \<and> fat_find demo_volume a_txt d' = (Inr e, d') \<and>
     read_file demo_volume e d' = (Inr [1, 2, 3], d')"
  using create_then_read [OF clean_ok(1) demo_names(1) clean_target clean_room(1)] by auto

text \<open>The disk after \<open>a.txt\<close> was created.\<close>

lemma clean_chain: "new_chain demo_volume (view demo_volume clean_disk) [1, 2, 3] = [2]"
proof -
  have "free_from demo_volume (view demo_volume clean_disk) 2 = map word_of_nat [2..<4087]"
    by (simp add: free_from_def clean_ok(2) demo_limit del: upt_rec_numeral)
  moreover have "needed demo_volume [1, 2, 3] = 1" unfolding needed_def demo_volume_ok(3) by (simp add: div_ceil_def)
  moreover have "[2..<4087] = 2 # [3..<4087]" by (simp add: upt_conv_Cons del: upt_rec_numeral)
  ultimately show ?thesis by (simp add: new_chain_def del: upt_rec_numeral)
qed

lemma with_a_txt:
  "\<exists>d e slot. fs_ok demo_volume d \<and> fat_find demo_volume a_txt d = (Inr e, d) \<and> intact demo_volume (view demo_volume d) e [2] \<and>
     chain_of demo_volume (view demo_volume d) e [2] \<and> links (view demo_volume d) 3 = 0 \<and>
     length slot = 32 \<and> in_use slot \<and> is_file slot \<and> eq_ignore_ascii_case (decode_name slot) a_txt \<and>
     dir_slots demo_volume (view demo_volume d) = slot # replicate 15 (replicate 32 0)"
proof -
  let ?w = "view demo_volume clean_disk"
  obtain d e where o: "fat_create demo_volume a_txt [1, 2, 3] clean_disk = (Inr (), d)" "fs_ok demo_volume d"
      "fat_find demo_volume a_txt d = (Inr e, d)" "intact demo_volume (view demo_volume d) e [2]" "first_cluster e = 2"
      "unat (entry_size e) = 3"
    using fat_create_outcome [OF clean_ok(1) demo_names(1) clean_target clean_room(1)] by (auto simp: clean_chain)
  then have e: "entry_size e \<noteq> 0" by auto
  define slot where "slot = new_slot [0x61] [0x74, 0x78, 0x74] (2 :: u16) 3"
  obtain d' where d': "fat_create demo_volume a_txt [1, 2, 3] clean_disk = (Inr (), d')"
      "dir_slots demo_volume (view demo_volume d') = (dir_slots demo_volume ?w)[0 := slot]"
      "links (view demo_volume d') = links (mark [] 0 (stored demo_volume [2] [1, 2, 3] ?w))"
    using fat_create_view [OF clean_ok(1) demo_names(1) clean_target clean_room(1)]
    by (auto simp: clean_chain demo_names(3) slot_def)
  have "d' = d" using o(1) d'(1) by simp
  moreover have "links (view demo_volume d') 3 = 0"
    using stored_other [of 3 "[2]" demo_volume "[1, 2, 3]" ?w] d'(3) by (simp add: mark_def clean_ok(2))
  moreover have "dir_slots demo_volume (view demo_volume d') = slot # replicate 15 (replicate 32 0)"
    using d'(2) by (simp add: clean_ok(3) numeral_eq_Suc)
  moreover note new_slot_facts [OF demo_names(1,3), of 2 3, folded slot_def]
  moreover have "chain_of demo_volume (view demo_volume d) e [2]" using o(4,5) e by (simp add: chain_of_def intact_def)
  ultimately show ?thesis using o(2-4) by blast
qed

theorem create_keeps_other_files_witness:
  "\<exists>d e d'. fat_find demo_volume a_txt d = (Inr e, d) \<and> fat_create demo_volume b_txt [4] d = (Inr (), d') \<and>
     fat_find demo_volume a_txt d' = (Inr e, d') \<and> fst (read_file demo_volume e d') = fst (read_file demo_volume e d)"
proof -
  obtain d e slot where a: "fs_ok demo_volume d" "fat_find demo_volume a_txt d = (Inr e, d)" "intact demo_volume (view demo_volume d) e [2]"
     "links (view demo_volume d) 3 = 0" "in_use slot" "is_file slot" "eq_ignore_ascii_case (decode_name slot) a_txt"
     "dir_slots demo_volume (view demo_volume d) = slot # replicate 15 (replicate 32 0)"
    using with_a_txt by blast
  have no: "\<not> holds_name b_txt slot" "\<not> reusable slot"
    using a(5-7) eq_ignore_simps [OF a(7), of b_txt] demo_names(4)
    by (auto simp: holds_name_def reusable_def in_use_def is_file_def eq_ignore_ascii_case_def)
  have none: "slot_of_name b_txt (slot # replicate 15 (replicate 32 0)) = None"
    using a(5) no(1) empty_directory(1) by (simp add: slot_of_name_Cons)
  have "position reusable (slot # replicate 15 (replicate 32 0)) = Some 1"
    using no(2) by (simp add: reusable_def numeral_eq_Suc)
  then have t: "target_slot b_txt (dir_slots demo_volume (view demo_volume d)) = Some 1" "occupies demo_volume (view demo_volume d) b_txt []"
    unfolding a(8) target_slot_def occupies_def none by simp_all
  have "3 \<in> set (free_from demo_volume (view demo_volume d) 2)"
    using a(4) set_free_from [OF demo_volume_ok(1)] by (simp add: valid_cluster_def demo_volume_def)
  then have "has_room demo_volume (view demo_volume d) [4]"
    unfolding has_room_def needed_def demo_volume_ok(3) by (auto simp: div_ceil_def Suc_le_eq length_pos_if_in_set)
  from create_keeps_other_files [OF a(1) demo_names(2) t this a(2) demo_names(4) a(3)] a(2) show ?thesis by auto
qed

theorem remove_frees_clusters_witness:
  "\<exists>d d' k. fat_remove demo_volume a_txt d = (Inr (), d') \<and> fat_find demo_volume a_txt d' = (Inl ''no such file'', d') \<and>
     count_free demo_volume d = (Inr k, d) \<and> count_free demo_volume d' = (Inr (k + 1), d')"
proof -
  obtain d e slot where a: "fs_ok demo_volume d" "fat_find demo_volume a_txt d = (Inr e, d)" "chain_of demo_volume (view demo_volume d) e [2]"
     "in_use slot" "is_file slot" "eq_ignore_ascii_case (decode_name slot) a_txt"
     "dir_slots demo_volume (view demo_volume d) = slot # replicate 15 (replicate 32 0)"
    using with_a_txt by blast
  have z: "\<not> holds_name a_txt (replicate 32 0)" by code_simp
  have "slot_of_name a_txt (dir_slots demo_volume (view demo_volume d)) = Some 0"
    using a(4-7) by (simp add: slot_of_name_Cons holds_name_def)
  then have "\<forall>m < length (dir_slots demo_volume (view demo_volume d)). holds_name a_txt (dir_slots demo_volume (view demo_volume d) ! m) \<longrightarrow>
      slot_of_name a_txt (dir_slots demo_volume (view demo_volume d)) = Some m"
    using z unfolding a(7) by (auto simp: nth_Cons split: nat.splits)
  from remove_frees_clusters [OF a(1-3) this] show ?thesis by auto
qed

theorem create_full_leaks_clusters_witness:
  "\<exists>d'. fat_create demo_volume a_txt (replicate 2092032 7) clean_disk = (Inl ''the volume is full'', d') \<and> count_free demo_volume d' = (Inr 0, d')"
proof (rule create_full_leaks_clusters [OF clean_ok(1) demo_names(1) clean_target(1)])
  show "length (free_from demo_volume (view demo_volume clean_disk) 2) < needed demo_volume (replicate 2092032 7)"
    unfolding clean_room(2) needed_def demo_volume_ok(3) by (simp add: div_ceil_def)
qed simp

definition demo_boot :: "u8 list" where
  "demo_boot = (replicate 512 0)[12 := 2, 13 := 1, 14 := 1, 16 := 2, 17 := 16, 19 := 0x17, 20 := 0x10, 22 := 16, 510 := 0x55, 511 := 0xAA]"

definition demo_disk :: Disk where
  "demo_disk = \<lparr> disk_drive = \<lparr> sectors = (\<lambda>s. if s = 0 then bytes_to_words demo_boot else replicate 256 0), drive_error = (\<lambda>_. None) \<rparr>,
     disk_flush = None \<rparr>"

lemma demo_boot_parsed: "parse_boot_sector demo_boot = Inr demo_volume"
  by code_simp

theorem mount_layout_witness:
  "mount True demo_disk = (Inr demo_volume, demo_disk) \<and> volume_layout demo_volume"
proof -
  have len: "length demo_boot = 512" by (simp add: demo_boot_def)
  have h: "healthy demo_disk"
    using len length_bytes_to_words [of demo_boot] by (simp add: healthy_def demo_disk_def)
  have "sector_bytes demo_disk 0 = demo_boot" using len by (simp add: sector_bytes_def demo_disk_def words_bytes_words)
  then have m: "mount True demo_disk = (Inr demo_volume, demo_disk)"
    using io_read_sector [OF h, of 0] by (simp add: mount_def io_bind_Inr io_return_def demo_boot_parsed)
  then show ?thesis using mount_layout [OF m] by blast
qed

text \<open>
  \<open>mount\<close> accepts a table that is too short: one sector of links for 4085 clusters, so that the links of most
  clusters lie in the next table, the root directory and the data.
\<close>

lemma mount_accepts_short_table:
  "case parse_boot_sector (demo_boot[19 := 0xF9, 20 := 0x0F, 22 := 1]) of
     Inr v \<Rightarrow> unat (sectors_per_fat v) * 256 < unat (clusters v) + 2 | Inl e \<Rightarrow> False"
  by code_simp

text \<open>A name that ends in a dot does not come back: it is stored without the dot.\<close>

lemma trailing_dot_lost:
  "split_name [0x61, 0x2E] = ([0x61], []) \<and> decode_name (new_slot [0x61] [] 2 3) = [0x41]"
  by code_simp

end
