(* ===== verification/Mkfs.thy ===== *)
theory Mkfs
  imports Fat_Files Swap
begin

text \<open>
  \<open>mkfs/src/main.rs\<close>: the program that builds the disk image. The image is the list of its bytes; an
  assertion that fails is \<open>None\<close>. The files are arguments: reading them and writing the image out is
  the host's business. The theorem is that the kernel's \<open>fat.rs\<close> reads back what was put in.
\<close>

abbreviation (input) SECTORS_PER_CLUSTER :: nat where "SECTORS_PER_CLUSTER \<equiv> 4"
abbreviation (input) FAT_COUNT :: nat where "FAT_COUNT \<equiv> 2"
abbreviation (input) ROOT_ENTRIES :: nat where "ROOT_ENTRIES \<equiv> 512"
abbreviation (input) TOTAL_SECTORS :: nat where "TOTAL_SECTORS \<equiv> 32768"
abbreviation (input) SWAP_SECTORS :: nat where "SWAP_SECTORS \<equiv> 16384"
abbreviation (input) SECTORS_PER_FAT :: nat where "SECTORS_PER_FAT \<equiv> 32"
abbreviation (input) FAT_START :: nat where "FAT_START \<equiv> 1"
abbreviation (input) ROOT_START :: nat where "ROOT_START \<equiv> 65"
abbreviation (input) DATA_START :: nat where "DATA_START \<equiv> 97"

record File =
  file_name :: "u8 list"
  file_data :: "u8 list"

record Build =
  b_image :: "u8 list"
  b_fat :: "u16 list"
  b_next :: nat
  b_directory :: "u8 list"

definition write_boot_sector :: "u8 list \<Rightarrow> u8 list" where
  "write_boot_sector img =
     (let img = patch 0 [0xEB, 0x3C, 0x90] img;
          img = patch 3 [0x35, 0x41, 0x4D, 0x4F, 0x53, 0x31, 0x2E, 0x30] img;
          img = patch 11 (u16_bytes 512) img;
          img = img[13 := 4];
          img = patch 14 (u16_bytes 1) img;
          img = img[16 := 2];
          img = patch 17 (u16_bytes 512) img;
          img = patch 19 (u16_bytes 32768) img;
          img = img[21 := 0xF8];
          img = patch 22 (u16_bytes 32) img;
          img = patch 24 (u16_bytes 32) img;
          img = patch 26 (u16_bytes 8) img;
          img = patch 28 (u32_bytes 0) img;
          img = patch 32 (u32_bytes 0) img;
          img = img[36 := 0x80];
          img = img[38 := 0x29];
          img = patch 39 (u32_bytes 0x5A4D05A1) img;
          img = patch 43 [0x35, 0x41, 0x4D, 0x4F, 0x53, 32, 32, 32, 32, 32, 32] img;
          img = patch 54 [0x46, 0x41, 0x54, 0x31, 0x36, 32, 32, 32] img;
          img = img[510 := 0x55]
      in img[511 := 0xAA])"

definition write_directory_entry :: "u8 list \<Rightarrow> u8 list \<Rightarrow> u16 \<Rightarrow> u32 \<Rightarrow> u8 list option" where
  "write_directory_entry slot name cluster sz =
     (let (stem, extension) = (case rsplit_dot name of Some (s, e) \<Rightarrow> (s, e) | None \<Rightarrow> (name, []))
      in if length stem > 8 \<or> length extension > 3 then None
         else let slot = patch 0 (replicate 11 32) slot;
                  slot = patch 0 (map to_ascii_uppercase stem) slot;
                  slot = patch 8 (map to_ascii_uppercase extension) slot;
                  slot = slot[11 := 0x20];
                  slot = patch 26 (u16_bytes cluster) slot
              in Some (patch 28 (u32_bytes sz) slot))"

text \<open>The clusters of the volume, and of one file.\<close>

definition mk_clusters :: nat where
  "mk_clusters = (TOTAL_SECTORS - DATA_START) div SECTORS_PER_CLUSTER"

definition mk_needed :: "File \<Rightarrow> nat" where
  "mk_needed f = max (div_ceil (length (file_data f)) (SECTORS_PER_CLUSTER * SECTOR_SIZE)) 1"

definition chain_entries :: "nat \<Rightarrow> nat \<Rightarrow> u16 list \<Rightarrow> u16 list" where
  "chain_entries first n fat =
     fold (\<lambda>offset fat. fat[first + offset := (if offset + 1 = n then 0xFFFF else word_of_nat (first + offset + 1))]) [0..<n] fat"

definition build_file :: "nat \<Rightarrow> File \<Rightarrow> Build \<Rightarrow> Build option" where
  "build_file index f b =
     (if \<not> index < ROOT_ENTRIES then None
      else let n = mk_needed f; first = b_next b
      in if \<not> first + n < mk_clusters + 2 then None
      else let start = DATA_START * SECTOR_SIZE + (first - 2) * SECTORS_PER_CLUSTER * SECTOR_SIZE
      in case write_directory_entry (take 32 (drop (index * 32) (b_directory b))) (file_name f) (word_of_nat first)
                (word_of_nat (length (file_data f))) of
           None \<Rightarrow> None
         | Some slot \<Rightarrow> Some \<lparr> b_image = patch start (file_data f) (b_image b), b_fat = chain_entries first n (b_fat b),
                              b_next = first + n, b_directory = patch (index * 32) slot (b_directory b) \<rparr>)"

fun build_files :: "nat \<Rightarrow> File list \<Rightarrow> Build \<Rightarrow> Build option" where
  "build_files index [] b = Some b"
| "build_files index (f # fs) b = (case build_file index f b of None \<Rightarrow> None | Some b \<Rightarrow> build_files (index + 1) fs b)"

definition write_fat :: "u16 list \<Rightarrow> nat \<Rightarrow> u8 list \<Rightarrow> u8 list" where
  "write_fat fat copy img =
     fold (\<lambda>index img. patch ((FAT_START + copy * SECTORS_PER_FAT) * SECTOR_SIZE + index * 2) (u16_bytes (fat ! index)) img)
       [0..<length fat] img"

definition build :: "File list \<Rightarrow> u8 list option" where
  "build fs =
     (if \<not> (4085 \<le> mk_clusters \<and> mk_clusters < 65525) then None
      else let img = write_boot_sector (replicate ((TOTAL_SECTORS + SWAP_SECTORS) * SECTOR_SIZE) 0);
               fat = (replicate (SECTORS_PER_FAT * SECTOR_SIZE div 2) 0)[0 := 0xFFF8, 1 := 0xFFFF]
      in case build_files 0 fs \<lparr> b_image = img, b_fat = fat, b_next = 2, b_directory = replicate (ROOT_ENTRIES * 32) 0 \<rparr> of
           None \<Rightarrow> None
         | Some b \<Rightarrow> Some (patch (ROOT_START * SECTOR_SIZE) (b_directory b)
                             (fold (write_fat (b_fat b)) [0..<FAT_COUNT] (b_image b))))"

section \<open>Slices of the image\<close>

lemma slice_patch_out:
  assumes "at + length b \<le> length x" "a + n \<le> at \<or> at + length b \<le> a"
  shows "take n (drop a (patch at b x)) = take n (drop a x)"
proof (rule nth_equalityI)
  show "length (take n (drop a (patch at b x))) = length (take n (drop a x))" using assms(1) by simp
  fix i
  assume i: "i < length (take n (drop a (patch at b x)))"
  then have "a + i < length x" "i < n" using assms(1) by auto
  then show "take n (drop a (patch at b x)) ! i = take n (drop a x) ! i"
    using nth_patch [OF assms(1), of "a + i"] assms by auto
qed

lemma slice_patch_in:
  assumes "at + length b \<le> length x" "at \<le> a" "a + n \<le> at + length b"
  shows "take n (drop a (patch at b x)) = take n (drop (a - at) b)"
proof (rule nth_equalityI)
  show "length (take n (drop a (patch at b x))) = length (take n (drop (a - at) b))" using assms by simp
  fix i
  assume i: "i < length (take n (drop a (patch at b x)))"
  then have "a + i < length x" "i < n" using assms(1) by auto
  then show "take n (drop a (patch at b x)) ! i = take n (drop (a - at) b) ! i"
    using nth_patch [OF assms(1), of "a + i"] assms by auto
qed

text \<open>An edit of the first sector.\<close>

definition boot_edit :: "(u8 list \<Rightarrow> u8 list) \<Rightarrow> bool" where
  "boot_edit g \<longleftrightarrow> (\<forall>x. 512 \<le> length x \<longrightarrow> length (g x) = length x \<and> take 512 (g x) = g (take 512 x) \<and> drop 512 (g x) = drop 512 x)"

lemma boot_edit_id: "boot_edit (\<lambda>x. x)"
  by (simp add: boot_edit_def)

lemma boot_edit_update: "i < 512 \<Longrightarrow> boot_edit g \<Longrightarrow> boot_edit (\<lambda>x. (g x)[i := b])"
  by (simp add: boot_edit_def take_update_swap drop_update_cancel)

lemma boot_edit_patch:
  assumes "at + length b \<le> 512" "at < 512" "boot_edit g"
  shows "boot_edit (\<lambda>x. patch at b (g x))"
proof -
  have "take 512 (patch at b y) = patch at b (take 512 y)" "drop 512 (patch at b y) = drop 512 y" if "512 \<le> length y" for y
    using assms(1,2) that by (auto simp: patch_def min_def drop_take)
  then show ?thesis using assms by (auto simp: boot_edit_def)
qed

lemma boot_edit_boot_sector: "boot_edit write_boot_sector"
  unfolding write_boot_sector_def Let_def
  by (intro boot_edit_patch boot_edit_update boot_edit_id) (simp_all add: u16_bytes_def u32_bytes_def)

lemma write_boot_sector_facts:
  assumes "512 \<le> length x"
  shows "length (write_boot_sector x) = length x" "take 512 (write_boot_sector x) = write_boot_sector (take 512 x)"
    "drop 512 (write_boot_sector x) = drop 512 x"
  using boot_edit_boot_sector assms by (simp_all add: boot_edit_def)

section \<open>The disk that holds an image\<close>

definition disk_of :: "u8 list \<Rightarrow> Disk" where
  "disk_of img = \<lparr> disk_drive = \<lparr> sectors = (\<lambda>s. if (s + 1) * SECTOR_SIZE \<le> length img
        then bytes_to_words (take SECTOR_SIZE (drop (s * SECTOR_SIZE) img)) else replicate 256 0), drive_error = (\<lambda>_. None) \<rparr>,
     disk_flush = None \<rparr>"

lemma healthy_disk_of: "healthy (disk_of img)"
proof -
  have "length (bytes_to_words (take 512 (drop (s * 512) img))) = 256" if "(s + 1) * 512 \<le> length img" for s
    using that length_bytes_to_words [of "take 512 (drop (s * 512) img)"] by simp
  then show ?thesis by (simp add: healthy_def disk_of_def)
qed

lemma sector_disk_of: "(s + 1) * 512 \<le> length img \<Longrightarrow> sector_bytes (disk_of img) s = take 512 (drop (s * 512) img)"
  by (simp add: sector_bytes_def disk_of_def words_bytes_words)

lemma run_disk_of:
  assumes "(s + n) * 512 \<le> length img"
  shows "sector_run (disk_of img) s n = take (n * 512) (drop (s * 512) img)"
proof (rule sector_run_written)
  show "length (take (n * 512) (drop (s * 512) img)) = n * 512" using assms by (simp add: distrib_right)
  fix t
  assume t: "s \<le> t" "t < s + n"
  then have "(t + 1) * 512 \<le> (s + n) * 512" by (intro mult_le_mono1) simp
  then have "sector_bytes (disk_of img) t = take 512 (drop (t * 512) img)" using assms by (intro sector_disk_of) linarith
  moreover have "(t - s) * 512 + 512 \<le> n * 512" "(t - s) * 512 + s * 512 = t * 512" using t by (simp_all add: diff_mult_distrib)
  ultimately show "sector_bytes (disk_of img) t = take 512 (drop ((t - s) * 512) (take (n * 512) (drop (s * 512) img)))"
    by (simp add: drop_take min_def)
qed

definition mk_volume :: Volume where
  "mk_volume = \<lparr> bytes_per_sector = 512, fat_count = 2, sectors_per_cluster = 4, fat_start = 1, sectors_per_fat = 32,
     root_start = 65, root_entries = 512, data_start = 97, clusters = 8167 \<rparr>"

lemma mk_volume_facts:
  "volume_ok mk_volume" "root_sectors mk_volume = 32" "cluster_bytes mk_volume = 2048" "mk_clusters = 8167"
  "parse_boot_sector (write_boot_sector (replicate 512 0)) = Inr mk_volume"
proof -
  show "parse_boot_sector (write_boot_sector (replicate 512 0)) = Inr mk_volume" by code_simp
qed (simp_all add: volume_ok_def volume_layout_def mk_volume_def root_sectors_def u32_div_ceil_def div_ceil_def cluster_bytes_def mk_clusters_def)

section \<open>The table and the directory\<close>

lemma fold_update_nth:
  "length (fold (\<lambda>k fat. fat[first + k := x k]) [0..<m] fat) = length fat"
  "c < length fat \<Longrightarrow> fold (\<lambda>k fat. fat[first + k := x k]) [0..<m] fat ! c = (if first \<le> c \<and> c < first + m then x (c - first) else fat ! c)"
proof -
  show l: "length (fold (\<lambda>k fat. fat[first + k := x k]) [0..<m] fat) = length fat" for m by (induction m) simp_all
  show "fold (\<lambda>k fat. fat[first + k := x k]) [0..<m] fat ! c = (if first \<le> c \<and> c < first + m then x (c - first) else fat ! c)"
    if "c < length fat"
  proof (induction m)
    case (Suc m)
    then show ?case using that by (cases "c = first + m") (auto simp: l)
  qed auto
qed

lemma chain_entries_nth:
  assumes "c < length fat"
  shows "chain_entries first n fat ! c = (if first \<le> c \<and> c < first + n then if c + 1 = first + n then 0xFFFF else word_of_nat (c + 1) else fat ! c)"
  using fold_update_nth(2) [OF assms, of first "\<lambda>k. if k + 1 = n then 0xFFFF else word_of_nat (first + k + 1)" n]
  by (auto simp: chain_entries_def)

lemma length_chain_entries: "length (chain_entries first n fat) = length fat"
  unfolding chain_entries_def by (rule fold_update_nth(1))

lemma fold_patch:
  assumes "base + 2 * m \<le> length img" "m \<le> length fat"
  shows "fold (\<lambda>k img. patch (base + k * 2) (u16_bytes (fat ! k)) img) [0..<m] img = patch base (concat (map u16_bytes (take m fat))) img"
  using assms
proof (induction m)
  case (Suc m)
  have len: "length (concat (map u16_bytes (take m fat))) = m * 2"
    using Suc.prems(2) by (simp add: length_concat o_def u16_bytes_def sum_list_triv)
  have "take (Suc m) fat = take m fat @ [fat ! m]" using Suc.prems(2) by (simp add: take_Suc_conv_app_nth)
  moreover have "patch (base + m * 2) (u16_bytes w) (patch base p img) = patch base (p @ u16_bytes w) img" if "length p = m * 2" for p w
    using that Suc.prems(1) by (simp add: patch_def u16_bytes_def drop_take)
  ultimately show ?case using Suc len by simp
qed (simp add: patch_def)

lemma write_fat_patch:
  assumes "length fat = 8192" "copy < 2" "97 * 512 \<le> length img"
  shows "write_fat fat copy img = patch ((1 + copy * 32) * 512) (concat (map u16_bytes fat)) img"
proof -
  have "(1 + copy * 32) * 512 + 2 * length fat \<le> length img" using assms by simp
  from fold_patch [OF this order_refl] show ?thesis by (simp add: write_fat_def)
qed

lemma directory_entry_zero:
  assumes "split_name name = (stem, extension)" "length stem \<le> 8" "length extension \<le> 3"
  shows "write_directory_entry (replicate 32 0) name cluster sz = Some (new_slot stem extension cluster sz)"
proof -
  have "patch 0 (replicate 11 32) (replicate 32 0) = replicate 11 32 @ replicate 21 (0 :: u8)"
    by (simp add: patch_def)
  then show ?thesis using assms by (simp add: write_directory_entry_def new_slot_def split_name_def Let_def)
qed

section \<open>What the loop over the files builds\<close>

definition first_of :: "File list \<Rightarrow> nat \<Rightarrow> nat" where
  "first_of fs i = 2 + sum_list (map mk_needed (take i fs))"

definition data_at :: "nat \<Rightarrow> nat" where
  "data_at c = 97 * 512 + (c - 2) * 2048"

definition entry_slot :: "File \<Rightarrow> nat \<Rightarrow> u8 list" where
  "entry_slot f first = new_slot (fst (split_name (file_name f))) (snd (split_name (file_name f))) (word_of_nat first)
     (word_of_nat (length (file_data f)))"

definition file_built :: "Build \<Rightarrow> nat \<Rightarrow> File \<Rightarrow> nat \<Rightarrow> bool" where
  "file_built b i f a \<longleftrightarrow>
     (\<forall>c. a \<le> c \<and> c < a + mk_needed f \<longrightarrow> b_fat b ! c = (if c + 1 = a + mk_needed f then 0xFFFF else word_of_nat (c + 1))) \<and>
     take (length (file_data f)) (drop (data_at a) (b_image b)) = file_data f \<and>
     take 32 (drop (i * 32) (b_directory b)) = entry_slot f a"

definition blank_image :: "u8 list" where
  "blank_image = write_boot_sector (replicate (49152 * 512) 0)"

definition built :: "File list \<Rightarrow> Build \<Rightarrow> bool" where
  "built fs b \<longleftrightarrow> length fs \<le> 512 \<and> length (b_image b) = 49152 * 512 \<and> length (b_fat b) = 8192 \<and> length (b_directory b) = 512 * 32 \<and>
     b_next b = first_of fs (length fs) \<and> b_next b < 8169 \<and>
     take (97 * 512) (b_image b) = take (97 * 512) blank_image \<and>
     (\<forall>i < length fs. file_built b i (fs ! i) (first_of fs i)) \<and>
     (\<forall>i. length fs \<le> i \<and> i < 512 \<longrightarrow> take 32 (drop (i * 32) (b_directory b)) = replicate 32 0)"

lemma first_of_Suc: "i < length fs \<Longrightarrow> first_of fs (Suc i) = first_of fs i + mk_needed (fs ! i)"
  by (simp add: first_of_def take_Suc_conv_app_nth)

lemma first_of_mono: "i \<le> j \<Longrightarrow> first_of fs i \<le> first_of fs j"
  unfolding first_of_def by (metis add_le_cancel_left le_iff_add map_append sum_list_append take_add le_add1)

lemma first_of_append: "i \<le> length fs \<Longrightarrow> first_of (fs @ gs) i = first_of fs i"
  by (simp add: first_of_def)

lemma mk_needed_covers: "length (file_data f) \<le> mk_needed f * 2048" "0 < mk_needed f"
proof -
  have "length (file_data f) \<le> div_ceil (length (file_data f)) 2048 * 2048" by (rule div_ceil_covers) simp
  then show "length (file_data f) \<le> mk_needed f * 2048"
    unfolding mk_needed_def by (metis (no_types, lifting) le_trans max.cobounded1 mult_le_mono1 numeral_times_numeral semiring_norm(11,12,13))
  show "0 < mk_needed f" by (simp add: mk_needed_def)
qed

lemma data_at_add: "2 \<le> a \<Longrightarrow> data_at (a + n) = data_at a + n * 2048"
  by (simp add: data_at_def add_mult_distrib [symmetric])

lemma first_of_ge: "2 \<le> first_of fs i"
  by (simp add: first_of_def)

lemma build_file_built:
  assumes "built fs b" "build_file (length fs) f b = Some b'" "name_ok (file_name f)"
  shows "built (fs @ [f]) b'"
proof -
  let ?a = "b_next b" and ?n = "mk_needed f" and ?k = "length fs"
  have lim: "?k < 512" "?a + ?n < 8169" using assms(2) by (auto simp: build_file_def mk_volume_facts(4) Let_def split: if_splits)
  obtain stem extension where se: "split_name (file_name f) = (stem, extension)" by fastforce
  have ok: "length stem \<le> 8" "length extension \<le> 3" using assms(3) se by (simp_all add: name_ok_def)
  have "take 32 (drop (?k * 32) (b_directory b)) = replicate 32 0" using assms(1) lim(1) by (simp add: built_def)
  then have "write_directory_entry (take 32 (drop (?k * 32) (b_directory b))) (file_name f) (word_of_nat ?a) (word_of_nat (length (file_data f))) = Some (entry_slot f ?a)"
    using directory_entry_zero [OF se ok] by (simp add: entry_slot_def se)
  then have b': "b' = \<lparr> b_image = patch (data_at ?a) (file_data f) (b_image b), b_fat = chain_entries ?a ?n (b_fat b),
      b_next = ?a + ?n, b_directory = patch (?k * 32) (entry_slot f ?a) (b_directory b) \<rparr>"
    using assms(2) lim by (simp add: build_file_def mk_volume_facts(4) Let_def data_at_def mult.assoc)
  have len: "length (b_image b) = 49152 * 512" "length (b_fat b) = 8192" "length (b_directory b) = 512 * 32" "?a = first_of fs ?k"
    using assms(1) by (simp_all add: built_def)
  have slot: "length (entry_slot f ?a) = 32" unfolding entry_slot_def se fst_conv snd_conv by (rule new_slot_facts(1) [OF assms(3) se])
  have a2: "2 \<le> ?a" using len(4) first_of_ge by simp
  have fits: "data_at ?a + length (file_data f) \<le> length (b_image b)"
    using mk_needed_covers(1) [of f] lim(2) a2 len(1) by (simp add: data_at_def)
  have old: "file_built b' i (fs ! i) (first_of fs i)" if i: "i < ?k" for i
  proof -
    let ?f = "fs ! i" and ?c = "first_of fs i"
    have le: "?c + mk_needed ?f \<le> ?a" using first_of_Suc [OF i] first_of_mono [of "Suc i" ?k fs] i len(4) by simp
    have fb: "file_built b i ?f ?c" using assms(1) i by (simp add: built_def)
    have "data_at (?c + mk_needed ?f) \<le> data_at ?a" using le by (simp add: data_at_def)
    then have d: "data_at ?c + length (file_data ?f) \<le> data_at ?a"
      using mk_needed_covers(1) [of ?f] data_at_add [OF first_of_ge, of fs i "mk_needed ?f"] by linarith
    have "chain_entries ?a ?n (b_fat b) ! c = b_fat b ! c" if "c < ?a" for c
      using that lim(2) len(2) by (subst chain_entries_nth) auto
    moreover have "take (length (file_data ?f)) (drop (data_at ?c) (b_image b')) = take (length (file_data ?f)) (drop (data_at ?c) (b_image b))"
      using slice_patch_out [OF fits] d by (simp add: b')
    moreover have "take 32 (drop (i * 32) (b_directory b')) = take 32 (drop (i * 32) (b_directory b))"
      using slice_patch_out [of "?k * 32" "entry_slot f ?a" "b_directory b" "i * 32" 32] slot len(3) lim(1) i by (simp add: b')
    ultimately show ?thesis using fb le by (auto simp: file_built_def b')
  qed
  have new: "file_built b' ?k f ?a"
    unfolding file_built_def
  proof (intro conjI allI impI)
    show "b_fat b' ! c = (if c + 1 = ?a + ?n then 0xFFFF else word_of_nat (c + 1))" if "?a \<le> c \<and> c < ?a + ?n" for c
      using that lim(2) len(2) by (simp add: b' chain_entries_nth)
    show "take (length (file_data f)) (drop (data_at ?a) (b_image b')) = file_data f"
      using slice_patch_in [OF fits order_refl order_refl] by (simp add: b')
    show "take 32 (drop (?k * 32) (b_directory b')) = entry_slot f ?a"
      using slice_patch_in [of "?k * 32" "entry_slot f ?a" "b_directory b" "?k * 32" 32] slot len(3) lim(1) by (simp add: b')
  qed
  have zero: "take 32 (drop (i * 32) (b_directory b')) = replicate 32 0" if "Suc ?k \<le> i" "i < 512" for i
    using slice_patch_out [of "?k * 32" "entry_slot f ?a" "b_directory b" "i * 32" 32] slot len(3) lim(1) that assms(1)
    by (simp add: b' built_def)
  have "take (97 * 512) (b_image b') = take (97 * 512) (b_image b)"
    using slice_patch_out [OF fits, of 0 "97 * 512"] by (simp add: b' data_at_def)
  then have head: "take (97 * 512) (b_image b') = take (97 * 512) blank_image" using assms(1) by (simp add: built_def)
  have "file_built b' i ((fs @ [f]) ! i) (first_of (fs @ [f]) i)" if "i < Suc ?k" for i
    using old new that len(4) by (cases "i = ?k") (simp_all add: nth_append first_of_append)
  moreover have "b_next b' = first_of (fs @ [f]) (Suc ?k)" by (simp add: b' len(4) first_of_def)
  ultimately show ?thesis
    using head zero lim len slot fits by (simp add: built_def b' length_chain_entries)
qed

lemma build_files_built:
  "build_files (length gs) fs b = Some b' \<Longrightarrow> built gs b \<Longrightarrow> \<forall>f \<in> set fs. name_ok (file_name f) \<Longrightarrow> built (gs @ fs) b'"
proof (induction fs arbitrary: gs b)
  case (Cons f fs)
  then obtain b1 where b1: "build_file (length gs) f b = Some b1" "build_files (length (gs @ [f])) fs b1 = Some b'"
    by (auto split: option.splits)
  then show ?case using Cons.IH [OF b1(2) build_file_built [OF Cons.prems(2) b1(1)]] Cons.prems(3) by simp
qed simp

section \<open>What the kernel reads\<close>

lemma concat_slices: "concat (map (\<lambda>k. take B (drop (x + k * B) img)) [0..<n]) = take (n * B) (drop x img)"
proof (induction n)
  case (Suc n)
  have "take (n * B + B) (drop x img) = take (n * B) (drop x img) @ take B (drop (n * B) (drop x img))"
    by (rule take_add)
  then show ?case using Suc by (simp add: add.commute)
qed simp

lemma read_table:
  assumes "length fat = 8192" "q < 32" "r < 256"
  shows "read_u16 (take 512 (drop (q * 512) (concat (map u16_bytes fat)))) (2 * r) = fat ! (q * 256 + r)"
proof -
  let ?f = "\<lambda>j. u16_bytes (fat ! j)"
  define j where "j = q * 256 + r"
  have j: "j < 8192" using assms(2,3) by (simp add: j_def)
  define T where "T = concat (map ?f [0..<8192])"
  have "map u16_bytes fat = map ?f [0..<8192]"
    by (rule nth_equalityI) (simp_all add: assms(1) del: upt_rec_numeral)
  then have m: "concat (map u16_bytes fat) = T" by (simp add: T_def)
  have t: "length T = 8192 * 2" "\<forall>n < 8192 * 2. T ! n = ?f (n div 2) ! (n mod 2)"
    using concat_blocks [of 8192 ?f 2] by (simp_all add: T_def u16_bytes_def del: upt_rec_numeral)
  have "(2 * j + 1) div 2 = j" "(2 * j + 1) mod 2 = 1" by presburger+
  then have n: "length T = 16384" "T ! (2 * j) = ?f j ! 0" "T ! (2 * j + 1) = ?f j ! 1"
    using t j t(2) [rule_format, of "2 * j + 1"] by simp_all
  have "take 512 (drop (q * 512) T) ! (2 * r) = T ! (2 * j)" "take 512 (drop (q * 512) T) ! (2 * r + 1) = T ! (2 * j + 1)"
    using n(1) assms(2,3) by (simp_all add: j_def algebra_simps)
  then show ?thesis
    unfolding read_u16_def m j_def [symmetric] using n(2,3) u16_round_trip [of "fat ! j"] by (simp add: u16_bytes_def)
qed

definition final_image :: "Build \<Rightarrow> u8 list" where
  "final_image b = patch (65 * 512) (b_directory b) (patch (33 * 512) (concat (map u16_bytes (b_fat b)))
     (patch (1 * 512) (concat (map u16_bytes (b_fat b))) (b_image b)))"

lemma length_table: "length (b_fat b) = 8192 \<Longrightarrow> length (concat (map u16_bytes (b_fat b))) = 32 * 512"
  by (simp add: length_concat o_def u16_bytes_def sum_list_triv)

lemma built_start:
  "built [] \<lparr> b_image = blank_image, b_fat = (replicate 8192 0)[0 := 0xFFF8, 1 := 0xFFFF], b_next = 2, b_directory = replicate (512 * 32) 0 \<rparr>"
proof -
  have "length blank_image = 49152 * 512" by (simp add: blank_image_def write_boot_sector_facts)
  then show ?thesis by (simp add: built_def first_of_def)
qed

lemma build_final:
  assumes "build fs = Some img" "\<forall>f \<in> set fs. name_ok (file_name f)"
  shows "\<exists>b. built fs b \<and> img = final_image b"
proof -
  define b0 where "b0 = \<lparr> b_image = blank_image, b_fat = (replicate 8192 0)[0 := 0xFFF8, 1 := 0xFFFF], b_next = 2, b_directory = replicate (512 * 32) (0 :: u8) \<rparr>"
  have "built [] b0" unfolding b0_def by (rule built_start)
  moreover obtain b where b: "build_files 0 fs b0 = Some b" "img = patch (65 * 512) (b_directory b) (fold (write_fat (b_fat b)) [0..<2] (b_image b))"
    using assms(1) by (auto simp: build_def b0_def blank_image_def Let_def split: if_splits option.splits)
  ultimately have bt: "built fs b" using build_files_built [of "[]" fs b0 b] assms(2) by simp
  then have l: "length (b_fat b) = 8192" "length (b_image b) = 49152 * 512" by (simp_all add: built_def)
  have "fold (write_fat (b_fat b)) [0..<2] (b_image b) = write_fat (b_fat b) 1 (write_fat (b_fat b) 0 (b_image b))"
    by (simp add: numeral_2_eq_2)
  also have "\<dots> = patch (33 * 512) (concat (map u16_bytes (b_fat b))) (patch (1 * 512) (concat (map u16_bytes (b_fat b))) (b_image b))"
    using l length_table [OF l(1)] write_fat_patch [OF l(1), of 0 "b_image b"]
      write_fat_patch [OF l(1), of 1 "patch 512 (concat (map u16_bytes (b_fat b))) (b_image b)"] by simp
  finally show ?thesis using bt b(2) by (auto simp: final_image_def)
qed

lemma image_slices:
  assumes "built fs b"
  shows "length (final_image b) = 49152 * 512"
    "a + n \<le> 512 \<Longrightarrow> take n (drop a (final_image b)) = take n (drop a (b_image b))"
    "97 * 512 \<le> a \<Longrightarrow> take n (drop a (final_image b)) = take n (drop a (b_image b))"
    "copy < 2 \<Longrightarrow> a + n \<le> 32 * 512 \<Longrightarrow> take n (drop ((1 + copy * 32) * 512 + a) (final_image b)) = take n (drop a (concat (map u16_bytes (b_fat b))))"
    "a + n \<le> 32 * 512 \<Longrightarrow> take n (drop (65 * 512 + a) (final_image b)) = take n (drop a (b_directory b))"
proof -
  let ?T = "concat (map u16_bytes (b_fat b))" and ?I = "b_image b" and ?D = "b_directory b"
  have l: "length ?I = 49152 * 512" "length ?T = 32 * 512" "length ?D = 32 * 512" "length (patch (1 * 512) ?T ?I) = 49152 * 512"
    "length (patch (33 * 512) ?T (patch (1 * 512) ?T ?I)) = 49152 * 512"
  proof -
    have f: "length ?I = 49152 * 512" "length ?D = 512 * 32" "length (b_fat b) = 8192" using assms by (simp_all add: built_def)
    note t = length_table [OF f(3)]
    show "length ?I = 49152 * 512" "length ?T = 32 * 512" "length ?D = 32 * 512" "length (patch (1 * 512) ?T ?I) = 49152 * 512"
      "length (patch (33 * 512) ?T (patch (1 * 512) ?T ?I)) = 49152 * 512" using f t by simp_all
  qed
  show "length (final_image b) = 49152 * 512" using l by (simp add: final_image_def)
  note out = slice_patch_out [of "65 * 512" ?D "patch (33 * 512) ?T (patch (1 * 512) ?T ?I)" _ n]
    slice_patch_out [of "33 * 512" ?T "patch (1 * 512) ?T ?I" _ n] slice_patch_out [of "1 * 512" ?T ?I _ n]
  show "take n (drop a (final_image b)) = take n (drop a ?I)" if "a + n \<le> 512"
    unfolding final_image_def using l that out(1-3) [of a] by simp
  show "take n (drop a (final_image b)) = take n (drop a ?I)" if "97 * 512 \<le> a"
    unfolding final_image_def using l that out(1-3) [of a] by simp
  show "take n (drop (65 * 512 + a) (final_image b)) = take n (drop a ?D)" if "a + n \<le> 32 * 512"
    unfolding final_image_def
    using slice_patch_in [of "65 * 512" ?D "patch (33 * 512) ?T (patch (1 * 512) ?T ?I)" "65 * 512 + a" n] l that by simp
  show "take n (drop ((1 + copy * 32) * 512 + a) (final_image b)) = take n (drop a ?T)" if "copy < 2" "a + n \<le> 32 * 512"
  proof (cases "copy = 0")
    case True
    then show ?thesis unfolding final_image_def
      using slice_patch_in [of "1 * 512" ?T ?I "1 * 512 + a" n] l that out(1,2) [of "1 * 512 + a"] by simp
  next
    case False
    then have "copy = 1" using that(1) by simp
    then show ?thesis unfolding final_image_def
      using slice_patch_in [of "33 * 512" ?T "patch (1 * 512) ?T ?I" "33 * 512 + a" n] l that out(1) [of "33 * 512 + a"] by simp
  qed
qed

lemma mk_view:
  assumes "built fs b"
  defines "d \<equiv> disk_of (final_image b)"
  shows "fs_ok mk_volume d" "mount True d = (Inr mk_volume, d)"
    "valid_cluster mk_volume c \<Longrightarrow> links (view mk_volume d) c = b_fat b ! unat c"
    "valid_cluster mk_volume c \<Longrightarrow> content (view mk_volume d) c = take 2048 (drop (data_at (unat c)) (b_image b))"
    "length (dir_slots mk_volume (view mk_volume d)) = 512"
    "i < 512 \<Longrightarrow> dir_slots mk_volume (view mk_volume d) ! i = take 32 (drop (i * 32) (b_directory b))"
proof -
  note img = image_slices [OF assms(1)]
  have lenb: "length (b_fat b) = 8192" "length (b_directory b) = 512 * 32" using assms(1) by (simp_all add: built_def)
  have h: "healthy d" by (simp add: d_def healthy_disk_of)
  have v: "unat (fat_count mk_volume) = 2" "unat (fat_start mk_volume) = 1" "unat (sectors_per_fat mk_volume) = 32"
    "unat (data_start mk_volume) = 97" "unat (sectors_per_cluster mk_volume) = 4" "unat (root_start mk_volume) = 65" "unat (clusters mk_volume) = 8167"
    by (simp_all add: mk_volume_def)
  have copy: "fat_copy mk_volume d k c = (if valid_cluster mk_volume c then b_fat b ! unat c else 0)" if k: "k < 2" for k c
  proof (cases "valid_cluster mk_volume c")
    case True
    let ?q = "unat c div 256" and ?r = "unat c mod 256"
    have q: "?q < 32" using True by (simp add: valid_cluster_def v less_mult_imp_div_less)
    have "(fat_sector mk_volume k c + 1) * 512 \<le> length (final_image b)" using q k img(1) by (simp add: fat_sector_def v)
    then have "sector_bytes d (fat_sector mk_volume k c) = take 512 (drop ((1 + k * 32) * 512 + ?q * 512) (final_image b))"
      unfolding d_def by (subst sector_disk_of) (simp_all add: fat_sector_def v algebra_simps)
    also have "\<dots> = take 512 (drop (?q * 512) (concat (map u16_bytes (b_fat b))))" using q k by (intro img(4)) auto
    finally show ?thesis using True read_table [OF lenb(1) q, of ?r] by (simp add: fat_copy_def)
  qed (simp add: fat_copy_def)
  show ok: "fs_ok mk_volume d"
    using h copy mk_volume_facts(1) by (auto simp: fs_ok_def v fun_eq_iff)
  show "links (view mk_volume d) c = b_fat b ! unat c" if "valid_cluster mk_volume c" using copy that by (simp add: view_simps)
  show "content (view mk_volume d) c = take 2048 (drop (data_at (unat c)) (b_image b))" if c: "valid_cluster mk_volume c"
  proof -
    have "unat c - 2 \<le> 8166" using c by (auto simp: valid_cluster_def v)
    then have "(data_sector mk_volume c + 4) * 512 \<le> length (final_image b)" using img(1) by (simp add: data_sector_def v)
    then have "sector_run d (data_sector mk_volume c) 4 = take 2048 (drop (data_sector mk_volume c * 512) (final_image b))"
      unfolding d_def by (subst run_disk_of) simp_all
    moreover have "data_sector mk_volume c * 512 = data_at (unat c)" by (simp add: data_sector_def v data_at_def)
    ultimately show ?thesis using c img(3) [of "data_at (unat c)" 2048] by (simp add: view_simps v data_at_def)
  qed
  show "length (dir_slots mk_volume (view mk_volume d)) = 512" using length_dir_slots [OF ok] by (simp add: mk_volume_facts(2))
  show "dir_slots mk_volume (view mk_volume d) ! i = take 32 (drop (i * 32) (b_directory b))" if i: "i < 512"
  proof -
    let ?s = "i div 16" and ?k = "i mod 16"
    have s: "?s < 32" using i by (simp add: less_mult_imp_div_less)
    have "(65 + ?s + 1) * 512 \<le> length (final_image b)" using s img(1) by simp
    then have "root (view mk_volume d) ?s = take 512 (drop (65 * 512 + ?s * 512) (final_image b))"
      using s sector_disk_of [of "65 + ?s" "final_image b"] by (simp add: view_simps mk_volume_facts(2) v d_def add_mult_distrib)
    also have "\<dots> = take 512 (drop (?s * 512) (b_directory b))" using s by (intro img(5)) simp
    finally have r: "root (view mk_volume d) ?s = take 512 (drop (?s * 512) (b_directory b))" .
    have k: "?k < 16" by simp
    have "length (root (view mk_volume d) ?s) = 16 * 32" using length_root [OF ok] s by (simp add: mk_volume_facts(2))
    from nth_chunks [OF _ this k] have "chunks_exact 32 (root (view mk_volume d) ?s) ! ?k = take 32 (drop (?k * 32) (root (view mk_volume d) ?s))"
      by simp
    moreover have "?k * 32 + 32 \<le> 512" "?k * 32 + ?s * 512 = i * 32" using k div_mult_mod_eq [of i 16] by linarith+
    ultimately show ?thesis
      using nth_dir_slots [OF ok, of i] i r by (simp add: mk_volume_facts(2) drop_take min_def)
  qed
  have "take 512 (final_image b) = take 512 (b_image b)" using img(2) [of 0 512] by simp
  also have "\<dots> = take 512 (take (97 * 512) (b_image b))" by simp
  also have "\<dots> = take 512 (take (97 * 512) blank_image)" using assms(1) by (simp only: built_def)
  also have "\<dots> = write_boot_sector (replicate 512 0)" by (simp add: blank_image_def write_boot_sector_facts)
  finally have "sector_bytes d 0 = write_boot_sector (replicate 512 0)"
    using sector_disk_of [of 0 "final_image b"] img(1) by (simp add: d_def)
  then show "mount True d = (Inr mk_volume, d)"
    using io_read_sector [OF h, of 0] by (simp add: mount_def io_bind_Inr io_return_def mk_volume_facts(5))
qed

definition lower_name :: "File \<Rightarrow> u8 list" where
  "lower_name f = map to_ascii_lowercase (file_name f)"

lemma built_slot:
  assumes "built fs b" "\<forall>f \<in> set fs. name_ok (file_name f)" "i < length fs"
  defines "slot \<equiv> dir_slots mk_volume (view mk_volume (disk_of (final_image b))) ! i"
  shows "in_use slot" "holds_name name slot \<longleftrightarrow> lower_name (fs ! i) = map to_ascii_lowercase name"
    "first_cluster (slot_entry slot) = word_of_nat (first_of fs i)" "entry_size (slot_entry slot) = word_of_nat (length (file_data (fs ! i)))"
proof -
  have i: "i < 512" using assms(1,3) by (simp add: built_def)
  obtain stem extension where se: "split_name (file_name (fs ! i)) = (stem, extension)" by fastforce
  have ok: "name_ok (file_name (fs ! i))" using assms(2,3) by simp
  have "file_built b i (fs ! i) (first_of fs i)" using assms(1,3) by (simp add: built_def)
  then have slot: "slot = new_slot stem extension (word_of_nat (first_of fs i)) (word_of_nat (length (file_data (fs ! i))))"
    using mk_view(6) [OF assms(1) i] by (simp add: slot_def file_built_def entry_slot_def se)
  note n = new_slot_facts [OF ok se, of "word_of_nat (first_of fs i)" "word_of_nat (length (file_data (fs ! i)))", folded slot]
  show "in_use slot" "first_cluster (slot_entry slot) = word_of_nat (first_of fs i)" "entry_size (slot_entry slot) = word_of_nat (length (file_data (fs ! i)))"
    by (rule n)+
  show "holds_name name slot \<longleftrightarrow> lower_name (fs ! i) = map to_ascii_lowercase name"
    using n(3,4) by (simp add: holds_name_def eq_ignore_ascii_case_def lower_name_def)
qed

lemma built_chain:
  assumes "built fs b" "i < length fs"
  defines "a \<equiv> first_of fs i" and "n \<equiv> mk_needed (fs ! i)"
  defines "cs \<equiv> map word_of_nat [a..<a + n] :: u16 list"
  defines "w \<equiv> view mk_volume (disk_of (final_image b))"
  shows "chain_ok mk_volume w cs" "concat (map (content w) cs) = take (n * 2048) (drop (data_at a) (b_image b))" "a + n < 8169"
proof -
  have fb: "file_built b i (fs ! i) a" using assms(1,2) by (simp add: built_def a_def)
  show lim: "a + n < 8169"
    using first_of_Suc [OF assms(2)] first_of_mono [of "Suc i" "length fs" fs] assms(1,2) by (simp add: built_def a_def n_def)
  have a: "2 \<le> a" "0 < n" using first_of_ge mk_needed_covers(2) by (simp_all add: a_def n_def)
  have u: "unat (word_of_nat c :: u16) = c" if "c < a + n" for c using that lim by (intro unat_u16_small) simp
  have valid: "valid_cluster mk_volume (word_of_nat c)" if "a \<le> c" "c < a + n" for c
    using that a lim u by (simp add: valid_cluster_def mk_volume_def)
  have link: "links w (word_of_nat c) = (if c + 1 = a + n then 0xFFFF else word_of_nat (c + 1))" if "a \<le> c" "c < a + n" for c
    using mk_view(3) [OF assms(1) valid [OF that]] fb that u [OF that(2)] by (simp add: w_def file_built_def n_def)
  have "linked (links w) cs"
    unfolding linked_iff_nth cs_def
  proof (intro conjI allI impI)
    show "map word_of_nat [a..<a + n] \<noteq> ([] :: u16 list)" using a(2) by simp
    show "links w (map word_of_nat [a..<a + n] ! k) = map word_of_nat [a..<a + n] ! Suc k" if "Suc k < length (map word_of_nat [a..<a + n] :: u16 list)" for k
      using that link [of "a + k"] by (simp add: add.assoc)
    have "links w (word_of_nat (a + n - 1)) = 0xFFFF" using link [of "a + n - 1"] a by simp
    then show "END_OF_CHAIN \<le> links w (map word_of_nat [a..<a + n] ! (length (map word_of_nat [a..<a + n] :: u16 list) - 1))"
      using a(2) by simp
  qed
  moreover have "distinct cs" unfolding cs_def distinct_map
    using u by (auto intro!: inj_on_inverseI [of _ unat])
  ultimately show "chain_ok mk_volume w cs" using valid by (auto simp: chain_ok_def cs_def)
  have "map (content w) cs = map (\<lambda>k. take 2048 (drop (data_at a + k * 2048) (b_image b))) [0..<n]"
  proof (rule nth_equalityI)
    fix k
    assume "k < length (map (content w) cs)"
    then have k: "k < n" by (simp add: cs_def)
    have "content w (word_of_nat (a + k)) = take 2048 (drop (data_at (a + k)) (b_image b))"
      using mk_view(4) [OF assms(1) valid [of "a + k"]] u [of "a + k"] k by (simp add: w_def)
    then show "map (content w) cs ! k = map (\<lambda>k. take 2048 (drop (data_at a + k * 2048) (b_image b))) [0..<n] ! k"
      using k data_at_add [OF a(1)] by (simp add: cs_def)
  qed (simp add: cs_def)
  then show "concat (map (content w) cs) = take (n * 2048) (drop (data_at a) (b_image b))"
    using concat_slices [of 2048 "data_at a" "b_image b" n] by simp
qed

text \<open>\<open>build\<close> succeeds on any files that fit.\<close>

lemma build_files_succeeds:
  "built gs b \<Longrightarrow> \<forall>f \<in> set fs. name_ok (file_name f) \<Longrightarrow> length gs + length fs \<le> 512 \<Longrightarrow>
   first_of (gs @ fs) (length (gs @ fs)) < 8169 \<Longrightarrow> build_files (length gs) fs b \<noteq> None"
proof (induction fs arbitrary: gs b)
  case (Cons f fs)
  have n: "b_next b = first_of gs (length gs)" using Cons.prems(1) by (simp add: built_def)
  have lim: "length gs < 512" "b_next b + mk_needed f < 8169" using Cons.prems(3,4) n by (simp_all add: first_of_def)
  obtain stem extension where se: "split_name (file_name f) = (stem, extension)" by fastforce
  have "length stem \<le> 8" "length extension \<le> 3" using Cons.prems(2) se by (simp_all add: name_ok_def)
  moreover have "take 32 (drop (length gs * 32) (b_directory b)) = replicate 32 0" using Cons.prems(1) lim(1) by (simp add: built_def)
  ultimately obtain b1 where b1: "build_file (length gs) f b = Some b1"
    using lim directory_entry_zero [OF se] by (simp add: build_file_def mk_volume_facts(4) Let_def)
  have "built (gs @ [f]) b1" using build_file_built [OF Cons.prems(1) b1] Cons.prems(2) by simp
  from Cons.IH [OF this] Cons.prems(2-4) b1 show ?case by simp
qed simp

lemma build_succeeds:
  assumes "\<forall>f \<in> set fs. name_ok (file_name f)" "length fs \<le> 512" "first_of fs (length fs) < 8169"
  shows "build fs \<noteq> None"
proof -
  let ?b = "\<lparr> b_image = blank_image, b_fat = (replicate 8192 0)[0 := 0xFFF8, 1 := 0xFFFF], b_next = 2, b_directory = replicate (512 * 32) (0 :: u8) \<rparr>"
  have "built [] ?b" by (rule built_start)
  from build_files_succeeds [OF this assms(1)] assms(2,3) have "build_files 0 fs ?b \<noteq> None" by simp
  then show ?thesis by (auto simp: build_def blank_image_def mk_volume_facts(4) Let_def)
qed

text \<open>
  C5: The kernel reads what \<open>mkfs\<close> wrote. If \<open>build\<close> makes an image of files with representable names that
  differ in more than case, the kernel mounts a disk with that image, finds every file under its name
  and reads its exact contents.
\<close>

theorem kernel_reads_mkfs_image:
  assumes "build fs = Some img" "\<forall>f \<in> set fs. name_ok (file_name f)" "distinct (map lower_name fs)" "f \<in> set fs"
  shows "\<exists>v e. mount True (disk_of img) = (Inr v, disk_of img) \<and> fs_ok v (disk_of img) \<and>
    fat_find v (file_name f) (disk_of img) = (Inr e, disk_of img) \<and> read_file v e (disk_of img) = (Inr (file_data f), disk_of img)"
proof -
  obtain b where b: "built fs b" "img = final_image b" using build_final [OF assms(1,2)] by blast
  let ?d = "disk_of img" and ?w = "view mk_volume (disk_of img)"
  obtain i where i: "i < length fs" "fs ! i = f" using assms(4) by (auto simp: in_set_conv_nth)
  note mv = mk_view [OF b(1), folded b(2)] and slot = built_slot [OF b(1) assms(2), folded b(2)]
  have "slot_of_name (file_name f) (dir_slots mk_volume ?w) = Some i"
    unfolding slot_of_name_Some
  proof (intro conjI allI impI)
    show "i < length (dir_slots mk_volume ?w)" using i(1) b(1) mv(5) by (simp add: built_def)
    show "in_use (dir_slots mk_volume ?w ! i)" by (rule slot(1) [OF i(1)])
    show "holds_name (file_name f) (dir_slots mk_volume ?w ! i)" using slot(2) [OF i(1)] i(2) by (simp add: lower_name_def)
    fix j
    assume j: "j < i"
    then have "j < length fs" using i(1) by simp
    then show "in_use (dir_slots mk_volume ?w ! j)" by (rule slot(1))
    have "lower_name (fs ! j) \<noteq> lower_name (fs ! i)"
      using assms(3) j i(1) by (simp add: distinct_conv_nth)
    then show "\<not> holds_name (file_name f) (dir_slots mk_volume ?w ! j)"
      using slot(2) [OF \<open>j < length fs\<close>] i(2) by (simp add: lower_name_def)
  qed
  then have find: "fat_find mk_volume (file_name f) ?d = (Inr (slot_entry (dir_slots mk_volume ?w ! i)), ?d)"
    using fat_find_view [OF mv(1)] by simp
  let ?e = "slot_entry (dir_slots mk_volume ?w ! i)" and ?a = "first_of fs i" and ?n = "mk_needed f"
  define cs where "cs = (map word_of_nat [?a..<?a + ?n] :: u16 list)"
  note chain = built_chain [OF b(1) i(1), folded b(2), unfolded i(2), folded cs_def]
  have cover: "length (file_data f) \<le> ?n * 2048" by (rule mk_needed_covers(1))
  then have "length (file_data f) < 2 ^ 32" using chain(3) by simp
  then have sz: "unat (entry_size ?e) = length (file_data f)" using slot(4) [OF i(1)] i(2) by (simp add: unat_length)
  have "hd cs = first_cluster ?e"
    using slot(3) [OF i(1)] mk_needed_covers(2) [of f] by (simp add: cs_def hd_map)
  then have "intact mk_volume ?w ?e cs"
    using chain(1) sz cover by (simp add: intact_def mk_volume_facts(3) cs_def)
  moreover have "intact_bytes ?w ?e cs = file_data f"
  proof -
    have "take (length (file_data f)) (take (?n * 2048) (drop (data_at ?a) (b_image b))) = file_data f"
      using b(1) i cover by (auto simp: built_def file_built_def min_def)
    then show ?thesis using sz chain(2) by (auto simp: intact_bytes_def file_bytes_def)
  qed
  ultimately have "read_file mk_volume ?e ?d = (Inr (file_data f), ?d)" using read_intact [OF mv(1)] by simp
  then show ?thesis using mv(1,2) find by blast
qed

text \<open>
  C40: The swap area starts where the volume of \<open>mkfs\<close> ends: the sectors of every swap slot lie in the image, behind
  the last sector of the file system.
\<close>

theorem swap_behind_volume:
  assumes "build fs = Some img" "\<forall>f \<in> set fs. name_ok (file_name f)" "mount True (disk_of img) = (Inr v, d)" "slot < SLOTS"
  shows "unat (data_start v) + unat (clusters v) * unat (sectors_per_cluster v) \<le> lba_registers (slot_lba slot) \<and>
    (lba_registers (slot_lba slot) + 8) * SECTOR_SIZE \<le> length img"
proof -
  obtain b where b: "built fs b" "img = final_image b" using build_final [OF assms(1,2)] by blast
  then have "v = mk_volume" "length img = 49152 * 512" using mk_view(2) [OF b(1)] image_slices(1) [OF b(1)] assms(3) by simp_all
  then show ?thesis using lba_registers_slot [OF assms(4)] assms(4) by (simp add: mk_volume_def)
qed

theorem kernel_reads_mkfs_image_witness:
  "\<exists>img v e. build [\<lparr> file_name = a_txt, file_data = [1, 2, 3] \<rparr>] = Some img \<and> mount True (disk_of img) = (Inr v, disk_of img) \<and>
     fat_find v a_txt (disk_of img) = (Inr e, disk_of img) \<and> read_file v e (disk_of img) = (Inr [1, 2, 3], disk_of img)"
proof -
  let ?f = "\<lparr> file_name = a_txt, file_data = [1, 2, 3] \<rparr>"
  have n: "\<forall>f \<in> set [?f]. name_ok (file_name f)" using demo_names(1) by simp
  obtain img where img: "build [?f] = Some img"
    using build_succeeds [OF n] by (auto simp: first_of_def mk_needed_def div_ceil_def)
  from kernel_reads_mkfs_image [OF this n, of ?f] img show ?thesis by auto
qed

theorem swap_behind_volume_witness:
  "\<exists>img. build [] = Some img \<and> (lba_registers (slot_lba 7) + 8) * SECTOR_SIZE \<le> length img"
proof -
  obtain img where img: "build [] = Some img" using build_succeeds [of "[]"] by (auto simp: first_of_def)
  then obtain b where b: "built [] b" "img = final_image b" using build_final [OF img] by auto
  from swap_behind_volume [OF img _ mk_view(2) [OF b(1), folded b(2)], of 7] img show ?thesis by simp
qed

end
