(* ===== verification/User_Memory.thy ===== *)
theory User_Memory
  imports Page_Tables
begin

text \<open>
  Reading and writing through virtual addresses, as the kernel does it in the active address space:
  bytes and aligned words behind the translation. A missing translation is a fault (\<open>None\<close>), and so is a store
  through an entry that is not writable: the kernel runs with CR0.WP set (see \<open>set_flags\<close> in \<open>memory.rs\<close>). The
  arguments of a program (\<open>place_arguments\<close> of \<open>user.rs\<close>) are written this way.
\<close>

definition get_byte :: "u64 \<Rightarrow> Memory \<Rightarrow> u8" where
  "get_byte p s = ucast (drop_bit (8 * unat (p AND 7)) (phys s (p AND NOT 7)))"

definition put_byte :: "u64 \<Rightarrow> u8 \<Rightarrow> Memory \<Rightarrow> Memory" where
  "put_byte p b s =
     (let k = 8 * unat (p AND 7)
      in put (p AND NOT 7) ((phys s (p AND NOT 7) AND NOT (push_bit k 0xFF)) OR push_bit k (ucast b)) s)"

definition load_u8 :: "u64 \<Rightarrow> Memory \<Rightarrow> u8 option" where
  "load_u8 va s = map_option (\<lambda>(pa, _). get_byte pa s) (translate_active va s)"

definition load_u64 :: "u64 \<Rightarrow> Memory \<Rightarrow> u64 option" where
  "load_u64 va s = map_option (\<lambda>(pa, _). phys s pa) (translate_active va s)"

text \<open>The entries of a walk, padded with zeros below a huge page, all allow writing.\<close>

definition may_write :: "u64 list \<Rightarrow> bool" where
  "may_write es \<longleftrightarrow> list_all (\<lambda>e. e AND WRITABLE \<noteq> 0) (filter (\<lambda>e. e \<noteq> 0) es)"

definition store_through :: "(u64 \<Rightarrow> Memory \<Rightarrow> Memory) \<Rightarrow> u64 \<Rightarrow> Memory \<Rightarrow> Memory option" where
  "store_through f va s = (case translate_active va s of
     None \<Rightarrow> None
   | Some (pa, es) \<Rightarrow> if may_write es then Some (f pa s) else None)"

definition store_u8 :: "u64 \<Rightarrow> u8 \<Rightarrow> Memory \<Rightarrow> Memory option" where
  "store_u8 va b = store_through (\<lambda>pa. put_byte pa b) va"

definition store_u64 :: "u64 \<Rightarrow> u64 \<Rightarrow> Memory \<Rightarrow> Memory option" where
  "store_u64 va w = store_through (\<lambda>pa. put pa w) va"

text \<open>\<open>copy_nonoverlapping\<close> from kernel memory.\<close>

fun store_bytes :: "u64 \<Rightarrow> u8 list \<Rightarrow> Memory \<Rightarrow> Memory option" where
  "store_bytes va [] s = Some s"
| "store_bytes va (b # bs) s = Option.bind (store_u8 va b s) (store_bytes (va + 1) bs)"

section \<open>The arguments of a program\<close>

fun place_strings :: "u8 list list \<Rightarrow> u64 \<Rightarrow> u64 list \<Rightarrow> Memory \<Rightarrow> (u64 \<times> u64 list \<times> Memory) option" where
  "place_strings [] cursor addresses s = Some (cursor, addresses, s)"
| "place_strings (argument # arguments) cursor addresses s =
     (let cursor = (cursor - (word_of_nat (length argument) + 1)) AND NOT 7
      in Option.bind (store_bytes cursor argument s) (\<lambda>s.
         Option.bind (store_u8 (cursor + word_of_nat (length argument)) 0 s) (\<lambda>s.
         place_strings arguments cursor (addresses @ [cursor]) s)))"

fun place_pointers :: "u64 \<Rightarrow> nat \<Rightarrow> u64 list \<Rightarrow> Memory \<Rightarrow> Memory option" where
  "place_pointers argv index [] s = Some s"
| "place_pointers argv index (address # addresses) s =
     Option.bind (store_u64 (argv + word_of_nat (index * 8)) address s) (place_pointers argv (index + 1) addresses)"

definition place_arguments :: "u64 \<Rightarrow> u8 list list \<Rightarrow> Memory \<Rightarrow> ((u64 \<times> u64 \<times> u64) \<times> Memory) option" where
  "place_arguments stack_top arguments s =
     Option.bind (place_strings arguments stack_top [] s) (\<lambda>(cursor, addresses, s).
       let argv = (cursor - (word_of_nat (length addresses) + 1) * 8) AND NOT 0xF
       in Option.bind (place_pointers argv 0 addresses s) (\<lambda>s.
          Option.bind (store_u64 (argv + word_of_nat (length addresses * 8)) 0 s) (\<lambda>s.
          let stack = (argv - 64) AND NOT 0xF
          in Some ((stack - 8, word_of_nat (length addresses), argv), s))))"

section \<open>Bytes in words\<close>

lemma low3: "(7 :: u64) = mask 3" by (simp add: mask_eq_exp_minus_1)

lemma unat_low3: "unat (p AND 7) = unat p mod 8" for p :: u64
proof -
  have "p AND 7 = take_bit 3 p" by (simp only: low3 take_bit_eq_mask)
  then have "unat (p AND 7) = take_bit 3 (unat p)" by (simp only: unsigned_take_bit_eq)
  then show ?thesis by (simp add: take_bit_eq_mod)
qed

lemma byte_index: "unat (p AND 7) < 8" for p :: u64
  by (simp add: unat_low3)

lemma byte_address: "p AND NOT 7 = q AND NOT 7 \<Longrightarrow> p AND 7 = q AND 7 \<Longrightarrow> p = q" for p q :: u64
proof -
  assume "p AND NOT 7 = q AND NOT 7" "p AND 7 = q AND 7"
  then have "(p AND NOT 7) OR (p AND 7) = (q AND NOT 7) OR (q AND 7)" by simp
  moreover have "(x AND NOT 7) OR (x AND 7) = x" for x :: u64 by (rule bit_eqI) (auto simp: bit_simps)
  ultimately show "p = q" by simp
qed

lemma get_put_byte: "get_byte q (put_byte p b s) = (if q = p then b else get_byte q s)"
proof -
  have bits: "bit ((w AND NOT (push_bit k 0xFF)) OR push_bit k (ucast b) :: u64) n =
      (if k \<le> n \<and> n < k + 8 then bit b (n - k) else bit w n)" if "k \<le> 56" "n < 64" for w k n
  proof -
    have ff: "(0xFF :: u64) = mask 8" by (simp add: mask_eq_exp_minus_1)
    show ?thesis
      unfolding ff using that
      by (auto simp: bit_or_iff bit_and_iff bit_not_iff bit_push_bit_iff bit_mask_iff bit_unsigned_iff dest: bit_imp_le_length)
  qed
  have ix: "8 * unat (x AND 7) \<le> 56" for x :: u64 using byte_index [of x] by linarith
  show ?thesis
  proof (cases "q AND NOT 7 = p AND NOT 7")
    case True
    have sep: "unat (q AND 7) \<noteq> unat (p AND 7)" if "q \<noteq> p" using byte_address [OF True] that by (metis unsigned_word_eqI)
    show ?thesis
    proof (rule bit_eqI)
      fix n
      show "bit (get_byte q (put_byte p b s)) n = bit (if q = p then b else get_byte q s) n"
      proof (cases "n < 8")
        case n: True
        have m: "8 * unat (q AND 7) + n < 64" using byte_index [of q] n by linarith
        show ?thesis
        proof (cases "q = p")
          case True
          then show ?thesis using n m bits [OF ix [of p] m] by (simp add: get_byte_def put_byte_def Let_def bit_simps)
        next
          case False
          then have "\<not> (8 * unat (p AND 7) \<le> 8 * unat (q AND 7) + n \<and> 8 * unat (q AND 7) + n < 8 * unat (p AND 7) + 8)"
            using sep n by linarith
          then show ?thesis using n m False bits [OF ix [of p] m] True by (auto simp: get_byte_def put_byte_def Let_def bit_simps)
        qed
      qed (auto dest: bit_imp_le_length)
    qed
  next
    case False
    then show ?thesis by (auto simp: get_byte_def put_byte_def Let_def)
  qed
qed

section \<open>A page seen through its translation\<close>

text \<open>
  The page at \<open>page\<close> is mapped to the frame \<open>f\<close> by a four-level walk that allows writing, and the frame is not one of the
  tables of that walk, so that writing to the page does not change how it is translated.
\<close>

definition window :: "Memory \<Rightarrow> u64 \<Rightarrow> u64 \<Rightarrow> bool" where
  "window s page f \<longleftrightarrow> aligned page \<and> aligned (cr3 s) \<and>
     (\<exists>leaf. walk3 True s (cr3 s) (take 3 (indexes page)) = Some leaf \<and> aligned leaf \<and> leaf \<noteq> f \<and>
       f \<notin> set (read_tables (phys s) (cr3 s) (take 3 (indexes page))) \<and>
       phys s (entry_ptr leaf (indexes page ! 3)) AND PRESENT \<noteq> 0 \<and> phys s (entry_ptr leaf (indexes page ! 3)) AND ADDRESS_MASK = f) \<and>
     f \<notin> set (read_tables (phys s) (cr3 s) (indexes page)) \<and>
     (case translate_active page s of None \<Rightarrow> False | Some (_, es) \<Rightarrow> may_write es)"

lemma offset_bits:
  assumes "aligned p" "n < 4096"
  shows "page_base (p + word_of_nat n) = p" "(p + word_of_nat n) AND 0xFFF = word_of_nat n" "unat (p + word_of_nat n) = unat p + n"
proof -
  have n: "unat (word_of_nat n :: u64) = n" using assms(2) by (simp add: unat_of_nat take_bit_nat_eq_self)
  have "p AND word_of_nat n = 0"
  proof (rule bit_eqI)
    fix k
    have "k < 12" if "bit (word_of_nat n :: u64) k"
    proof (rule ccontr)
      assume "\<not> k < 12"
      then have "n div 2 ^ k = 0" using assms(2) power_increasing [of 12 k "2 :: nat"] by simp
      moreover have "bit n k" using that by (simp add: bit_of_nat_iff)
      ultimately show False by (simp add: bit_iff_odd)
    qed
    then show "bit (p AND word_of_nat n) k = bit 0 k" using assms(1) by (auto simp: aligned_bits bit_simps)
  qed
  then have add: "p + word_of_nat n = p OR word_of_nat n" by (rule disjunctive_add_eq_or)
  have low: "\<not> bit (word_of_nat n :: u64) k" if "12 \<le> k" for k
  proof
    assume "bit (word_of_nat n :: u64) k"
    then have "bit n k" by (simp add: bit_of_nat_iff)
    moreover have "n div 2 ^ k = 0" using assms(2) that power_increasing [of 12 k "2 :: nat"] by simp
    ultimately show False by (simp add: bit_iff_odd)
  qed
  show "page_base (p + word_of_nat n) = p"
    unfolding add
  proof (rule bit_eqI)
    fix k
    show "bit (page_base (p OR word_of_nat n)) k = bit p k"
      using assms(1) low [of k] by (cases "12 \<le> k") (auto simp: bit_page_base bit_or_iff aligned_bits)
  qed
  show "(p + word_of_nat n) AND 0xFFF = word_of_nat n"
    unfolding add low_mask
  proof (rule bit_eqI)
    fix k
    show "bit ((p OR word_of_nat n) AND mask 12) k = bit (word_of_nat n :: u64) k"
      using assms(1) low [of k] by (cases "12 \<le> k") (auto simp: bit_and_iff bit_or_iff bit_mask_iff aligned_bits dest: bit_imp_le_length)
  qed
  have "4096 dvd unat p" using assms(1) by (simp add: aligned_dvd)
  then obtain k where k: "unat p = 4096 * k" by (rule dvdE)
  have "unat p < 2 ^ 64" using unat_u64_less [of p] by simp
  then have "4096 * k < 4096 * 4503599627370496" using k by simp
  then have "k \<le> 4503599627370495" by simp
  then have "unat p + n < 2 ^ 64" using k assms(2) by simp
  then show "unat (p + word_of_nat n) = unat p + n" using n by (simp add: unat_word_ariths)
qed

lemma window_aligned: "window s page f \<Longrightarrow> aligned page \<and> aligned f"
  by (auto simp: window_def)

lemma translate_walk_entries:
  "map_option snd (translate_walk s va level is t es) = map_option snd (translate_walk s vb level is t es)"
  by (induction "is" arbitrary: level t es) (auto simp: Let_def)

lemma translate_entries:
  "page_base va = page_base vb \<Longrightarrow> map_option snd (translate_active va s) = map_option snd (translate_active vb s)"
  using translate_walk_entries [of s va 0 "indexes vb" "cr3 s" "[]" vb] indexes_page_base [of va] indexes_page_base [of vb]
  by (simp add: translate_active_def translate_in_def)

lemma window_translate:
  assumes "window s page f" "n < 4096"
  shows "\<exists>es. translate_active (page + word_of_nat n) s = Some (f + word_of_nat n, es) \<and> may_write es"
proof -
  have p: "aligned page" using assms(1) by (simp add: window_def)
  note o = offset_bits [OF p assms(2)]
  have ix: "indexes (page + word_of_nat n) = indexes page" using indexes_page_base [of "page + word_of_nat n"] o(1) by simp
  obtain leaf where l: "walk3 True s (cr3 s) (take 3 (indexes page)) = Some leaf"
      "phys s (entry_ptr leaf (indexes page ! 3)) AND PRESENT \<noteq> 0" "phys s (entry_ptr leaf (indexes page ! 3)) AND ADDRESS_MASK = f"
    using assms(1) by (auto simp: window_def)
  obtain es where es: "translate_active (page + word_of_nat n) s = Some (f + word_of_nat n, es)"
    using translate_in_leaf [of s "cr3 s" "page + word_of_nat n" leaf] l o(2) by (auto simp: ix translate_active_def)
  have "map_option snd (translate_active page s) = Some es"
    using translate_entries [of "page + word_of_nat n" page s] o(1) page_base_aligned [OF p] es by simp
  then show ?thesis using es assms(1) by (auto simp: window_def)
qed

lemma translate_walk_cong:
  assumes "\<forall>i \<in> set is. i < 512" "aligned t" "\<forall>a. page_base a \<in> set (read_tables (phys s) t is) \<longrightarrow> phys s' a = phys s a"
  shows "translate_walk s' va level is t es = translate_walk s va level is t es"
  using assms
proof (induction "is" arbitrary: t level es)
  case (Cons i "is")
  have e: "phys s' (entry_ptr t i) = phys s (entry_ptr t i)" using Cons.prems by simp
  show ?case
  proof (cases "phys s (entry_ptr t i) AND PRESENT = 0")
    case False
    then have "\<forall>a. page_base a \<in> set (read_tables (phys s) (phys s (entry_ptr t i) AND ADDRESS_MASK) is) \<longrightarrow> phys s' a = phys s a"
      using Cons.prems(3) by (simp add: Let_def)
    then show ?thesis using e Cons.IH Cons.prems(1) by (simp add: Let_def)
  qed (simp add: e Let_def)
qed simp

lemma read_tables_cong:
  assumes "\<forall>i \<in> set is. i < 512" "aligned t" "\<forall>a. page_base a \<in> set (read_tables m t is) \<longrightarrow> m' a = m a"
  shows "read_tables m' t is = read_tables m t is"
  using assms
proof (induction "is" arbitrary: t)
  case (Cons i "is")
  have "m' (entry_ptr t i) = m (entry_ptr t i)" using Cons.prems by simp
  then show ?case using Cons by (auto simp: Let_def)
qed simp

lemma window_keep:
  assumes "window s page f" "cr3 s' = cr3 s" "\<And>a. page_base a \<noteq> f \<Longrightarrow> phys s' a = phys s a"
  shows "window s' page f"
proof -
  obtain leaf where l: "walk3 True s (cr3 s) (take 3 (indexes page)) = Some leaf" "aligned leaf" "leaf \<noteq> f"
      "f \<notin> set (read_tables (phys s) (cr3 s) (take 3 (indexes page)))"
      "phys s (entry_ptr leaf (indexes page ! 3)) AND PRESENT \<noteq> 0" "phys s (entry_ptr leaf (indexes page ! 3)) AND ADDRESS_MASK = f"
    using assms(1) by (auto simp: window_def)
  have cr: "aligned (cr3 s)" "aligned page" using assms(1) by (simp_all add: window_def)
  have same: "\<forall>a. page_base a \<in> set (read_tables (phys s) (cr3 s) (take 3 (indexes page))) \<longrightarrow> phys s' a = phys s a"
    using l(4) assms(3) by metis
  have w: "walk3 True s' (cr3 s) (take 3 (indexes page)) = Some leaf"
    using walk3_cong [OF indexes_bound(1) cr(1) same] l(1) by simp
  have "read_tables (phys s') (cr3 s) (take 3 (indexes page)) = read_tables (phys s) (cr3 s) (take 3 (indexes page))"
    using read_tables_cong [OF indexes_bound(1) cr(1) same] .
  moreover have "phys s' (entry_ptr leaf (indexes page ! 3)) = phys s (entry_ptr leaf (indexes page ! 3))"
    using l(2,3) indexes_bound(2) by (intro assms(3)) simp
  moreover have all: "\<forall>a. page_base a \<in> set (read_tables (phys s) (cr3 s) (indexes page)) \<longrightarrow> phys s' a = phys s a"
    using assms(1,3) unfolding window_def by metis
  have ib: "\<forall>i \<in> set (indexes page). i < 512" using indexes_less by blast
  have "translate_active page s' = translate_active page s"
    using translate_walk_cong [OF ib cr(1) all] assms(2) by (simp add: translate_active_def translate_in_def)
  moreover have "read_tables (phys s') (cr3 s) (indexes page) = read_tables (phys s) (cr3 s) (indexes page)"
    using read_tables_cong [OF ib cr(1) all] .
  ultimately show ?thesis using w l cr assms(1,2) by (auto simp: window_def)
qed

section \<open>Offsets in a page\<close>

abbreviation (input) at :: "u64 \<Rightarrow> nat \<Rightarrow> u64" where "at p n \<equiv> p + word_of_nat n"

lemma unat_round_down: "unat (x AND NOT (mask k)) = unat x - unat x mod 2 ^ k" for x :: u64
proof -
  have "(x AND NOT (mask k)) AND (x AND mask k) = 0" by (rule bit_eqI) (auto simp: bit_simps)
  then have "(x AND NOT (mask k)) + (x AND mask k) = (x AND NOT (mask k)) OR (x AND mask k)" by (rule disjunctive_add_eq_or)
  also have "\<dots> = x" by (rule bit_eqI) (auto simp: bit_simps)
  finally have "x AND NOT (mask k) = x - (x AND mask k)" by (metis add_diff_cancel_right')
  moreover have "unat (x AND mask k) = unat x mod 2 ^ k"
    by (simp only: take_bit_eq_mask [symmetric] unsigned_take_bit_eq) (simp add: take_bit_eq_mod)
  moreover from this have "x AND mask k \<le> x" by (simp add: word_le_nat_alt)
  ultimately show ?thesis by (simp add: unat_sub)
qed

lemma round_down_at:
  assumes "aligned p" "n < 4096" "k \<le> 12"
  shows "at p n AND NOT (mask k) = at p (n - n mod 2 ^ k)"
proof -
  have d: "4096 dvd unat p" using assms(1) by (simp add: aligned_dvd)
  have "(2 :: nat) ^ k dvd 4096" using le_imp_power_dvd [OF assms(3), of "2 :: nat"] by simp
  then have "2 ^ k dvd unat p" using d by (rule dvd_trans)
  then have "(unat p + n) mod 2 ^ k = n mod 2 ^ k" by (auto elim: dvdE)
  then have "unat (at p n AND NOT (mask k)) = unat p + (n - n mod 2 ^ k)"
    using offset_bits(3) [OF assms(1,2)] by (simp add: unat_round_down)
  also have "\<dots> = unat (at p (n - n mod 2 ^ k))" using offset_bits(3) [OF assms(1), of "n - n mod 2 ^ k"] assms(2) by simp
  finally show ?thesis by (simp add: word_unat_eq_iff)
qed

lemma at_inj: "aligned p \<Longrightarrow> m < 4096 \<Longrightarrow> n < 4096 \<Longrightarrow> at p m = at p n \<longleftrightarrow> m = n"
  using offset_bits(3) by (metis add_left_cancel)

lemma word_at: "aligned p \<Longrightarrow> n < 4096 \<Longrightarrow> at p n AND NOT 7 = at p (n - n mod 8)"
  using round_down_at [of p n 3] by (simp add: low3)

text \<open>Only the words of one frame have changed.\<close>

definition within :: "u64 \<Rightarrow> Memory \<Rightarrow> Memory \<Rightarrow> bool" where
  "within f s s' \<longleftrightarrow> s' = s\<lparr> phys := phys s' \<rparr> \<and> (\<forall>a. page_base a \<noteq> f \<longrightarrow> phys s' a = phys s a)"

lemma within_refl [simp]: "within f s s"
  by (simp add: within_def)

lemma within_fields:
  assumes "within f s s'"
  shows "fa_head s' = fa_head s" "fa_free s' = fa_free s" "cr3 s' = cr3 s" "shared_tab s' = shared_tab s"
proof -
  note e = conjunct1 [OF assms [unfolded within_def]]
  show "fa_head s' = fa_head s" "fa_free s' = fa_free s" "cr3 s' = cr3 s" "shared_tab s' = shared_tab s"
    using arg_cong [OF e, of fa_head] arg_cong [OF e, of fa_free] arg_cong [OF e, of cr3] arg_cong [OF e, of shared_tab] by simp_all
qed

lemma within_trans:
  assumes "within f s s1" "within f s1 s2"
  shows "within f s s2"
proof -
  have "s2 = s1\<lparr> phys := phys s2 \<rparr>" using assms(2) by (simp add: within_def)
  also have "\<dots> = (s\<lparr> phys := phys s1 \<rparr>)\<lparr> phys := phys s2 \<rparr>"
    using assms(1) arg_cong [of s1 "s\<lparr> phys := phys s1 \<rparr>" "\<lambda>s. s\<lparr> phys := phys s2 \<rparr>"] unfolding within_def by blast
  finally show ?thesis using assms by (simp add: within_def)
qed

lemma window_store_u8:
  assumes "window s page f" "n < 4096"
  shows "\<exists>s'. store_u8 (at page n) b s = Some s' \<and> window s' page f \<and> within f s s' \<and>
    (\<forall>m < 4096. get_byte (at f m) s' = (if m = n then b else get_byte (at f m) s))"
proof -
  have f: "aligned f" using window_aligned [OF assms(1)] by simp
  have st: "store_u8 (at page n) b s = Some (put_byte (at f n) b s)"
    using window_translate [OF assms] by (auto simp: store_u8_def store_through_def)
  have "page_base (at f n AND NOT 7) = f" using word_at [OF f assms(2)] offset_bits(1) [OF f, of "n - n mod 8"] assms(2) by simp
  then have "window (put_byte (at f n) b s) page f"
    by (intro window_keep [OF assms(1)]) (auto simp: put_byte_def Let_def)
  moreover have "within f s (put_byte (at f n) b s)"
    using \<open>page_base (at f n AND NOT 7) = f\<close> by (auto simp: within_def put_byte_def Let_def put_def)
  ultimately show ?thesis using st get_put_byte at_inj [OF f _ assms(2)] by auto
qed

lemma window_store_u64:
  assumes "window s page f" "n < 4096"
  shows "\<exists>s'. store_u64 (at page n) w s = Some s' \<and> window s' page f \<and> within f s s' \<and>
    (\<forall>m < 4096. phys s' (at f m) = (if m = n then w else phys s (at f m)))"
proof -
  have f: "aligned f" using window_aligned [OF assms(1)] by simp
  have st: "store_u64 (at page n) w s = Some (put (at f n) w s)"
    using window_translate [OF assms] by (auto simp: store_u64_def store_through_def)
  have "window (put (at f n) w s) page f"
    using offset_bits(1) [OF f assms(2)] by (intro window_keep [OF assms(1)]) auto
  moreover have "within f s (put (at f n) w s)" using offset_bits(1) [OF f assms(2)] by (auto simp: within_def put_def)
  ultimately show ?thesis using st at_inj [OF f _ assms(2)] by auto
qed

lemma window_store_bytes:
  assumes "window s page f" "n + length bs \<le> 4096"
  shows "\<exists>s'. store_bytes (at page n) bs s = Some s' \<and> window s' page f \<and> within f s s' \<and>
    (\<forall>m < 4096. get_byte (at f m) s' = (if n \<le> m \<and> m < n + length bs then bs ! (m - n) else get_byte (at f m) s))"
  using assms
proof (induction bs arbitrary: n s)
  case (Cons b bs)
  obtain s1 where s1: "store_u8 (at page n) b s = Some s1" "window s1 page f"
      "\<forall>m < 4096. get_byte (at f m) s1 = (if m = n then b else get_byte (at f m) s)" "within f s s1"
    using window_store_u8 [OF Cons.prems(1), of n b] Cons.prems(2) by auto
  obtain s2 where s2: "store_bytes (at page (Suc n)) bs s1 = Some s2" "window s2 page f"
      "\<forall>m < 4096. get_byte (at f m) s2 = (if Suc n \<le> m \<and> m < Suc n + length bs then bs ! (m - Suc n) else get_byte (at f m) s1)" "within f s1 s2"
    using Cons.IH [OF s1(2), of "Suc n"] Cons.prems(2) by auto
  have "at page n + 1 = at page (Suc n)" by (simp add: add.commute add.left_commute)
  then have "store_bytes (at page n) (b # bs) s = Some s2" using s1(1) s2(1) by (simp only: store_bytes.simps bind.bind_lunit)
  moreover have "get_byte (at f m) s2 = (if n \<le> m \<and> m < n + length (b # bs) then (b # bs) ! (m - n) else get_byte (at f m) s)" if "m < 4096" for m
    using that s1(3) s2(3) by (auto simp: nth_Cons' Suc_le_eq)
  ultimately show ?case using s2(2) within_trans [OF s1(4) s2(4)] by blast
qed auto

section \<open>The layout of the arguments\<close>

definition arguments_need :: "u8 list list \<Rightarrow> nat" where
  "arguments_need arguments = sum_list (map (\<lambda>argument. length argument + 8) arguments)"

lemma at_minus: "m \<le> n \<Longrightarrow> at p n - word_of_nat m = at p (n - m)" for p :: u64
  by (simp add: of_nat_diff)

lemma place_strings_layout:
  assumes "window s page f" "c \<le> 4096" "arguments_need args \<le> c"
  shows "\<exists>c' offs s'. place_strings args (at page c) acc s = Some (at page c', acc @ map (at page) offs, s') \<and> window s' page f \<and> within f s s' \<and>
    length offs = length args \<and> c' \<le> c \<and> c \<le> c' + arguments_need args \<and>
    (\<forall>m < 4096. c \<le> m \<longrightarrow> get_byte (at f m) s' = get_byte (at f m) s) \<and>
    (\<forall>i < length args. c' \<le> offs ! i \<and> offs ! i + length (args ! i) < c \<and>
       (\<forall>j < length (args ! i). get_byte (at f (offs ! i + j)) s' = args ! i ! j) \<and> get_byte (at f (offs ! i + length (args ! i))) s' = 0)"
  using assms
proof (induction args arbitrary: c acc s)
  case Nil
  then show ?case by (intro exI [of _ c] exI [of _ "[]"] exI [of _ s]) (simp add: arguments_need_def)
next
  case (Cons arg args)
  let ?l = "length arg" and ?k = "c - (length arg + 1)"
  define c1 where "c1 = ?k - ?k mod 8"
  have page: "aligned page" using window_aligned [OF Cons.prems(1)] by simp
  have need: "?l + 8 + arguments_need args \<le> c" using Cons.prems(3) by (simp add: arguments_need_def)
  have "?k mod 8 < 8" by simp
  then have c1: "c1 + ?l < c" "c \<le> c1 + ?l + 8" "arguments_need args \<le> c1" "c1 \<le> 4096" "c1 + ?l < 4096"
    using need Cons.prems(2) unfolding c1_def by linarith+
  have "(at page c - (word_of_nat ?l + 1)) = at page c - word_of_nat (?l + 1)" by simp
  also have "\<dots> = at page ?k" using need by (intro at_minus) simp
  finally have e: "at page c - (word_of_nat ?l + 1) = at page ?k" .
  have "?k < 4096" using need Cons.prems(2) by linarith
  then have cur: "(at page c - (word_of_nat ?l + 1)) AND NOT 7 = at page c1"
    unfolding e c1_def by (rule word_at [OF page])
  obtain s1 where s1: "store_bytes (at page c1) arg s = Some s1" "window s1 page f"
      "\<forall>m < 4096. get_byte (at f m) s1 = (if c1 \<le> m \<and> m < c1 + ?l then arg ! (m - c1) else get_byte (at f m) s)" "within f s s1"
    using window_store_bytes [OF Cons.prems(1), of c1 arg] c1(5) by auto
  obtain s2 where s2: "store_u8 (at page (c1 + ?l)) 0 s1 = Some s2" "window s2 page f"
      "\<forall>m < 4096. get_byte (at f m) s2 = (if m = c1 + ?l then 0 else get_byte (at f m) s1)" "within f s1 s2"
    using window_store_u8 [OF s1(2) c1(5), of 0] by auto
  obtain c' offs s' where r: "place_strings args (at page c1) (acc @ [at page c1]) s2 = Some (at page c', (acc @ [at page c1]) @ map (at page) offs, s')"
      "window s' page f" "length offs = length args" "c' \<le> c1" "c1 \<le> c' + arguments_need args"
      "\<forall>m < 4096. c1 \<le> m \<longrightarrow> get_byte (at f m) s' = get_byte (at f m) s2"
      "\<forall>i < length args. c' \<le> offs ! i \<and> offs ! i + length (args ! i) < c1 \<and>
       (\<forall>j < length (args ! i). get_byte (at f (offs ! i + j)) s' = args ! i ! j) \<and> get_byte (at f (offs ! i + length (args ! i))) s' = 0"
      "within f s2 s'"
    using Cons.IH [OF s2(2) c1(4,3), of "acc @ [at page c1]"] by blast
  have "at page c1 + word_of_nat ?l = at page (c1 + ?l)" by simp
  then have "place_strings (arg # args) (at page c) acc s = Some (at page c', acc @ map (at page) (c1 # offs), s')"
    using s1(1) s2(1) r(1) by (simp only: place_strings.simps cur Let_def bind.bind_lunit) simp
  moreover have "c' \<le> c \<and> c \<le> c' + arguments_need (arg # args)" using r(4,5) c1 by (simp add: arguments_need_def)
  moreover have "\<forall>m < 4096. c \<le> m \<longrightarrow> get_byte (at f m) s' = get_byte (at f m) s" using r(6) s1(3) s2(3) c1 by auto
  moreover have "\<forall>i < length (arg # args). c' \<le> (c1 # offs) ! i \<and> (c1 # offs) ! i + length ((arg # args) ! i) < c \<and>
       (\<forall>j < length ((arg # args) ! i). get_byte (at f ((c1 # offs) ! i + j)) s' = (arg # args) ! i ! j) \<and>
       get_byte (at f ((c1 # offs) ! i + length ((arg # args) ! i))) s' = 0"
  proof (intro allI impI)
    fix i
    assume i: "i < length (arg # args)"
    show "c' \<le> (c1 # offs) ! i \<and> (c1 # offs) ! i + length ((arg # args) ! i) < c \<and>
       (\<forall>j < length ((arg # args) ! i). get_byte (at f ((c1 # offs) ! i + j)) s' = (arg # args) ! i ! j) \<and>
       get_byte (at f ((c1 # offs) ! i + length ((arg # args) ! i))) s' = 0"
    proof (cases i)
      case 0
      have "get_byte (at f (c1 + j)) s' = arg ! j" if "j < ?l" for j
        using r(6) [rule_format, of "c1 + j"] s1(3) [rule_format, of "c1 + j"] s2(3) [rule_format, of "c1 + j"] that c1(5) by simp
      moreover have "get_byte (at f (c1 + ?l)) s' = 0" using r(6) [rule_format, of "c1 + ?l"] s2(3) [rule_format, of "c1 + ?l"] c1(5) by simp
      ultimately show ?thesis using 0 r(4) c1(1) by simp
    next
      case (Suc k)
      then show ?thesis using r(7) [rule_format, of k] i c1(1) by auto
    qed
  qed
  ultimately show ?case using r(2,3) within_trans [OF within_trans [OF s1(4) s2(4)] r(8)]
    by (intro exI [of _ c'] exI [of _ "c1 # offs"] exI [of _ s']) simp
qed

lemma place_pointers_layout:
  assumes "window s page f" "v + 8 * (k + length addrs) \<le> 4096"
  shows "\<exists>s'. place_pointers (at page v) k addrs s = Some s' \<and> window s' page f \<and> within f s s' \<and>
    (\<forall>i < length addrs. phys s' (at f (v + 8 * (k + i))) = addrs ! i) \<and>
    (\<forall>m < 4096. m < v + 8 * k \<or> v + 8 * (k + length addrs) \<le> m \<longrightarrow> phys s' (at f m) = phys s (at f m))"
  using assms
proof (induction addrs arbitrary: k s)
  case (Cons a addrs)
  obtain s1 where s1: "store_u64 (at page (v + 8 * k)) a s = Some s1" "window s1 page f"
      "\<forall>m < 4096. phys s1 (at f m) = (if m = v + 8 * k then a else phys s (at f m))" "within f s s1"
    using window_store_u64 [OF Cons.prems(1), of "v + 8 * k" a] Cons.prems(2) by auto
  obtain s' where s': "place_pointers (at page v) (k + 1) addrs s1 = Some s'" "window s' page f"
      "\<forall>i < length addrs. phys s' (at f (v + 8 * (k + 1 + i))) = addrs ! i"
      "\<forall>m < 4096. m < v + 8 * (k + 1) \<or> v + 8 * (k + 1 + length addrs) \<le> m \<longrightarrow> phys s' (at f m) = phys s1 (at f m)" "within f s1 s'"
    using Cons.IH [OF s1(2), of "k + 1"] Cons.prems(2) by auto
  have "at page v + word_of_nat (k * 8) = at page (v + 8 * k)" by (simp add: mult.commute)
  then have "place_pointers (at page v) k (a # addrs) s = Some s'" using s1(1) s'(1) by (simp only: place_pointers.simps bind.bind_lunit)
  moreover have "phys s' (at f (v + 8 * (k + i))) = (a # addrs) ! i" if "i < length (a # addrs)" for i
  proof (cases i)
    case 0
    have "v + 8 * k < 4096" using Cons.prems(2) by simp
    then show ?thesis using 0 s'(4) [rule_format, of "v + 8 * k"] s1(3) [rule_format, of "v + 8 * k"] by simp
  next
    case (Suc j)
    then show ?thesis using s'(3) [rule_format, of j] that by simp
  qed
  moreover have "phys s' (at f m) = phys s (at f m)" if "m < 4096" "m < v + 8 * k \<or> v + 8 * (k + length (a # addrs)) \<le> m" for m
    using s'(4) [rule_format, of m] s1(3) [rule_format, of m] that by auto
  ultimately show ?case using s'(2) within_trans [OF s1(4) s'(5)] by blast
qed simp

lemma place_arguments_layout:
  assumes "window s page f" "stack_top = page + 4096" "arguments_need arguments + 8 * length arguments + 96 \<le> 4096"
  shows "\<exists>v offs s'. place_arguments stack_top arguments s = Some ((at page (v - 72), word_of_nat (length arguments), at page v), s') \<and>
    window s' page f \<and> within f s s' \<and> 72 \<le> v \<and> v mod 16 = 0 \<and> v + 8 * length arguments < 4096 \<and>
    (\<forall>i < length arguments. phys s' (at f (v + 8 * i)) = at page (offs ! i) \<and> v + 8 * (length arguments + 1) \<le> offs ! i \<and> offs ! i + length (arguments ! i) < 4096 \<and>
      (\<forall>j < length (arguments ! i). get_byte (at f (offs ! i + j)) s' = arguments ! i ! j) \<and>
      get_byte (at f (offs ! i + length (arguments ! i))) s' = 0) \<and>
    phys s' (at f (v + 8 * length arguments)) = 0"
proof -
  let ?n = "length arguments"
  note al = window_aligned [OF assms(1)]
  obtain c offs s1 where p: "place_strings arguments (at page 4096) [] s = Some (at page c, map (at page) offs, s1)" "window s1 page f"
      "length offs = ?n" "c \<le> 4096" "4096 \<le> c + arguments_need arguments"
      "\<forall>i < ?n. c \<le> offs ! i \<and> offs ! i + length (arguments ! i) < 4096 \<and>
       (\<forall>j < length (arguments ! i). get_byte (at f (offs ! i + j)) s1 = arguments ! i ! j) \<and> get_byte (at f (offs ! i + length (arguments ! i))) s1 = 0"
      "within f s s1"
    using place_strings_layout [OF assms(1) order_refl, of arguments "[]"] assms(3) by auto
  let ?k = "c - 8 * (?n + 1)"
  define v where "v = ?k - ?k mod 16"
  have room: "8 * (?n + 1) + 88 \<le> c" using p(5) assms(3) by simp
  have "v \<le> ?k" unfolding v_def by simp
  then have v1: "v + 8 * (?n + 1) \<le> c" using room by linarith
  have "?k mod 16 < 16" by simp
  then have v2: "72 \<le> v" using room unfolding v_def by linarith
  have v3: "v < 4096" using v1 p(4) by simp
  note v = v1 v2 v3
  have v16: "v mod 16 = 0" unfolding v_def by (simp add: minus_mod_eq_mult_div)
  have m15: "(0xF :: u64) = mask 4" by (simp add: mask_eq_exp_minus_1)
  have "at page c - (word_of_nat ?n + 1) * 8 = at page c - word_of_nat (8 * (?n + 1))" by (simp add: algebra_simps)
  also have "\<dots> = at page ?k" using v(1) by (intro at_minus) simp
  finally have e: "at page c - (word_of_nat ?n + 1) * 8 = at page ?k" .
  have "?k < 4096" using p(4) by simp
  then have argv: "(at page c - (word_of_nat ?n + 1) * 8) AND NOT 0xF = at page v"
    unfolding e v_def m15 using round_down_at [OF conjunct1 [OF al], of ?k 4] by simp
  obtain s2 where s2: "place_pointers (at page v) 0 (map (at page) offs) s1 = Some s2" "window s2 page f"
      "\<forall>i < ?n. phys s2 (at f (v + 8 * i)) = at page (offs ! i)"
      "\<forall>m < 4096. m < v \<or> v + 8 * ?n \<le> m \<longrightarrow> phys s2 (at f m) = phys s1 (at f m)" "within f s1 s2"
    using place_pointers_layout [OF p(2), of v 0 "map (at page) offs"] v(1) p(3,4) by auto
  have vn: "v + 8 * ?n < 4096" using v(1) p(4) by simp
  obtain s3 where s3: "store_u64 (at page (v + 8 * ?n)) 0 s2 = Some s3" "window s3 page f"
      "\<forall>m < 4096. phys s3 (at f m) = (if m = v + 8 * ?n then 0 else phys s2 (at f m))" "within f s2 s3"
    using window_store_u64 [OF s2(2) vn, of 0] by auto
  have low: "at page v - 64 = at page (v - 64)" using at_minus [of 64 v page] v(2) by simp
  have "(v - 64) mod 16 = 0" using v16 v(2) by presburger
  then have st: "(at page v - 64) AND NOT 0xF = at page (v - 64)"
    unfolding m15 low using round_down_at [OF conjunct1 [OF al], of "v - 64" 4] v(3) by simp
  have stack: "at page (v - 64) - 8 = at page (v - 72)" using at_minus [of 8 "v - 64" page] v(2) by simp
  have nul: "at page v + word_of_nat (?n * 8) = at page (v + 8 * ?n)" by (simp add: mult.commute)
  have top: "stack_top = at page 4096" using assms(2) by simp
  have run: "place_arguments stack_top arguments s = Some ((at page (v - 72), word_of_nat ?n, at page v), s3)"
    unfolding place_arguments_def top by (simp only: p(1) prod.case Let_def bind.bind_lunit argv s2(1) nul s3(1) st stack length_map p(3))
  have byte: "get_byte (at f m) s3 = get_byte (at f m) s1" if "c \<le> m" "m < 4096" for m
  proof -
    have "m mod 8 < 8" by simp
    moreover have "v + 8 * ?n + 8 \<le> m" using that v(1) by simp
    ultimately have w: "v + 8 * ?n < m - m mod 8" by linarith
    then have "phys s3 (at f (m - m mod 8)) = phys s1 (at f (m - m mod 8))"
      using s3(3) [rule_format, of "m - m mod 8"] s2(4) [rule_format, of "m - m mod 8"] that by simp
    then show ?thesis using word_at [OF conjunct2 [OF al] that(2)]  by (simp add: get_byte_def)
  qed
  have "\<forall>i < ?n. phys s3 (at f (v + 8 * i)) = at page (offs ! i) \<and> v + 8 * (length arguments + 1) \<le> offs ! i \<and> offs ! i + length (arguments ! i) < 4096 \<and>
      (\<forall>j < length (arguments ! i). get_byte (at f (offs ! i + j)) s3 = arguments ! i ! j) \<and>
      get_byte (at f (offs ! i + length (arguments ! i))) s3 = 0"
  proof (intro conjI allI impI)
    fix i assume i: "i < ?n"
    note a = p(6) [rule_format, OF i]
    show "phys s3 (at f (v + 8 * i)) = at page (offs ! i)"
      using s3(3) [rule_format, of "v + 8 * i"] s2(3) [rule_format, OF i] vn i by simp
    show "v + 8 * (length arguments + 1) \<le> offs ! i" using a v(1) by simp
    show "offs ! i + length (arguments ! i) < 4096" using a by simp
    show "get_byte (at f (offs ! i + j)) s3 = arguments ! i ! j" if "j < length (arguments ! i)" for j
      using byte [of "offs ! i + j"] a that by simp
    show "get_byte (at f (offs ! i + length (arguments ! i))) s3 = 0"
      using byte [of "offs ! i + length (arguments ! i)"] a by simp
  qed
  moreover have "phys s3 (at f (v + 8 * ?n)) = 0" using s3(3) [rule_format, OF vn] by simp
  moreover have "within f s s3" using within_trans [OF within_trans [OF p(7) s2(5)] s3(4)] .
  ultimately show ?thesis using run s3(2) v(2) v16 vn by (intro exI conjI)
qed

lemma arguments_spec:
  assumes "window s page f" "stack_top = page + 4096" "arguments_need arguments + 8 * length arguments + 96 \<le> 4096"
  shows "\<exists>stack argv s'. place_arguments stack_top arguments s = Some ((stack, word_of_nat (length arguments), argv), s') \<and>
    (\<forall>i < length arguments. \<exists>address. load_u64 (argv + word_of_nat (8 * i)) s' = Some address \<and>
       (\<forall>j < length (arguments ! i). load_u8 (address + word_of_nat j) s' = Some (arguments ! i ! j)) \<and>
       load_u8 (address + word_of_nat (length (arguments ! i))) s' = Some 0 \<and>
       unat argv + 8 * (length arguments + 1) \<le> unat address \<and> unat address + length (arguments ! i) < unat page + 4096) \<and>
    load_u64 (argv + word_of_nat (8 * length arguments)) s' = Some 0 \<and>
    unat stack mod 16 = 8 \<and> unat page \<le> unat stack \<and> unat stack + 72 \<le> unat argv \<and> window s' page f \<and> within f s s'"
proof -
  let ?n = "length arguments"
  note al = window_aligned [OF assms(1)]
  obtain v offs s3 where run: "place_arguments stack_top arguments s = Some ((at page (v - 72), word_of_nat ?n, at page v), s3)"
    and s3: "window s3 page f" and w3: "within f s s3" and v: "72 \<le> v" "v mod 16 = 0" "v + 8 * ?n < 4096"
    and each: "\<forall>i < ?n. phys s3 (at f (v + 8 * i)) = at page (offs ! i) \<and> v + 8 * (length arguments + 1) \<le> offs ! i \<and> offs ! i + length (arguments ! i) < 4096 \<and>
      (\<forall>j < length (arguments ! i). get_byte (at f (offs ! i + j)) s3 = arguments ! i ! j) \<and>
      get_byte (at f (offs ! i + length (arguments ! i))) s3 = 0"
    and null: "phys s3 (at f (v + 8 * ?n)) = 0"
    using place_arguments_layout [OF assms] by (elim exE conjE) (rule that)
  have ld8: "load_u8 (at page m) s3 = Some (get_byte (at f m) s3)" if "m < 4096" for m
    using window_translate [OF s3 that] by (auto simp: load_u8_def)
  have ld64: "load_u64 (at page m) s3 = Some (phys s3 (at f m))" if "m < 4096" for m
    using window_translate [OF s3 that] by (auto simp: load_u64_def)
  have args: "\<exists>address. load_u64 (at page v + word_of_nat (8 * i)) s3 = Some address \<and>
       (\<forall>j < length (arguments ! i). load_u8 (address + word_of_nat j) s3 = Some (arguments ! i ! j)) \<and>
       load_u8 (address + word_of_nat (length (arguments ! i))) s3 = Some 0 \<and>
       unat (at page v) + 8 * (?n + 1) \<le> unat address \<and> unat address + length (arguments ! i) < unat page + 4096" if i: "i < ?n" for i
  proof (intro exI [of _ "at page (offs ! i)"] conjI allI impI)
    note a = each [rule_format, OF i]
    show "load_u64 (at page v + word_of_nat (8 * i)) s3 = Some (at page (offs ! i))"
      using ld64 [of "v + 8 * i"] a v(3) i by (simp add: add.assoc)
    show "load_u8 (at page (offs ! i) + word_of_nat j) s3 = Some (arguments ! i ! j)" if "j < length (arguments ! i)" for j
      using ld8 [of "offs ! i + j"] a that by (simp add: add.assoc)
    show "load_u8 (at page (offs ! i) + word_of_nat (length (arguments ! i))) s3 = Some 0"
      using ld8 [of "offs ! i + length (arguments ! i)"] a by (simp add: add.assoc)
    have "v < 4096" "offs ! i < 4096" using a by simp_all
    note u = offset_bits(3) [OF conjunct1 [OF al] this(1)] offset_bits(3) [OF conjunct1 [OF al] this(2)]
    show "unat (at page v) + 8 * (?n + 1) \<le> unat (at page (offs ! i))" unfolding u using a by simp
    show "unat (at page (offs ! i)) + length (arguments ! i) < unat page + 4096" unfolding u using a by simp
  qed
  have null: "load_u64 (at page v + word_of_nat (8 * ?n)) s3 = Some 0"
    using ld64 [OF v(3)] null by (simp add: add.assoc)
  have "v - 72 < 4096" "v < 4096" using v(3) by simp_all
  note u = offset_bits(3) [OF conjunct1 [OF al] this(1)] offset_bits(3) [OF conjunct1 [OF al] this(2)]
  have "16 dvd unat page" using conjunct1 [OF al] dvd_trans [of 16 4096 "unat page"] by (simp add: aligned_dvd)
  moreover have "(v - 72) mod 16 = 8"
  proof -
    obtain r where r: "v = 16 * r" using v(2) by (auto elim!: dvdE simp: mod_eq_0_iff_dvd)
    then have "v - 72 = 8 + 16 * (r - 5)" using v(1) by simp
    then show ?thesis by simp
  qed
  ultimately have "unat (at page (v - 72)) mod 16 = 8" unfolding u(1) by (metis dvd_imp_mod_0 add_0 mod_add_eq mod_mod_trivial)
  moreover have "unat page \<le> unat (at page (v - 72))" "unat (at page (v - 72)) + 72 \<le> unat (at page v)"
    unfolding u using v(1) by simp_all
  ultimately show ?thesis using run args null s3 w3 by blast
qed

text \<open>
  C11: A program finds its arguments where it expects them. If the page below the top of the stack is mapped
  writable and the arguments fit, \<open>place_arguments\<close> does not fault; the answer points at an array whose
  entries point at the arguments, each followed by a zero byte, in order, with a null pointer at the end.
  Everything lies in that page, in this order from below: the stack pointer, eight bytes off a multiple of
  sixteen as after a call, with at least 72 bytes to the array; the array with its null pointer; and the strings,
  zero bytes included, which end below the top of the stack.
\<close>

theorem arguments_placed:
  assumes "window s page f" "stack_top = page + 4096" "arguments_need arguments + 8 * length arguments + 96 \<le> 4096"
  shows "\<exists>stack argv s'. place_arguments stack_top arguments s = Some ((stack, word_of_nat (length arguments), argv), s') \<and>
    (\<forall>i < length arguments. \<exists>address. load_u64 (argv + word_of_nat (8 * i)) s' = Some address \<and>
       (\<forall>j < length (arguments ! i). load_u8 (address + word_of_nat j) s' = Some (arguments ! i ! j)) \<and>
       load_u8 (address + word_of_nat (length (arguments ! i))) s' = Some 0 \<and>
       unat argv + 8 * (length arguments + 1) \<le> unat address \<and> unat address + length (arguments ! i) < unat page + 4096) \<and>
    load_u64 (argv + word_of_nat (8 * length arguments)) s' = Some 0 \<and>
    unat stack mod 16 = 8 \<and> unat page \<le> unat stack \<and> unat stack + 72 \<le> unat argv"
  using arguments_spec [OF assms] by blast

definition demo_active :: Memory where "demo_active = demo_mapped\<lparr> cr3 := 0x100000 \<rparr>"

lemma demo_window: "window demo_active 0x400000 0x300000"
proof -
  have "\<forall>leaf \<in> set_option (walk3 True demo_active (cr3 demo_active) (take 3 (indexes 0x400000))). aligned leaf \<and> leaf \<noteq> 0x300000 \<and>
       0x300000 \<notin> set (read_tables (phys demo_active) (cr3 demo_active) (take 3 (indexes 0x400000))) \<and>
       phys demo_active (entry_ptr leaf (indexes 0x400000 ! 3)) AND PRESENT \<noteq> 0 \<and>
       phys demo_active (entry_ptr leaf (indexes 0x400000 ! 3)) AND ADDRESS_MASK = 0x300000"
    "walk3 True demo_active (cr3 demo_active) (take 3 (indexes 0x400000)) \<noteq> None"
    "0x300000 \<notin> set (read_tables (phys demo_active) (cr3 demo_active) (indexes 0x400000))"
    "case translate_active 0x400000 demo_active of None \<Rightarrow> False | Some (_, es) \<Rightarrow> may_write es"
    by code_simp+
  moreover have "aligned 0x400000" "aligned (cr3 demo_active)" by code_simp+
  ultimately show ?thesis by (auto simp: window_def)
qed

theorem arguments_placed_witness:
  "\<exists>stack argv s'. place_arguments 0x401000 [[0x6C, 0x73], [0x2D, 0x6C]] demo_active = Some ((stack, 2, argv), s') \<and>
    (\<exists>address. load_u64 (argv + 8) s' = Some address \<and> load_u8 (address + 1) s' = Some 0x6C \<and> unat address + 2 < 0x401000) \<and>
    unat stack mod 16 = 8"
proof -
  let ?a = "[[0x6C, 0x73 :: u8], [0x2D, 0x6C]]"
  have "0x401000 = 0x400000 + (4096 :: u64)" "arguments_need ?a + 8 * length ?a + 96 \<le> 4096" by code_simp+
  from arguments_placed [OF demo_window this] obtain stack argv s' where r:
      "place_arguments 0x401000 ?a demo_active = Some ((stack, word_of_nat (length ?a), argv), s')"
      "\<forall>i < length ?a. \<exists>address. load_u64 (argv + word_of_nat (8 * i)) s' = Some address \<and>
       (\<forall>j < length (?a ! i). load_u8 (address + word_of_nat j) s' = Some (?a ! i ! j)) \<and>
       load_u8 (address + word_of_nat (length (?a ! i))) s' = Some 0 \<and>
       unat argv + 8 * (length ?a + 1) \<le> unat address \<and> unat address + length (?a ! i) < unat (0x400000 :: u64) + 4096"
      "unat stack mod 16 = 8" by blast
  obtain address where a: "load_u64 (argv + word_of_nat (8 * 1)) s' = Some address"
      "\<forall>j < length (?a ! 1). load_u8 (address + word_of_nat j) s' = Some (?a ! 1 ! j)" "unat address + 2 < 0x401000"
    using r(2) [rule_format, of 1] by auto
  have "load_u8 (address + 1) s' = Some 0x6C" using a(2) [rule_format, of 1] by simp
  then show ?thesis using r(1,3) a(1,3) by (intro exI [of _ stack] exI [of _ argv] exI [of _ s']) simp
qed

end
