(* ===== verification/Space.thy ===== *)
theory Space
  imports Sharing User_Memory
begin

text \<open>
  The user half of an address space as a tree. A node is a table or, four levels down, the frame of a
  page; it is named by the indexes that lead to it. In a well-formed space different paths lead to different
  frames and none of them is free, so linking a new frame or writing through a page changes what one
  path means and no other. What a program sees is then a partial map from addresses to bytes, and the kernel's
  operations on page tables and memory are updates of that map.
\<close>

section \<open>Nodes\<close>

fun node :: "(u64 \<Rightarrow> u64) \<Rightarrow> u64 \<Rightarrow> nat list \<Rightarrow> u64 option" where
  "node m t [] = Some t"
| "node m t (i # is) = (let e = m (entry_ptr t i) in if e AND PRESENT = 0 then None else node m (e AND ADDRESS_MASK) is)"

definition user_index :: "nat list \<Rightarrow> bool" where
  "user_index p \<longleftrightarrow> length p \<le> 4 \<and> (\<forall>i \<in> set p. i < 512) \<and> (p \<noteq> [] \<longrightarrow> hd p = 0)"

lemma user_index_Nil [simp]: "user_index []" by (simp add: user_index_def)

lemma user_index_snoc: "user_index (p @ [i]) \<Longrightarrow> user_index p \<and> i < 512 \<and> length p < 4"
  by (cases p) (auto simp: user_index_def)

lemma user_index_append: "user_index (p @ q) \<Longrightarrow> user_index p"
  by (cases p) (auto simp: user_index_def)

lemma node_append: "node m t (p @ q) = Option.bind (node m t p) (\<lambda>u. node m u q)"
  by (induction p arbitrary: t) (auto simp: Let_def)

lemma node_snoc:
  "node m t (p @ [i]) = Option.bind (node m t p) (\<lambda>u. let e = m (entry_ptr u i) in if e AND PRESENT = 0 then None else Some (e AND ADDRESS_MASK))"
  by (cases "node m t p") (simp_all add: node_append Let_def)

lemma node_aligned: "node m t p = Some f \<Longrightarrow> aligned t \<Longrightarrow> aligned f"
  by (induction p arbitrary: t) (auto simp: Let_def split: if_splits)

lemma indexes_user: "a < USER_SPACE_END \<Longrightarrow> user_index (indexes a) \<and> length (indexes a) = 4"
proof -
  assume "a < USER_SPACE_END"
  moreover have "page_base a \<le> a" by (simp add: word_le_nat_alt unat_page_base)
  ultimately have "page_base a < USER_SPACE_END" by simp
  then have "indexes a ! 0 = 0" using page_address_indexes(2) [of "page_base a"] by simp
  then show ?thesis using indexes_less [of _ a] by (simp add: user_index_def indexes_def)
qed

lemma indexes_inj:
  assumes "a < USER_SPACE_END" "b < USER_SPACE_END" "indexes a = indexes b"
  shows "page_base a = page_base b"
proof -
  have "page_base a \<le> a" "page_base b \<le> b" by (simp_all add: word_le_nat_alt unat_page_base)
  then have "page_base a < USER_SPACE_END" "page_base b < USER_SPACE_END" using assms by simp_all
  then show ?thesis using page_address_indexes(1) [of "page_base a"] page_address_indexes(1) [of "page_base b"] assms(3) by simp
qed

lemma indexes_same_page: "page_base a = page_base b \<Longrightarrow> indexes a = indexes b"
  using indexes_page_base [of a] indexes_page_base [of b] by simp

section \<open>Changing one entry\<close>

text \<open>Entries that keep their presence and their address keep every node.\<close>

lemma node_cong:
  assumes "\<And>p t i. user_index (p @ [i]) \<Longrightarrow> node m root p = Some t \<Longrightarrow>
      (m' (entry_ptr t i) AND PRESENT = 0) = (m (entry_ptr t i) AND PRESENT = 0) \<and>
      (m (entry_ptr t i) AND PRESENT \<noteq> 0 \<longrightarrow> m' (entry_ptr t i) AND ADDRESS_MASK = m (entry_ptr t i) AND ADDRESS_MASK)"
    and "user_index q"
  shows "node m' root q = node m root q"
  using assms(2)
proof (induction q rule: rev_induct)
  case (snoc i q)
  then have IH: "node m' root q = node m root q" using user_index_snoc by blast
  show ?case
  proof (cases "node m root q")
    case (Some t)
    show ?thesis using assms(1) [OF snoc.prems Some] IH Some by (simp add: node_snoc Let_def)
  qed (simp add: node_snoc IH)
qed simp

text \<open>Linking a frame that is no node yet into a free entry adds one node; a new table is empty.\<close>

lemma node_link:
  assumes p: "user_index (p @ [i])" "node m root p = Some t" and al: "aligned root"
    and inj: "\<And>q r f. user_index q \<Longrightarrow> user_index r \<Longrightarrow> node m root q = Some f \<Longrightarrow> node m root r = Some f \<Longrightarrow> q = r"
    and new: "\<And>q. user_index q \<Longrightarrow> node m root q \<noteq> Some new"
    and off: "m (entry_ptr t i) AND PRESENT = 0"
    and entry: "m' (entry_ptr t i) AND PRESENT \<noteq> 0" "m' (entry_ptr t i) AND ADDRESS_MASK = new"
    and zero: "length p < 3 \<Longrightarrow> \<forall>j < 512. m' (entry_ptr new j) AND PRESENT = 0"
    and same: "\<And>a. page_base a \<noteq> new \<Longrightarrow> a \<noteq> entry_ptr t i \<Longrightarrow> m' a = m a"
    and q: "user_index q"
  shows "node m' root q = (if q = p @ [i] then Some new else node m root q)"
  using q
proof (induction q rule: rev_induct)
  case (snoc j q)
  note q = user_index_snoc [OF snoc.prems]
  note IH = snoc.IH [OF conjunct1 [OF q]]
  show ?case
  proof (cases "q = p @ [i]")
    case True
    then have "length p < 3" using q by simp
    then have "m' (entry_ptr new j) AND PRESENT = 0" using zero q by blast
    moreover have "node m root q = None" using True p(2) off by (simp add: node_snoc)
    ultimately show ?thesis using IH True node_snoc [of m' root q j] node_snoc [of m root q j] by simp
  next
    case False
    show ?thesis
    proof (cases "node m root q")
      case None
      then have "q @ [j] \<noteq> p @ [i]" using p(2) by auto
      then show ?thesis using None IH False by (simp add: node_snoc)
    next
      case (Some u)
      have u: "aligned u" "aligned t" using Some p(2) al node_aligned by blast+
      have i: "i < 512" using user_index_snoc [OF p(1)] by blast
      show ?thesis
      proof (cases "entry_ptr u j = entry_ptr t i")
        case True
        then have "u = t" using page_base_entry u q i by metis
        then have "q @ [j] = p @ [i]"
          using True inj [OF _ _ Some] p(2) user_index_snoc [OF p(1)] q entry_ptr_inj [of t j i] by simp
        then show ?thesis using IH Some entry True by (simp add: node_snoc)
      next
        case ne: False
        have "u \<noteq> new" using new Some q by blast
        then have "m' (entry_ptr u j) = m (entry_ptr u j)" using same ne u q by simp
        moreover have "q @ [j] \<noteq> p @ [i]" using ne Some p(2) by auto
        ultimately show ?thesis using IH Some False by (auto simp: node_snoc)
      qed
    qed
  qed
qed simp

section \<open>Well-formed spaces\<close>

definition nodes :: "Memory \<Rightarrow> u64 \<Rightarrow> u64 set" where
  "nodes s root = {f. \<exists>q. user_index q \<and> node (phys s) root q = Some f}"

text \<open>The entry of a table of the user half: the tables are created writable and open to user mode.\<close>

definition table_entry :: "u64 \<Rightarrow> bool" where
  "table_entry e \<longleftrightarrow> e AND HUGE = 0 \<and> e AND USER \<noteq> 0 \<and> e AND WRITABLE \<noteq> 0"

lemma or_WRITABLE_set: "(e OR WRITABLE) AND WRITABLE \<noteq> 0"
  unfolding flag_test by (simp add: bit_or_iff bit_flags)

lemma table_entry_user: "table_entry e \<Longrightarrow> table_entry (e OR USER)"
  using flag_test(4) [of e] flag_test(4) [of "e OR USER"] unfolding table_entry_def flag_test(2,3) by (auto simp: bit_or_iff bit_flags)

definition space_ok :: "Memory \<Rightarrow> u64 \<Rightarrow> bool" where
  "space_ok s root \<longleftrightarrow> frames_wf s \<and> frames_encodable s \<and> aligned root \<and>
     (\<forall>p f. user_index p \<longrightarrow> node (phys s) root p = Some f \<longrightarrow> f \<notin> free_frames s \<and> f \<noteq> 0) \<and>
     (\<forall>p q f. user_index p \<longrightarrow> user_index q \<longrightarrow> node (phys s) root p = Some f \<longrightarrow> node (phys s) root q = Some f \<longrightarrow> p = q) \<and>
     (\<forall>p i t. user_index (p @ [i]) \<longrightarrow> length p < 3 \<longrightarrow> node (phys s) root p = Some t \<longrightarrow>
        phys s (entry_ptr t i) AND PRESENT \<noteq> 0 \<longrightarrow> table_entry (phys s (entry_ptr t i)))"

lemma space_okD:
  assumes "space_ok s root"
  shows "frames_wf s" "frames_encodable s" "aligned root"
    "\<And>p f. user_index p \<Longrightarrow> node (phys s) root p = Some f \<Longrightarrow> f \<notin> free_frames s \<and> f \<noteq> 0"
    "\<And>p q f. user_index p \<Longrightarrow> user_index q \<Longrightarrow> node (phys s) root p = Some f \<Longrightarrow> node (phys s) root q = Some f \<Longrightarrow> p = q"
    "\<And>p i t. user_index (p @ [i]) \<Longrightarrow> length p < 3 \<Longrightarrow> node (phys s) root p = Some t \<Longrightarrow>
      phys s (entry_ptr t i) AND PRESENT \<noteq> 0 \<Longrightarrow> table_entry (phys s (entry_ptr t i))"
  using assms unfolding space_ok_def by blast+

text \<open>The entry of a page: 0 when its table does not exist.\<close>

definition page_entry :: "Memory \<Rightarrow> u64 \<Rightarrow> nat list \<Rightarrow> u64" where
  "page_entry s root q = (case node (phys s) root (butlast q) of None \<Rightarrow> 0 | Some t \<Rightarrow> phys s (entry_ptr t (last q)))"

lemma page_entry_snoc:
  "page_entry s root (p @ [i]) = (case node (phys s) root p of None \<Rightarrow> 0 | Some t \<Rightarrow> phys s (entry_ptr t i))"
  by (simp add: page_entry_def split: option.split)

lemma node_page_entry:
  "q \<noteq> [] \<Longrightarrow> node (phys s) root q = (if page_entry s root q AND PRESENT = 0 then None else Some (page_entry s root q AND ADDRESS_MASK))"
proof -
  assume "q \<noteq> []"
  then have "node (phys s) root q = node (phys s) root (butlast q @ [last q])" by simp
  also have "\<dots> = (if page_entry s root q AND PRESENT = 0 then None else Some (page_entry s root q AND ADDRESS_MASK))"
    by (simp only: node_snoc) (simp add: page_entry_def Let_def split: option.split)
  finally show ?thesis .
qed

text \<open>
  What may happen to a space while tables are added to it: nodes stay, new ones come from free frames,
  the entries of pages stay, and so does memory that is neither free nor a table of the space.
\<close>

definition extends :: "u64 \<Rightarrow> Memory \<Rightarrow> Memory \<Rightarrow> bool" where
  "extends root s s' \<longleftrightarrow> space_ok s' root \<and> cr3 s' = cr3 s \<and> shared_tab s' = shared_tab s \<and> free_frames s' \<subseteq> free_frames s \<and>
     (\<forall>q f. user_index q \<longrightarrow> node (phys s) root q = Some f \<longrightarrow> node (phys s') root q = Some f) \<and>
     (\<forall>q f. user_index q \<longrightarrow> node (phys s') root q = Some f \<longrightarrow> node (phys s) root q = Some f \<or> f \<in> free_frames s) \<and>
     (\<forall>q. user_index q \<longrightarrow> length q = 4 \<longrightarrow> page_entry s' root q = page_entry s root q) \<and>
     (\<forall>a. page_base a \<notin> free_frames s \<longrightarrow> (\<forall>q. user_index q \<longrightarrow> length q \<le> 3 \<longrightarrow> node (phys s) root q \<noteq> Some (page_base a)) \<longrightarrow>
        phys s' a = phys s a)"

lemma extends_refl: "space_ok s root \<Longrightarrow> extends root s s"
  by (simp add: extends_def)

lemma extendsD:
  assumes "extends root s s'"
  shows "space_ok s' root" "cr3 s' = cr3 s" "\<And>f. f \<in> free_frames s' \<Longrightarrow> f \<in> free_frames s"
    "\<And>q f. user_index q \<Longrightarrow> node (phys s) root q = Some f \<Longrightarrow> node (phys s') root q = Some f"
    "\<And>q f. user_index q \<Longrightarrow> node (phys s') root q = Some f \<Longrightarrow> node (phys s) root q = Some f \<or> f \<in> free_frames s"
    "\<And>q. user_index q \<Longrightarrow> length q = 4 \<Longrightarrow> page_entry s' root q = page_entry s root q"
    "\<And>a. page_base a \<notin> free_frames s \<Longrightarrow> (\<And>q. user_index q \<Longrightarrow> length q \<le> 3 \<Longrightarrow> node (phys s) root q \<noteq> Some (page_base a)) \<Longrightarrow>
      phys s' a = phys s a"
    "shared_tab s' = shared_tab s"
  using assms unfolding extends_def by blast+

lemma extends_trans:
  assumes "extends root s s1" "extends root s1 s2"
  shows "extends root s s2"
  unfolding extends_def
proof (intro conjI allI impI)
  note e1 = extendsD [OF assms(1)] and e2 = extendsD [OF assms(2)]
  show "space_ok s2 root" by (rule e2)
  show "cr3 s2 = cr3 s" "shared_tab s2 = shared_tab s" using e1(2,8) e2(2,8) by simp_all
  show "free_frames s2 \<subseteq> free_frames s" using e1(3) e2(3) by blast
  show "node (phys s2) root q = Some f" if "user_index q" "node (phys s) root q = Some f" for q f
    using e2(4) [OF that(1) e1(4) [OF that]] .
  show "node (phys s) root q = Some f \<or> f \<in> free_frames s" if "user_index q" "node (phys s2) root q = Some f" for q f
    using e2(5) [OF that] e1(3,5) that(1) by blast
  show "page_entry s2 root q = page_entry s root q" if "user_index q" "length q = 4" for q
    using e1(6) [OF that] e2(6) [OF that] by simp
  show "phys s2 a = phys s a" if a: "page_base a \<notin> free_frames s"
    "\<forall>q. user_index q \<longrightarrow> length q \<le> 3 \<longrightarrow> node (phys s) root q \<noteq> Some (page_base a)" for a
  proof -
    have "page_base a \<notin> free_frames s1" using a(1) e1(3) by blast
    moreover have "node (phys s1) root q \<noteq> Some (page_base a)" if "user_index q" "length q \<le> 3" for q
      using e1(5) [OF that(1)] a that by blast
    ultimately have "phys s2 a = phys s1 a" using e2(7) by blast
    moreover have "phys s1 a = phys s a" using a by (intro e1(7)) blast+
    ultimately show ?thesis by simp
  qed
qed

section \<open>Adding tables\<close>

lemma node_in_page: "user_index (p @ [i]) \<Longrightarrow> node m root p = Some t \<Longrightarrow> aligned root \<Longrightarrow> page_base (entry_ptr t i) = t \<and> aligned t"
  using node_aligned [of m root p t] user_index_snoc by simp

lemma page_split: "length q = 4 \<Longrightarrow> q = butlast q @ [last q] \<and> length (butlast q) = 3"
  by (cases q rule: rev_cases) auto

lemma same_entry:
  assumes "space_ok s root" "user_index (p @ [i])" "user_index (q @ [j])" "node (phys s) root p = Some t" "node (phys s) root q = Some u"
    "entry_ptr u j = entry_ptr t i"
  shows "q = p \<and> j = i \<and> u = t"
proof -
  note d = space_okD [OF assms(1)]
  have "u = t" using node_in_page [OF assms(2,4) d(3)] node_in_page [OF assms(3,5) d(3)] assms(6) by metis
  then show ?thesis using d(5) [of q p t] assms user_index_snoc entry_ptr_inj [of t j i] by metis
qed

lemma free_frames_outside:
  assumes "frames_wf s" "\<And>a. page_base a \<in> free_frames s \<Longrightarrow> phys s' a = phys s a" "fa_head s' = fa_head s" "fa_free s' = fa_free s"
  shows "free_frames s' = free_frames s \<and> frames_wf s'"
proof -
  have "phys s' f = phys s f" if "f \<in> free_frames s" for f
  proof -
    have "page_base f = f" using that assms(1) page_base_aligned by (auto simp: frames_wf_def)
    then show ?thesis using assms(2) that by simp
  qed
  then show ?thesis using assms free_frames_cong [of s s'] by simp
qed

lemma free_frames_put: "frames_wf s \<Longrightarrow> page_base a \<notin> free_frames s \<Longrightarrow> free_frames (put a v s) = free_frames s \<and> frames_wf (put a v s)"
  by (rule free_frames_outside) auto

lemma free_frames_zero: "frames_wf s \<Longrightarrow> f \<notin> free_frames s \<Longrightarrow> free_frames (zero_page f s) = free_frames s \<and> frames_wf (zero_page f s)"
  by (rule free_frames_outside) auto

text \<open>Changing the flags of an entry.\<close>

lemma space_put_flags:
  assumes ok: "space_ok s root" and p: "user_index (p @ [i])" "node (phys s) root p = Some t"
    and e: "(e AND PRESENT = 0) = (phys s (entry_ptr t i) AND PRESENT = 0)"
      "e AND PRESENT \<noteq> 0 \<Longrightarrow> e AND ADDRESS_MASK = phys s (entry_ptr t i) AND ADDRESS_MASK"
      "length p < 3 \<Longrightarrow> e AND PRESENT \<noteq> 0 \<Longrightarrow> table_entry e"
    and s': "s' = put (entry_ptr t i) e s"
  shows "space_ok s' root \<and> free_frames s' = free_frames s \<and> (\<forall>q. user_index q \<longrightarrow> node (phys s') root q = node (phys s) root q)"
proof -
  note d = space_okD [OF ok]
  have ph: "phys s' a = (if a = entry_ptr t i then e else phys s a)" for a by (simp add: s')
  have nd: "node (phys s') root q = node (phys s) root q" if "user_index q" for q
    using that e by (intro node_cong) (auto simp: ph)
  have "t \<notin> free_frames s" using d(4) [of p t] p user_index_snoc by blast
  then have fr: "free_frames s' = free_frames s \<and> frames_wf s'"
    unfolding s' using node_in_page [OF p d(3)] d(1) by (intro free_frames_put) simp_all
  have "space_ok s' root"
    unfolding space_ok_def
  proof (intro conjI allI impI)
    show "frames_wf s'" "aligned root" using fr d by simp_all
    show "frames_encodable s'" using d(2) fr by (simp add: frames_encodable_def)
    show "f \<notin> free_frames s'" "f \<noteq> 0" if "user_index q" "node (phys s') root q = Some f" for q f
      using d(4) that nd fr by simp_all
    show "q = r" if "user_index q" "user_index r" "node (phys s') root q = Some f" "node (phys s') root r = Some f" for q r f
      using d(5) that nd by simp
    have huge: "table_entry (phys s' (entry_ptr u j))"
      if q: "user_index (q @ [j])" "length q < 3" "node (phys s') root q = Some u" "phys s' (entry_ptr u j) AND PRESENT \<noteq> 0" for q j u
    proof -
      have u: "node (phys s) root q = Some u" using q(1,3) nd user_index_snoc by metis
      show ?thesis
      proof (cases "entry_ptr u j = entry_ptr t i")
        case True
        then have "q = p" using same_entry [OF ok p(1) q(1) p(2) u] by blast
        then show ?thesis using e(3) q(2,4) True by (simp add: ph)
      next
        case False
        then show ?thesis using d(6) [OF q(1,2) u] q(4) by (simp add: ph)
      qed
    qed
    show "table_entry (phys s' (entry_ptr u j))"
      if "user_index (q @ [j])" "length q < 3" "node (phys s') root q = Some u" "phys s' (entry_ptr u j) AND PRESENT \<noteq> 0" for q j u
      using huge [OF that] by simp_all
  qed
  then show ?thesis using fr nd by blast
qed

lemma page_entry_put:
  assumes ok: "space_ok s root" and p: "user_index (p @ [i])" "node (phys s) root p = Some t"
    and nd: "\<And>q. user_index q \<Longrightarrow> length q \<le> 3 \<Longrightarrow> node (phys (put (entry_ptr t i) e s)) root q = node (phys s) root q"
    and q: "user_index q" "length q = 4"
  shows "page_entry (put (entry_ptr t i) e s) root q = (if q = p @ [i] then e else page_entry s root q)"
proof -
  have q': "q = butlast q @ [last q]" "user_index (butlast q @ [last q])" "length (butlast q) \<le> 3" using q page_split [OF q(2)] by simp_all
  have n: "node (phys (put (entry_ptr t i) e s)) root (butlast q) = node (phys s) root (butlast q)"
    using nd [of "butlast q"] q'(2,3) user_index_snoc by blast
  show ?thesis
  proof (cases "node (phys s) root (butlast q)")
    case None
    then have "q \<noteq> p @ [i]" using p(2) by auto
    then show ?thesis using None n by (simp add: page_entry_def)
  next
    case (Some u)
    have "(entry_ptr u (last q) = entry_ptr t i) = (q = p @ [i])"
      using same_entry [OF ok p(1) q'(2) p(2) Some] q'(1) Some p(2) by auto
    then show ?thesis using Some n by (simp add: page_entry_def)
  qed
qed

text \<open>A new, empty table.\<close>

lemma space_grow:
  assumes ok: "space_ok s root" and p: "user_index (p @ [i])" "node (phys s) root p = Some t" "length p < 3"
    and off: "phys s (entry_ptr t i) AND PRESENT = 0" and new: "frame_allocate s = Some (new, s1)"
    and v: "v AND PRESENT \<noteq> 0" "v AND ADDRESS_MASK = new" "table_entry v"
    and s2: "s2 = put (entry_ptr t i) v (zero_page new s1)"
  shows "extends root s s2 \<and> node (phys s2) root (p @ [i]) = Some new \<and> new \<in> free_frames s \<and> free_frames s2 = free_frames s - {new}"
proof -
  note d = space_okD [OF ok]
  note al = frame_allocate_Some [OF d(1) new]
  note tp = node_in_page [OF p(1,2) d(3)]
  have nn: "node (phys s) root q \<noteq> Some new" if "user_index q" for q using d(4) [OF that] al by blast
  have tn: "t \<noteq> new" "aligned new" "t \<notin> free_frames s"
    using nn [of p] p user_index_snoc al d(1) d(4) [of p t] by (auto simp: frames_wf_def)
  have ph: "phys s2 a = (if a = entry_ptr t i then v else if page_base a = new then 0 else phys s a)" for a
    using al by (simp add: s2)
  have zero: "phys s2 (entry_ptr new j) = 0" if "j < 512" for j
    using ph [of "entry_ptr new j"] tn that tp by (metis page_base_entry)
  have nd: "node (phys s2) root q = (if q = p @ [i] then Some new else node (phys s) root q)" if "user_index q" for q
  proof (rule node_link [OF p(1,2) d(3) d(5) nn off _ _ _ _ that])
    show "phys s2 (entry_ptr t i) AND PRESENT \<noteq> 0" "phys s2 (entry_ptr t i) AND ADDRESS_MASK = new" using v by (simp_all add: ph)
    show "\<forall>j < 512. phys s2 (entry_ptr new j) AND PRESENT = 0" using zero by simp
    show "phys s2 a = phys s a" if "page_base a \<noteq> new" "a \<noteq> entry_ptr t i" for a using that by (simp add: ph)
  qed
  have e2: "phys s2 (entry_ptr u j) = (if q = p \<and> j = i then v else phys s (entry_ptr u j))"
    if "user_index (q @ [j])" "node (phys s) root q = Some u" for q j u
  proof -
    have "page_base (entry_ptr u j) \<noteq> new" using node_in_page [OF that d(3)] nn [of q] that user_index_snoc by metis
    then show ?thesis using same_entry [OF ok p(1) that(1) p(2) that(2)] that p(2) by (auto simp: ph)
  qed
  have "frames_wf (zero_page new s1) \<and> free_frames (zero_page new s1) = free_frames s1"
    using al free_frames_zero [of s1 new] by simp
  then have fr: "free_frames s2 = free_frames s - {new} \<and> frames_wf s2"
    using free_frames_put [of "zero_page new s1" "entry_ptr t i" v] al tp tn by (simp add: s2)
  have pn: "node (phys s) root (p @ [i]) = None" using p(2) off by (simp add: node_snoc)
  have "space_ok s2 root"
    unfolding space_ok_def
  proof (intro conjI allI impI)
    show "frames_wf s2" "aligned root" using fr d by simp_all
    show "frames_encodable s2" using d(2) fr by (simp add: frames_encodable_def)
    show "f \<notin> free_frames s2" "f \<noteq> 0" if "user_index q" "node (phys s2) root q = Some f" for q f
      using d(4) that nd fr al by (auto split: if_splits)
    show "q = r" if "user_index q" "user_index r" "node (phys s2) root q = Some f" "node (phys s2) root r = Some f" for q r f
      using d(5) that nd [of q] nd [of r] nn by (auto split: if_splits)
    have huge: "table_entry (phys s2 (entry_ptr u j))"
      if q: "user_index (q @ [j])" "length q < 3" "node (phys s2) root q = Some u" "phys s2 (entry_ptr u j) AND PRESENT \<noteq> 0" for q j u
    proof (cases "q = p @ [i]")
      case True
      then show ?thesis using q nd [of q] zero [of j] user_index_snoc [OF q(1)] by simp
    next
      case False
      then have "node (phys s) root q = Some u" using q(3) nd [of q] user_index_snoc [OF q(1)] by simp
      then show ?thesis using e2 [OF q(1)] d(6) [OF q(1,2)] q(4) v(3) by auto
    qed
    show "table_entry (phys s2 (entry_ptr u j))"
      if "user_index (q @ [j])" "length q < 3" "node (phys s2) root q = Some u" "phys s2 (entry_ptr u j) AND PRESENT \<noteq> 0" for q j u
      using huge [OF that] by simp_all
  qed
  moreover have "page_entry s2 root q = page_entry s root q" if "user_index q" "length q = 4" for q
  proof -
    note b = page_split [OF that(2)]
    have ub: "user_index (butlast q @ [last q])" using that b by metis
    show ?thesis
    proof (cases "butlast q = p @ [i]")
      case True
      then show ?thesis using nd [of "butlast q"] ub user_index_snoc [OF ub] zero [of "last q"] pn by (simp add: page_entry_def)
    next
      case False
      moreover have "butlast q \<noteq> p" using b p(3) by auto
      ultimately show ?thesis using nd [of "butlast q"] user_index_snoc [OF ub] e2 [OF ub]
        by (auto simp: page_entry_def split: option.split)
    qed
  qed
  moreover have "phys s2 a = phys s a"
    if "page_base a \<notin> free_frames s" "\<forall>q. user_index q \<longrightarrow> length q \<le> 3 \<longrightarrow> node (phys s) root q \<noteq> Some (page_base a)" for a
    using that p user_index_snoc [OF p(1)] al tp by (auto simp: ph)
  moreover have "cr3 s2 = cr3 s" "shared_tab s2 = shared_tab s" using new by (auto simp: s2 frame_allocate_def Let_def split: if_splits)
  ultimately show ?thesis using fr nd pn al p(1) by (auto simp: extends_def split: if_splits)
qed

lemma finite_free_frames [simp]: "finite (free_frames s)"
  by (simp add: free_frames_def)

lemma map_levels_extends:
  assumes "space_ok s root" "node (phys s) root p = Some t" "user_index (p @ is)" "length (p @ is) \<le> 3" "user = USER"
    "map_levels user is t s = (r, s')"
  shows "extends root s s' \<and> (\<forall>leaf. r = Inr leaf \<longrightarrow> node (phys s') root (p @ is) = Some leaf) \<and>
    card (free_frames s) \<le> card (free_frames s') + length is \<and> (\<forall>e. r = Inl e \<longrightarrow> card (free_frames s) < length is)"
  using assms
proof (induction "is" arbitrary: p t s)
  case Nil
  then show ?case using extends_refl by auto
next
  case (Cons i "is")
  note d = space_okD [OF Cons.prems(1)]
  have ui: "user_index (p @ [i])" using user_index_append [of "p @ [i]" "is"] Cons.prems(3) by simp
  have len: "length p < 3" "length ((p @ [i]) @ is) \<le> 3" using Cons.prems(4) by simp_all
  have pre: "user_index ((p @ [i]) @ is)" using Cons.prems(3) by simp
  from Cons.prems(6) show ?case
  proof (cases rule: map_levels_step)
    case (down s1 e)
    have e: "e AND ADDRESS_MASK = phys s (entry_ptr t i) AND ADDRESS_MASK" "table_entry e"
      using down d(6) [OF ui len(1) Cons.prems(2)] by (auto simp: or_USER or_USER_set table_entry_user)
    note f = space_put_flags [OF Cons.prems(1) ui Cons.prems(2), of e s1]
    have f: "space_ok s1 root" "free_frames s1 = free_frames s" "\<And>q. user_index q \<Longrightarrow> node (phys s1) root q = node (phys s) root q"
      using f down e by auto
    have "page_entry s1 root q = page_entry s root q" if "user_index q" "length q = 4" for q
      using page_entry_put [OF Cons.prems(1) ui Cons.prems(2) _ that, of e] f(3) down(3) that len(1) by auto
    moreover have "phys s1 a = phys s a"
      if "\<forall>q. user_index q \<longrightarrow> length q \<le> 3 \<longrightarrow> node (phys s) root q \<noteq> Some (page_base a)" for a
      using that Cons.prems(2) ui len(1) node_in_page [OF ui Cons.prems(2) d(3)] user_index_snoc [OF ui] down(3) by auto
    ultimately have x: "extends root s s1" using f down(3) by (auto simp: extends_def)
    have "node (phys s1) root (p @ [i]) = Some (e AND ADDRESS_MASK)"
      using f(3) [OF ui] Cons.prems(2) down(1) e by (simp add: node_snoc Let_def)
    from Cons.IH [OF f(1) this pre len(2) Cons.prems(5) down(4)] show ?thesis using extends_trans [OF x] f(2) by auto
  next
    case fail
    then show ?thesis using extends_refl Cons.prems(1) frame_allocate_None [OF d(1) fail(2)] by simp
  next
    case (grow new s1)
    let ?s2 = "put (entry_ptr t i) (new OR PRESENT OR WRITABLE OR user) (zero_page new s1)"
    have "new AND ADDRESS_MASK = new" using frame_allocate_Some [OF d(1) grow(2)] d(2) by (auto simp: frames_encodable_def)
    note v = target_new [OF this, of user]
    have "table_entry (new OR PRESENT OR WRITABLE OR user)"
      using v Cons.prems(5) or_USER_set [of "new OR PRESENT OR WRITABLE"] or_WRITABLE_set [of "new OR PRESENT OR user"]
      by (simp add: table_entry_def or.assoc or.commute [of WRITABLE])
    then have g: "extends root s ?s2 \<and> node (phys ?s2) root (p @ [i]) = Some new \<and> new \<in> free_frames s \<and> free_frames ?s2 = free_frames s - {new}"
      using space_grow [OF Cons.prems(1) ui Cons.prems(2) len(1) grow(1,2) _ _ _ refl] v Cons.prems(5) by simp
    have c: "card (free_frames s) = Suc (card (free_frames ?s2))" using g card.remove [OF finite_free_frames, of new s] by metis
    have "node (phys ?s2) root (p @ [i]) = Some new" using g by blast
    note IH = Cons.IH [OF extendsD(1) [OF conjunct1 [OF g]] this pre len(2) Cons.prems(5) grow(3)]
    have "extends root s s'" using IH extends_trans [OF conjunct1 [OF g]] by blast
    moreover have "\<forall>leaf. r = Inr leaf \<longrightarrow> node (phys s') root (p @ i # is) = Some leaf" using IH by simp
    moreover have "card (free_frames s) \<le> card (free_frames s') + length (i # is)" using IH c by simp
    moreover have "\<forall>e. r = Inl e \<longrightarrow> card (free_frames s) < length (i # is)" using IH c by simp
    ultimately show ?thesis by blast
  qed
qed

section \<open>Linking a page\<close>

lemma page_entry_phys: "phys s' = phys s \<Longrightarrow> page_entry s' root q = page_entry s root q"
  by (simp add: page_entry_def split: option.split)

lemma space_ok_fields: "space_ok s root \<Longrightarrow> phys s' = phys s \<Longrightarrow> fa_head s' = fa_head s \<Longrightarrow> fa_free s' = fa_free s \<Longrightarrow> space_ok s' root"
  using free_frames_fields [of s' s] by (simp add: space_ok_def frames_encodable_def)

lemma space_link_page:
  assumes ok: "space_ok s root" and p: "user_index (p @ [i])" "node (phys s) root p = Some t" "length p = 3"
    and off: "phys s (entry_ptr t i) AND PRESENT = 0"
    and new: "new \<notin> free_frames s" "\<And>q. user_index q \<Longrightarrow> node (phys s) root q \<noteq> Some new" "new \<noteq> 0"
    and v: "v AND PRESENT \<noteq> 0" "v AND ADDRESS_MASK = new"
    and s': "s' = put (entry_ptr t i) v s"
  shows "space_ok s' root \<and> free_frames s' = free_frames s \<and>
    (\<forall>q. user_index q \<longrightarrow> node (phys s') root q = (if q = p @ [i] then Some new else node (phys s) root q))"
proof -
  note d = space_okD [OF ok]
  note tp = node_in_page [OF p(1,2) d(3)]
  have ph: "phys s' a = (if a = entry_ptr t i then v else phys s a)" for a by (simp add: s')
  have nd: "node (phys s') root q = (if q = p @ [i] then Some new else node (phys s) root q)" if "user_index q" for q
    by (rule node_link [OF p(1,2) d(3) d(5) new(2) off _ _ _ _ that]) (use v p(3) in \<open>simp_all add: ph\<close>)
  have "t \<notin> free_frames s" using d(4) [of p t] p user_index_snoc by blast
  then have fr: "free_frames s' = free_frames s \<and> frames_wf s'"
    unfolding s' using tp d(1) by (intro free_frames_put) simp_all
  have huge: "table_entry (phys s' (entry_ptr u j))"
    if q: "user_index (q @ [j])" "length q < 3" "node (phys s') root q = Some u" "phys s' (entry_ptr u j) AND PRESENT \<noteq> 0" for q j u
  proof -
    have "q \<noteq> p @ [i]" using q(2) p(3) by auto
    then have u: "node (phys s) root q = Some u" using q(3) nd [of q] user_index_snoc [OF q(1)] by simp
    have "entry_ptr u j \<noteq> entry_ptr t i" using same_entry [OF ok p(1) q(1) p(2) u] q(2) p(3) by auto
    then show ?thesis using d(6) [OF q(1,2) u] q(4) by (simp add: ph)
  qed
  have "space_ok s' root"
    unfolding space_ok_def
  proof (intro conjI allI impI)
    show "frames_wf s'" "aligned root" using fr d by simp_all
    show "frames_encodable s'" using d(2) fr by (simp add: frames_encodable_def)
    show "f \<notin> free_frames s'" "f \<noteq> 0" if "user_index q" "node (phys s') root q = Some f" for q f
      using d(4) that nd fr new(1,3) by (auto split: if_splits)
    show "q = r" if "user_index q" "user_index r" "node (phys s') root q = Some f" "node (phys s') root r = Some f" for q r f
      using d(5) that nd [of q] nd [of r] new(2) by (auto split: if_splits)
    show "table_entry (phys s' (entry_ptr u j))"
      if "user_index (q @ [j])" "length q < 3" "node (phys s') root q = Some u" "phys s' (entry_ptr u j) AND PRESENT \<noteq> 0" for q j u
      using huge [OF that] by simp_all
  qed
  then show ?thesis using fr nd by blast
qed

text \<open>
  A page linked by \<open>map_page_in\<close>, and what a refusal means. \<open>frame\<close> was taken from the allocator before.
\<close>

definition fresh_frame :: "Memory \<Rightarrow> u64 \<Rightarrow> u64 \<Rightarrow> bool" where
  "fresh_frame s root frame \<longleftrightarrow> frame \<notin> free_frames s \<and> frame \<noteq> 0 \<and> frame AND ADDRESS_MASK = frame \<and>
     (\<forall>q. user_index q \<longrightarrow> node (phys s) root q \<noteq> Some frame)"

lemma fresh_allocated:
  assumes "space_ok s root" "frame_allocate s = Some (frame, s1)"
  shows "space_ok s1 root \<and> fresh_frame s1 root frame \<and> phys s1 = phys s \<and> cr3 s1 = cr3 s \<and> shared_tab s1 = shared_tab s \<and>
    card (free_frames s) = Suc (card (free_frames s1))"
proof -
  note d = space_okD [OF assms(1)]
  note al = frame_allocate_Some [OF d(1) assms(2)]
  have "cr3 s1 = cr3 s \<and> shared_tab s1 = shared_tab s" using assms(2) by (auto simp: frame_allocate_def Let_def split: if_splits)
  moreover have "space_ok s1 root"
    using al assms(1) unfolding space_ok_def frames_encodable_def by auto
  moreover have "fresh_frame s1 root frame" using al d(2,4) by (auto simp: fresh_frame_def frames_encodable_def)
  moreover have "card (free_frames s) = Suc (card (free_frames s1))" using al card.remove [OF finite_free_frames, of frame s] by metis
  ultimately show ?thesis using al by blast
qed

lemma map_page_space:
  assumes ok: "space_ok s root" and va: "va < USER_SPACE_END" and flags: "flags AND USER = USER" "flags AND ADDRESS_MASK = 0"
    and new: "fresh_frame s root frame" and run: "map_page_in root va frame flags s = (Inr u, s')"
  shows "space_ok s' root \<and> cr3 s' = cr3 s \<and> shared_tab s' = shared_tab s \<and> card (free_frames s) \<le> card (free_frames s') + 3 \<and>
    free_frames s' \<subseteq> free_frames s \<and> nodes s' root \<subseteq> nodes s root \<union> free_frames s \<union> {frame} \<and>
    (\<forall>q. user_index q \<longrightarrow> length q = 4 \<longrightarrow> page_entry s' root q = (if q = indexes va then frame OR flags OR PRESENT else page_entry s root q)) \<and>
    (\<forall>a. page_base a \<notin> free_frames s \<longrightarrow> (\<forall>q. user_index q \<longrightarrow> length q \<le> 3 \<longrightarrow> node (phys s) root q \<noteq> Some (page_base a)) \<longrightarrow>
        phys s' a = phys s a)"
proof -
  let ?p = "take 3 (indexes va)" and ?i = "indexes va ! 3"
  have f: "frame AND ADDRESS_MASK = frame" using new by (simp add: fresh_frame_def)
  have pi: "indexes va = ?p @ [?i]" "length ?p = 3" "user_index (?p @ [?i])"
    using indexes_split [of va] indexes_user [OF va] by simp_all
  obtain leaf s1 where m: "map_levels USER ?p root s = (Inr leaf, s1)" "phys s1 (entry_ptr leaf ?i) AND PRESENT = 0"
    "s' = put (entry_ptr leaf ?i) (frame OR flags OR PRESENT) s1 \<or>
     s' = (put (entry_ptr leaf ?i) (frame OR flags OR PRESENT) s1)\<lparr> replacers := note_resident (replacers s1) (page_base va) \<rparr>"
    using run f flags(1) USER_nonzero by (auto simp: map_page_in_def Let_def split: prod.splits sum.splits if_splits)
  let ?s2 = "put (entry_ptr leaf ?i) (frame OR flags OR PRESENT) s1"
  have same: "phys s' = phys ?s2" "fa_head s' = fa_head ?s2" "fa_free s' = fa_free ?s2" "cr3 s' = cr3 ?s2" using m(3) by auto
  have x: "extends root s s1" "node (phys s1) root ?p = Some leaf" "card (free_frames s) \<le> card (free_frames s1) + 3"
    using map_levels_extends [OF ok _ _ _ _ m(1), of "[]"] pi user_index_snoc [OF pi(3)] by auto
  note xd = extendsD [OF x(1)]
  have new1: "frame \<notin> free_frames s1" "node (phys s1) root q \<noteq> Some frame" if "user_index q" for q
    using new xd(3,5) that unfolding fresh_frame_def by blast+
  have nz: "frame \<noteq> 0" using new by (simp add: fresh_frame_def)
  have v: "(frame OR flags OR PRESENT) AND PRESENT \<noteq> 0" "(frame OR flags OR PRESENT) AND ADDRESS_MASK = frame"
    using leaf_word [OF flags(2), of frame] f by simp_all
  note l = space_link_page [OF xd(1) pi(3) x(2) pi(2) m(2) new1(1) [OF user_index_Nil] new1(2) nz v refl]
  have "space_ok s' root" using l same space_ok_fields by blast
  moreover have "free_frames s' = free_frames s1" using l same free_frames_fields [of s' ?s2] by simp
  then have "card (free_frames s) \<le> card (free_frames s') + 3" "free_frames s' \<subseteq> free_frames s" using x(3) xd(3) by auto
  moreover have "nodes s' root \<subseteq> nodes s root \<union> free_frames s \<union> {frame}"
  proof
    fix f assume "f \<in> nodes s' root"
    then obtain q where q: "user_index q" "node (phys ?s2) root q = Some f" unfolding nodes_def same(1) by blast
    then have "f = frame \<or> node (phys s1) root q = Some f" using l by (auto split: if_splits)
    then show "f \<in> nodes s root \<union> free_frames s \<union> {frame}" using xd(5) [OF q(1)] q(1) unfolding nodes_def by blast
  qed
  moreover have "page_entry s' root q = (if q = indexes va then frame OR flags OR PRESENT else page_entry s root q)"
    if "user_index q" "length q = 4" for q
  proof -
    have "node (phys ?s2) root r = node (phys s1) root r" if "user_index r" "length r \<le> 3" for r
      using l that pi(2) by (metis length_append_singleton Suc_n_not_le_n)
    then have "page_entry ?s2 root q = (if q = ?p @ [?i] then frame OR flags OR PRESENT else page_entry s1 root q)"
      using page_entry_put [OF xd(1) pi(3) x(2) _ that] by blast
    then show ?thesis using xd(6) [OF that] pi(1) page_entry_phys [OF same(1)] by simp
  qed
  moreover have "phys s' a = phys s a" if a: "page_base a \<notin> free_frames s"
      "\<forall>q. user_index q \<longrightarrow> length q \<le> 3 \<longrightarrow> node (phys s) root q \<noteq> Some (page_base a)" for a
  proof -
    have "node (phys s) root ?p \<noteq> Some (page_base a)" using a(2) pi user_index_snoc by (metis order_refl)
    then have "leaf \<noteq> page_base a" using xd(5) [OF _ x(2)] a(1) user_index_snoc [OF pi(3)] by blast
    then have "a \<noteq> entry_ptr leaf ?i" using node_in_page [OF pi(3) x(2)] space_okD(3) [OF ok] by auto
    then show ?thesis using xd(7) [OF a(1)] a(2) same(1) by auto
  qed
  moreover have "cr3 s' = cr3 s" using same(4) xd(2) by simp
  moreover have "shared_tab s' = shared_tab s" using m(3) xd(8) by auto
  ultimately show ?thesis by simp
qed

lemma map_levels_error: "map_levels user is t s = (Inl e, s') \<Longrightarrow> e = ''out of physical memory''"
  by (induction "is" arbitrary: t s) (auto simp: Let_def split: if_splits option.splits prod.splits)

lemma map_page_refused:
  assumes ok: "space_ok s root" and va: "va < USER_SPACE_END" and flags: "flags AND USER = USER"
    and run: "map_page_in root va frame flags s = (Inl e, s')"
  shows "extends root s s' \<and> (e = ''out of physical memory'' \<and> card (free_frames s) < 3 \<or> page_entry s root (indexes va) AND PRESENT \<noteq> 0)"
proof -
  let ?p = "take 3 (indexes va)" and ?i = "indexes va ! 3"
  have pi: "indexes va = ?p @ [?i]" "length ?p = 3" "user_index (?p @ [?i])"
    using indexes_split [of va] indexes_user [OF va] by simp_all
  obtain r where m: "map_levels USER ?p root s = (r, s')" using map_page_in_Inl [OF run] flags by metis
  have x: "extends root s s'" "\<And>leaf. r = Inr leaf \<Longrightarrow> node (phys s') root ?p = Some leaf" "\<And>e. r = Inl e \<Longrightarrow> card (free_frames s) < 3"
    using map_levels_extends [OF ok _ _ _ _ m, of "[]"] pi user_index_snoc [OF pi(3)] by auto
  show ?thesis
  proof (cases r)
    case (Inl e')
    then have "e = e'" using run m flags by (simp add: map_page_in_def Let_def)
    moreover have "e' = ''out of physical memory''" using Inl m map_levels_error by blast
    ultimately show ?thesis using x(1,3) Inl by simp
  next
    case (Inr leaf)
    have "phys s' (entry_ptr leaf ?i) AND PRESENT \<noteq> 0" using run m flags Inr by (auto simp: map_page_in_def Let_def split: if_splits)
    moreover have "page_entry s' root (indexes va) = phys s' (entry_ptr leaf ?i)"
      using x(2) [OF Inr] page_entry_snoc [of s' root ?p ?i] arg_cong [OF pi(1), of "page_entry s' root"] by simp
    ultimately show ?thesis using x(1) extendsD(6) [OF x(1), of "indexes va"] indexes_user [OF va] by simp
  qed
qed

section \<open>Staying inside a space\<close>

text \<open>A change that touches only frames of the space and frames that were free.\<close>

definition confined :: "u64 \<Rightarrow> Memory \<Rightarrow> Memory \<Rightarrow> bool" where
  "confined root s s' \<longleftrightarrow> (\<forall>a. page_base a \<notin> free_frames s \<union> nodes s root \<longrightarrow> phys s' a = phys s a) \<and>
     nodes s' root \<subseteq> nodes s root \<union> free_frames s \<and> free_frames s' \<subseteq> free_frames s \<and> shared_tab s' = shared_tab s"

lemma confined_refl [simp]: "confined root s s"
  by (simp add: confined_def)

lemma confined_trans: "confined root s s1 \<Longrightarrow> confined root s1 s2 \<Longrightarrow> confined root s s2"
  unfolding confined_def by (auto 4 3)

lemma nodes_same: "(\<And>q. user_index q \<Longrightarrow> node (phys s') root q = node (phys s) root q) \<Longrightarrow> nodes s' root = nodes s root"
  by (auto simp: nodes_def)

lemma confined_inside:
  assumes "\<And>q. user_index q \<Longrightarrow> node (phys s') root q = node (phys s) root q" "free_frames s' = free_frames s"
    "f \<in> nodes s root" "\<And>a. page_base a \<noteq> f \<Longrightarrow> phys s' a = phys s a" "shared_tab s' = shared_tab s"
  shows "confined root s s'"
  using nodes_same [OF assms(1)] assms(2,3,5) unfolding confined_def by (auto intro!: assms(4))

lemma extends_confined: "extends root s s' \<Longrightarrow> confined root s s'"
  unfolding confined_def nodes_def
  using extendsD(3,5,7,8) [of root s s'] by (auto 4 3)

text \<open>A space stays as it is while its frames are neither changed nor freed.\<close>

lemma space_other:
  assumes other: "space_ok s other" and same: "\<And>a. page_base a \<in> nodes s other \<Longrightarrow> phys s' a = phys s a"
    and free: "free_frames s' \<inter> nodes s other = {}" and pool: "frames_wf s'" "frames_encodable s'"
  shows "space_ok s' other \<and> nodes s' other = nodes s other \<and>
    (\<forall>q. user_index q \<longrightarrow> node (phys s') other q = node (phys s) other q) \<and>
    (\<forall>q. user_index q \<longrightarrow> length q = 4 \<longrightarrow> page_entry s' other q = page_entry s other q)"
proof -
  note d = space_okD [OF other]
  have e: "phys s' (entry_ptr t i) = phys s (entry_ptr t i)" if "user_index (p @ [i])" "node (phys s) other p = Some t" for p i t
    using node_in_page [OF that d(3)] user_index_snoc [OF that(1)] that(2) by (intro same) (auto simp: nodes_def)
  have nd: "node (phys s') other q = node (phys s) other q" if "user_index q" for q
    using that e by (intro node_cong) auto
  have pe: "page_entry s' other r = page_entry s other r" if "user_index r" "length r = 4" for r
  proof -
    have u: "user_index (butlast r @ [last r])" using page_split [OF that(2)] that(1) by metis
    show ?thesis using nd [of "butlast r"] user_index_snoc [OF u] e [OF u] by (auto simp: page_entry_def split: option.split)
  qed
  have nf: "f \<notin> free_frames s' \<and> f \<noteq> 0" if "user_index q" "node (phys s') other q = Some f" for q f
  proof -
    have n: "node (phys s) other q = Some f" using nd [OF that(1)] that(2) by simp
    then have "f \<in> nodes s other" using that(1) by (auto simp: nodes_def)
    then show ?thesis using d(4) [OF that(1) n] free by blast
  qed
  have "space_ok s' other"
    unfolding space_ok_def
  proof (intro conjI allI impI)
    show "p = q" if "user_index p" "user_index q" "node (phys s') other p = Some f" "node (phys s') other q = Some f" for p q f
      using d(5) that nd by simp
    show "table_entry (phys s' (entry_ptr u j))"
      if r: "user_index (r @ [j])" "length r < 3" "node (phys s') other r = Some u" "phys s' (entry_ptr u j) AND PRESENT \<noteq> 0" for r j u
    proof -
      have "node (phys s) other r = Some u" using nd [of r] user_index_snoc [OF r(1)] r(3) by simp
      then show "table_entry (phys s' (entry_ptr u j))"
        using d(6) [OF r(1,2)] e [OF r(1)] r(4) by simp_all
    qed
  qed (use pool d nf in auto)
  moreover have "nodes s' other = nodes s other" using nodes_same nd by blast
  ultimately show ?thesis using nd pe by blast
qed

lemma confined_other:
  assumes conf: "confined root s s'" and other: "space_ok s other" and apart: "nodes s root \<inter> nodes s other = {}"
    and pool: "frames_wf s'" "frames_encodable s'"
  shows "space_ok s' other \<and> nodes s' root \<inter> nodes s' other = {} \<and> (\<forall>a. page_base a \<in> nodes s other \<longrightarrow> phys s' a = phys s a) \<and>
    free_frames s' \<inter> nodes s other = {}"
proof -
  have nf: "nodes s other \<inter> free_frames s = {}" using space_okD(4) [OF other] by (auto simp: nodes_def)
  have same: "phys s' a = phys s a" if "page_base a \<in> nodes s other" for a using conf that apart nf unfolding confined_def by blast
  have free: "free_frames s' \<inter> nodes s other = {}" using conf nf unfolding confined_def by blast
  note o = space_other [OF other same free pool]
  then have "nodes s' root \<inter> nodes s' other = {}" using conf apart nf unfolding confined_def by blast
  then show ?thesis using o same free by blast
qed

section \<open>What a program sees\<close>

definition umem :: "Memory \<Rightarrow> u64 \<Rightarrow> u64 \<Rightarrow> u8 option" where
  "umem s root va = (if va < USER_SPACE_END
     then map_option (\<lambda>f. get_byte (f + (va AND 0xFFF)) s) (node (phys s) root (indexes va)) else None)"

lemma umem_phys: "phys s' = phys s \<Longrightarrow> umem s' root = umem s root"
  by (rule ext) (simp add: umem_def get_byte_def)

lemma offset_at: "va AND 0xFFF = word_of_nat (unat (va AND 0xFFF)) \<and> unat (va AND 0xFFF) < 4096" for va :: u64
proof -
  have "word_of_nat (unat x) = x" for x :: u64 by simp
  then show ?thesis by (metis unat_offset mod_less_divisor zero_less_numeral)
qed

lemma page_of_offset: "aligned f \<Longrightarrow> page_base (f + (va AND 0xFFF)) = f \<and> (f + (va AND 0xFFF)) AND 0xFFF = va AND 0xFFF"
  using offset_bits(1,2) [of f "unat (va AND 0xFFF)"] offset_at [of va] by simp

lemma page_base_word: "page_base (p AND NOT 7) = page_base p"
  by (rule bit_eqI) (auto simp: bit_page_base low3 bit_simps)

lemma get_byte_cong: "(\<And>a. page_base a = page_base p \<Longrightarrow> phys s' a = phys s a) \<Longrightarrow> get_byte p s' = get_byte p s"
  using page_base_word [of p] by (simp add: get_byte_def)

lemma same_place:
  fixes a b :: u64
  assumes "page_base a = page_base b" "a AND 0xFFF = b AND 0xFFF"
  shows "a = b"
  using assms page_base_offset [of a] page_base_offset [of b] by simp

text \<open>Translation follows the nodes.\<close>

lemma translate_walk_node:
  assumes "space_ok s root" "node (phys s) root p = Some t" "user_index (p @ is)" "length (p @ is) = 4"
  shows "map_option fst (translate_walk s va (length p) is t es) = map_option (\<lambda>f. f + (va AND 0xFFF)) (node (phys s) t is)"
  using assms
proof (induction "is" arbitrary: p t es)
  case (Cons i "is")
  let ?e = "phys s (entry_ptr t i)"
  have ui: "user_index (p @ [i])" using user_index_append [of "p @ [i]" "is"] Cons.prems(3) by simp
  show ?case
  proof (cases "?e AND PRESENT = 0")
    case False
    then have n: "node (phys s) root (p @ [i]) = Some (?e AND ADDRESS_MASK)" using Cons.prems(2) by (simp add: node_snoc Let_def)
    have "length p < 3 \<longrightarrow> ?e AND HUGE = 0" using space_okD(6) [OF Cons.prems(1) ui _ Cons.prems(2) False] unfolding table_entry_def by blast
    then show ?thesis using False Cons.IH [OF Cons.prems(1) n] Cons.prems(3,4) by (auto simp: Let_def)
  qed (simp add: Let_def)
qed simp

lemma translate_node:
  assumes "space_ok s root" "va < USER_SPACE_END"
  shows "map_option fst (translate_in root va s) = map_option (\<lambda>f. f + (va AND 0xFFF)) (node (phys s) root (indexes va))"
  using translate_walk_node [OF assms(1), of "[]" root "indexes va"] indexes_user [OF assms(2)] by (simp add: translate_in_def)

lemma umem_translate:
  assumes "space_ok s root" "va < USER_SPACE_END"
  shows "umem s root va = map_option (\<lambda>(pa, _). get_byte pa s) (translate_in root va s)"
  using translate_node [OF assms] assms(2)
  by (cases "translate_in root va s"; cases "node (phys s) root (indexes va)") (auto simp: umem_def)

lemma load_u8_umem: "space_ok s (cr3 s) \<Longrightarrow> va < USER_SPACE_END \<Longrightarrow> load_u8 va s = umem s (cr3 s) va"
  by (simp add: load_u8_def translate_active_def umem_translate)

text \<open>A walk in a well-formed space allows writing when the entry of the page does.\<close>

lemma translate_walk_writes:
  assumes "space_ok s root" "node (phys s) root p = Some t" "user_index (p @ is)" "length (p @ is) = 4" "may_write es"
    "is \<noteq> [] \<longrightarrow> page_entry s root (p @ is) AND WRITABLE \<noteq> 0" "translate_walk s va (length p) is t es = Some (pa, es')"
  shows "may_write es'"
  using assms
proof (induction "is" arbitrary: p t es)
  case (Cons i "is")
  let ?e = "phys s (entry_ptr t i)"
  have ui: "user_index (p @ [i])" using user_index_append [of "p @ [i]" "is"] Cons.prems(3) by simp
  have on: "?e AND PRESENT \<noteq> 0" using Cons.prems(7) by (auto simp: Let_def split: if_splits)
  then have n: "node (phys s) root (p @ [i]) = Some (?e AND ADDRESS_MASK)" using Cons.prems(2) by (simp add: node_snoc Let_def)
  have t: "length p < 3 \<longrightarrow> table_entry ?e" using space_okD(6) [OF Cons.prems(1) ui _ Cons.prems(2) on] by blast
  have "length p = 3 \<longrightarrow> is = []" using Cons.prems(4) by auto
  then have "?e AND WRITABLE \<noteq> 0"
    using t Cons.prems(2,4,6) by (cases "length p < 3") (auto simp: table_entry_def page_entry_snoc)
  then have "may_write (es @ [?e])" using Cons.prems(5) by (simp add: may_write_def)
  moreover have "translate_walk s va (length (p @ [i])) is (?e AND ADDRESS_MASK) (es @ [?e]) = Some (pa, es')"
    using Cons.prems(7) on t by (auto simp: Let_def table_entry_def)
  ultimately show ?case using Cons.IH [OF Cons.prems(1) n] Cons.prems(3,4,6) by simp
qed (simp add: may_write_def)

lemma translate_writes:
  assumes "space_ok s root" "va < USER_SPACE_END" "page_entry s root (indexes va) AND WRITABLE \<noteq> 0" "translate_in root va s = Some (pa, es)"
  shows "may_write es"
  using translate_walk_writes [OF assms(1), of "[]" root "indexes va" "[]" va pa es] assms(3,4) indexes_user [OF assms(2)]
  by (simp add: translate_in_def may_write_def)

text \<open>Memory changes in one frame that a page is mapped to.\<close>

lemma space_write:
  assumes ok: "space_ok s root" and q: "user_index q" "length q = 4" "node (phys s) root q = Some f"
    and same: "\<And>a. page_base a \<noteq> f \<Longrightarrow> phys s' a = phys s a" "fa_head s' = fa_head s" "fa_free s' = fa_free s"
  shows "space_ok s' root \<and> free_frames s' = free_frames s \<and> (\<forall>r. user_index r \<longrightarrow> node (phys s') root r = node (phys s) root r) \<and>
    (\<forall>r. user_index r \<longrightarrow> length r = 4 \<longrightarrow> page_entry s' root r = page_entry s root r)"
proof -
  note d = space_okD [OF ok]
  have e: "phys s' (entry_ptr t i) = phys s (entry_ptr t i)" if "user_index (p @ [i])" "node (phys s) root p = Some t" for p i t
  proof (rule same(1))
    have "length p < 4" using user_index_snoc [OF that(1)] by simp
    then have "t \<noteq> f" using d(5) [OF _ q(1) that(2)] q user_index_snoc [OF that(1)] by auto
    then show "page_base (entry_ptr t i) \<noteq> f" using node_in_page [OF that d(3)] by simp
  qed
  have nd: "node (phys s') root r = node (phys s) root r" if "user_index r" for r
    using that e by (intro node_cong) auto
  have "f \<notin> free_frames s" using d(4) q by blast
  then have fr: "free_frames s' = free_frames s \<and> frames_wf s'"
    using d(1) same(2,3) by (intro free_frames_outside same(1)) auto
  have pe: "page_entry s' root r = page_entry s root r" if "user_index r" "length r = 4" for r
  proof -
    have u: "user_index (butlast r @ [last r])" using page_split [OF that(2)] that(1) by metis
    show ?thesis using nd [of "butlast r"] user_index_snoc [OF u] e [OF u] by (auto simp: page_entry_def split: option.split)
  qed
  have "space_ok s' root"
    unfolding space_ok_def
  proof (intro conjI allI impI)
    show "frames_wf s'" "aligned root" using fr d by simp_all
    show "frames_encodable s'" using d(2) fr by (simp add: frames_encodable_def)
    show "g \<notin> free_frames s'" "g \<noteq> 0" if "user_index r" "node (phys s') root r = Some g" for r g
      using d(4) that nd fr by simp_all
    show "p = r" if "user_index p" "user_index r" "node (phys s') root p = Some g" "node (phys s') root r = Some g" for p r g
      using d(5) that nd by simp
    show "table_entry (phys s' (entry_ptr u j))"
      if r: "user_index (r @ [j])" "length r < 3" "node (phys s') root r = Some u" "phys s' (entry_ptr u j) AND PRESENT \<noteq> 0" for r j u
    proof -
      have "node (phys s) root r = Some u" using nd [of r] user_index_snoc [OF r(1)] r(3) by simp
      then show "table_entry (phys s' (entry_ptr u j))"
        using d(6) [OF r(1,2)] e [OF r(1)] r(4) by simp_all
    qed
  qed
  then show ?thesis using fr nd pe by blast
qed

text \<open>A byte stored by the kernel through a mapped address is an update of the map.\<close>

lemma space_store:
  assumes ok: "space_ok s (cr3 s)" and va: "va < USER_SPACE_END" "umem s (cr3 s) va \<noteq> None"
    and wr: "page_entry s (cr3 s) (indexes va) AND WRITABLE \<noteq> 0"
  shows "\<exists>s'. store_u8 va b s = Some s' \<and> space_ok s' (cr3 s) \<and> cr3 s' = cr3 s \<and> free_frames s' = free_frames s \<and>
    umem s' (cr3 s) = (umem s (cr3 s))(va \<mapsto> b) \<and> confined (cr3 s) s s' \<and>
    (\<forall>q. user_index q \<longrightarrow> length q = 4 \<longrightarrow> page_entry s' (cr3 s) q = page_entry s (cr3 s) q)"
proof -
  let ?root = "cr3 s"
  obtain f where f: "node (phys s) ?root (indexes va) = Some f" using va by (auto simp: umem_def)
  let ?pa = "f + (va AND 0xFFF)" and ?s' = "put_byte (f + (va AND 0xFFF)) b s"
  have al: "aligned f" using node_aligned [OF f] space_okD(3) [OF ok] by simp
  obtain es where "translate_active va s = Some (?pa, es)"
    using translate_node [OF ok va(1)] f by (cases "translate_in ?root va s") (auto simp: translate_active_def)
  then have run: "store_u8 va b s = Some ?s'"
    using translate_writes [OF ok va(1) wr] by (auto simp: store_u8_def store_through_def translate_active_def)
  have same: "phys ?s' a = phys s a" if "page_base a \<noteq> f" for a
    using that page_base_word [of ?pa] page_of_offset [OF al, of va] by (auto simp: put_byte_def Let_def)
  have w: "space_ok ?s' ?root \<and> free_frames ?s' = free_frames s \<and> (\<forall>r. user_index r \<longrightarrow> node (phys ?s') ?root r = node (phys s) ?root r) \<and>
    (\<forall>r. user_index r \<longrightarrow> length r = 4 \<longrightarrow> page_entry ?s' ?root r = page_entry s ?root r)"
    using indexes_user [OF va(1)] by (intro space_write [OF ok _ _ f same]) (simp_all add: put_byte_def Let_def)
  have "umem ?s' ?root x = ((umem s ?root)(va \<mapsto> b)) x" for x
  proof (cases "x < USER_SPACE_END")
    case True
    have n: "node (phys ?s') ?root (indexes x) = node (phys s) ?root (indexes x)" using w indexes_user [OF True] by blast
    have "(g + (x AND 0xFFF) = ?pa) = (x = va)" if g: "node (phys s) ?root (indexes x) = Some g" for g
    proof
      assume eq: "g + (x AND 0xFFF) = ?pa"
      have "aligned g" using node_aligned [OF g] space_okD(3) [OF ok] by simp
      note o = page_of_offset [OF this, of x] page_of_offset [OF al, of va]
      then have "g = f" "x AND 0xFFF = va AND 0xFFF" using eq by metis+
      then have "indexes x = indexes va" using space_okD(5) [OF ok] indexes_user [OF True] indexes_user [OF va(1)] f g by metis
      then show "x = va" using indexes_inj [OF True va(1)] \<open>x AND 0xFFF = va AND 0xFFF\<close> same_place by blast
    qed (use f g in simp)
    then show ?thesis using True n f by (cases "node (phys s) ?root (indexes x)") (auto simp: umem_def get_put_byte)
  next
    case False
    then show ?thesis using va(1) by (auto simp: umem_def)
  qed
  moreover have "confined ?root s ?s'"
    using w f indexes_user [OF va(1)] by (intro confined_inside [where f = f, OF _ _ _ same]) (auto simp: nodes_def put_byte_def Let_def)
  ultimately show ?thesis using run w by (intro exI [of _ ?s']) (auto simp: put_byte_def Let_def)
qed

text \<open>What another space sees does not change with frames that are not its own.\<close>

lemma umem_other:
  assumes other: "space_ok s other" and same: "\<And>a. page_base a \<in> nodes s other \<Longrightarrow> phys s' a = phys s a"
    and free: "free_frames s' \<inter> nodes s other = {}" and pool: "frames_wf s'" "frames_encodable s'"
  shows "umem s' other = umem s other"
proof
  fix x
  note o = space_other [OF assms]
  show "umem s' other x = umem s other x"
  proof (cases "x < USER_SPACE_END")
    case True
    have n: "node (phys s') other (indexes x) = node (phys s) other (indexes x)" using o indexes_user [OF True] by blast
    show ?thesis
    proof (cases "node (phys s) other (indexes x)")
      case (Some g)
      have "page_base (g + (x AND 0xFFF)) = g" using page_of_offset node_aligned [OF Some] space_okD(3) [OF other] by blast
      moreover have "g \<in> nodes s other" using Some indexes_user [OF True] by (auto simp: nodes_def)
      ultimately have "get_byte (g + (x AND 0xFFF)) s' = get_byte (g + (x AND 0xFFF)) s" by (intro get_byte_cong same) simp
      then show ?thesis using True n Some by (simp add: umem_def)
    qed (use True n in \<open>simp add: umem_def\<close>)
  qed (simp add: umem_def)
qed

text \<open>A cleared page.\<close>

lemma get_byte_zero: "get_byte p (zero_page f s) = (if page_base p = f then 0 else get_byte p s)"
  using page_base_word [of p] by (simp add: get_byte_def)

lemma space_clear:
  assumes ok: "space_ok s root" and va: "va < USER_SPACE_END" "node (phys s) root (indexes va) = Some f"
  shows "space_ok (zero_page f s) root \<and> free_frames (zero_page f s) = free_frames s \<and> nodes (zero_page f s) root = nodes s root \<and>
    umem (zero_page f s) root = (\<lambda>x. if x < USER_SPACE_END \<and> page_base x = page_base va then Some 0 else umem s root x) \<and>
    (\<forall>q. user_index q \<longrightarrow> length q = 4 \<longrightarrow> page_entry (zero_page f s) root q = page_entry s root q)"
proof -
  have w: "space_ok (zero_page f s) root \<and> free_frames (zero_page f s) = free_frames s \<and>
      (\<forall>r. user_index r \<longrightarrow> node (phys (zero_page f s)) root r = node (phys s) root r) \<and>
      (\<forall>r. user_index r \<longrightarrow> length r = 4 \<longrightarrow> page_entry (zero_page f s) root r = page_entry s root r)"
    using indexes_user [OF va(1)] by (intro space_write [OF ok _ _ va(2)]) simp_all
  have "umem (zero_page f s) root x = (if x < USER_SPACE_END \<and> page_base x = page_base va then Some 0 else umem s root x)" for x
  proof (cases "x < USER_SPACE_END")
    case True
    have n: "node (phys (zero_page f s)) root (indexes x) = node (phys s) root (indexes x)" using w indexes_user [OF True] by blast
    have same: "(page_base x = page_base va) = (indexes x = indexes va)"
      using indexes_inj [OF True va(1)] indexes_same_page [of x va] by blast
    show ?thesis
    proof (cases "node (phys s) root (indexes x)")
      case (Some g)
      have g: "page_base (g + (x AND 0xFFF)) = g" using page_of_offset node_aligned [OF Some] space_okD(3) [OF ok] by blast
      have "(g = f) = (indexes x = indexes va)"
      proof
        assume "g = f"
        then show "indexes x = indexes va" using space_okD(5) [OF ok _ _ Some] va(2) indexes_user [OF True] indexes_user [OF va(1)] by simp
      next
        assume "indexes x = indexes va"
        then show "g = f" using Some va(2) by simp
      qed
      then show ?thesis using True n Some same g by (simp add: umem_def get_byte_zero)
    next
      case None
      then have "indexes x \<noteq> indexes va" using va(2) by auto
      then show ?thesis using True n None same by (simp add: umem_def)
    qed
  qed (simp add: umem_def)
  moreover have "nodes (zero_page f s) root = nodes s root" using w by (intro nodes_same) blast
  ultimately show ?thesis using w by blast
qed

text \<open>
  A page added to the space: \<open>map_page_in\<close> with a frame from the allocator, then cleared. The map gains a
  page of zeros and keeps everything else.
\<close>

lemma node_entry4: "node (phys s) root (indexes va) =
    (if page_entry s root (indexes va) AND PRESENT = 0 then None else Some (page_entry s root (indexes va) AND ADDRESS_MASK))"
  by (rule node_page_entry) (simp add: indexes_def)

lemma umem_None: "va < USER_SPACE_END \<Longrightarrow> umem s root va = None \<longleftrightarrow> page_entry s root (indexes va) AND PRESENT = 0"
  by (simp add: umem_def node_entry4)

lemma umem_keep:
  assumes ok: "space_ok s root" and x: "x < USER_SPACE_END" and e: "page_entry s' root (indexes x) = page_entry s root (indexes x)"
    and same: "\<And>a. page_base a \<notin> free_frames s \<Longrightarrow> (\<And>q. user_index q \<Longrightarrow> length q \<le> 3 \<Longrightarrow> node (phys s) root q \<noteq> Some (page_base a)) \<Longrightarrow>
      phys s' a = phys s a"
  shows "umem s' root x = umem s root x"
proof (cases "node (phys s) root (indexes x)")
  case None
  then show ?thesis using e x node_entry4 [of s root x] node_entry4 [of s' root x] by (simp add: umem_def split: if_splits)
next
  case (Some f)
  have n: "node (phys s') root (indexes x) = Some f"
    using Some e node_entry4 [of s root x] node_entry4 [of s' root x] by (simp split: if_splits)
  note u = indexes_user [OF x]
  have f: "page_base (f + (x AND 0xFFF)) = f" using page_of_offset node_aligned [OF Some] space_okD(3) [OF ok] by blast
  have nf: "f \<notin> free_frames s" using space_okD(4) [OF ok _ Some] u by blast
  have "node (phys s) root q \<noteq> Some f" if "user_index q" "length q \<le> 3" for q
    using space_okD(5) [OF ok that(1) _ _ Some] u that(2) by auto
  then have "get_byte (f + (x AND 0xFFF)) s' = get_byte (f + (x AND 0xFFF)) s"
    using nf f by (intro get_byte_cong same) simp_all
  then show ?thesis using Some n x by (simp add: umem_def)
qed

lemma space_add_page:
  assumes ok: "space_ok s root" and va: "va < USER_SPACE_END" and new: "fresh_frame s root frame"
    and flags: "flags AND USER = USER" "flags AND ADDRESS_MASK = 0"
    and run: "map_page_in root va frame flags s = (Inr u, s1)"
  shows "space_ok s1 root \<and> node (phys s1) root (indexes va) = Some frame \<and> space_ok (zero_page frame s1) root \<and> cr3 s1 = cr3 s \<and>
    shared_tab s1 = shared_tab s \<and>
    card (free_frames s) \<le> card (free_frames (zero_page frame s1)) + 3 \<and> free_frames (zero_page frame s1) \<subseteq> free_frames s \<and>
    nodes (zero_page frame s1) root \<subseteq> nodes s root \<union> free_frames s \<union> {frame} \<and>
    (\<forall>a. page_base a \<notin> free_frames s \<union> nodes s root \<union> {frame} \<longrightarrow> phys (zero_page frame s1) a = phys s a) \<and>
    umem (zero_page frame s1) root = (\<lambda>x. if x < USER_SPACE_END \<and> page_base x = page_base va then Some 0 else umem s root x) \<and>
    (\<forall>q. user_index q \<longrightarrow> length q = 4 \<longrightarrow>
      page_entry (zero_page frame s1) root q = (if q = indexes va then frame OR flags OR PRESENT else page_entry s root q))"
proof -
  note m = map_page_space [OF ok va flags new run]
  have fm: "frame AND ADDRESS_MASK = frame" using new by (simp add: fresh_frame_def)
  note u = indexes_user [OF va]
  have n: "node (phys s1) root (indexes va) = Some frame"
    using m u leaf_word [OF flags(2), of frame] fm node_entry4 [of s1 root va] by simp
  have "umem s1 root x = umem s root x" if "x < USER_SPACE_END" "page_base x \<noteq> page_base va" for x
  proof -
    have "indexes x \<noteq> indexes va" using indexes_inj [OF that(1) va] that(2) by blast
    then show ?thesis using m indexes_user [OF that(1)] by (intro umem_keep [OF ok that(1)]) auto
  qed
  moreover have "umem s1 root x = umem s root x" if "\<not> x < USER_SPACE_END" for x using that by (simp add: umem_def)
  moreover have "phys (zero_page frame s1) a = phys s a" if "page_base a \<notin> free_frames s \<union> nodes s root \<union> {frame}" for a
    using that m by (auto simp: nodes_def)
  ultimately show ?thesis using space_clear [OF conjunct1 [OF m] va n] n m by (auto simp: fun_eq_iff)
qed

section \<open>Permissions\<close>

lemma walk3_node:
  assumes "space_ok s root" "node (phys s) root p = Some t" "user_index (p @ is)" "length (p @ is) \<le> 3"
  shows "walk3 b s t is = node (phys s) t is"
  using assms
proof (induction "is" arbitrary: p t)
  case (Cons i "is")
  let ?e = "phys s (entry_ptr t i)"
  have ui: "user_index (p @ [i])" using user_index_append [of "p @ [i]" "is"] Cons.prems(3) by simp
  show ?case
  proof (cases "?e AND PRESENT = 0")
    case False
    then have n: "node (phys s) root (p @ [i]) = Some (?e AND ADDRESS_MASK)" using Cons.prems(2) by (simp add: node_snoc Let_def)
    have "?e AND HUGE = 0" using space_okD(6) [OF Cons.prems(1) ui _ Cons.prems(2) False] Cons.prems(4) by (simp add: table_entry_def)
    then show ?thesis using False Cons.IH [OF Cons.prems(1) n] Cons.prems(3,4) by (simp add: Let_def)
  qed (simp add: Let_def)
qed simp

lemma user_walk_node:
  assumes "space_ok s root" "node (phys s) root p = Some t" "user_index (p @ is)" "length (p @ is) = 4"
  shows "user_walk s (length p) t is \<longleftrightarrow> is = [] \<or> page_entry s root (p @ is) AND PRESENT \<noteq> 0 \<and> page_entry s root (p @ is) AND USER \<noteq> 0"
  using assms
proof (induction "is" arbitrary: p t)
  case (Cons i "is")
  let ?e = "phys s (entry_ptr t i)"
  have ui: "user_index (p @ [i])" using user_index_append [of "p @ [i]" "is"] Cons.prems(3) by simp
  show ?case
  proof (cases "is")
    case Nil
    then have "page_entry s root (p @ [i]) = ?e" "length p = 3" using Cons.prems(2,4) by (simp_all add: page_entry_def)
    then show ?thesis using Nil by (simp add: Let_def)
  next
    case more: (Cons j js)
    then have len: "length p < 3" using Cons.prems(4) by simp
    show ?thesis
    proof (cases "?e AND PRESENT = 0")
      case True
      then have "node (phys s) root (p @ [i]) = None" using Cons.prems(2) by (simp add: node_snoc)
      then have "node (phys s) root ((p @ [i]) @ butlast is) = None" unfolding node_append by simp
      then have "page_entry s root (p @ i # is) = 0" using more by (simp add: page_entry_def butlast_append)
      then show ?thesis using True by (simp add: Let_def)
    next
      case False
      then have n: "node (phys s) root (p @ [i]) = Some (?e AND ADDRESS_MASK)" using Cons.prems(2) by (simp add: node_snoc Let_def)
      have "?e AND HUGE = 0" "?e AND USER \<noteq> 0" using space_okD(6) [OF Cons.prems(1) ui len Cons.prems(2) False] by (simp_all add: table_entry_def)
      then show ?thesis using False Cons.IH [OF Cons.prems(1) n] Cons.prems(3,4) more by (simp add: Let_def)
    qed
  qed
qed simp

lemma user_walk_entry:
  assumes "space_ok s root" "va < USER_SPACE_END"
  shows "user_walk s 0 root (indexes va) \<longleftrightarrow>
    page_entry s root (indexes va) AND PRESENT \<noteq> 0 \<and> page_entry s root (indexes va) AND USER \<noteq> 0"
  using user_walk_node [OF assms(1), of "[]" root "indexes va"] indexes_user [OF assms(2)] by (auto simp: indexes_def)

lemma space_set_flags:
  assumes ok: "space_ok s (cr3 s)" and va: "va < USER_SPACE_END" "umem s (cr3 s) va \<noteq> None" and flags: "flags AND ADDRESS_MASK = 0"
  shows "\<exists>s'. set_flags va flags s = (Inr (), s') \<and> space_ok s' (cr3 s) \<and> cr3 s' = cr3 s \<and> free_frames s' = free_frames s \<and>
    umem s' (cr3 s) = umem s (cr3 s) \<and> confined (cr3 s) s s' \<and>
    (\<forall>q. user_index q \<longrightarrow> length q = 4 \<longrightarrow> page_entry s' (cr3 s) q =
      (if q = indexes va then (page_entry s (cr3 s) q AND ADDRESS_MASK) OR flags OR PRESENT else page_entry s (cr3 s) q))"
proof -
  let ?root = "cr3 s" and ?p = "take 3 (indexes va)" and ?i = "indexes va ! 3"
  have pi: "indexes va = ?p @ [?i]" "length ?p = 3" "user_index (?p @ [?i])"
    using indexes_split [of va] indexes_user [OF va(1)] by simp_all
  have on: "page_entry s ?root (indexes va) AND PRESENT \<noteq> 0" using va umem_None [OF va(1)] by simp
  then obtain t where t: "node (phys s) ?root ?p = Some t" "page_entry s ?root (indexes va) = phys s (entry_ptr t ?i)"
    using page_entry_snoc [of s ?root ?p ?i] arg_cong [OF pi(1), of "page_entry s ?root"]
    by (cases "node (phys s) ?root ?p") simp_all
  have w: "walk3 False s ?root ?p = Some t"
    using walk3_node [OF ok, of "[]" ?root ?p False] t(1) user_index_snoc [OF pi(3)] pi(2) by simp
  let ?e = "(page_entry s ?root (indexes va) AND ADDRESS_MASK) OR flags OR PRESENT" and ?s' = "put (entry_ptr t ?i) ((page_entry s ?root (indexes va) AND ADDRESS_MASK) OR flags OR PRESENT) s"
  have run: "set_flags va flags s = (Inr (), ?s')" using w on t(2) by (simp add: set_flags_def Let_def)
  have e: "?e AND PRESENT \<noteq> 0" "?e AND ADDRESS_MASK = page_entry s ?root (indexes va) AND ADDRESS_MASK"
    using leaf_word [OF flags] by simp_all
  have f: "space_ok ?s' ?root \<and> free_frames ?s' = free_frames s \<and> (\<forall>q. user_index q \<longrightarrow> node (phys ?s') ?root q = node (phys s) ?root q)"
    using on e t(2) pi(2) by (intro space_put_flags [OF ok pi(3) t(1) _ _ _ refl]) simp_all
  have pe: "page_entry ?s' ?root q = (if q = indexes va then (page_entry s ?root q AND ADDRESS_MASK) OR flags OR PRESENT else page_entry s ?root q)"
    if "user_index q" "length q = 4" for q
    using page_entry_put [OF ok pi(3) t(1) _ that, of ?e] f pi(1) by auto
  have "umem ?s' ?root x = umem s ?root x" for x
  proof (cases "x < USER_SPACE_END")
    case True
    have n: "node (phys ?s') ?root (indexes x) = node (phys s) ?root (indexes x)" using f indexes_user [OF True] by blast
    show ?thesis
    proof (cases "node (phys s) ?root (indexes x)")
      case (Some g)
      have "g \<noteq> t" using space_okD(5) [OF ok _ _ Some, of ?p] t(1) user_index_snoc [OF pi(3)] indexes_user [OF True] pi(2) by auto
      moreover have "page_base (g + (x AND 0xFFF)) = g" using page_of_offset node_aligned [OF Some] space_okD(3) [OF ok] by blast
      ultimately have "get_byte (g + (x AND 0xFFF)) ?s' = get_byte (g + (x AND 0xFFF)) s"
        using node_in_page [OF pi(3) t(1) space_okD(3) [OF ok]] by (intro get_byte_cong) auto
      then show ?thesis using True n Some by (simp add: umem_def)
    qed (use True n in \<open>simp add: umem_def\<close>)
  qed (simp add: umem_def)
  moreover have "confined ?root s ?s'"
    using f t(1) user_index_snoc [OF pi(3)] node_in_page [OF pi(3) t(1) space_okD(3) [OF ok]]
    by (intro confined_inside [where f = t]) (auto simp: nodes_def)
  ultimately show ?thesis using run f pe by (intro exI [of _ ?s']) auto
qed

section \<open>Translations\<close>

text \<open>A well-formed space is one that pages can be mapped into.\<close>

lemma path_tables_nodes:
  assumes "k < length (path_tables m u is)" "node m root p = Some u"
  shows "k \<le> length is \<and> node m root (p @ take k is) = Some (path_tables m u is ! k)"
  using assms
proof (induction "is" arbitrary: u p k)
  case (Cons i "is")
  let ?e = "m (entry_ptr u i)"
  show ?case
  proof (cases k)
    case 0
    then show ?thesis using Cons.prems(2) by simp
  next
    case (Suc k')
    have e: "?e AND PRESENT \<noteq> 0" "k' < length (path_tables m (?e AND ADDRESS_MASK) is)"
      using Cons.prems(1) Suc by (auto simp: Let_def split: if_splits)
    have "node m root (p @ [i]) = Some (?e AND ADDRESS_MASK)" using Cons.prems(2) e(1) by (simp add: node_snoc Let_def)
    from Cons.IH [OF e(2) this] show ?thesis using Suc e(1) by (simp add: Let_def)
  qed
qed simp

lemma space_no_huge:
  assumes "space_ok s root" "node (phys s) root p = Some t" "user_index (p @ is)" "length (p @ is) \<le> 3"
  shows "no_huge (phys s) t is"
  using assms
proof (induction "is" arbitrary: p t)
  case (Cons i "is")
  let ?e = "phys s (entry_ptr t i)"
  have ui: "user_index (p @ [i])" using user_index_append [of "p @ [i]" "is"] Cons.prems(3) by simp
  show ?case
  proof (cases "?e AND PRESENT = 0")
    case False
    then have "table_entry ?e" using space_okD(6) [OF Cons.prems(1) ui _ Cons.prems(2)] Cons.prems(4) by simp
    moreover have "node (phys s) root (p @ [i]) = Some (?e AND ADDRESS_MASK)" using Cons.prems(2) False by (simp add: node_snoc Let_def)
    then have "no_huge (phys s) (?e AND ADDRESS_MASK) is" using Cons.IH [OF Cons.prems(1), of "p @ [i]"] Cons.prems(3,4) by simp
    ultimately show ?thesis by (simp add: Let_def table_entry_def)
  qed (simp add: Let_def)
qed simp

lemma space_mappable:
  assumes ok: "space_ok s root" and va: "va < USER_SPACE_END"
  shows "mappable s root va"
proof -
  define p ts where "p = take 3 (indexes va)" and "ts = path_tables (phys s) root p"
  note d = space_okD [OF ok]
  have "user_index (p @ [indexes va ! 3])" "length p = 3" using indexes_user [OF va] indexes_split [of va] by (simp_all add: p_def)
  then have u: "user_index p" "length p = 3" using user_index_snoc by blast+
  have n: "k \<le> 3 \<and> user_index (take k p) \<and> node (phys s) root (take k p) = Some (ts ! k)" if "k < length ts" for k
    using path_tables_nodes [OF that [unfolded ts_def], of root "[]"] u user_index_append [of "take k p" "drop k p"] by (simp add: ts_def)
  have "distinct ts"
    unfolding distinct_conv_nth
  proof (intro allI impI notI)
    fix k l assume kl: "k < length ts" "l < length ts" "k \<noteq> l" "ts ! k = ts ! l"
    then have "take k p = take l p" using d(5) n by metis
    then have "length (take k p) = length (take l p)" by simp
    then show False using kl(3) n [OF kl(1)] n [OF kl(2)] u(2) by simp
  qed
  moreover have "t \<notin> free_frames s" if "t \<in> set ts" for t
  proof -
    obtain k where "k < length ts" "t = ts ! k" using \<open>t \<in> set ts\<close> by (auto simp: in_set_conv_nth)
    then show ?thesis using n d(4) by blast
  qed
  moreover have "no_huge (phys s) root p" using space_no_huge [OF ok, of "[]"] u by simp
  moreover have "\<forall>i \<in> set p. i < 512" unfolding p_def by (rule indexes_bound)
  ultimately show ?thesis unfolding mappable_def walk_ok_def p_def [symmetric] ts_def [symmetric] using d(1-3) by blast
qed

text \<open>Entries that keep their value but for the user bit, which the tables of a well-formed space have, keep every walk.\<close>

lemma or_USER_same: "e AND USER \<noteq> 0 \<Longrightarrow> e OR USER = e"
  unfolding flag_test by (intro bit_eqI) (auto simp: bit_or_iff bit_flags)

lemma translate_walk_kept:
  assumes "space_ok s root" "keeps_entries s s'" "node (phys s) root p = Some t" "node (phys s') root p = Some t"
    "user_index (p @ is)" "length (p @ is) = 4" "node (phys s) t is \<noteq> None" "page_entry s' root (p @ is) = page_entry s root (p @ is)"
  shows "translate_walk s' va (length p) is t es = translate_walk s va (length p) is t es"
  using assms
proof (induction "is" arbitrary: p t es)
  case (Cons i "is")
  let ?e = "phys s (entry_ptr t i)"
  have ui: "user_index (p @ [i])" using user_index_append [of "p @ [i]" "is"] Cons.prems(5) by simp
  have e: "?e AND PRESENT \<noteq> 0" "node (phys s) (?e AND ADDRESS_MASK) is \<noteq> None"
    using Cons.prems(7) by (auto simp: Let_def split: if_splits)
  have "page_base (entry_ptr t i) = t" using node_in_page [OF ui Cons.prems(3) space_okD(3) [OF Cons.prems(1)]] by simp
  then have nf: "page_base (entry_ptr t i) \<notin> free_frames s"
    using space_okD(4) [OF Cons.prems(1) _ Cons.prems(3)] user_index_snoc [OF ui] by simp
  have same: "phys s' (entry_ptr t i) = ?e"
  proof (cases "is = []")
    case True
    then show ?thesis using Cons.prems(3,4,8) by (simp add: page_entry_snoc)
  next
    case False
    then have "length p < 3" using Cons.prems(6) by (cases "is") auto
    then have "table_entry ?e" using space_okD(6) [OF Cons.prems(1) ui _ Cons.prems(3) e(1)] by blast
    then show ?thesis using Cons.prems(2) nf e(1) or_USER_same by (auto simp: keeps_entries_def table_entry_def)
  qed
  have n: "node (phys s) root (p @ [i]) = Some (?e AND ADDRESS_MASK)" "node (phys s') root (p @ [i]) = Some (?e AND ADDRESS_MASK)"
    using Cons.prems(3,4) e(1) same by (simp_all add: node_snoc Let_def)
  have "translate_walk s' va (length (p @ [i])) is (?e AND ADDRESS_MASK) (es @ [?e]) = translate_walk s va (length (p @ [i])) is (?e AND ADDRESS_MASK) (es @ [?e])"
    using Cons.IH [OF Cons.prems(1,2) n, of "es @ [?e]"] Cons.prems(5,6,8) e(2) by simp
  then show ?case using same by (simp add: Let_def)
qed simp

lemma translate_kept:
  assumes ok: "space_ok s root" "space_ok s' root" and x: "x < USER_SPACE_END" and k: "keeps_entries s s'"
    and e: "page_entry s' root (indexes x) = page_entry s root (indexes x)"
  shows "translate_in root x s' = translate_in root x s"
proof (cases "node (phys s) root (indexes x)")
  case None
  then have "node (phys s') root (indexes x) = None" by (auto simp: node_entry4 e split: if_splits)
  then have "translate_in root x s' = None" using translate_node [OF ok(2) x] by simp
  moreover have "translate_in root x s = None" using translate_node [OF ok(1) x] None by simp
  ultimately show ?thesis by simp
next
  case (Some f)
  then show ?thesis
    using translate_walk_kept [OF ok(1) k, of "[]" root "indexes x" x "[]"] indexes_user [OF x] e by (simp add: translate_in_def)
qed

lemma translate_walk_other:
  assumes "\<And>a. page_base a \<in> nodes s root \<Longrightarrow> phys s' a = phys s a" "aligned root" "node (phys s) root p = Some t" "user_index (p @ is)"
  shows "translate_walk s' va l is t es = translate_walk s va l is t es"
  using assms(3,4)
proof (induction "is" arbitrary: p t l es)
  case (Cons i "is")
  let ?e = "phys s (entry_ptr t i)"
  have ui: "user_index (p @ [i])" using user_index_append [of "p @ [i]" "is"] Cons.prems(2) by simp
  have "t \<in> nodes s root" using Cons.prems(1) user_index_snoc [OF ui] by (auto simp: nodes_def)
  then have same: "phys s' (entry_ptr t i) = ?e" using assms(1) node_in_page [OF ui Cons.prems(1) assms(2)] by simp
  show ?case
  proof (cases "?e AND PRESENT = 0")
    case False
    then have "node (phys s) root (p @ [i]) = Some (?e AND ADDRESS_MASK)" using Cons.prems(1) by (simp add: node_snoc Let_def)
    note ih = Cons.IH [OF this, of "Suc l" "es @ [?e]"]
    then show ?thesis using same Cons.prems(2) by (simp add: Let_def)
  qed (use same in \<open>simp add: Let_def\<close>)
qed simp

text \<open>
  C14: Mapping a user page, whether it succeeds or fails, changes the translation of no other page. In the
  space it maps into, every address of another page (and, when it fails, of every page) resolves as before,
  through the same entries, and what did not resolve still does not; in a space that shares no frame with
  it every address of the user half resolves as before.
\<close>

theorem map_page_preserves_translations:
  assumes "space_ok s root" "va < USER_SPACE_END" "flags AND USER = USER" "flags AND ADDRESS_MASK = 0" "fresh_frame s root frame"
    and "map_page_in root va frame flags s = (r, s')"
  shows "space_ok s' root \<and>
    (\<forall>x < USER_SPACE_END. page_base x \<noteq> page_base va \<or> r \<noteq> Inr () \<longrightarrow> translate_in root x s' = translate_in root x s) \<and>
    (\<forall>other. space_ok s other \<and> nodes s root \<inter> nodes s other = {} \<longrightarrow>
       space_ok s' other \<and> (\<forall>x < USER_SPACE_END. translate_in other x s' = translate_in other x s))"
proof -
  note keep = map_page_keeps_entries [OF space_mappable [OF assms(1,2)] assms(6)]
  have step: "space_ok s' root \<and> free_frames s' \<subseteq> free_frames s \<and>
      (\<forall>q. user_index q \<longrightarrow> length q = 4 \<longrightarrow> q \<noteq> indexes va \<or> r \<noteq> Inr () \<longrightarrow> page_entry s' root q = page_entry s root q) \<and>
      (\<forall>a. page_base a \<notin> free_frames s \<union> nodes s root \<longrightarrow> phys s' a = phys s a)"
  proof (cases r)
    case (Inl e)
    have x: "extends root s s'" using map_page_refused [OF assms(1-3)] assms(6) Inl by blast
    then show ?thesis using extendsD(1,3,6,7) [OF x] by (auto simp: nodes_def)
  next
    case (Inr u)
    then show ?thesis using map_page_space [OF assms(1-5)] assms(6) by (auto simp: nodes_def)
  qed
  have own: "translate_in root x s' = translate_in root x s" if "x < USER_SPACE_END" "page_base x \<noteq> page_base va \<or> r \<noteq> Inr ()" for x
  proof (rule translate_kept [OF assms(1) _ that(1) keep])
    show "page_entry s' root (indexes x) = page_entry s root (indexes x)"
      using step that(2) indexes_inj [OF that(1) assms(2)] indexes_user [OF that(1)] by blast
  qed (use step in blast)
  have "space_ok s' other \<and> (\<forall>x < USER_SPACE_END. translate_in other x s' = translate_in other x s)"
    if o: "space_ok s other" "nodes s root \<inter> nodes s other = {}" for other
  proof -
    have nf: "free_frames s \<inter> nodes s other = {}" using space_okD(4) [OF o(1)] by (auto simp: nodes_def)
    have same: "phys s' a = phys s a" if "page_base a \<in> nodes s other" for a using step that nf o(2) by blast
    have "space_ok s' other" using space_other [OF o(1) same] nf step space_okD(1,2) [of s' root] by blast
    moreover have "translate_in other x s' = translate_in other x s" if "x < USER_SPACE_END" for x
      unfolding translate_in_def using translate_walk_other [OF same space_okD(3) [OF o(1)], of "[]" other] indexes_user [OF that] by simp
    ultimately show ?thesis by blast
  qed
  then show ?thesis using step own by blast
qed

subsection \<open>Instances\<close>

definition empty_space :: Memory where "empty_space = demo_memory\<lparr> cr3 := 0x100000 \<rparr>"

text \<open>Two spaces without a page: the active one, and that of another task.\<close>

lemma empty_roots:
  assumes "root = 0x100000 \<or> root = 0x300000"
  shows "aligned root" "root \<notin> free_frames demo_memory" "root AND ADDRESS_MASK = root" "i < 512 \<Longrightarrow> phys empty_space (entry_ptr root i) = 0"
proof -
  have al: "aligned 0x100000" "aligned 0x300000" "0x100000 \<notin> free_frames demo_memory" "0x300000 \<notin> free_frames demo_memory" by code_simp+
  then show "aligned root" "root \<notin> free_frames demo_memory" using assms by auto
  show "root AND ADDRESS_MASK = root" using assms by (auto simp: ADDRESS_MASK_def)
  assume "i < 512"
  then have "page_base (entry_ptr root i) = root" using al assms by auto
  moreover have "page_base 0x200000 = 0x200000" "page_base 0x201000 = 0x201000" "page_base 0x202000 = 0x202000" by code_simp+
  ultimately have "entry_ptr root i \<notin> {0x200000, 0x201000, 0x202000}" using assms by auto
  then show "phys empty_space (entry_ptr root i) = 0" by (simp add: empty_space_def demo_memory_def)
qed

lemma empty_space_nodes:
  assumes "root = 0x100000 \<or> root = 0x300000" "user_index p" "node (phys empty_space) root p = Some f"
  shows "p = [] \<and> f = root"
proof (cases p)
  case (Cons i "is")
  then show ?thesis using assms(2,3) empty_roots(4) [OF assms(1), of i] by (simp add: user_index_def)
qed (use assms(3) in simp)

lemma empty_space_root:
  assumes root: "root = 0x100000 \<or> root = 0x300000"
  shows "space_ok empty_space root"
  unfolding space_ok_def
proof (intro conjI allI impI)
  have "frames_wf demo_memory" "frames_encodable demo_memory" using demo_mappable by (simp_all add: mappable_def)
  moreover have same: "free_frames empty_space = free_frames demo_memory" "frames_wf empty_space = frames_wf demo_memory"
    using free_frames_fields [of empty_space demo_memory] by (simp_all add: empty_space_def)
  ultimately show "frames_wf empty_space" "frames_encodable empty_space" by (simp_all add: frames_encodable_def)
  show "aligned root" using empty_roots(1) [OF root] .
  note at_root = empty_space_nodes [OF root]
  show "f \<notin> free_frames empty_space" "f \<noteq> 0" if "user_index p" "node (phys empty_space) root p = Some f" for p f
    using at_root [OF that] empty_roots(2) [OF root] same root by auto
  show "p = q" if "user_index p" "user_index q" "node (phys empty_space) root p = Some f" "node (phys empty_space) root q = Some f" for p q f
    using at_root [OF that(1,3)] at_root [OF that(2,4)] by simp
  have zero: "phys empty_space (entry_ptr t i) = 0" if "user_index (p @ [i])" "node (phys empty_space) root p = Some t" for p i t
    using at_root [OF _ that(2)] user_index_snoc [OF that(1)] empty_roots(4) [OF root] by simp
  show "table_entry (phys empty_space (entry_ptr t i))"
    if "user_index (p @ [i])" "node (phys empty_space) root p = Some t" "phys empty_space (entry_ptr t i) AND PRESENT \<noteq> 0" for p i t
    using zero [OF that(1,2)] that(3) by simp_all
qed

lemma empty_space_disjoint: "nodes empty_space 0x100000 = {0x100000}" "nodes empty_space 0x300000 = {0x300000}"
  using empty_space_nodes [of "0x100000"] empty_space_nodes [of "0x300000"]
  by (auto simp: nodes_def intro!: exI [of _ "[] :: nat list"] user_index_Nil)

theorem map_page_preserves_translations_witness:
  "\<exists>s'. map_page_in 0x100000 0x400000 0x308000 (USER OR WRITABLE) empty_space = (Inr (), s') \<and>
     translate_in 0x100000 0x401000 s' = None \<and> translate_in 0x300000 0x400000 s' = None \<and> space_ok s' 0x300000"
proof -
  let ?run = "map_page_in 0x100000 0x400000 0x308000 (USER OR WRITABLE) empty_space"
  have "fst ?run = Inr ()" by code_simp
  then have run: "?run = (Inr (), snd ?run)" by (metis prod.collapse)
  have f: "(USER OR WRITABLE) AND ADDRESS_MASK = 0" "(USER OR WRITABLE) AND USER = USER" by (simp_all add: flag_defs ADDRESS_MASK_def)
  have u: "(0x400000 :: u64) < USER_SPACE_END" "(0x401000 :: u64) < USER_SPACE_END" by code_simp+
  have "0x308000 \<notin> free_frames empty_space" "page_base 0x401000 \<noteq> page_base 0x400000" "0x308000 AND ADDRESS_MASK = (0x308000 :: u64)" by code_simp+
  moreover have "node (phys empty_space) 0x100000 q \<noteq> Some 0x308000" if "user_index q" for q
    using empty_space_nodes [OF _ that, of "0x100000" "0x308000"] by auto
  ultimately have fr: "fresh_frame empty_space 0x100000 0x308000" "page_base 0x401000 \<noteq> page_base 0x400000" by (auto simp: fresh_frame_def)
  have "translate_in 0x100000 0x401000 empty_space = None" "translate_in 0x300000 0x400000 empty_space = None" by code_simp+
  moreover have "nodes empty_space 0x100000 \<inter> nodes empty_space 0x300000 = {}" by (simp add: empty_space_disjoint)
  moreover have ok: "space_ok empty_space 0x100000" "space_ok empty_space 0x300000" by (rule empty_space_root, simp)+
  ultimately show ?thesis
    using map_page_preserves_translations [OF ok(1) u(1) f(2,1) fr(1) run] fr(2) u run by metis
qed

end
