(* ===== verification/Elf.thy ===== *)
theory Elf
  imports Space Bytes
begin

text \<open>
  \<open>kernel/src/elf.rs\<close>: loading an executable into the active address space. \<open>None\<close> stands for not coming back: a
  slice out of range, a store to an address that is not mapped, or a loop that does not end; a refusal is
  an error string, with the memory as it is at that moment. \<open>nx\<close> says whether the no-execute bit is
  active (\<open>memory::no_execute_active\<close>).
\<close>

abbreviation (input) USER_ADDRESS_LIMIT :: u64 where "USER_ADDRESS_LIMIT \<equiv> 0x80000000"

abbreviation (input) PT_LOAD :: u32 where "PT_LOAD \<equiv> 1"
abbreviation (input) PF_X :: u32 where "PF_X \<equiv> 1"
abbreviation (input) PF_W :: u32 where "PF_W \<equiv> 2"

definition ELF_MAGIC :: "u8 list" where "ELF_MAGIC = [0x7F, 0x45, 0x4C, 0x46]"

record Loaded =
  loaded_entry :: u64
  loaded_segments :: nat
  bytes_zeroed :: u64
  loaded_pages :: "u64 list"

record ProgramHeader =
  ph_kind :: u32
  ph_flags :: u32
  ph_offset :: u64
  ph_virtual_address :: u64
  ph_physical_address :: u64
  ph_file_size :: u64
  ph_memory_size :: u64
  ph_align :: u64

type_synonym 'a load_run = "((string + 'a) \<times> Memory) option"

text \<open>Reading from the file; an index past its end panics.\<close>

definition program_header :: "u8 list \<Rightarrow> nat \<Rightarrow> ProgramHeader option" where
  "program_header data pos =
     (if pos + 56 \<le> length data
      then Some \<lparr> ph_kind = read_u32 data pos, ph_flags = read_u32 data (pos + 4), ph_offset = read_u64 data (pos + 8),
                  ph_virtual_address = read_u64 data (pos + 16), ph_physical_address = read_u64 data (pos + 24),
                  ph_file_size = read_u64 data (pos + 32), ph_memory_size = read_u64 data (pos + 40),
                  ph_align = read_u64 data (pos + 48) \<rparr>
      else None)"

definition clear_page :: "u64 \<Rightarrow> Memory \<Rightarrow> Memory option" where
  "clear_page = store_through (\<lambda>pa. zero_page (page_base pa))"

partial_function (option) load_pages :: "u64 \<Rightarrow> u64 \<Rightarrow> u64 \<Rightarrow> u64 list \<Rightarrow> Memory \<Rightarrow> (u64 \<times> u64 list) load_run" where
  "load_pages page last_page zeroed pages s =
     (if page \<le> last_page
      then if translate_active page s = None
           then case frame_allocate s of
                  None \<Rightarrow> Some (Inl ''out of physical memory'', s)
                | Some (frame, s) \<Rightarrow>
                    (case map_page page frame (USER OR WRITABLE) s of
                       (Inl e, s) \<Rightarrow> Some (Inl e, s)
                     | (Inr _, s) \<Rightarrow>
                         (case clear_page page s of
                            None \<Rightarrow> None
                          | Some s \<Rightarrow> load_pages (page + 4096) last_page (zeroed + 4096) (pages @ [page]) s))
           else load_pages (page + 4096) last_page zeroed pages s
      else Some (Inr (zeroed, pages), s))"

text \<open>One round of the first loop over the program headers.\<close>

definition load_segment :: "u8 list \<Rightarrow> ProgramHeader \<Rightarrow> nat \<times> u64 \<times> u64 list \<Rightarrow> Memory \<Rightarrow> (nat \<times> u64 \<times> u64 list) load_run" where
  "load_segment data h acc s = (let (segments, zeroed, pages) = acc in
     if ph_kind h \<noteq> PT_LOAD \<or> ph_memory_size h = 0 then Some (Inr acc, s)
     else if ph_file_size h > ph_memory_size h then Some (Inl ''segment claims more file bytes than memory'', s)
     else case checked_add (ph_offset h) (ph_file_size h) of
       None \<Rightarrow> Some (Inl ''segment offset overflows'', s)
     | Some file_end \<Rightarrow>
         if unat file_end > length data then Some (Inl ''segment runs past the end of the file'', s)
         else case checked_add (ph_virtual_address h) (ph_memory_size h) of
           None \<Rightarrow> Some (Inl ''segment address overflows'', s)
         | Some memory_end \<Rightarrow>
             if memory_end > USER_ADDRESS_LIMIT then Some (Inl ''segment wants an address outside userspace'', s)
             else case load_pages (page_base (ph_virtual_address h)) (page_base (memory_end - 1)) zeroed pages s of
               None \<Rightarrow> None
             | Some (Inl e, s) \<Rightarrow> Some (Inl e, s)
             | Some (Inr (zeroed, pages), s) \<Rightarrow>
                 let source = drop (unat (ph_offset h)) (take (unat file_end) data)
                 in map_option (\<lambda>s. (Inr (segments + 1, zeroed, pages), s))
                      (if ph_file_size h > 0 then store_bytes (ph_virtual_address h) source s else Some s))"

fun load_segments :: "u8 list \<Rightarrow> nat \<Rightarrow> nat \<Rightarrow> nat list \<Rightarrow> nat \<times> u64 \<times> u64 list \<Rightarrow> Memory \<Rightarrow> (nat \<times> u64 \<times> u64 list) load_run" where
  "load_segments data header_offset header_size [] acc s = Some (Inr acc, s)"
| "load_segments data header_offset header_size (index # rest) acc s =
     (case program_header data (header_offset + index * header_size) of
        None \<Rightarrow> None
      | Some h \<Rightarrow> (case load_segment data h acc s of
          None \<Rightarrow> None
        | Some (Inl e, s) \<Rightarrow> Some (Inl e, s)
        | Some (Inr acc, s) \<Rightarrow> load_segments data header_offset header_size rest acc s))"

text \<open>The second loop, which applies the permissions.\<close>

definition page_flags :: "bool \<Rightarrow> u32 \<Rightarrow> u64" where
  "page_flags nx flags =
     USER OR (if flags AND PF_W \<noteq> 0 then WRITABLE else 0) OR (if flags AND PF_X = 0 \<and> nx then NO_EXECUTE else 0)"

partial_function (option) seal_pages :: "u64 \<Rightarrow> u64 \<Rightarrow> u64 \<Rightarrow> Memory \<Rightarrow> unit load_run" where
  "seal_pages page final flags s =
     (if page \<le> final
      then case set_flags page flags s of
             (Inl e, s) \<Rightarrow> Some (Inl e, s)
           | (Inr _, s) \<Rightarrow> seal_pages (page + 4096) final flags s
      else Some (Inr (), s))"

definition seal_segment :: "bool \<Rightarrow> ProgramHeader \<Rightarrow> Memory \<Rightarrow> unit load_run" where
  "seal_segment nx h s =
     (if ph_kind h \<noteq> PT_LOAD \<or> ph_memory_size h = 0 then Some (Inr (), s)
      else seal_pages (page_base (ph_virtual_address h)) (page_base (ph_virtual_address h + ph_memory_size h - 1))
             (page_flags nx (ph_flags h)) s)"

fun seal_segments :: "bool \<Rightarrow> u8 list \<Rightarrow> nat \<Rightarrow> nat \<Rightarrow> nat list \<Rightarrow> Memory \<Rightarrow> unit load_run" where
  "seal_segments nx data header_offset header_size [] s = Some (Inr (), s)"
| "seal_segments nx data header_offset header_size (index # rest) s =
     (case program_header data (header_offset + index * header_size) of
        None \<Rightarrow> None
      | Some h \<Rightarrow> (case seal_segment nx h s of
          None \<Rightarrow> None
        | Some (Inl e, s) \<Rightarrow> Some (Inl e, s)
        | Some (Inr _, s) \<Rightarrow> seal_segments nx data header_offset header_size rest s))"

definition elf_load :: "bool \<Rightarrow> u8 list \<Rightarrow> Memory \<Rightarrow> Loaded load_run" where
  "elf_load nx data s =
     (if length data < 64 then Some (Inl ''too small to be an ELF header'', s)
      else if take 4 data \<noteq> ELF_MAGIC then Some (Inl ''not an ELF file (bad magic)'', s)
      else if data ! 4 \<noteq> 2 then Some (Inl ''not a 64-bit ELF'', s)
      else if data ! 5 \<noteq> 1 then Some (Inl ''not little-endian'', s)
      else if read_u16 data 16 \<noteq> 2 then Some (Inl ''not a fixed-address executable (ET_EXEC)'', s)
      else if read_u16 data 18 \<noteq> 0x3E then Some (Inl ''not compiled for x86_64'', s)
      else let entry = read_u64 data 24; header_offset = unat (read_u64 data 32);
               header_size = unat (read_u16 data 54); header_count = unat (read_u16 data 56)
           in if header_size < 56 then Some (Inl ''program headers are too small'', s)
              else if \<not> header_offset + header_size * header_count < 2 ^ 64 then Some (Inl ''program header table overflows'', s)
              else if header_offset + header_size * header_count > length data
              then Some (Inl ''program header table runs past the end of the file'', s)
              else case load_segments data header_offset header_size [0..<header_count] (0, 0, []) s of
                None \<Rightarrow> None
              | Some (Inl e, s) \<Rightarrow> Some (Inl e, s)
              | Some (Inr (segments, zeroed, pages), s) \<Rightarrow>
                  if segments = 0 then Some (Inl ''nothing to load: no PT_LOAD segments'', s)
                  else case seal_segments nx data header_offset header_size [0..<header_count] s of
                    None \<Rightarrow> None
                  | Some (Inl e, s) \<Rightarrow> Some (Inl e, s)
                  | Some (Inr _, s) \<Rightarrow>
                      if entry > USER_ADDRESS_LIMIT \<or> translate_active entry s = None
                      then Some (Inl ''entry point is not inside anything we loaded'', s)
                      else Some (Inr \<lparr> loaded_entry = entry, loaded_segments = segments,
                                        bytes_zeroed = zeroed, loaded_pages = pages \<rparr>, s))"

section \<open>Pages of a segment\<close>

abbreviation (input) mem :: "Memory \<Rightarrow> u64 \<Rightarrow> u8 option" where "mem s \<equiv> umem s (cr3 s)"

definition with_zero_pages :: "u64 \<Rightarrow> u64 \<Rightarrow> (u64 \<Rightarrow> u8 option) \<Rightarrow> u64 \<Rightarrow> u8 option" where
  "with_zero_pages first_page last_page m =
     (\<lambda>x. if first_page \<le> page_base x \<and> page_base x \<le> last_page \<and> m x = None then Some 0 else m x)"

lemma user_writable: "(USER OR WRITABLE) AND USER = USER" "(USER OR WRITABLE) AND ADDRESS_MASK = 0"
  by (simp_all add: flag_defs ADDRESS_MASK_def)

text \<open>While a program is loaded, every page of its space is writable.\<close>

definition open_space :: "Memory \<Rightarrow> u64 \<Rightarrow> bool" where
  "open_space s root \<longleftrightarrow> space_ok s root \<and>
     (\<forall>q. user_index q \<longrightarrow> length q = 4 \<longrightarrow> page_entry s root q AND PRESENT \<noteq> 0 \<longrightarrow> page_entry s root q AND WRITABLE \<noteq> 0)"

lemma open_space_ok: "open_space s root \<Longrightarrow> space_ok s root"
  by (simp add: open_space_def)

lemma open_space_writable:
  assumes "open_space s root" "umem s root va \<noteq> None"
  shows "page_entry s root (indexes va) AND WRITABLE \<noteq> 0"
proof -
  have "va < USER_SPACE_END" using assms(2) by (auto simp: umem_def split: if_splits)
  then show ?thesis using assms umem_None [of va s root] indexes_user [of va] by (auto simp: open_space_def)
qed

lemma open_space_keep:
  assumes "open_space s root" "space_ok s' root" "\<And>q. user_index q \<Longrightarrow> length q = 4 \<Longrightarrow> page_entry s' root q = page_entry s root q"
  shows "open_space s' root"
  using assms by (simp add: open_space_def)

text \<open>One page of the loop: it becomes a page of zeros unless it is mapped already, or memory ran out.\<close>

lemma add_missing_page:
  assumes ok: "space_ok s (cr3 s)" and page: "page < USER_SPACE_END" "aligned page" and off: "translate_active page s = None"
    and alloc: "frame_allocate s = Some (frame, s1)" and run: "map_page page frame (USER OR WRITABLE) s1 = (r, s2)"
  shows "case r of
      Inl e \<Rightarrow> e = ''out of physical memory'' \<and> card (free_frames s) < 4 \<and> space_ok s2 (cr3 s) \<and> cr3 s2 = cr3 s \<and> confined (cr3 s) s s2 \<and>
        (\<forall>q. user_index q \<longrightarrow> length q = 4 \<longrightarrow> page_entry s2 (cr3 s) q = page_entry s (cr3 s) q)
    | Inr u \<Rightarrow> \<exists>s3. clear_page page s2 = Some s3 \<and> space_ok s3 (cr3 s) \<and> cr3 s3 = cr3 s \<and> confined (cr3 s) s s3 \<and> card (free_frames s) \<le> card (free_frames s3) + 4 \<and>
        mem s3 = (\<lambda>x. if x < USER_SPACE_END \<and> page_base x = page then Some 0 else mem s x) \<and>
        (\<forall>q. user_index q \<longrightarrow> length q = 4 \<longrightarrow>
          page_entry s3 (cr3 s) q = (if q = indexes page then frame OR (USER OR WRITABLE) OR PRESENT else page_entry s (cr3 s) q))"
proof -
  let ?root = "cr3 s"
  note fr = fresh_allocated [OF ok alloc]
  have ok1: "space_ok s1 ?root" and new: "fresh_frame s1 ?root frame" and c1: "cr3 s1 = ?root" and ph: "phys s1 = phys s" using fr by blast+
  have sub: "free_frames s1 \<subseteq> free_frames s" "frame \<in> free_frames s" using frame_allocate_Some [OF space_okD(1) [OF ok] alloc] by auto
  have ns: "nodes s1 ?root = nodes s ?root" using ph by (simp add: nodes_def)
  have c: "confined ?root s s1" using sub(1) ns ph fr by (auto simp: confined_def)
  have um: "umem s1 ?root = umem s ?root"
    using ph by (rule umem_phys)
  have run': "map_page_in ?root page frame (USER OR WRITABLE) s1 = (r, s2)" using run c1 by (simp add: map_page_def)
  have none: "umem s ?root page = None" using off umem_translate [OF ok page(1)] by (simp add: translate_active_def)
  show ?thesis
  proof (cases r)
    case (Inl e)
    have "page_entry s1 ?root (indexes page) AND PRESENT = 0" using none umem_None [OF page(1), of s ?root] page_entry_phys [OF ph] by simp
    then have "extends ?root s1 s2 \<and> e = ''out of physical memory'' \<and> card (free_frames s1) < 3"
      using map_page_refused [OF ok1 page(1) user_writable(1) run' [unfolded Inl]] by blast
    then show ?thesis using extendsD(1,2,6) [of ?root s1 s2] confined_trans [OF c extends_confined] c1 Inl fr page_entry_phys [OF ph] by simp
  next
    case (Inr u)
    note a = space_add_page [OF ok1 page(1) new user_writable run' [unfolded Inr], unfolded um]
    have "aligned frame" using new aligned_mask [of frame] by (simp add: fresh_frame_def)
    moreover have "map_option fst (translate_in ?root page s2) = Some (frame + (page AND 0xFFF))"
      using translate_node [of s2 ?root page] a page(1) by simp
    ultimately obtain es where es: "translate_in ?root page s2 = Some (frame, es)" using page(2) by (auto simp: aligned_def)
    have w: "(frame OR (USER OR WRITABLE) OR PRESENT) AND WRITABLE \<noteq> 0" unfolding flag_test by (simp add: bit_or_iff bit_flags)
    note m = map_page_space [OF ok1 page(1) user_writable new run' [unfolded Inr]]
    have "page_entry s2 ?root (indexes page) AND WRITABLE \<noteq> 0" using m w indexes_user [OF page(1)] by simp
    then have "may_write es" using translate_writes [OF _ page(1) _ es] a by blast
    then have "clear_page page s2 = Some (zero_page frame s2)"
      using a c1 \<open>aligned frame\<close> es by (simp add: clear_page_def store_through_def translate_active_def page_base_aligned)
    moreover have "confined ?root s (zero_page frame s2)" using a sub ns ph fr unfolding confined_def by auto
    ultimately show ?thesis using a c1 Inr page_base_aligned [OF page(2)] fr page_entry_phys [OF ph] by simp
  qed
qed

lemma writable_word: "(frame OR (USER OR WRITABLE) OR PRESENT) AND WRITABLE \<noteq> 0"
  unfolding flag_test by (simp add: bit_or_iff bit_flags)

lemma add_missing_page_open:
  assumes op: "open_space s (cr3 s)" and page: "page < USER_SPACE_END" "aligned page" and off: "translate_active page s = None"
    and alloc: "frame_allocate s = Some (frame, s1)" and run: "map_page page frame (USER OR WRITABLE) s1 = (r, s2)"
  shows "case r of
      Inl e \<Rightarrow> e = ''out of physical memory'' \<and> card (free_frames s) < 4 \<and> open_space s2 (cr3 s) \<and> cr3 s2 = cr3 s \<and> confined (cr3 s) s s2
    | Inr u \<Rightarrow> \<exists>s3. clear_page page s2 = Some s3 \<and> open_space s3 (cr3 s) \<and> cr3 s3 = cr3 s \<and> confined (cr3 s) s s3 \<and> card (free_frames s) \<le> card (free_frames s3) + 4 \<and>
        mem s3 = (\<lambda>x. if x < USER_SPACE_END \<and> page_base x = page then Some 0 else mem s x)"
proof (cases r)
  case (Inl e)
  then show ?thesis using add_missing_page [OF open_space_ok [OF op] assms(2-6)] op by (simp add: open_space_def)
next
  case (Inr u)
  then show ?thesis using add_missing_page [OF open_space_ok [OF op] assms(2-6)] op writable_word [of frame] by (auto simp: open_space_def)
qed

lemma with_zero_pages_step:
  assumes "aligned page" "aligned last_page" "page \<le> last_page" "last_page < USER_SPACE_END"
    and m1: "\<And>x. m1 x = (if x < USER_SPACE_END \<and> page_base x = page \<and> m x = None then Some 0 else m x)"
    and whole: "\<And>x y. page_base x = page_base y \<Longrightarrow> (m x = None) = (m y = None)"
  shows "with_zero_pages (page + 4096) last_page m1 = with_zero_pages page last_page m"
proof
  fix x
  have lim: "unat last_page < 549755813888" using assms(4) by (simp add: word_less_nat_alt)
  moreover have "unat page \<le> unat last_page" using assms(3) by (simp add: word_le_nat_alt)
  ultimately have n: "unat (page + 4096) = unat page + 4096" using aligned_step [OF assms(1)] by simp
  have up: "(page + 4096 \<le> page_base x) = (page \<le> page_base x \<and> page_base x \<noteq> page)"
    using aligned_next [OF assms(1), of "page_base x"] n by (auto simp: word_le_nat_alt)
  have low: "x < USER_SPACE_END" if "page_base x \<le> last_page"
  proof -
    have "unat (page_base x) \<le> unat last_page" using that by (simp add: word_le_nat_alt)
    moreover have "4096 dvd unat last_page" using assms(2) by (simp add: aligned_dvd)
    ultimately have "unat x < 549755813888" using lim unat_page_base [of x] by (auto elim!: dvdE)
    then show ?thesis by (simp add: word_less_nat_alt)
  qed
  show "with_zero_pages (page + 4096) last_page m1 x = with_zero_pages page last_page m x"
    using up low assms(3) m1 [of x] by (auto simp: with_zero_pages_def)
qed

lemma umem_whole:
  assumes "page_base x = page_base y"
  shows "(umem s root x = None) = (umem s root y = None)"
proof -
  have "(x < USER_SPACE_END) = (y < USER_SPACE_END)"
  proof -
    have "unat x div 4096 = unat y div 4096" using arg_cong [OF assms, of unat] by (simp add: unat_page_base)
    moreover have "(unat z < 549755813888) = (unat z div 4096 < 134217728)" for z :: u64 by auto
    ultimately show ?thesis by (simp add: word_less_nat_alt)
  qed
  then show ?thesis using indexes_same_page [OF assms] by (simp add: umem_def)
qed

definition pages_left :: "u64 \<Rightarrow> u64 \<Rightarrow> nat" where
  "pages_left page last_page = (unat last_page + 4096 - unat page) div 4096"

lemma pages_left_step:
  assumes "unat page \<le> unat last_page" "unat (page + 4096) = unat page + 4096"
  shows "pages_left page last_page = Suc (pages_left (page + 4096) last_page)"
proof -
  have "unat last_page + 4096 - unat page = (unat last_page + 4096 - unat (page + 4096)) + 4096" using assms by simp
  then show ?thesis by (simp add: pages_left_def)
qed

lemma load_pages_spec:
  assumes "open_space s (cr3 s)" "aligned page" "aligned last_page" "last_page < USER_SPACE_END" "zeroed = 4096 * word_of_nat (length pages)"
  shows "\<exists>r s'. load_pages page last_page zeroed pages s = Some (r, s') \<and> open_space s' (cr3 s) \<and> cr3 s' = cr3 s \<and> confined (cr3 s) s s' \<and>
    (case r of Inl e \<Rightarrow> e = ''out of physical memory'' \<and> card (free_frames s) < 4 * pages_left page last_page
     | Inr (z, ps) \<Rightarrow> mem s' = with_zero_pages page last_page (mem s) \<and> z = 4096 * word_of_nat (length ps) \<and>
         card (free_frames s) \<le> card (free_frames s') + 4 * pages_left page last_page)"
  using assms(1,2,5)
proof (induction "unat last_page + 4096 - unat page" arbitrary: page zeroed pages s rule: less_induct)
  case less
  note unf = load_pages.simps [of page last_page zeroed pages s]
  have lim: "unat last_page < 549755813888" using assms(4) by (simp add: word_less_nat_alt)
  show ?case
  proof (cases "page \<le> last_page")
    case False
    then have "with_zero_pages page last_page (mem s) = mem s" by (auto simp: with_zero_pages_def fun_eq_iff)
    then show ?thesis using unf False less.prems by simp
  next
    case True
    have pu: "page < USER_SPACE_END" using True assms(4) by (rule le_less_trans)
    have "unat page \<le> unat last_page" using True by (simp add: word_le_nat_alt)
    then have st: "unat (page + 4096) = unat page + 4096" "aligned (page + 4096)" using aligned_step [OF less.prems(2)] lim by simp_all
    have dec: "unat last_page + 4096 - unat (page + 4096) < unat last_page + 4096 - unat page"
      using st \<open>unat page \<le> unat last_page\<close> by linarith
    note left = pages_left_step [OF \<open>unat page \<le> unat last_page\<close> st(1)]
    have step: "with_zero_pages (page + 4096) last_page m1 = with_zero_pages page last_page (mem s)"
      if "\<And>x. m1 x = (if x < USER_SPACE_END \<and> page_base x = page \<and> mem s x = None then Some 0 else mem s x)" for m1
      by (rule with_zero_pages_step [OF less.prems(2) assms(3) True assms(4) that]) (rule umem_whole)
    have pm: "translate_active page s = None \<longleftrightarrow> mem s page = None"
      using umem_translate [OF open_space_ok [OF less.prems(1)] pu] by (simp add: translate_active_def)
    have whole: "mem s x = None \<longleftrightarrow> mem s page = None" if "page_base x = page" for x
      using umem_whole [of x page] that page_base_aligned [OF less.prems(2)] by simp
    show ?thesis
    proof (cases "translate_active page s = None")
      case off: False
      have eq: "with_zero_pages (page + 4096) last_page (mem s) = with_zero_pages page last_page (mem s)"
        using whole off pm by (intro step) auto
      have run: "load_pages page last_page zeroed pages s = load_pages (page + 4096) last_page zeroed pages s" using unf True off by simp
      obtain r s' where IH: "load_pages (page + 4096) last_page zeroed pages s = Some (r, s')" "open_space s' (cr3 s)" "cr3 s' = cr3 s" "confined (cr3 s) s s'"
          "case r of Inl e \<Rightarrow> e = ''out of physical memory'' \<and> card (free_frames s) < 4 * pages_left (page + 4096) last_page
           | Inr (z, ps) \<Rightarrow> mem s' = with_zero_pages (page + 4096) last_page (mem s) \<and> z = 4096 * word_of_nat (length ps) \<and>
             card (free_frames s) \<le> card (free_frames s') + 4 * pages_left (page + 4096) last_page"
        using less.hyps [OF dec less.prems(1) st(2) less.prems(3)] by blast
      then show ?thesis using run eq left by (cases r) auto
    next
      case off: True
      show ?thesis
      proof (cases "frame_allocate s")
        case None
        then have "free_frames s = {}" using frame_allocate_None space_okD(1) [OF open_space_ok [OF less.prems(1)]] by blast
        then show ?thesis using None unf True off less.prems(1) left by simp
      next
        case (Some fs)
        obtain frame s1 where f: "frame_allocate s = Some (frame, s1)" using Some by (cases fs) simp
        obtain r s2 where m: "map_page page frame (USER OR WRITABLE) s1 = (r, s2)" by fastforce
        note a = add_missing_page_open [OF less.prems(1) pu less.prems(2) off f m]
        show ?thesis
        proof (cases r)
          case (Inl e)
          then show ?thesis using unf True off f m a left by simp
        next
          case (Inr u)
          obtain s3 where s3: "clear_page page s2 = Some s3" "open_space s3 (cr3 s)" "cr3 s3 = cr3 s" "confined (cr3 s) s s3"
              "card (free_frames s) \<le> card (free_frames s3) + 4"
              "mem s3 = (\<lambda>x. if x < USER_SPACE_END \<and> page_base x = page then Some 0 else mem s x)"
            using a Inr by auto
          have eq: "with_zero_pages (page + 4096) last_page (mem s3) = with_zero_pages page last_page (mem s)"
            using whole off pm s3(6) by (intro step) auto
          have run: "load_pages page last_page zeroed pages s = load_pages (page + 4096) last_page (zeroed + 4096) (pages @ [page]) s3"
            using unf True off f m Inr s3(1) by simp
          have "open_space s3 (cr3 s3)" "zeroed + 4096 = 4096 * word_of_nat (length (pages @ [page]))"
            using s3(2,3) less.prems(3) by (simp_all add: algebra_simps)
          then obtain r' s' where IH: "load_pages (page + 4096) last_page (zeroed + 4096) (pages @ [page]) s3 = Some (r', s')" "open_space s' (cr3 s3)" "cr3 s' = cr3 s3" "confined (cr3 s3) s3 s'"
              "case r' of Inl e \<Rightarrow> e = ''out of physical memory'' \<and> card (free_frames s3) < 4 * pages_left (page + 4096) last_page
               | Inr (z, ps) \<Rightarrow> mem s' = with_zero_pages (page + 4096) last_page (mem s3) \<and> z = 4096 * word_of_nat (length ps) \<and>
                 card (free_frames s3) \<le> card (free_frames s') + 4 * pages_left (page + 4096) last_page"
            using less.hyps [OF dec _ st(2), of s3 "zeroed + 4096" "pages @ [page]"] by blast
          have "mem s' = with_zero_pages page last_page (mem s)" if "mem s' = with_zero_pages (page + 4096) last_page (mem s3)"
            using that eq by simp
          moreover have "confined (cr3 s) s s'" using confined_trans [OF s3(4)] IH(4) s3(3) by simp
          ultimately show ?thesis using run left s3(3,5) IH(1-3,5) by (cases r') auto
        qed
      qed
    qed
  qed
qed

section \<open>The bytes of a segment\<close>

definition with_bytes :: "u64 \<Rightarrow> u8 list \<Rightarrow> (u64 \<Rightarrow> u8 option) \<Rightarrow> u64 \<Rightarrow> u8 option" where
  "with_bytes va bs m = (\<lambda>x. if unat va \<le> unat x \<and> unat x < unat va + length bs then Some (bs ! (unat x - unat va)) else m x)"

lemma with_bytes_Cons:
  assumes "unat va + length (b # bs) \<le> 549755813888"
  shows "with_bytes (va + 1) bs (m(va \<mapsto> b)) = with_bytes va (b # bs) m"
proof
  fix x
  have n: "unat (va + 1) = unat va + 1"
  proof (rule unat_inc)
    show "va \<noteq> - 1" using assms by (auto simp: unsigned_minus_1_eq_mask mask_eq_exp_minus_1)
  qed
  consider "unat x < unat va" | "x = va" | "unat va + 1 \<le> unat x" by (metis Suc_eq_plus1 Suc_leI linorder_neqE_nat word_unat_eq_iff)
  then show "with_bytes (va + 1) bs (m(va \<mapsto> b)) x = with_bytes va (b # bs) m x"
  proof cases
    case 3
    then have "unat x - unat va = Suc (unat x - (unat va + 1))" "x \<noteq> va" by auto
    then show ?thesis using 3 n by (simp add: with_bytes_def)
  qed (auto simp: with_bytes_def n)
qed

lemma store_bytes_spec:
  assumes "open_space s (cr3 s)" "unat va + length bs \<le> 549755813888"
    "\<And>x. unat va \<le> unat x \<Longrightarrow> unat x < unat va + length bs \<Longrightarrow> mem s x \<noteq> None"
  shows "\<exists>s'. store_bytes va bs s = Some s' \<and> open_space s' (cr3 s) \<and> cr3 s' = cr3 s \<and> free_frames s' = free_frames s \<and>
    mem s' = with_bytes va bs (mem s) \<and> confined (cr3 s) s s'"
  using assms
proof (induction bs arbitrary: va s)
  case Nil
  then show ?case by (auto simp: with_bytes_def fun_eq_iff)
next
  case (Cons b bs)
  have vu: "va < USER_SPACE_END" using Cons.prems(2) by (simp add: word_less_nat_alt)
  have "mem s va \<noteq> None" using Cons.prems(3) [of va] by simp
  from space_store [OF open_space_ok [OF Cons.prems(1)] vu this open_space_writable [OF Cons.prems(1) this], of b] obtain s1 where
    s1: "store_u8 va b s = Some s1" "open_space s1 (cr3 s)" "cr3 s1 = cr3 s" "umem s1 (cr3 s) = (mem s)(va \<mapsto> b)" "free_frames s1 = free_frames s" "confined (cr3 s) s s1"
    using open_space_keep [OF Cons.prems(1)] by metis
  have n: "unat (va + 1) = unat va + 1"
  proof (rule unat_inc)
    show "va \<noteq> - 1" using Cons.prems(2) by (auto simp: unsigned_minus_1_eq_mask mask_eq_exp_minus_1)
  qed
  have "mem s1 x \<noteq> None" if "unat (va + 1) \<le> unat x" "unat x < unat (va + 1) + length bs" for x
    using Cons.prems(3) [of x] that n s1(3,4) by simp
  then obtain s' where s': "store_bytes (va + 1) bs s1 = Some s'" "open_space s' (cr3 s1)" "cr3 s' = cr3 s1" "mem s' = with_bytes (va + 1) bs (mem s1)" "free_frames s' = free_frames s1" "confined (cr3 s1) s1 s'"
    using Cons.IH [of s1 "va + 1"] s1(2,3) Cons.prems(2) n by auto
  have "mem s' = with_bytes va (b # bs) (mem s)"
    using s'(4) with_bytes_Cons [OF Cons.prems(2), of "mem s"] unfolding s1(3) s1(4) by simp
  moreover have "confined (cr3 s) s s'" using confined_trans [OF s1(6)] s'(6) s1(3) by simp
  ultimately show ?case using s1 s'(1-3,5) by simp
qed

section \<open>A segment\<close>

definition loadable :: "ProgramHeader \<Rightarrow> bool" where
  "loadable h \<longleftrightarrow> ph_kind h = PT_LOAD \<and> ph_memory_size h \<noteq> 0"

text \<open>What the loader insists on before it touches memory.\<close>

definition segment_fits :: "u8 list \<Rightarrow> ProgramHeader \<Rightarrow> bool" where
  "segment_fits data h \<longleftrightarrow> unat (ph_file_size h) \<le> unat (ph_memory_size h) \<and>
     unat (ph_offset h) + unat (ph_file_size h) < 2 ^ 64 \<and> unat (ph_offset h) + unat (ph_file_size h) \<le> length data \<and>
     unat (ph_virtual_address h) + unat (ph_memory_size h) \<le> 0x80000000"

abbreviation (input) first_page :: "ProgramHeader \<Rightarrow> u64" where "first_page h \<equiv> page_base (ph_virtual_address h)"
abbreviation (input) last_page :: "ProgramHeader \<Rightarrow> u64" where
  "last_page h \<equiv> page_base (ph_virtual_address h + ph_memory_size h - 1)"

definition segment_bytes :: "u8 list \<Rightarrow> ProgramHeader \<Rightarrow> u8 list" where
  "segment_bytes data h = take (unat (ph_file_size h)) (drop (unat (ph_offset h)) data)"

text \<open>The effect of a segment on the memory a program sees.\<close>

definition place_segment :: "u8 list \<Rightarrow> ProgramHeader \<Rightarrow> (u64 \<Rightarrow> u8 option) \<Rightarrow> u64 \<Rightarrow> u8 option" where
  "place_segment data h m = (if loadable h
     then with_bytes (ph_virtual_address h) (segment_bytes data h) (with_zero_pages (first_page h) (last_page h) m) else m)"

lemma page_base_mono: "unat a \<le> unat b \<Longrightarrow> page_base a \<le> page_base b"
  by (simp add: word_le_nat_alt unat_page_base div_le_mono)

lemma segment_end:
  assumes "segment_fits data h" "loadable h"
  shows "unat (ph_virtual_address h + ph_memory_size h - 1) = unat (ph_virtual_address h) + unat (ph_memory_size h) - 1"
    "last_page h < USER_SPACE_END"
proof -
  have pos: "0 < unat (ph_memory_size h)" using assms(2) by (simp add: loadable_def unat_gt_0)
  have sum: "unat (ph_virtual_address h + ph_memory_size h) = unat (ph_virtual_address h) + unat (ph_memory_size h)"
    using assms(1) by (simp add: segment_fits_def unat_word_ariths)
  then have "(1 :: u64) \<le> ph_virtual_address h + ph_memory_size h" using pos by (simp add: word_le_nat_alt)
  then show e: "unat (ph_virtual_address h + ph_memory_size h - 1) = unat (ph_virtual_address h) + unat (ph_memory_size h) - 1"
    using sum by (simp add: unat_sub)
  have "unat (last_page h) \<le> unat (ph_virtual_address h + ph_memory_size h - 1)" by (simp add: unat_page_base)
  then have "unat (last_page h) < 549755813888" using e assms(1) unfolding segment_fits_def by linarith
  then show "last_page h < USER_SPACE_END" by (simp add: word_less_nat_alt)
qed

lemma in_segment_pages:
  assumes "segment_fits data h" "loadable h" "unat (ph_virtual_address h) \<le> unat x" "unat x < unat (ph_virtual_address h) + unat (ph_memory_size h)"
  shows "first_page h \<le> page_base x \<and> page_base x \<le> last_page h"
  using assms(3,4) segment_end(1) [OF assms(1,2)] by (auto intro!: page_base_mono)

lemma length_segment_bytes: "segment_fits data h \<Longrightarrow> length (segment_bytes data h) = unat (ph_file_size h)"
  by (auto simp: segment_fits_def segment_bytes_def)

lemma load_segment_fits:
  assumes "loadable h" "segment_fits data h"
  shows "load_segment data h (segments, zeroed, pages) s =
    (case load_pages (first_page h) (last_page h) zeroed pages s of
       None \<Rightarrow> None
     | Some (Inl e, s) \<Rightarrow> Some (Inl e, s)
     | Some (Inr (zeroed, pages), s) \<Rightarrow> map_option (\<lambda>s. (Inr (segments + 1, zeroed, pages), s))
         (store_bytes (ph_virtual_address h) (segment_bytes data h) s))"
proof -
  note f = assms(2) [unfolded segment_fits_def]
  have a1: "checked_add (ph_offset h) (ph_file_size h) = Some (ph_offset h + ph_file_size h)"
    using f by (simp add: checked_add_def)
  have a2: "checked_add (ph_virtual_address h) (ph_memory_size h) = Some (ph_virtual_address h + ph_memory_size h)"
    using f by (simp add: checked_add_def)
  note u = checked_add_unat [OF a1] checked_add_unat [OF a2]
  have src: "drop (unat (ph_offset h)) (take (unat (ph_offset h + ph_file_size h)) data) = segment_bytes data h"
    using u(1) by (simp add: segment_bytes_def drop_take)
  have empty: "store_bytes (ph_virtual_address h) (segment_bytes data h) s = Some s" if "\<not> 0 < ph_file_size h" for s
    using that by (simp add: segment_bytes_def word_gt_0)
  have "\<not> ph_memory_size h < ph_file_size h" "\<not> length data < unat (ph_offset h + ph_file_size h)"
      "\<not> USER_ADDRESS_LIMIT < ph_virtual_address h + ph_memory_size h"
    using f u by (auto simp: word_less_nat_alt)
  then show ?thesis
    using assms(1) unfolding load_segment_def loadable_def
    by (simp add: a1 a2 src Let_def empty split: option.splits sum.splits prod.splits)
qed

lemma load_segment_refused:
  assumes "loadable h" "\<not> segment_fits data h"
  shows "\<exists>e. load_segment data h acc s = Some (Inl e, s)"
proof -
  obtain segments zeroed pages where acc: "acc = (segments, zeroed, pages)" by (cases acc)
  consider "ph_file_size h > ph_memory_size h" | "checked_add (ph_offset h) (ph_file_size h) = None"
    | file_end where "\<not> ph_file_size h > ph_memory_size h" "checked_add (ph_offset h) (ph_file_size h) = Some file_end"
    by fastforce
  then show ?thesis
  proof cases
    case 3
    note u = checked_add_unat [OF 3(2)]
    consider "unat file_end > length data" | "\<not> unat file_end > length data" "checked_add (ph_virtual_address h) (ph_memory_size h) = None"
      | memory_end where "\<not> unat file_end > length data" "checked_add (ph_virtual_address h) (ph_memory_size h) = Some memory_end"
      by fastforce
    then show ?thesis
    proof cases
      case inner: 3
      have "unat file_end < 2 ^ 64" using unat_u64_less [of file_end] by simp
      then have "\<not> unat memory_end \<le> 0x80000000"
        using assms(2) 3(1) u inner checked_add_unat [OF inner(2)] by (auto simp: segment_fits_def word_less_nat_alt)
      then have "USER_ADDRESS_LIMIT < memory_end" by (simp add: word_less_nat_alt)
      then show ?thesis using assms(1) 3 inner acc by (auto simp: load_segment_def loadable_def)
    qed (use assms(1) 3 acc in \<open>auto simp: load_segment_def loadable_def\<close>)
  qed (use assms(1) acc in \<open>auto simp: load_segment_def loadable_def\<close>)
qed

text \<open>A page takes a frame and at most three tables.\<close>

definition frames_needed :: "ProgramHeader \<Rightarrow> nat" where
  "frames_needed h = (if loadable h then 4 * pages_left (first_page h) (last_page h) else 0)"

lemma load_segment_spec:
  assumes "open_space s (cr3 s)" "zeroed = 4096 * word_of_nat (length pages)"
  shows "\<exists>r s'. load_segment data h (segments, zeroed, pages) s = Some (r, s') \<and> open_space s' (cr3 s) \<and> cr3 s' = cr3 s \<and> confined (cr3 s) s s' \<and>
    (case r of Inl e \<Rightarrow> loadable h \<and> (segment_fits data h \<longrightarrow> e = ''out of physical memory'' \<and> card (free_frames s) < frames_needed h)
     | Inr (n, z, ps) \<Rightarrow> mem s' = place_segment data h (mem s) \<and> z = 4096 * word_of_nat (length ps) \<and>
         card (free_frames s) \<le> card (free_frames s') + frames_needed h \<and>
         n = segments + (if loadable h then 1 else 0) \<and> (loadable h \<longrightarrow> segment_fits data h))"
proof (cases "loadable h")
  case False
  then show ?thesis using assms by (auto simp: load_segment_def loadable_def place_segment_def frames_needed_def)
next
  case l: True
  show ?thesis
  proof (cases "segment_fits data h")
    case False
    then show ?thesis using load_segment_refused [OF l False, of "(segments, zeroed, pages)" s] assms(1) l by fastforce
  next
    case fits: True
    note e = segment_end [OF fits l]
    obtain r s1 where p: "load_pages (first_page h) (last_page h) zeroed pages s = Some (r, s1)" "open_space s1 (cr3 s)" "cr3 s1 = cr3 s" "confined (cr3 s) s s1"
        "case r of Inl e \<Rightarrow> e = ''out of physical memory'' \<and> card (free_frames s) < 4 * pages_left (first_page h) (last_page h)
         | Inr (z, ps) \<Rightarrow> mem s1 = with_zero_pages (first_page h) (last_page h) (mem s) \<and> z = 4096 * word_of_nat (length ps) \<and>
           card (free_frames s) \<le> card (free_frames s1) + 4 * pages_left (first_page h) (last_page h)"
      using load_pages_spec [OF assms(1) aligned_page_base aligned_page_base e(2) assms(2)] by blast
    note run = load_segment_fits [OF l fits, of segments zeroed pages s, unfolded p(1)]
    show ?thesis
    proof (cases r)
      case (Inl e)
      then show ?thesis using run p l by (simp add: frames_needed_def)
    next
      case (Inr zp)
      obtain z ps where zp: "zp = (z, ps)" by (cases zp)
      have m: "mem s1 = with_zero_pages (first_page h) (last_page h) (mem s)" "z = 4096 * word_of_nat (length ps)"
          "card (free_frames s) \<le> card (free_frames s1) + 4 * pages_left (first_page h) (last_page h)" using p(5) Inr zp by simp_all
      note len = length_segment_bytes [OF fits]
      have "mem s1 x \<noteq> None" if "unat (ph_virtual_address h) \<le> unat x" "unat x < unat (ph_virtual_address h) + length (segment_bytes data h)" for x
        using in_segment_pages [OF fits l that(1)] that(2) len fits m(1) by (auto simp: with_zero_pages_def segment_fits_def)
      moreover have "unat (ph_virtual_address h) + length (segment_bytes data h) \<le> 549755813888"
        using fits len by (simp add: segment_fits_def)
      ultimately obtain s2 where s2: "store_bytes (ph_virtual_address h) (segment_bytes data h) s1 = Some s2" "open_space s2 (cr3 s1)" "cr3 s2 = cr3 s1"
          "mem s2 = with_bytes (ph_virtual_address h) (segment_bytes data h) (mem s1)" "free_frames s2 = free_frames s1" "confined (cr3 s1) s1 s2"
        using store_bytes_spec [of s1] p(2,3) by metis
      have "load_segment data h (segments, zeroed, pages) s = Some (Inr (segments + 1, z, ps), s2)" using run Inr zp s2(1) by simp
      moreover have "confined (cr3 s) s s2" using confined_trans [OF p(4)] s2(6) p(3) by simp
      ultimately show ?thesis using s2 m p(3) l fits by (simp add: place_segment_def frames_needed_def)
    qed
  qed
qed

lemma load_segments_spec:
  assumes "open_space s (cr3 s)" "snd (snd acc) = pages" "fst (snd acc) = 4096 * word_of_nat (length pages)"
    "\<And>i. i \<in> set is \<Longrightarrow> program_header data (ho + i * hs) = Some (hdr i)"
  shows "\<exists>r s'. load_segments data ho hs is acc s = Some (r, s') \<and> open_space s' (cr3 s) \<and> cr3 s' = cr3 s \<and> confined (cr3 s) s s' \<and>
    (case r of Inl e \<Rightarrow> (\<forall>i \<in> set is. loadable (hdr i) \<longrightarrow> segment_fits data (hdr i)) \<longrightarrow>
         e = ''out of physical memory'' \<and> card (free_frames s) < sum_list (map (frames_needed \<circ> hdr) is)
     | Inr (n, z, ps) \<Rightarrow> mem s' = fold (place_segment data) (map hdr is) (mem s) \<and> z = 4096 * word_of_nat (length ps) \<and>
         n = fst acc + length (filter (loadable \<circ> hdr) is) \<and> (\<forall>i \<in> set is. loadable (hdr i) \<longrightarrow> segment_fits data (hdr i)))"
  using assms
proof (induction "is" arbitrary: acc pages s)
  case Nil
  then show ?case by (cases acc) auto
next
  case (Cons i "is")
  obtain segments zeroed where acc: "acc = (segments, zeroed, pages)" "zeroed = 4096 * word_of_nat (length pages)"
    using Cons.prems(2,3) by (cases acc) auto
  obtain r s1 where l: "load_segment data (hdr i) acc s = Some (r, s1)" "open_space s1 (cr3 s)" "cr3 s1 = cr3 s" "confined (cr3 s) s s1"
      "case r of Inl e \<Rightarrow> loadable (hdr i) \<and> (segment_fits data (hdr i) \<longrightarrow> e = ''out of physical memory'' \<and> card (free_frames s) < frames_needed (hdr i))
     | Inr (n, z, ps) \<Rightarrow> mem s1 = place_segment data (hdr i) (mem s) \<and> z = 4096 * word_of_nat (length ps) \<and>
         card (free_frames s) \<le> card (free_frames s1) + frames_needed (hdr i) \<and>
         n = segments + (if loadable (hdr i) then 1 else 0) \<and> (loadable (hdr i) \<longrightarrow> segment_fits data (hdr i))"
    using load_segment_spec [OF Cons.prems(1) acc(2), of data "hdr i" segments] acc(1) by blast
  have ph: "program_header data (ho + i * hs) = Some (hdr i)" using Cons.prems(4) by simp
  show ?case
  proof (cases r)
    case (Inl e)
    then have "load_segments data ho hs (i # is) acc s = Some (Inl e, s1)" using ph l(1) by simp
    then show ?thesis using l Inl by auto
  next
    case (Inr acc1)
    obtain n z ps where a: "acc1 = (n, z, ps)" by (cases acc1)
    have run: "load_segments data ho hs (i # is) acc s = load_segments data ho hs is acc1 s1" using ph l(1) Inr by simp
    have m: "mem s1 = place_segment data (hdr i) (mem s)" "z = 4096 * word_of_nat (length ps)"
        "n = segments + (if loadable (hdr i) then 1 else 0)" "loadable (hdr i) \<longrightarrow> segment_fits data (hdr i)"
        "card (free_frames s) \<le> card (free_frames s1) + frames_needed (hdr i)" using l(5) Inr a by simp_all
    obtain r' s' where IH: "load_segments data ho hs is acc1 s1 = Some (r', s')" "open_space s' (cr3 s1)" "cr3 s' = cr3 s1" "confined (cr3 s1) s1 s'"
        "case r' of Inl e \<Rightarrow> (\<forall>i \<in> set is. loadable (hdr i) \<longrightarrow> segment_fits data (hdr i)) \<longrightarrow>
          e = ''out of physical memory'' \<and> card (free_frames s1) < sum_list (map (frames_needed \<circ> hdr) is)
     | Inr (n, z, ps) \<Rightarrow> mem s' = fold (place_segment data) (map hdr is) (mem s1) \<and> z = 4096 * word_of_nat (length ps) \<and>
         n = fst acc1 + length (filter (loadable \<circ> hdr) is) \<and> (\<forall>i \<in> set is. loadable (hdr i) \<longrightarrow> segment_fits data (hdr i))"
      using Cons.IH [of s1 acc1 ps] l(2,3) a m(2) Cons.prems(4) by auto
    have "confined (cr3 s) s s'" using confined_trans [OF l(4)] IH(4) l(3) by simp
    then show ?thesis using IH run l(3) m acc(1) a by (cases r') auto
  qed
qed

section \<open>Permissions of a segment\<close>

lemma page_flags_mask: "page_flags nx flags AND ADDRESS_MASK = 0"
  by (simp add: page_flags_def flag_defs ADDRESS_MASK_def)

lemma seal_pages_spec:
  assumes "space_ok s (cr3 s)" "aligned page" "aligned final" "final < USER_SPACE_END" "flags AND ADDRESS_MASK = 0"
    "\<And>x. page \<le> page_base x \<Longrightarrow> page_base x \<le> final \<Longrightarrow> mem s x \<noteq> None"
  shows "\<exists>s'. seal_pages page final flags s = Some (Inr (), s') \<and> space_ok s' (cr3 s) \<and> cr3 s' = cr3 s \<and> mem s' = mem s \<and> confined (cr3 s) s s' \<and>
    (\<forall>x < USER_SPACE_END. page_entry s' (cr3 s) (indexes x) =
      (if page \<le> page_base x \<and> page_base x \<le> final then (page_entry s (cr3 s) (indexes x) AND ADDRESS_MASK) OR flags OR PRESENT
       else page_entry s (cr3 s) (indexes x)))"
  using assms(1,2,6)
proof (induction "unat final + 4096 - unat page" arbitrary: page s rule: less_induct)
  case less
  note unf = seal_pages.simps [of page final flags s]
  have lim: "unat final < 549755813888" using assms(4) by (simp add: word_less_nat_alt)
  show ?case
  proof (cases "page \<le> final")
    case False
    then show ?thesis using unf less.prems by (auto simp: word_le_nat_alt)
  next
    case True
    have pu: "page < USER_SPACE_END" using True assms(4) by (rule le_less_trans)
    have le: "unat page \<le> unat final" using True by (simp add: word_le_nat_alt)
    then have st: "unat (page + 4096) = unat page + 4096" "aligned (page + 4096)" using aligned_step [OF less.prems(2)] lim by simp_all
    have dec: "unat final + 4096 - unat (page + 4096) < unat final + 4096 - unat page" using st le by linarith
    have up: "(page + 4096 \<le> page_base x) = (page \<le> page_base x \<and> page_base x \<noteq> page)" for x
      using aligned_next [OF less.prems(2), of "page_base x"] st(1) by (auto simp: word_le_nat_alt)
    have "mem s page \<noteq> None" using less.prems(3) [of page] True page_base_aligned [OF less.prems(2)] by simp
    from space_set_flags [OF less.prems(1) pu this assms(5)] obtain s1 where
      s1: "set_flags page flags s = (Inr (), s1)" "space_ok s1 (cr3 s)" "cr3 s1 = cr3 s" "umem s1 (cr3 s) = mem s" "confined (cr3 s) s s1"
        "\<And>q. user_index q \<Longrightarrow> length q = 4 \<Longrightarrow> page_entry s1 (cr3 s) q =
          (if q = indexes page then (page_entry s (cr3 s) q AND ADDRESS_MASK) OR flags OR PRESENT else page_entry s (cr3 s) q)"
      by blast
    have run: "seal_pages page final flags s = seal_pages (page + 4096) final flags s1" using unf True s1(1) by simp
    obtain s' where s': "seal_pages (page + 4096) final flags s1 = Some (Inr (), s')" "space_ok s' (cr3 s1)" "cr3 s' = cr3 s1" "mem s' = mem s1"
        "confined (cr3 s1) s1 s'"
        "\<forall>x < USER_SPACE_END. page_entry s' (cr3 s1) (indexes x) =
      (if page + 4096 \<le> page_base x \<and> page_base x \<le> final then (page_entry s1 (cr3 s1) (indexes x) AND ADDRESS_MASK) OR flags OR PRESENT
       else page_entry s1 (cr3 s1) (indexes x))"
      using less.hyps [OF dec, of s1] s1(2-4) st(2) less.prems(3) up by auto
    have "page_entry s' (cr3 s) (indexes x) =
      (if page \<le> page_base x \<and> page_base x \<le> final then (page_entry s (cr3 s) (indexes x) AND ADDRESS_MASK) OR flags OR PRESENT
       else page_entry s (cr3 s) (indexes x))" if x: "x < USER_SPACE_END" for x
    proof -
      have "(indexes x = indexes page) = (page_base x = page)"
        using indexes_inj [OF x pu] indexes_same_page [of x page] page_base_aligned [OF less.prems(2)] by auto
      then show ?thesis using s'(6) [rule_format, OF x] s1(3,6) indexes_user [OF x] up [of x] True by auto
    qed
    moreover have "confined (cr3 s) s s'" using confined_trans [OF s1(5)] s'(5) s1(3) by simp
    ultimately show ?thesis using run s' s1(3,4) by simp
  qed
qed

definition seal_entry :: "bool \<Rightarrow> u64 \<Rightarrow> ProgramHeader \<Rightarrow> u64 \<Rightarrow> u64" where
  "seal_entry nx x h e =
     (if loadable h \<and> first_page h \<le> page_base x \<and> page_base x \<le> last_page h
      then (e AND ADDRESS_MASK) OR page_flags nx (ph_flags h) OR PRESENT else e)"

lemma seal_segment_spec:
  assumes "space_ok s (cr3 s)" "loadable h \<longrightarrow> segment_fits data h"
    "\<And>x. loadable h \<Longrightarrow> first_page h \<le> page_base x \<Longrightarrow> page_base x \<le> last_page h \<Longrightarrow> mem s x \<noteq> None"
  shows "\<exists>s'. seal_segment nx h s = Some (Inr (), s') \<and> space_ok s' (cr3 s) \<and> cr3 s' = cr3 s \<and> mem s' = mem s \<and> confined (cr3 s) s s' \<and>
    (\<forall>x < USER_SPACE_END. page_entry s' (cr3 s) (indexes x) = seal_entry nx x h (page_entry s (cr3 s) (indexes x)))"
proof (cases "loadable h")
  case True
  then have fits: "segment_fits data h" using assms(2) by blast
  have "seal_segment nx h s = seal_pages (first_page h) (last_page h) (page_flags nx (ph_flags h)) s"
    using True by (simp add: seal_segment_def loadable_def)
  then show ?thesis
    using seal_pages_spec [OF assms(1) aligned_page_base aligned_page_base segment_end(2) [OF fits True] page_flags_mask assms(3) [OF True]] True
    by (simp add: seal_entry_def)
qed (use assms(1) in \<open>auto simp: seal_segment_def seal_entry_def loadable_def\<close>)

lemma seal_segments_spec:
  assumes "space_ok s (cr3 s)" "\<And>i. i \<in> set is \<Longrightarrow> program_header data (ho + i * hs) = Some (hdr i)"
    "\<And>i. i \<in> set is \<Longrightarrow> loadable (hdr i) \<Longrightarrow> segment_fits data (hdr i)"
    "\<And>i x. i \<in> set is \<Longrightarrow> loadable (hdr i) \<Longrightarrow> first_page (hdr i) \<le> page_base x \<Longrightarrow> page_base x \<le> last_page (hdr i) \<Longrightarrow> mem s x \<noteq> None"
  shows "\<exists>s'. seal_segments nx data ho hs is s = Some (Inr (), s') \<and> space_ok s' (cr3 s) \<and> cr3 s' = cr3 s \<and> mem s' = mem s \<and> confined (cr3 s) s s' \<and>
    (\<forall>x < USER_SPACE_END. page_entry s' (cr3 s) (indexes x) = fold (seal_entry nx x) (map hdr is) (page_entry s (cr3 s) (indexes x)))"
  using assms
proof (induction "is" arbitrary: s)
  case (Cons i "is")
  have "\<exists>s1. seal_segment nx (hdr i) s = Some (Inr (), s1) \<and> space_ok s1 (cr3 s) \<and> cr3 s1 = cr3 s \<and> mem s1 = mem s \<and> confined (cr3 s) s s1 \<and>
      (\<forall>x < USER_SPACE_END. page_entry s1 (cr3 s) (indexes x) = seal_entry nx x (hdr i) (page_entry s (cr3 s) (indexes x)))"
  proof (rule seal_segment_spec [OF Cons.prems(1)])
    show "loadable (hdr i) \<longrightarrow> segment_fits data (hdr i)" using Cons.prems(3) by simp
    show "mem s x \<noteq> None" if "loadable (hdr i)" "first_page (hdr i) \<le> page_base x" "page_base x \<le> last_page (hdr i)" for x
      using Cons.prems(4) [of i x] that by simp
  qed
  then obtain s1 where s1: "seal_segment nx (hdr i) s = Some (Inr (), s1)" "space_ok s1 (cr3 s)" "cr3 s1 = cr3 s" "mem s1 = mem s" "confined (cr3 s) s s1"
      "\<forall>x < USER_SPACE_END. page_entry s1 (cr3 s) (indexes x) = seal_entry nx x (hdr i) (page_entry s (cr3 s) (indexes x))"
    by blast
  have "space_ok s1 (cr3 s1)" "\<And>j x. j \<in> set is \<Longrightarrow> loadable (hdr j) \<Longrightarrow> first_page (hdr j) \<le> page_base x \<Longrightarrow> page_base x \<le> last_page (hdr j) \<Longrightarrow> mem s1 x \<noteq> None"
    using s1(2-4) Cons.prems(4) by auto
  then obtain s' where s': "seal_segments nx data ho hs is s1 = Some (Inr (), s')" "space_ok s' (cr3 s1)" "cr3 s' = cr3 s1" "mem s' = mem s1" "confined (cr3 s1) s1 s'"
    "\<forall>x < USER_SPACE_END. page_entry s' (cr3 s1) (indexes x) = fold (seal_entry nx x) (map hdr is) (page_entry s1 (cr3 s1) (indexes x))"
    using Cons.IH [of s1] Cons.prems(2,3) by auto
  moreover have "confined (cr3 s) s s'" using confined_trans [OF s1(5)] s'(5) s1(3) by simp
  ultimately show ?case using s1 Cons.prems(2) by auto
qed auto

section \<open>The whole file\<close>

definition elf_headers :: "u8 list \<Rightarrow> ProgramHeader list" where
  "elf_headers data = map (\<lambda>i. the (program_header data (unat (read_u64 data 32) + i * unat (read_u16 data 54))))
     [0..<unat (read_u16 data 56)]"

definition covers :: "ProgramHeader \<Rightarrow> u64 \<Rightarrow> bool" where
  "covers h x \<longleftrightarrow> loadable h \<and> unat (ph_virtual_address h) \<le> unat x \<and> unat x < unat (ph_virtual_address h) + unat (ph_file_size h)"

definition on_page :: "ProgramHeader \<Rightarrow> u64 \<Rightarrow> bool" where
  "on_page h x \<longleftrightarrow> loadable h \<and> first_page h \<le> page_base x \<and> page_base x \<le> last_page h"

lemma place_mapped: "m x \<noteq> None \<Longrightarrow> place_segment data h m x \<noteq> None"
  by (simp add: place_segment_def with_bytes_def with_zero_pages_def)

lemma fold_mapped: "m x \<noteq> None \<Longrightarrow> fold (place_segment data) hs m x \<noteq> None"
proof (induction hs arbitrary: m)
  case (Cons h hs)
  then show ?case using place_mapped [of m x data h] by simp
qed simp

lemma fold_on_page: "h \<in> set hs \<Longrightarrow> on_page h x \<Longrightarrow> fold (place_segment data) hs m x \<noteq> None"
proof (induction hs arbitrary: m)
  case (Cons g hs)
  show ?case
  proof (cases "g = h")
    case True
    then have "place_segment data g m x \<noteq> None" using Cons.prems(2) by (simp add: on_page_def place_segment_def with_bytes_def with_zero_pages_def)
    then show ?thesis using fold_mapped by simp
  next
    case False
    then show ?thesis using Cons by simp
  qed
qed simp

text \<open>The checks on the file header.\<close>

definition elf_header_ok :: "u8 list \<Rightarrow> bool" where
  "elf_header_ok data \<longleftrightarrow> 64 \<le> length data \<and> take 4 data = ELF_MAGIC \<and> data ! 4 = 2 \<and> data ! 5 = 1 \<and>
     read_u16 data 16 = 2 \<and> read_u16 data 18 = 0x3E \<and> 56 \<le> unat (read_u16 data 54) \<and>
     unat (read_u64 data 32) + unat (read_u16 data 54) * unat (read_u16 data 56) < 2 ^ 64 \<and>
     unat (read_u64 data 32) + unat (read_u16 data 54) * unat (read_u16 data 56) \<le> length data"

lemma elf_load_bad_header: "\<not> elf_header_ok data \<Longrightarrow> \<exists>e. elf_load nx data s = Some (Inl e, s)"
  by (auto simp: elf_load_def elf_header_ok_def Let_def)

text \<open>What the loader has done when it accepts a file.\<close>

definition image_loaded :: "bool \<Rightarrow> u8 list \<Rightarrow> Memory \<Rightarrow> Loaded \<Rightarrow> Memory \<Rightarrow> bool" where
  "image_loaded nx data s l s' \<longleftrightarrow> umem s' (cr3 s) = fold (place_segment data) (elf_headers data) (umem s (cr3 s)) \<and>
     (\<forall>h \<in> set (elf_headers data). loadable h \<longrightarrow> segment_fits data h) \<and>
     (\<forall>x < USER_SPACE_END. \<exists>e. page_entry s' (cr3 s) (indexes x) = fold (seal_entry nx x) (elf_headers data) e) \<and>
     umem s' (cr3 s) (loaded_entry l) \<noteq> None \<and> loaded_entry l = read_u64 data 24 \<and> loaded_entry l \<le> USER_ADDRESS_LIMIT \<and>
     0 < loaded_segments l \<and> loaded_segments l = length (filter loadable (elf_headers data)) \<and>
     bytes_zeroed l = 4096 * word_of_nat (length (loaded_pages l))"

text \<open>A file that asks for nothing the loader refuses, with frames for all its pages and their tables.\<close>

definition elf_acceptable :: "u8 list \<Rightarrow> nat \<Rightarrow> bool" where
  "elf_acceptable data frames \<longleftrightarrow> elf_header_ok data \<and> (\<forall>h \<in> set (elf_headers data). loadable h \<longrightarrow> segment_fits data h) \<and>
     read_u64 data 24 \<le> USER_ADDRESS_LIMIT \<and> (\<exists>h \<in> set (elf_headers data). on_page h (read_u64 data 24)) \<and>
     sum_list (map frames_needed (elf_headers data)) \<le> frames"

lemma elf_load_run:
  assumes op: "open_space s (cr3 s)" and header: "elf_header_ok data"
  shows "\<exists>r s'. elf_load nx data s = Some (r, s') \<and> space_ok s' (cr3 s) \<and> cr3 s' = cr3 s \<and> confined (cr3 s) s s' \<and>
    (case r of Inl e \<Rightarrow> \<not> elf_acceptable data (card (free_frames s)) | Inr l \<Rightarrow> image_loaded nx data s l s')"
proof -
  note ok = open_space_ok [OF op]
  let ?ho = "unat (read_u64 data 32)" and ?hs = "unat (read_u16 data 54)" and ?n = "unat (read_u16 data 56)"
  let ?hdr = "\<lambda>i. the (program_header data (?ho + i * ?hs))"
  note h = header [unfolded elf_header_ok_def]
  have guards: "\<not> length data < 64" "take 4 data = ELF_MAGIC" "data ! 4 = 2" "data ! 5 = 1" "read_u16 data 16 = 2" "read_u16 data 18 = 0x3E"
    "\<not> ?hs < 56" "?ho + ?hs * ?n < 2 ^ 64" "\<not> ?ho + ?hs * ?n > length data" using h by simp_all
  have ph: "program_header data (?ho + i * ?hs) = Some (?hdr i)" if "i \<in> set [0..<?n]" for i
  proof -
    have "i * ?hs + ?hs \<le> ?hs * ?n" using that mult_le_mono2 [of "Suc i" ?n ?hs] by (simp add: mult.commute)
    then have "?ho + i * ?hs + 56 \<le> length data" using h by linarith
    then show ?thesis by (simp add: program_header_def)
  qed
  obtain r s1 where l: "load_segments data ?ho ?hs [0..<?n] (0, 0, []) s = Some (r, s1)" "open_space s1 (cr3 s)" "cr3 s1 = cr3 s" "confined (cr3 s) s s1"
    "case r of Inl e \<Rightarrow> (\<forall>i \<in> set [0..<?n]. loadable (?hdr i) \<longrightarrow> segment_fits data (?hdr i)) \<longrightarrow>
       e = ''out of physical memory'' \<and> card (free_frames s) < sum_list (map (frames_needed \<circ> ?hdr) [0..<?n])
     | Inr (n, z, ps) \<Rightarrow> mem s1 = fold (place_segment data) (map ?hdr [0..<?n]) (mem s) \<and> z = 4096 * word_of_nat (length ps) \<and>
       n = fst (0 :: nat, 0 :: u64, [] :: u64 list) + length (filter (loadable \<circ> ?hdr) [0..<?n]) \<and> (\<forall>i \<in> set [0..<?n]. loadable (?hdr i) \<longrightarrow> segment_fits data (?hdr i))"
    using load_segments_spec [OF op, of "(0, 0, [])" "[]" "[0..<?n]" data ?ho ?hs ?hdr] ph by auto
  show ?thesis
  proof (cases r)
    case (Inl e)
    then have "elf_load nx data s = Some (Inl e, s1)" using guards l(1) by (simp add: elf_load_def Let_def)
    moreover have "\<not> elf_acceptable data (card (free_frames s))" using l(5) Inl by (auto simp: elf_acceptable_def elf_headers_def)
    ultimately show ?thesis using l(2-4) open_space_ok by auto
  next
    case (Inr acc)
    obtain n z ps where a: "acc = (n, z, ps)" by (cases acc)
    have m: "mem s1 = fold (place_segment data) (elf_headers data) (mem s)" "z = 4096 * word_of_nat (length ps)"
        "n = length (filter loadable (elf_headers data))" "\<And>i. i \<in> set [0..<?n] \<Longrightarrow> loadable (?hdr i) \<Longrightarrow> segment_fits data (?hdr i)"
      using l(5) Inr a by (simp_all add: elf_headers_def filter_map)
    have on: "mem s1 x \<noteq> None" if "i \<in> set [0..<?n]" "loadable (?hdr i)" "first_page (?hdr i) \<le> page_base x" "page_base x \<le> last_page (?hdr i)" for i x
      using fold_on_page [of "?hdr i" "elf_headers data" x data "mem s"] that m(1) by (auto simp: elf_headers_def on_page_def)
    have "space_ok s1 (cr3 s1)" using l(2,3) open_space_ok by simp
    then have "\<exists>s2. seal_segments nx data ?ho ?hs [0..<?n] s1 = Some (Inr (), s2) \<and> space_ok s2 (cr3 s1) \<and> cr3 s2 = cr3 s1 \<and> mem s2 = mem s1 \<and> confined (cr3 s1) s1 s2 \<and>
        (\<forall>x < USER_SPACE_END. page_entry s2 (cr3 s1) (indexes x) = fold (seal_entry nx x) (map ?hdr [0..<?n]) (page_entry s1 (cr3 s1) (indexes x)))"
      by (rule seal_segments_spec [of s1 "[0..<?n]" data ?ho ?hs ?hdr nx]) (erule ph, erule (1) m(4), erule (3) on)
    then obtain s2 where s2: "seal_segments nx data ?ho ?hs [0..<?n] s1 = Some (Inr (), s2)" "space_ok s2 (cr3 s1)" "cr3 s2 = cr3 s1" "mem s2 = mem s1" "confined (cr3 s1) s1 s2"
        "\<forall>x < USER_SPACE_END. page_entry s2 (cr3 s1) (indexes x) = fold (seal_entry nx x) (map ?hdr [0..<?n]) (page_entry s1 (cr3 s1) (indexes x))"
      by blast
    have c2: "confined (cr3 s) s s2" using confined_trans [OF l(4)] s2(5) l(3) by simp
    let ?entry = "read_u64 data 24"
    show ?thesis
    proof (cases "n = 0 \<or> ?entry > USER_ADDRESS_LIMIT \<or> translate_active ?entry s2 = None")
      case bad: True
      then have "\<exists>e s'. elf_load nx data s = Some (Inl e, s') \<and> s' \<in> {s1, s2}"
        using guards l(1) Inr a s2(1) by (auto simp: elf_load_def Let_def)
      moreover have "\<not> elf_acceptable data (card (free_frames s))"
      proof
        assume acc: "elf_acceptable data (card (free_frames s))"
        then obtain g where g: "g \<in> set (elf_headers data)" "on_page g ?entry" by (auto simp: elf_acceptable_def)
        then have "mem s2 ?entry \<noteq> None" using fold_on_page m(1) s2(4) by simp
        moreover have "n \<noteq> 0" using g m(3) by (auto simp: on_page_def filter_empty_conv)
        moreover have "?entry < USER_SPACE_END" using acc by (auto simp: elf_acceptable_def word_less_nat_alt word_le_nat_alt)
        ultimately show False using bad acc umem_translate [of s2 "cr3 s2" ?entry] s2(2,3)
          by (auto simp: translate_active_def elf_acceptable_def)
      qed
      ultimately show ?thesis using l(2-4) s2(2,3) c2 open_space_ok by auto
    next
      case good: False
      then have run: "elf_load nx data s = Some (Inr \<lparr> loaded_entry = ?entry, loaded_segments = n, bytes_zeroed = z, loaded_pages = ps \<rparr>, s2)"
        using guards l(1) Inr a s2(1) by (auto simp: elf_load_def Let_def)
      have "?entry < USER_SPACE_END" using good by (auto simp: word_less_nat_alt word_le_nat_alt)
      then have "mem s2 ?entry \<noteq> None" using good umem_translate [of s2 "cr3 s2" ?entry] s2(2,3) by (auto simp: translate_active_def)
      moreover have "\<forall>h \<in> set (elf_headers data). loadable h \<longrightarrow> segment_fits data h" using m(4) by (auto simp: elf_headers_def)
      moreover have "\<exists>e. page_entry s2 (cr3 s) (indexes x) = fold (seal_entry nx x) (elf_headers data) e" if "x < USER_SPACE_END" for x
        using s2(6) that l(3) by (auto simp: elf_headers_def)
      ultimately show ?thesis using run s2(2-4) c2 l(3) m good by (auto simp: not_less image_loaded_def)
    qed
  qed
qed

section \<open>Properties\<close>

lemma place_keeps:
  assumes "m x \<noteq> None" "\<not> covers h x" "loadable h \<longrightarrow> segment_fits data h"
  shows "place_segment data h m x = m x"
  using assms length_segment_bytes [of data h] by (auto simp: place_segment_def with_bytes_def with_zero_pages_def covers_def)

lemma place_uncovered:
  assumes "m x \<in> {None, Some 0}" "\<not> covers h x" "loadable h \<longrightarrow> segment_fits data h"
  shows "place_segment data h m x \<in> {None, Some 0}"
  using assms length_segment_bytes [of data h] by (auto simp: place_segment_def with_bytes_def with_zero_pages_def covers_def)

lemma fold_keeps:
  assumes "m x \<noteq> None" "\<And>h. h \<in> set hs \<Longrightarrow> \<not> covers h x \<and> (loadable h \<longrightarrow> segment_fits data h)"
  shows "fold (place_segment data) hs m x = m x"
  using assms
proof (induction hs arbitrary: m)
  case (Cons h hs)
  then have "place_segment data h m x = m x" by (intro place_keeps) auto
  then show ?case using Cons by simp
qed simp

lemma fold_uncovered:
  assumes "m x \<in> {None, Some 0}" "\<And>h. h \<in> set hs \<Longrightarrow> \<not> covers h x \<and> (loadable h \<longrightarrow> segment_fits data h)"
  shows "fold (place_segment data) hs m x \<in> {None, Some 0}"
  using assms
proof (induction hs arbitrary: m)
  case (Cons h hs)
  then have "place_segment data h m x \<in> {None, Some 0}" by (intro place_uncovered) auto
  then show ?case using Cons.IH [of "place_segment data h m"] Cons.prems(2) by simp
qed simp

lemma fold_segment:
  assumes fits: "\<And>g. g \<in> set (before @ h # after) \<Longrightarrow> loadable g \<Longrightarrow> segment_fits data g" and l: "loadable h"
    and x: "unat (ph_virtual_address h) \<le> unat x" "unat x < unat (ph_virtual_address h) + unat (ph_memory_size h)"
    and m: "m x = None" and others: "\<forall>g \<in> set (before @ after). \<not> covers g x"
  shows "fold (place_segment data) (before @ h # after) m x =
    Some (if unat x - unat (ph_virtual_address h) < unat (ph_file_size h)
          then data ! (unat (ph_offset h) + (unat x - unat (ph_virtual_address h))) else 0)" (is "_ = ?v")
proof -
  let ?m1 = "fold (place_segment data) before m"
  have m1: "?m1 x \<in> {None, Some 0}" using m others fits by (intro fold_uncovered) auto
  have f: "segment_fits data h" using fits l by simp
  note len = length_segment_bytes [OF f]
  have "place_segment data h ?m1 x = ?v"
  proof (cases "unat x - unat (ph_virtual_address h) < unat (ph_file_size h)")
    case True
    then show ?thesis using l x len f
      by (simp add: place_segment_def with_bytes_def segment_bytes_def less_diff_conv2 segment_fits_def)
  next
    case False
    then show ?thesis using l x len m1 in_segment_pages [OF f l x] by (auto simp: place_segment_def with_bytes_def with_zero_pages_def)
  qed
  moreover from this have "fold (place_segment data) after (place_segment data h ?m1) x = place_segment data h ?m1 x"
    using others fits by (intro fold_keeps) auto
  ultimately show ?thesis by simp
qed

lemma fold_seal:
  assumes "on_page h x" "\<forall>g \<in> set after. \<not> on_page g x"
  shows "\<exists>e'. fold (seal_entry nx x) (before @ h # after) e = (e' AND ADDRESS_MASK) OR page_flags nx (ph_flags h) OR PRESENT"
proof -
  have "fold (seal_entry nx x) after e1 = e1" for e1
    using assms(2) by (induction after) (auto simp: seal_entry_def on_page_def)
  then show ?thesis using assms(1) by (auto simp: seal_entry_def on_page_def)
qed

lemma sealed_word:
  "((e AND ADDRESS_MASK) OR page_flags nx f OR PRESENT) AND NOT ADDRESS_MASK = page_flags nx f OR PRESENT"
  "((e AND ADDRESS_MASK) OR page_flags nx f OR PRESENT) AND PRESENT \<noteq> 0"
  "((e AND ADDRESS_MASK) OR page_flags nx f OR PRESENT) AND USER \<noteq> 0"
proof -
  have k: "page_flags nx f AND NOT ADDRESS_MASK = page_flags nx f" "PRESENT AND NOT ADDRESS_MASK = PRESENT"
    by (simp_all add: page_flags_def flag_defs ADDRESS_MASK_def)
  show "((e AND ADDRESS_MASK) OR page_flags nx f OR PRESENT) AND NOT ADDRESS_MASK = page_flags nx f OR PRESENT"
    by (simp only: bit.conj_disj_distrib2 k and.assoc bit.conj_cancel_right) simp
  show "((e AND ADDRESS_MASK) OR page_flags nx f OR PRESENT) AND PRESENT \<noteq> 0" using leaf_word(2) [OF page_flags_mask] .
  show "((e AND ADDRESS_MASK) OR page_flags nx f OR PRESENT) AND USER \<noteq> 0"
    unfolding flag_test by (simp add: page_flags_def bit_or_iff bit_flags)
qed

text \<open>
  C9: A segment of a file that was accepted in a new address space, or one whose pages are all writable, is in memory
  as the file describes it. At an address of the segment that was not
  mapped before and that no other segment fills from the file, the program reads the byte of the file,
  or zero beyond the part the file provides; and where no later segment shares the page, the page can
  be reached from user mode and has exactly the permissions the segment asked for.
\<close>

theorem elf_segment_loaded:
  assumes "open_space s (cr3 s)" "elf_load nx data s = Some (Inr l, s')" "elf_headers data = before @ h # after" "loadable h"
    and "unat (ph_virtual_address h) \<le> unat x" "unat x < unat (ph_virtual_address h) + unat (ph_memory_size h)"
    and "umem s (cr3 s) x = None" "\<forall>g \<in> set (before @ after). \<not> covers g x" "\<forall>g \<in> set after. \<not> on_page g x"
  shows "umem s' (cr3 s') x = Some (if unat x - unat (ph_virtual_address h) < unat (ph_file_size h)
      then data ! (unat (ph_offset h) + (unat x - unat (ph_virtual_address h))) else 0) \<and>
    page_entry s' (cr3 s') (indexes x) AND NOT ADDRESS_MASK = page_flags nx (ph_flags h) OR PRESENT \<and>
    user_walk s' 0 (cr3 s') (indexes x)"
proof -
  have "elf_header_ok data" using elf_load_bad_header [of data nx s] assms(2) by auto
  then have r: "space_ok s' (cr3 s)" "cr3 s' = cr3 s" "image_loaded nx data s l s'"
    using elf_load_run [OF assms(1), of data nx] assms(2) by auto
  note i = r(3) [unfolded image_loaded_def assms(3)]
  have f: "segment_fits data h" using i assms(4) by simp
  have byte: "umem s' (cr3 s) x = Some (if unat x - unat (ph_virtual_address h) < unat (ph_file_size h)
      then data ! (unat (ph_offset h) + (unat x - unat (ph_virtual_address h))) else 0)"
    using fold_segment [of before h after data x "umem s (cr3 s)"] assms(4-8) i by simp
  have xu: "x < USER_SPACE_END" using assms(6) f by (simp add: segment_fits_def word_less_nat_alt)
  have "on_page h x" using in_segment_pages [OF f assms(4-6)] assms(4) by (simp add: on_page_def)
  then obtain e where e: "page_entry s' (cr3 s) (indexes x) = (e AND ADDRESS_MASK) OR page_flags nx (ph_flags h) OR PRESENT"
    using i xu fold_seal [OF _ assms(9)] by metis
  then show ?thesis using byte user_walk_entry [OF r(1) xu] sealed_word r(2) by simp
qed

lemma elf_load_any:
  assumes "open_space s (cr3 s)"
  shows "\<exists>r s'. elf_load nx data s = Some (r, s') \<and> space_ok s' (cr3 s) \<and> cr3 s' = cr3 s \<and> confined (cr3 s) s s' \<and>
    (case r of Inl e \<Rightarrow> \<not> elf_acceptable data (card (free_frames s)) | Inr l \<Rightarrow> elf_header_ok data \<and> image_loaded nx data s l s')"
proof (cases "elf_header_ok data")
  case True
  obtain r s' where "elf_load nx data s = Some (r, s')" "space_ok s' (cr3 s)" "cr3 s' = cr3 s" "confined (cr3 s) s s'"
      "case r of Inl e \<Rightarrow> \<not> elf_acceptable data (card (free_frames s)) | Inr l \<Rightarrow> image_loaded nx data s l s'"
    using elf_load_run [OF assms True, of nx] by blast
  then show ?thesis using True by (cases r) auto
next
  case False
  then show ?thesis using elf_load_bad_header [OF False, of nx s] open_space_ok [OF assms] by (auto simp: elf_acceptable_def)
qed

text \<open>
  C10: In a new address space, or any whose pages are all writable, the loader comes back from every file, however
  malformed: it never reads outside the file, never faults on a store (which needs a writable page) and never loops, and
  it leaves a well-formed address space. It accepts every file that asks only for what it allows when there are frames
  enough. A file it accepts has the header of a 64-bit little-endian x86-64 executable whose program header
  table lies inside the file, at least one segment to load, all segments inside the file and inside user space, and its
  own entry point, which is a mapped user address; and the page list accounts for the memory cleared.
\<close>

theorem elf_load_total:
  assumes "open_space s (cr3 s)"
  shows "\<exists>r s'. elf_load nx data s = Some (r, s') \<and> space_ok s' (cr3 s') \<and>
    (case r of Inl e \<Rightarrow> \<not> elf_acceptable data (card (free_frames s))
     | Inr l \<Rightarrow> elf_header_ok data \<and> (\<forall>h \<in> set (elf_headers data). loadable h \<longrightarrow> segment_fits data h) \<and>
         0 < loaded_segments l \<and> loaded_segments l = length (filter loadable (elf_headers data)) \<and>
         loaded_entry l = read_u64 data 24 \<and> loaded_entry l \<le> USER_ADDRESS_LIMIT \<and> umem s' (cr3 s') (loaded_entry l) \<noteq> None \<and>
         bytes_zeroed l = 4096 * word_of_nat (length (loaded_pages l)))"
proof -
  obtain r s' where r: "elf_load nx data s = Some (r, s')" "space_ok s' (cr3 s)" "cr3 s' = cr3 s"
      "case r of Inl e \<Rightarrow> \<not> elf_acceptable data (card (free_frames s)) | Inr l \<Rightarrow> elf_header_ok data \<and> image_loaded nx data s l s'"
    using elf_load_any [OF assms, of nx data] by blast
  then show ?thesis by (cases r) (auto simp: image_loaded_def)
qed

text \<open>
  Loading a program, whether it is accepted or refused half way, leaves every address space that shares no
  frame with the active one exactly as it was: the same pages with the same bytes, in a space that is still
  well formed.
\<close>

theorem elf_load_isolated:
  assumes "open_space s (cr3 s)" "space_ok s other" "nodes s (cr3 s) \<inter> nodes s other = {}" "elf_load nx data s = Some (r, s')"
  shows "space_ok s' other \<and> umem s' other = umem s other \<and> nodes s' (cr3 s') \<inter> nodes s' other = {}"
proof (cases "elf_header_ok data")
  case True
  then have r: "space_ok s' (cr3 s)" "cr3 s' = cr3 s" "confined (cr3 s) s s'" using elf_load_run [OF assms(1) True, of nx] assms(4) by auto
  note c = confined_other [OF r(3) assms(2,3) space_okD(1,2) [OF r(1)]]
  have "umem s' other = umem s other" using c space_okD(1,2) [OF r(1)] by (intro umem_other [OF assms(2)]) auto
  then show ?thesis using c r(2) by simp
next
  case False
  then show ?thesis using elf_load_bad_header [of data nx s] assms by auto
qed

subsection \<open>Instances\<close>

lemma empty_space_open: "open_space empty_space (cr3 empty_space)"
proof -
  have cr: "cr3 empty_space = 0x100000" by (simp add: empty_space_def)
  have "page_entry empty_space 0x100000 q AND PRESENT = 0" if "user_index q" "length q = 4" for q
    using node_page_entry [of q empty_space "0x100000"] empty_space_nodes [of "0x100000" q] that by (cases q) (auto split: if_splits)
  then show ?thesis using empty_space_root [of "0x100000"] by (auto simp: open_space_def cr)
qed

definition demo_elf :: "u8 list" where
  "demo_elf = ELF_MAGIC @ [2, 1, 1, 0, 0, 0, 0, 0, 0, 0, 0, 0] @ [2, 0, 0x3E, 0] @ [1, 0, 0, 0] @
     [0x78, 0, 0x40, 0, 0, 0, 0, 0] @ [64, 0, 0, 0, 0, 0, 0, 0] @ replicate 8 0 @ [0, 0, 0, 0] @ [64, 0, 56, 0, 1, 0] @ replicate 6 0 @
     [1, 0, 0, 0] @ [5, 0, 0, 0] @ replicate 8 0 @ [0, 0, 0x40, 0, 0, 0, 0, 0] @ replicate 8 0 @
     [124, 0, 0, 0, 0, 0, 0, 0] @ [128, 0, 0, 0, 0, 0, 0, 0] @ replicate 8 0 @ [0xEB, 0xFE, 0x90, 0x90]"

definition demo_header :: ProgramHeader where
  "demo_header = \<lparr> ph_kind = 1, ph_flags = 5, ph_offset = 0, ph_virtual_address = 0x400000, ph_physical_address = 0,
     ph_file_size = 124, ph_memory_size = 128, ph_align = 0 \<rparr>"

lemma demo_elf_fields:
  "length demo_elf = 124" "take 4 demo_elf = ELF_MAGIC" "demo_elf ! 4 = 2" "demo_elf ! 5 = 1"
  "read_u16 demo_elf 16 = 2" "read_u16 demo_elf 18 = 0x3E" "read_u16 demo_elf 54 = 56" "read_u16 demo_elf 56 = 1"
  "read_u64 demo_elf 24 = 0x400078" "read_u64 demo_elf 32 = 64" "elf_headers demo_elf = [demo_header]"
  by code_simp+

lemma demo_elf_acceptable: "elf_acceptable demo_elf (card (free_frames empty_space))"
proof -
  have "card (free_frames empty_space) = 4" "page_base 0x400000 = 0x400000" "page_base 0x40007F = 0x400000" "page_base 0x400078 = 0x400000" by code_simp+
  then show ?thesis
    by (simp add: elf_acceptable_def elf_header_ok_def demo_elf_fields demo_header_def segment_fits_def loadable_def on_page_def
        frames_needed_def pages_left_def)
qed

lemma demo_elf_loaded: "\<exists>l s'. elf_load True demo_elf empty_space = Some (Inr l, s')"
  using elf_load_run [OF empty_space_open, of demo_elf True] demo_elf_acceptable
  by (auto simp: elf_acceptable_def split: sum.splits) (metis sum.exhaust)

theorem elf_load_total_witness:
  "\<exists>l s'. elf_load True demo_elf empty_space = Some (Inr l, s') \<and> loaded_entry l = 0x400078 \<and> umem s' (cr3 s') 0x400078 \<noteq> None"
proof -
  obtain l s' where run: "elf_load True demo_elf empty_space = Some (Inr l, s')" using demo_elf_loaded by blast
  then show ?thesis
    using elf_load_total [OF empty_space_open, of True demo_elf] by (auto simp: demo_elf_fields)
qed

theorem elf_segment_loaded_witness:
  "\<exists>l s'. elf_load True demo_elf empty_space = Some (Inr l, s') \<and> umem s' (cr3 s') 0x400079 = Some 0xFE \<and> umem s' (cr3 s') 0x40007F = Some 0 \<and>
    page_entry s' (cr3 s') (indexes 0x400079) AND NOT ADDRESS_MASK = USER OR PRESENT"
proof -
  obtain l s' where run: "elf_load True demo_elf empty_space = Some (Inr l, s')" using demo_elf_loaded by blast
  have h: "elf_headers demo_elf = [] @ demo_header # []" "loadable demo_header" by (simp_all add: demo_elf_fields demo_header_def loadable_def)
  have "umem empty_space (cr3 empty_space) 0x400079 = None" "umem empty_space (cr3 empty_space) 0x40007F = None" "demo_elf ! 121 = 0xFE" by code_simp+
  moreover have "page_flags True 5 = USER" by (simp add: page_flags_def)
  ultimately show ?thesis
    using elf_segment_loaded [OF empty_space_open run h, of "0x400079"] elf_segment_loaded [OF empty_space_open run h, of "0x40007F"] run
    by (simp add: demo_header_def)
qed

theorem elf_load_isolated_witness:
  "\<exists>l s'. elf_load True demo_elf empty_space = Some (Inr l, s') \<and> space_ok s' 0x300000 \<and> umem s' 0x300000 = umem empty_space 0x300000"
proof -
  obtain l s' where "elf_load True demo_elf empty_space = Some (Inr l, s')" using demo_elf_loaded by blast
  moreover have "cr3 empty_space = 0x100000" by (simp add: empty_space_def)
  ultimately show ?thesis
    using elf_load_isolated [OF empty_space_open, of "0x300000" True demo_elf] empty_space_root [of "0x300000"] empty_space_disjoint by auto
qed

end
