(* ===== verification/Space_Life.thy ===== *)
theory Space_Life
  imports Elf
begin

text \<open>
  The life of an address space: \<open>AddressSpace::new\<close> makes one with an empty user half, \<open>AddressSpace::destroy\<close>
  walks its tables and gives back every frame that has no other owner. Both leave spaces that share no
  frame with it as they are.
\<close>

section \<open>A new space\<close>

abbreviation (input) copy_slot :: "u64 \<Rightarrow> nat \<Rightarrow> Memory \<Rightarrow> Memory" where
  "copy_slot root slot s \<equiv> put (entry_ptr root slot) (phys s (entry_ptr (cr3 s) slot)) s"

lemma copy_slots:
  assumes "aligned root" "aligned (cr3 s)" "root \<noteq> cr3 s" "\<forall>i \<in> set slots. i < 512" "distinct slots"
  shows "(\<forall>i \<in> set slots. phys (fold (copy_slot root) slots s) (entry_ptr root i) = phys s (entry_ptr (cr3 s) i)) \<and>
    (\<forall>a. (\<forall>i \<in> set slots. a \<noteq> entry_ptr root i) \<longrightarrow> phys (fold (copy_slot root) slots s) a = phys s a) \<and>
    fa_head (fold (copy_slot root) slots s) = fa_head s \<and> fa_free (fold (copy_slot root) slots s) = fa_free s \<and>
    cr3 (fold (copy_slot root) slots s) = cr3 s"
  using assms
proof (induction slots arbitrary: s)
  case (Cons i slots)
  let ?s1 = "copy_slot root i s"
  have i: "i < 512" "i \<notin> set slots" "\<forall>j \<in> set slots. j < 512" using Cons.prems by auto
  have ne: "entry_ptr (cr3 s) j \<noteq> entry_ptr root k" if "j < 512" "k < 512" for j k
    using page_base_entry [OF Cons.prems(1) that(2)] page_base_entry [OF Cons.prems(2) that(1)] Cons.prems(3) by metis
  have other: "entry_ptr root i \<noteq> entry_ptr root j" if "j \<in> set slots" for j
    using that i entry_ptr_inj [of root i j] by auto
  have IH: "(\<forall>i \<in> set slots. phys (fold (copy_slot root) slots ?s1) (entry_ptr root i) = phys ?s1 (entry_ptr (cr3 ?s1) i)) \<and>
    (\<forall>a. (\<forall>i \<in> set slots. a \<noteq> entry_ptr root i) \<longrightarrow> phys (fold (copy_slot root) slots ?s1) a = phys ?s1 a) \<and>
    fa_head (fold (copy_slot root) slots ?s1) = fa_head ?s1 \<and> fa_free (fold (copy_slot root) slots ?s1) = fa_free ?s1 \<and>
    cr3 (fold (copy_slot root) slots ?s1) = cr3 ?s1"
    using Cons.prems i by (intro Cons.IH) simp_all
  have keep: "phys ?s1 (entry_ptr (cr3 s) j) = phys s (entry_ptr (cr3 s) j)" if "j < 512" for j
    using ne [OF that i(1)] by simp
  have "phys (fold (copy_slot root) slots ?s1) (entry_ptr root i) = phys s (entry_ptr (cr3 s) i)" using IH other by simp
  then show ?case using IH keep i(3) by simp
qed simp

lemma copy_slots_shared: "shared_tab (fold (copy_slot root) slots s) = shared_tab s"
  by (induction slots arbitrary: s) simp_all

lemma address_space_new_spec:
  assumes wf: "frames_wf s" "frames_encodable s" and cr: "aligned (cr3 s)" "cr3 s \<notin> free_frames s" and new: "address_space_new s = Some (root, s')"
  shows "space_ok s' root \<and> nodes s' root = {root} \<and> umem s' root = (\<lambda>_. None) \<and> cr3 s' = cr3 s \<and> shared_tab s' = shared_tab s \<and>
    root \<in> free_frames s \<and> free_frames s' = free_frames s - {root} \<and> (\<forall>a. page_base a \<noteq> root \<longrightarrow> phys s' a = phys s a) \<and>
    (\<forall>i < 512. phys s' (entry_ptr root i) = (if i = 0 then 0 else phys s (entry_ptr (cr3 s) i)))"
proof -
  define slots where "slots = [1..<512 :: nat]"
  have sl: "set slots = {1..<512}" "distinct slots" unfolding slots_def by (rule set_upt, rule distinct_upt)
  obtain s1 where a: "frame_allocate s = Some (root, s1)"
    "s' = fold (copy_slot root) slots (zero_page root s1)"
    using new unfolding address_space_new_def slots_def [symmetric] by (cases "frame_allocate s") (auto simp del: fold_simps)
  let ?z = "zero_page root s1"
  note al = frame_allocate_Some [OF wf(1) a(1)]
  have c1: "cr3 s1 = cr3 s" using a(1) by (auto simp: frame_allocate_def Let_def split: if_splits)
  have r: "aligned root" "root \<noteq> cr3 s" "root \<noteq> 0" using conjunct1 [OF al] wf(1) cr(2) unfolding frames_wf_def by blast+
  have cs: "(\<forall>i \<in> set slots. phys s' (entry_ptr root i) = phys ?z (entry_ptr (cr3 s) i)) \<and>
      (\<forall>x. (\<forall>i \<in> set slots. x \<noteq> entry_ptr root i) \<longrightarrow> phys s' x = phys ?z x) \<and>
      fa_head s' = fa_head s1 \<and> fa_free s' = fa_free s1 \<and> cr3 s' = cr3 s"
    using copy_slots [of root ?z slots] r cr(1) c1 sl unfolding a(2) by simp
  have sh: "shared_tab s' = shared_tab s"
    using a(1) unfolding a(2) copy_slots_shared by (auto simp: frame_allocate_def Let_def split: if_splits)
  have e: "phys s' (entry_ptr root i) = (if i = 0 then 0 else phys s (entry_ptr (cr3 s) i))" if i: "i < 512" for i
  proof (cases "i = 0")
    case True
    have "entry_ptr root 0 \<noteq> entry_ptr root j" if "j \<in> set slots" for j using entry_ptr_inj [of root 0 j] that sl by auto
    then have "phys s' (entry_ptr root 0) = phys ?z (entry_ptr root 0)" using cs by blast
    then show ?thesis using True page_base_entry [OF r(1), of 0] by simp
  next
    case False
    then have "i \<in> set slots" using i sl by simp
    then have "phys s' (entry_ptr root i) = phys ?z (entry_ptr (cr3 s) i)" using cs by blast
    moreover have "page_base (entry_ptr (cr3 s) i) \<noteq> root" using page_base_entry [OF cr(1) i] r(2) by simp
    ultimately show ?thesis using False al by simp
  qed
  have out: "phys s' x = phys s x" if "page_base x \<noteq> root" for x
  proof -
    have "x \<noteq> entry_ptr root i" if "i \<in> set slots" for i using that \<open>page_base x \<noteq> root\<close> page_base_entry [OF r(1), of i] sl by auto
    then have "phys s' x = phys ?z x" using cs by blast
    then show ?thesis using that al by simp
  qed
  have c': "cr3 s' = cr3 s" and f': "fa_head s' = fa_head s1" "fa_free s' = fa_free s1" using cs by blast+
  have s1: "frames_wf s1" "phys s1 = phys s" "free_frames s1 = free_frames s - {root}" "root \<in> free_frames s" using al by blast+
  have "free_frames s' = free_frames s1 \<and> frames_wf s'"
  proof (rule free_frames_outside [OF s1(1) _ f'])
    show "phys s' x = phys s1 x" if "page_base x \<in> free_frames s1" for x using out [of x] that s1(2,3) by auto
  qed
  then have fr: "free_frames s' = free_frames s - {root}" "frames_wf s'" using s1(3) by simp_all
  have nd: "node (phys s') root q = (if q = [] then Some root else None)" if "user_index q" for q
    using that e [of 0] by (cases q) (auto simp: user_index_def)
  have "frames_encodable s'" using wf(2) fr by (simp add: frames_encodable_def)
  then have "space_ok s' root"
    unfolding space_ok_def
  proof (intro conjI allI impI)
    show "f \<notin> free_frames s'" "f \<noteq> 0" if "user_index q" "node (phys s') root q = Some f" for q f
      using nd [OF that(1)] that(2) fr(1) r(3) by (auto split: if_splits)
    show "p = q" if "user_index p" "user_index q" "node (phys s') root p = Some f" "node (phys s') root q = Some f" for p q f
      using nd that by (auto split: if_splits)
    show "table_entry (phys s' (entry_ptr t i))"
      if p: "user_index (p @ [i])" "length p < 3" "node (phys s') root p = Some t" "phys s' (entry_ptr t i) AND PRESENT \<noteq> 0" for p i t
    proof -
      have "node (phys s') root (p @ [i]) \<noteq> None" using p(3,4) by (simp add: node_snoc Let_def)
      then show "table_entry (phys s' (entry_ptr t i))" using nd [OF p(1)] by simp_all
    qed
  qed (use fr r in auto)
  moreover have "nodes s' root = {root}" using nd by (auto simp: nodes_def split: if_splits intro!: exI [of _ "[]"])
  moreover have "umem s' root = (\<lambda>_. None)"
  proof
    fix x
    show "umem s' root x = None" using nd [of "indexes x"] indexes_user [of x] by (auto simp: umem_def)
  qed
  ultimately show ?thesis using c' sh s1(4) fr(1) out e by blast
qed

section \<open>Taking a space down\<close>

text \<open>The frames below a path, and those of them that nothing else owns.\<close>

definition subtree :: "Memory \<Rightarrow> u64 \<Rightarrow> nat list \<Rightarrow> u64 set" where
  "subtree s root p = {f. \<exists>q. user_index (p @ q) \<and> node (phys s) root (p @ q) = Some f}"

definition freed :: "Memory \<Rightarrow> u64 \<Rightarrow> nat list \<Rightarrow> u64 set" where
  "freed s root p = {f. \<exists>q. user_index (p @ q) \<and> node (phys s) root (p @ q) = Some f \<and> (length (p @ q) = 4 \<longrightarrow> owners s f = 1)}"

lemma freed_subtree: "freed s root p \<subseteq> subtree s root p"
  by (auto simp: freed_def subtree_def)

lemma subtree_split:
  "user_index p \<Longrightarrow> subtree s root p = {f. node (phys s) root p = Some f} \<union> (\<Union>i < 512. subtree s root (p @ [i]))"
  "user_index p \<Longrightarrow> length p < 4 \<Longrightarrow> freed s root p = {f. node (phys s) root p = Some f} \<union> (\<Union>i < 512. freed s root (p @ [i]))"
proof -
  have i: "i < 512" if "user_index (p @ i # q)" for i q using that by (auto simp: user_index_def)
  have cases: "q = [] \<or> (\<exists>i q'. q = i # q')" for q :: "nat list" by (cases q) auto
  assume u: "user_index p"
  show "subtree s root p = {f. node (phys s) root p = Some f} \<union> (\<Union>i < 512. subtree s root (p @ [i]))"
  proof (intro equalityI subsetI)
    fix f assume "f \<in> subtree s root p"
    then obtain q where q: "user_index (p @ q)" "node (phys s) root (p @ q) = Some f" by (auto simp: subtree_def)
    then show "f \<in> {f. node (phys s) root p = Some f} \<union> (\<Union>i < 512. subtree s root (p @ [i]))"
      using i by (cases q) (auto simp: subtree_def)
  next
    fix f assume "f \<in> {f. node (phys s) root p = Some f} \<union> (\<Union>i < 512. subtree s root (p @ [i]))"
    then show "f \<in> subtree s root p" using u unfolding subtree_def by (auto intro: exI [of _ "[]"])
  qed
  assume l: "length p < 4"
  show "freed s root p = {f. node (phys s) root p = Some f} \<union> (\<Union>i < 512. freed s root (p @ [i]))"
  proof (intro equalityI subsetI)
    fix f assume "f \<in> freed s root p"
    then obtain q where q: "user_index (p @ q)" "node (phys s) root (p @ q) = Some f" "length (p @ q) = 4 \<longrightarrow> owners s f = 1"
      by (auto simp: freed_def)
    then show "f \<in> {f. node (phys s) root p = Some f} \<union> (\<Union>i < 512. freed s root (p @ [i]))"
      using i by (cases q) (auto simp: freed_def)
  next
    fix f assume "f \<in> {f. node (phys s) root p = Some f} \<union> (\<Union>i < 512. freed s root (p @ [i]))"
    then show "f \<in> freed s root p" using u l unfolding freed_def by (auto intro: exI [of _ "[]"])
  qed
qed

lemma subtree_disjoint:
  assumes "space_ok s root" "i \<noteq> j"
  shows "subtree s root (p @ [i]) \<inter> subtree s root (p @ [j]) = {}"
  using space_okD(5) [OF assms(1)] assms(2) unfolding subtree_def by fastforce

lemma subtree_above:
  assumes "space_ok s root" "user_index p" "node (phys s) root p = Some t"
  shows "t \<notin> subtree s root (p @ [i])"
  using space_okD(5) [OF assms(1) _ assms(2) _ assms(3)] unfolding subtree_def by fastforce

lemma subtree_nodes: "subtree s root p \<subseteq> nodes s root" "subtree s root [] = nodes s root"
  by (auto simp: subtree_def nodes_def)

lemma nodes_not_free: "space_ok s root \<Longrightarrow> nodes s root \<inter> free_frames s = {}"
  using space_okD(4) [of s root] unfolding nodes_def by blast

text \<open>
  What a step of the walk may rely on and what it does. \<open>s\<close> is the memory before the walk, \<open>s1\<close> the memory when the
  step starts; the walk has not touched the subtree yet.
\<close>

definition untouched :: "Memory \<Rightarrow> u64 \<Rightarrow> nat list \<Rightarrow> Memory \<Rightarrow> bool" where
  "untouched s root p s1 \<longleftrightarrow> frames_wf s1 \<and> shared_wf s1 \<and> free_frames s1 \<inter> subtree s root p = {} \<and>
     (\<forall>a. page_base a \<in> subtree s root p \<longrightarrow> phys s1 a = phys s a) \<and> (\<forall>f \<in> subtree s root p. owners s1 f = owners s f)"

definition taken_down :: "u64 set \<Rightarrow> u64 set \<Rightarrow> Memory \<Rightarrow> nat \<times> Memory \<Rightarrow> bool" where
  "taken_down T F s1 r \<longleftrightarrow> frames_wf (snd r) \<and> shared_wf (snd r) \<and> free_frames (snd r) = free_frames s1 \<union> F \<and> fst r = card F \<and>
     (\<forall>a. page_base a \<notin> F \<longrightarrow> phys (snd r) a = phys s1 a) \<and> (\<forall>f. f \<notin> T \<longrightarrow> owners (snd r) f = owners s1 f) \<and> cr3 (snd r) = cr3 s1"

definition table_step :: "(u64 \<Rightarrow> Memory \<Rightarrow> nat \<times> Memory) \<Rightarrow> u64 \<Rightarrow> nat \<Rightarrow> nat \<times> Memory \<Rightarrow> nat \<times> Memory" where
  "table_step G t i ns = (let (n, s) = ns; e = phys s (entry_ptr t i)
     in if e AND PRESENT = 0 then (n, s) else let (k, s) = G e s in (n + k, s))"

lemma child_index: "user_index p \<Longrightarrow> p \<noteq> [] \<Longrightarrow> length p < 4 \<Longrightarrow> i < 512 \<Longrightarrow> user_index (p @ [i])"
  by (auto simp: user_index_def)

lemma subtree_absent: "node (phys s) root p = None \<Longrightarrow> subtree s root p = {} \<and> freed s root p = {}"
  unfolding subtree_def freed_def node_append by auto

lemma untouched_after:
  assumes "untouched s root p s1" "taken_down T F s1 (n, s2)" "subtree s root q \<subseteq> subtree s root p" "subtree s root q \<inter> T = {}" "F \<subseteq> T"
  shows "untouched s root q s2"
  unfolding untouched_def
proof (intro conjI allI ballI impI)
  show "frames_wf s2" "shared_wf s2" using assms(2) by (simp_all add: taken_down_def)
  have "free_frames s2 = free_frames s1 \<union> F" "free_frames s1 \<inter> subtree s root p = {}" using assms(1,2) by (simp_all add: taken_down_def untouched_def)
  then show "free_frames s2 \<inter> subtree s root q = {}" using assms(3-5) by blast
  show "phys s2 a = phys s a" if "page_base a \<in> subtree s root q" for a
  proof -
    have "page_base a \<notin> F" "page_base a \<in> subtree s root p" using that assms(3-5) by blast+
    then show ?thesis using assms(1,2) by (simp add: taken_down_def untouched_def)
  qed
  show "owners s2 f = owners s f" if "f \<in> subtree s root q" for f
  proof -
    have "f \<notin> T" "f \<in> subtree s root p" using that assms(3,4) by blast+
    then show ?thesis using assms(1,2) by (simp add: taken_down_def untouched_def)
  qed
qed

lemma taken_down_trans:
  assumes "taken_down T F s1 (n, s2)" "taken_down T' F' s2 (k, s3)" "T' \<inter> T = {}" "F \<subseteq> T" "F' \<subseteq> T'"
  shows "taken_down (T' \<union> T) (F' \<union> F) s1 (n + k, s3)"
proof -
  have "F' \<union> F \<subseteq> free_frames s3" using assms(1,2) by (auto simp: taken_down_def)
  then have "finite (F' \<union> F)" using finite_subset finite_free_frames by blast
  then have "card (F' \<union> F) = card F' + card F" using assms(3-5) by (intro card_Un_disjoint) auto
  then show ?thesis using assms(1,2) unfolding taken_down_def snd_conv fst_conv by auto
qed

lemma table_loop:
  assumes ok: "space_ok s root" and p: "user_index p" "p \<noteq> []" "length p < 4" "node (phys s) root p = Some t"
    and G: "\<And>i s1. i < 512 \<Longrightarrow> node (phys s) root (p @ [i]) \<noteq> None \<Longrightarrow> untouched s root (p @ [i]) s1 \<Longrightarrow>
      taken_down (subtree s root (p @ [i])) (freed s root (p @ [i])) s1 (G (phys s (entry_ptr t i)) s1)"
    and s1: "untouched s root p s1"
  shows "m \<le> 512 \<Longrightarrow> taken_down (\<Union>i < m. subtree s root (p @ [i])) (\<Union>i < m. freed s root (p @ [i])) s1 (fold (table_step G t) [0..<m] (0, s1))"
proof (induction m)
  case 0
  then show ?case using s1 by (simp add: taken_down_def untouched_def)
next
  case (Suc m)
  let ?T = "\<Union>i < m. subtree s root (p @ [i])" and ?F = "\<Union>i < m. freed s root (p @ [i])" and ?q = "p @ [m]"
  obtain n s2 where r: "fold (table_step G t) [0..<m] (0, s1) = (n, s2)" by fastforce
  have IH: "taken_down ?T ?F s1 (n, s2)" using Suc r by simp
  have ui: "user_index ?q" using child_index p Suc.prems by simp
  have tp: "t \<in> subtree s root p" "page_base (entry_ptr t m) = t"
    using subtree_split(1) [OF p(1), of s root] p(4) node_in_page [OF ui p(4) space_okD(3) [OF ok]] by auto
  have sub: "subtree s root ?q \<subseteq> subtree s root p" using subtree_split(1) [OF p(1), of s root] Suc.prems by auto
  have "subtree s root ?q \<inter> subtree s root (p @ [i]) = {}" if "i < m" for i using subtree_disjoint [OF ok, of m i p] that by simp
  then have dis: "subtree s root ?q \<inter> ?T = {}" by blast
  have "t \<notin> ?F" using subtree_above [OF ok p(1,4)] freed_subtree by blast
  then have e: "phys s2 (entry_ptr t m) = phys s (entry_ptr t m)"
    using IH tp s1 by (simp add: taken_down_def untouched_def)
  have run: "fold (table_step G t) [0..<Suc m] (0, s1) = table_step G t m (n, s2)" using r by simp
  show ?case
  proof (cases "phys s (entry_ptr t m) AND PRESENT = 0")
    case True
    then have "node (phys s) root ?q = None" using p(4) by (simp add: node_snoc)
    moreover have "table_step G t m (n, s2) = (n, s2)" using True e by (simp add: table_step_def)
    ultimately show ?thesis using IH run subtree_absent [of s root ?q] by (simp only: lessThan_Suc UN_insert Un_empty_left)
  next
    case False
    then have n: "node (phys s) root ?q \<noteq> None" using p(4) by (simp add: node_snoc Let_def)
    have fq: "?F \<subseteq> ?T" using freed_subtree by blast
    from G [OF _ n untouched_after [OF s1 IH sub dis fq]] have g: "taken_down (subtree s root ?q) (freed s root ?q) s2 (G (phys s (entry_ptr t m)) s2)" using Suc.prems by simp
    obtain k s3 where k: "G (phys s (entry_ptr t m)) s2 = (k, s3)" by fastforce
    have "taken_down (subtree s root ?q \<union> ?T) (freed s root ?q \<union> ?F) s1 (n + k, s3)"
      using taken_down_trans [OF IH _ dis fq freed_subtree] g k by simp
    moreover have "table_step G t m (n, s2) = (n + k, s3)" using False e k by (simp add: table_step_def)
    ultimately show ?thesis using run by (simp only: lessThan_Suc UN_insert)
  qed
qed

text \<open>The whole of a table: its entries, then the table itself.\<close>

lemma table_freed:
  assumes ok: "space_ok s root" and p: "user_index p" "p \<noteq> []" "length p < 4" "node (phys s) root p = Some t" and s1: "untouched s root p s1"
    and loop: "taken_down (\<Union>i < 512. subtree s root (p @ [i])) (\<Union>i < 512. freed s root (p @ [i])) s1 (n, s2)"
  shows "taken_down (subtree s root p) (freed s root p) s1 (n + 1, frame_deallocate s2 t)"
proof -
  let ?T = "\<Union>i < 512. subtree s root (p @ [i])" and ?F = "\<Union>i < 512. freed s root (p @ [i])"
  have T: "subtree s root p = insert t ?T" "freed s root p = insert t ?F" using subtree_split [OF p(1), of s root] p(3,4) by auto
  have nt: "t \<notin> ?T" using subtree_above [OF ok p(1,4)] by blast
  moreover have "?F \<subseteq> ?T" using freed_subtree by blast
  ultimately have nf: "t \<notin> ?F" by blast
  have al: "aligned t" using node_aligned [OF p(4)] space_okD(3) [OF ok] by blast
  have "t \<notin> free_frames s2" using loop s1 T(1) nf by (auto simp: taken_down_def untouched_def)
  moreover have "legal_frame t" using al space_okD(4) [OF ok p(1,4)] by (simp add: legal_frame_def)
  ultimately have d: "free_frames (frame_deallocate s2 t) = insert t (free_frames s2)" "frames_wf (frame_deallocate s2 t)"
    using frame_deallocate_pool [of s2 t] loop by (simp_all add: taken_down_def)
  have "finite ?F" using loop finite_free_frames [of s2] by (auto simp: taken_down_def)
  then have "card (insert t ?F) = n + 1" using nf loop by (simp add: taken_down_def)
  moreover have "owners (frame_deallocate s2 t) = owners s2" "shared_wf (frame_deallocate s2 t) = shared_wf s2"
      "cr3 (frame_deallocate s2 t) = cr3 s2"
    by (simp_all add: frame_deallocate_def owners_def shared_wf_def fun_eq_iff)
  moreover have "phys (frame_deallocate s2 t) a = phys s2 a" if "page_base a \<noteq> t" for a
    using that page_base_aligned [OF al] by (auto simp: frame_deallocate_def)
  ultimately show ?thesis using loop d T by (auto simp: taken_down_def)
qed

lemma free_leaf_add: "free_leaf f (n, s) = (let (k, s') = free_leaf f (0, s) in (n + k, s'))"
  by (simp add: free_leaf_def)

lemma leaf_freed:
  assumes ok: "space_ok s root" and p: "user_index p" "length p = 4" "node (phys s) root p = Some f" and s1: "untouched s root p s1"
  shows "taken_down (subtree s root p) (freed s root p) s1 (free_leaf f (0, s1))"
proof -
  have q: "q = []" if "user_index (p @ q)" for q using that p(2) by (simp add: user_index_def)
  have e: "(\<exists>q. user_index (p @ q) \<and> P q) = P []" for P using p(1) q by (metis append_Nil2)
  have T: "subtree s root p = {f}" unfolding subtree_def e using p(3) by auto
  have F: "freed s root p = (if owners s f = 1 then {f} else {})" unfolding freed_def e using p(2,3) by auto
  have al: "aligned f" using node_aligned [OF p(3)] space_okD(3) [OF ok] by blast
  have o: "owners s1 f = owners s f" "1 \<le> owners s1 f" using s1 T owners_pos [of s1 f] by (auto simp: untouched_def)
  have c: "(share_count f s1 > 1) = (owners s1 f > 1)" using share_count_owners [of f s1] by (simp add: word_less_nat_alt)
  show ?thesis
  proof (cases "owners s1 f > 1")
    case True
    obtain left s2 where u: "unshare f s1 = (left, s2)" by fastforce
    note uo = unshare_owners [OF _ u]
    have "phys s2 = phys s1" "cr3 s2 = cr3 s1" "fa_head s2 = fa_head s1" "fa_free s2 = fa_free s1" using unshare_same [of f s1] u by simp_all
    then show ?thesis using True c u uo s1 T F o free_frames_fields [of s2 s1]
      by (auto simp: taken_down_def free_leaf_def untouched_def)
  next
    case False
    have "f \<notin> free_frames s1" "frames_wf s1" using s1 T by (auto simp: untouched_def)
    moreover have "legal_frame f" using al space_okD(4) [OF ok p(1,3)] by (simp add: legal_frame_def)
    ultimately have d: "free_frames (frame_deallocate s1 f) = insert f (free_frames s1)" "frames_wf (frame_deallocate s1 f)"
      using frame_deallocate_pool [of s1 f] by simp_all
    have "phys (frame_deallocate s1 f) a = phys s1 a" if "page_base a \<noteq> f" for a
      using that page_base_aligned [OF al] by (auto simp: frame_deallocate_def)
    moreover have "owners (frame_deallocate s1 f) = owners s1" "shared_wf (frame_deallocate s1 f) = shared_wf s1" "cr3 (frame_deallocate s1 f) = cr3 s1"
      by (simp_all add: frame_deallocate_def owners_def shared_wf_def fun_eq_iff)
    ultimately show ?thesis using False c s1 T F o d by (auto simp: taken_down_def free_leaf_def untouched_def)
  qed
qed

lemma free_subtree_0:
  "free_subtree 0 t s = (let (n, s) = fold (table_step (\<lambda>e s. free_leaf (e AND ADDRESS_MASK) (0, s)) t) [0..<512] (0, s) in (n + 1, frame_deallocate s t))"
proof -
  have "(\<lambda>i (n, s). let entry = phys s (entry_ptr t i) in if entry AND PRESENT = 0 then (n, s) else free_leaf (entry AND ADDRESS_MASK) (n, s)) =
      table_step (\<lambda>e s. free_leaf (e AND ADDRESS_MASK) (0, s)) t"
    by (auto simp: fun_eq_iff table_step_def Let_def free_leaf_def)
  then show ?thesis by (simp only: free_subtree.simps)
qed

lemma free_subtree_Suc:
  "free_subtree (Suc level) t s = (let (n, s) = fold (table_step (\<lambda>e s. if e AND HUGE \<noteq> 0 then free_leaf (e AND ADDRESS_MASK) (0, s)
      else free_subtree level (e AND ADDRESS_MASK) s) t) [0..<512] (0, s) in (n + 1, frame_deallocate s t))"
proof -
  have "(\<lambda>i (n, s). let entry = phys s (entry_ptr t i)
                         in if entry AND PRESENT = 0 then (n, s)
                            else if entry AND HUGE \<noteq> 0 then free_leaf (entry AND ADDRESS_MASK) (n, s)
                            else let (k, s) = free_subtree level (entry AND ADDRESS_MASK) s in (n + k, s)) =
      table_step (\<lambda>e s. if e AND HUGE \<noteq> 0 then free_leaf (e AND ADDRESS_MASK) (0, s) else free_subtree level (e AND ADDRESS_MASK) s) t"
    by (auto simp: fun_eq_iff table_step_def Let_def free_leaf_def)
  then show ?thesis by (simp only: free_subtree.simps)
qed

lemma free_subtree_taken:
  assumes ok: "space_ok s root" and p: "user_index p" "p \<noteq> []" "length p + level = 3" "node (phys s) root p = Some t" and s1: "untouched s root p s1"
  shows "taken_down (subtree s root p) (freed s root p) s1 (free_subtree level t s1)"
  using p s1
proof (induction level arbitrary: p t s1)
  case 0
  let ?G = "\<lambda>e s. free_leaf (e AND ADDRESS_MASK) (0, s)"
  have len: "length p = 3" using 0 by simp
  have child: "taken_down (subtree s root (p @ [i])) (freed s root (p @ [i])) s2 (?G (phys s (entry_ptr t i)) s2)"
    if "i < 512" "node (phys s) root (p @ [i]) \<noteq> None" "untouched s root (p @ [i]) s2" for i s2
    using that child_index [OF 0(1,2) _ that(1)] len 0(4) by (intro leaf_freed [OF ok]) (auto simp: node_snoc Let_def split: if_splits)
  obtain n s2 where r: "fold (table_step ?G t) [0..<512] (0, s1) = (n, s2)" by fastforce
  have "taken_down (\<Union>i < 512. subtree s root (p @ [i])) (\<Union>i < 512. freed s root (p @ [i])) s1 (n, s2)"
    using table_loop [OF ok 0(1,2) _ 0(4) child 0(5), of 512] len r by simp
  from table_freed [OF ok 0(1,2) _ 0(4,5) this] show ?case unfolding free_subtree_0 r using len by simp
next
  case (Suc level)
  let ?G = "\<lambda>e s. if e AND HUGE \<noteq> 0 then free_leaf (e AND ADDRESS_MASK) (0, s) else free_subtree level (e AND ADDRESS_MASK) s"
  have len: "length p < 3" using Suc.prems(3) by simp
  have child: "taken_down (subtree s root (p @ [i])) (freed s root (p @ [i])) s2 (?G (phys s (entry_ptr t i)) s2)"
    if i: "i < 512" "node (phys s) root (p @ [i]) \<noteq> None" "untouched s root (p @ [i]) s2" for i s2
  proof -
    have ui: "user_index (p @ [i])" using child_index [OF Suc.prems(1,2) _ i(1)] len by simp
    have on: "phys s (entry_ptr t i) AND PRESENT \<noteq> 0" using i(2) Suc.prems(4) by (auto simp: node_snoc)
    then have n: "node (phys s) root (p @ [i]) = Some (phys s (entry_ptr t i) AND ADDRESS_MASK)" using Suc.prems(4) by (simp add: node_snoc Let_def)
    have "phys s (entry_ptr t i) AND HUGE = 0" using space_okD(6) [OF ok ui len Suc.prems(4) on] by (simp add: table_entry_def)
    then show ?thesis using Suc.IH [OF ui _ _ n i(3)] Suc.prems(3) by simp
  qed
  obtain n s2 where r: "fold (table_step ?G t) [0..<512] (0, s1) = (n, s2)" by fastforce
  have "taken_down (\<Union>i < 512. subtree s root (p @ [i])) (\<Union>i < 512. freed s root (p @ [i])) s1 (n, s2)"
    using table_loop [OF ok Suc.prems(1,2) _ Suc.prems(4) child Suc.prems(5), of 512] len r by simp
  from table_freed [OF ok Suc.prems(1,2) _ Suc.prems(4,5) this] show ?case unfolding free_subtree_Suc r using len by simp
qed

text \<open>The part of \<open>destroy\<close> that walks the user half.\<close>

lemma user_half_taken:
  assumes ok: "space_ok s root" and sh: "shared_wf s"
  shows "taken_down (subtree s root [0]) (freed s root [0]) s
    (if phys s root AND PRESENT \<noteq> 0 then free_subtree 2 (phys s root AND ADDRESS_MASK) s else (0, s))"
proof -
  have e0: "entry_ptr root 0 = root" by (simp add: entry_ptr_def)
  have u0: "user_index [0]" by (simp add: user_index_def)
  show ?thesis
  proof (cases "phys s root AND PRESENT = 0")
    case True
    then have "node (phys s) root [0] = None" using e0 by simp
    then show ?thesis using True subtree_absent [of s root "[0]"] space_okD(1) [OF ok] sh by (simp add: taken_down_def)
  next
    case False
    then have n: "node (phys s) root [0] = Some (phys s root AND ADDRESS_MASK)" using e0 by (simp add: Let_def)
    have "free_frames s \<inter> subtree s root [0] = {}" using nodes_not_free [OF ok] subtree_nodes(1) [of s root "[0]"] by blast
    then have "untouched s root [0] s" using space_okD(1) [OF ok] sh by (simp add: untouched_def)
    then show ?thesis using free_subtree_taken [OF ok u0 _ _ n, of 2] False by simp
  qed
qed

lemma destroy_steps:
  "address_space_destroy root s =
     (let (n, s') = if phys s root AND PRESENT \<noteq> 0 then free_subtree 2 (phys s root AND ADDRESS_MASK) s else (0, s)
      in (n + 1, frame_deallocate (if phys s root AND PRESENT \<noteq> 0 then put root 0 s' else s') root))"
  by (simp add: address_space_destroy_def Let_def split: prod.split)

lemma nodes_root:
  "nodes s root = insert root (subtree s root [0])" "freed s root [] = insert root (freed s root [0])"
proof -
  have empty: "subtree s root [i] = {}" "freed s root [i] = {}" if "i \<noteq> 0" for i using that by (auto simp: subtree_def freed_def user_index_def)
  have "{..<512 :: nat} = insert 0 {1..<512}" by auto
  then have "(\<Union>i < 512. subtree s root [i]) = subtree s root [0]" "(\<Union>i < 512. freed s root [i]) = freed s root [0]"
    using empty by auto
  then show "nodes s root = insert root (subtree s root [0])" "freed s root [] = insert root (freed s root [0])"
    using subtree_split [OF user_index_Nil, of s root] subtree_nodes(2) [of s root] by auto
qed

lemma subtree_encodable: "f \<in> subtree s root [0] \<Longrightarrow> f AND ADDRESS_MASK = f"
proof -
  assume "f \<in> subtree s root [0]"
  then obtain q where "node (phys s) root ([0] @ q) = Some f" by (auto simp: subtree_def)
  then show ?thesis using node_page_entry [of "[0] @ q" s root] by (auto split: if_splits)
qed

lemma destroy_spec:
  assumes "space_ok s root" "shared_wf s" "root AND ADDRESS_MASK = root" "address_space_destroy root s = (n, s')"
  shows "free_frames s' = free_frames s \<union> freed s root [] \<and> n = card (freed s root []) \<and> frames_wf s' \<and> frames_encodable s' \<and> shared_wf s' \<and>
    (\<forall>a. page_base a \<notin> freed s root [] \<longrightarrow> phys s' a = phys s a) \<and> (\<forall>f. f \<notin> nodes s root \<longrightarrow> owners s' f = owners s f) \<and> cr3 s' = cr3 s"
proof -
  note d = space_okD [OF assms(1)]
  have nr: "root \<notin> subtree s root [0]" using subtree_above [OF assms(1) user_index_Nil, of root 0] by simp
  have rf: "root \<notin> free_frames s" "root \<noteq> 0" using d(4) [OF user_index_Nil] by simp_all
  note fs = freed_subtree [of s root "[0]"]
  obtain k s1 where k: "(if phys s root AND PRESENT \<noteq> 0 then free_subtree 2 (phys s root AND ADDRESS_MASK) s else (0, s)) = (k, s1)"
    by fastforce
  define s2 where "s2 = (if phys s root AND PRESENT \<noteq> 0 then put root 0 s1 else s1)"
  have t: "taken_down (subtree s root [0]) (freed s root [0]) s (k, s1)" using user_half_taken [OF assms(1,2)] unfolding k .
  have s': "n = k + 1" "s' = frame_deallocate s2 root" using assms(4) k by (simp_all add: destroy_steps s2_def)
  have fr1: "free_frames s1 = free_frames s \<union> freed s root [0]" "frames_wf s1" using t by (simp_all add: taken_down_def)
  have "root \<notin> free_frames s1" using fr1 rf(1) nr fs by blast
  then have fr2: "free_frames s2 = free_frames s1" "frames_wf s2"
    using free_frames_put [of s1 root 0] fr1(2) page_base_aligned [OF d(3)] by (simp_all add: s2_def)
  moreover have "legal_frame root" using rf(2) d(3) by (simp add: legal_frame_def)
  ultimately have fr: "free_frames s' = insert root (free_frames s1)" "frames_wf s'"
    using frame_deallocate_pool [of s2 root] \<open>root \<notin> free_frames s1\<close> s'(2) by simp_all
  have "finite (freed s root [0])" using fr1 finite_free_frames [of s1] by (metis finite_Un)
  moreover have "root \<notin> freed s root [0]" using nr fs by blast
  ultimately have n: "card (freed s root []) = n" using nodes_root(2) [of s root] t s'(1) by (simp add: taken_down_def)
  have en: "frames_encodable s'"
    unfolding frames_encodable_def
  proof
    fix f assume "f \<in> free_frames s'"
    then consider "f = root" | "f \<in> free_frames s" | "f \<in> subtree s root [0]" using fr(1) fr1(1) fs by blast
    then show "f AND ADDRESS_MASK = f"
      using assms(3) d(2) subtree_encodable [of f s root] by cases (simp_all add: frames_encodable_def)
  qed
  have o: "owners s' = owners s1" "shared_wf s' = shared_wf s1" "cr3 s' = cr3 s1"
    by (simp_all add: s'(2) s2_def frame_deallocate_def owners_def shared_wf_def fun_eq_iff)
  have ph: "phys s' a = phys s a" if "page_base a \<notin> freed s root []" for a
  proof -
    have "page_base a \<noteq> root" "page_base a \<notin> freed s root [0]" using that nodes_root(2) [of s root] by auto
    then show ?thesis using t page_base_aligned [OF d(3)] by (auto simp: s'(2) s2_def frame_deallocate_def taken_down_def)
  qed
  have "free_frames s' = free_frames s \<union> freed s root []" using fr(1) fr1(1) nodes_root(2) [of s root] by blast
  then show ?thesis using fr(2) n en o ph t nodes_root(1) [of s root] by (simp add: taken_down_def)
qed

text \<open>
  C12: Taking down an address space gives back exactly the frames of its tables and those of its pages
  that nobody else owns, and says how many; no other frame is written to, and the counts of owners of frames outside
  the space stay.
\<close>

theorem destroy_returns_frames:
  assumes "space_ok s root" "shared_wf s" "root AND ADDRESS_MASK = root" "address_space_destroy root s = (n, s')"
  shows "free_frames s' = free_frames s \<union> freed s root [] \<and> n = card (freed s root []) \<and> frames_wf s' \<and> frames_encodable s' \<and> shared_wf s' \<and>
    (\<forall>a. page_base a \<notin> freed s root [] \<longrightarrow> phys s' a = phys s a) \<and> (\<forall>f. f \<notin> nodes s root \<longrightarrow> owners s' f = owners s f) \<and> cr3 s' = cr3 s"
  using destroy_spec [OF assms] .

text \<open>
  Taking down one space leaves another as it was when none of the frames that are returned belongs to it. The two
  may share pages, as parent and child do after a fork, when the share table counts both of them.
\<close>

lemma destroy_other:
  assumes "space_ok s root" "shared_wf s" "root AND ADDRESS_MASK = root" "space_ok s other" "freed s root [] \<inter> nodes s other = {}"
    "address_space_destroy root s = (n, s')"
  shows "space_ok s' other \<and> umem s' other = umem s other \<and> (\<forall>q. user_index q \<longrightarrow> node (phys s') other q = node (phys s) other q) \<and>
    (\<forall>q. user_index q \<longrightarrow> length q = 4 \<longrightarrow> page_entry s' other q = page_entry s other q) \<and> cr3 s' = cr3 s"
proof -
  note r = destroy_spec [OF assms(1-3,6)]
  have f: "free_frames s' \<inter> nodes s other = {}" using r nodes_not_free [OF assms(4)] assms(5) by blast
  have p: "phys s' a = phys s a" if "page_base a \<in> nodes s other" for a using r that assms(5) by blast
  have w: "frames_wf s'" "frames_encodable s'" using r by blast+
  show ?thesis using space_other [OF assms(4) p f w] umem_other [OF assms(4) p f w] r by blast
qed

subsection \<open>Instances\<close>

theorem destroy_returns_frames_witness:
  "\<exists>s'. address_space_destroy 0x100000 empty_space = (1, s') \<and> free_frames s' = insert 0x100000 (free_frames empty_space)"
proof -
  obtain n s' where r: "address_space_destroy 0x100000 empty_space = (n, s')" by fastforce
  have "freed empty_space 0x100000 [] = {0x100000}"
    using nodes_root [of empty_space "0x100000"] empty_space_disjoint(1) freed_subtree [of empty_space "0x100000" "[0]"] by blast
  moreover have "shared_wf empty_space" by (simp add: shared_wf_def empty_space_def demo_memory_def)
  ultimately show ?thesis
    using destroy_returns_frames [OF empty_space_root _ empty_roots(3) r] r by simp
qed

end
