(* ===== verification/Programs.thy ===== *)
theory Programs
  imports Space_Life Frames Fat
begin







section \<open>Replacing the program of a task\<close>






text \<open>The frame the system call returns through: fifteen registers, then RIP, CS, RFLAGS, RSP and SS.\<close>

definition rewrite_frame :: "u64 \<Rightarrow> u64 \<Rightarrow> u64 \<Rightarrow> u64 \<Rightarrow> u64 \<Rightarrow> Kernel \<Rightarrow> Kernel" where
  "rewrite_frame context argc argv entry stack k =
     (let k = fold (\<lambda>index. store (frame_word context index) 0) [0..<15] k
      in store (frame_word context 19) USER_DATA (store (frame_word context 18) stack (store (frame_word context 17) 0x202
           (store (frame_word context 16) USER_CODE (store (frame_word context 15) entry (store (frame_word context 9) argv
           (store (frame_word context 8) argc k)))))))"



section \<open>Other address spaces\<close>







section \<open>The stack of a program\<close>





section \<open>Building a program\<close>







section \<open>The arguments of \<open>exec\<close>\<close>





section \<open>Writing to the stack page\<close>




section \<open>The frame of the system call\<close>



lemma store_all_fields:
  "k_tasks (fold (\<lambda>index. store (frame_word c index) 0) is k) = k_tasks k"
  "k_current (fold (\<lambda>index. store (frame_word c index) 0) is k) = k_current k"
  "k_root (fold (\<lambda>index. store (frame_word c index) 0) is k) = k_root k"
  by (induction "is" arbitrary: k) simp_all

lemma rewrite_frame_fields [simp]:
  "k_tasks (rewrite_frame c argc argv entry stack k) = k_tasks k" "k_current (rewrite_frame c argc argv entry stack k) = k_current k"
  "k_root (rewrite_frame c argc argv entry stack k) = k_root k"
  by (simp_all add: rewrite_frame_def Let_def store_all_fields del: fold_simps)


section \<open>What \<open>exec\<close> does\<close>














subsection \<open>Instances\<close>




end
