(* ===== verification/Spec2Isabelle.thy ===== *)
theory Spec2Isabelle
  imports Lifecycle Sched_Fair Keyboard Pipe Swapping Heap_Correct Sync Mkfs Programs
begin

text \<open>
  A verification library for the kernel in \<open>kernel/src\<close>.

  \<^bold>\<open>The program.\<close> A small x86-64 kernel. The bootloader hands it a memory map, from which \<open>memory.rs\<close>
  builds a free list of frames and, on demand, page tables; \<open>heap.rs\<close> serves the kernel's own
  allocations. Tasks live in a table of eight slots (\<open>task.rs\<close>): kernel tasks, and user programs with an
  address space of their own. The timer interrupt saves the running task in a twenty-word frame on its
  kernel stack, asks the installed policy of \<open>sched.rs\<close> who runs next and resumes that task. Tasks
  block on channels, sleep, fork, wait for children, exchange bytes through the pipes of \<open>pipe.rs\<close>
  under reference-counted descriptors, and receive signals (\<open>signal.rs\<close>) as calls of a handler on their own
  stack. \<open>exec\<close> (\<open>syscall.rs\<close>) replaces a program by one that \<open>elf.rs\<close> loads from a file, with its
  arguments on the new stack (\<open>user.rs\<close>). Fork shares pages copy on write; when frames run out, a policy of \<open>replace.rs\<close> names a
  victim, which goes to the swap area (\<open>swap.rs\<close>) on the disk (\<open>ata.rs\<close>) and comes back on a fault.
  \<open>keyboard.rs\<close> and \<open>serial.rs\<close> feed the console; \<open>fat.rs\<close> keeps files on the same disk.

  \<^bold>\<open>How it is modelled.\<close> Machine integers keep their width (\<open>Prelude\<close>: \<open>u8\<close> to \<open>u64\<close> as words, so
  arithmetic wraps as in a release build); indexes and lengths of fixed arrays are natural numbers;
  fixed arrays are lists whose length is part of a well-formedness predicate. Static mutable state is a
  record that the operations take and return, \<open>Option\<close> and \<open>Result\<close> are \<open>option\<close> and sums, a panic
  is \<open>None\<close>. Code under \<open>without_interrupts\<close> is atomic; what runs with interrupts on is split at
  the points where another task can run (\<open>Pipe\<close>, and the rounds of the blocking loops in
  \<open>Kernel_Tasks\<close>).

  \<^bold>\<open>The theories.\<close>

  \<^item> \<open>Prelude\<close>: word arithmetic of Rust's \<open>core\<close>, iterator idioms, circular indexes, index loops, and the
    locale \<open>invariant\<close> for transition systems. \<open>Ring_Buffer\<close>: slices of a ring and the locale of a bounded
    queue. \<open>Pools\<close>: the locales of a pool of slots and of frames. \<open>Utf8\<close>: \<open>from_utf8\<close>.
  \<^item> \<open>Task_State\<close>, \<open>Sched\<close>: the task record; the five policies (round robin, FIFO, priority, aging,
    MLFQ) behind one contract, \<open>choose\<close> with quantum, accounting, trace and watchdog. \<open>Sched_Fair\<close>: who
    runs, waiting bounds for aging and round robin, quantum lengths, handover, the trace.
  \<^item> \<open>Kernel_Tasks\<close>: \<open>task.rs\<close> and \<open>signal.rs\<close>. The state \<open>Kernel\<close> has the table, the current task, the
    tick count, the state of scheduler and pipes, kernel memory by 64-bit word, what each address space
    shows of user memory, CR3 and the TSS stack pointer. \<open>Frames\<close>: entry and exit paths, new and forked
    tasks and signal handlers resume with the right registers. \<open>Descriptors\<close>: reference counts of
    pipes equal the descriptors in all tables, by an invariant of every sequence of calls.
    \<open>Lifecycle\<close>: the timer with and without a fatal signal, signals in order, \<open>wait\<close>, and the address spaces of finished tasks.
  \<^item> \<open>Pipe\<close>: the ring, the counts, and readers, writers and closers as threads; integrity of the
    stream, no lost wakeup, no deadlock.
  \<^item> \<open>Memory\<close>: \<open>memory.rs\<close> over a store of physical words. \<open>Page_Tables\<close>: the free list under every sequence of
    taking, writing and returning frames, mapping against translation, the check of user pointers. \<open>Sharing\<close>:
    owner counts, completeness of \<open>user_pages\<close>, copy on write. \<open>Swapping\<close>: eviction, and faulting back in from the disk in
    any later state that left the page's entries and its slot alone. \<open>User_Memory\<close>: loads and stores through the
    active address space, where a store needs a writable page at every level (CR0.WP binds the kernel as well),
    and the arguments on a new stack (\<open>user.rs\<close>). \<open>Space\<close>: the user half of an
    address space as a tree of frames, with what a program sees of it (\<open>umem\<close>), how mapping, storing and changing flags
    act on it, and that other pages and other spaces do not notice. \<open>Space_Life\<close>: creating and destroying spaces.
  \<^item> \<open>Elf\<close>: \<open>elf.rs\<close>, from the checks of the header to the permissions; every file is accepted or refused
    without a fault, and an accepted one is in memory as its headers say. \<open>Programs\<close>: \<open>map_stack\<close> and \<open>exec\<close> over the
    pair of kernel and memory; a failed call changes nothing the caller can see, a successful one
    enters the new program with its arguments.
  \<^item> \<open>Page_Set\<close>, \<open>Replace\<close>: page-table entries as policies see them, and the four replacement
    policies behind one contract. \<open>Swap\<close>, \<open>Ata\<close>: slots, sectors and the words of the data port.
  \<^item> \<open>Heap\<close>, \<open>Heap_Correct\<close>: the hole list in memory; holes and live blocks partition the heap,
    allocation, coalescing, statistics.
  \<^item> \<open>Keyboard\<close>, \<open>Serial_Input\<close>: the two input rings as bounded queues, scancode translation, the
    blocking read.
  \<^item> \<open>Sync\<close>: the spin lock with its saved interrupt flag, the claim and the semaphore of \<open>sync.rs\<close>;
    nested locks, and the count of permits and the wakeups under any interleaving of waits and signals.
  \<^item> \<open>Bytes\<close>, \<open>Fat\<close>: little-endian fields, and \<open>fat.rs\<close> as operations that take the disk and return a
    result and the disk they leave behind. \<open>Fat_Volume\<close>: the disk refines an abstract volume of links,
    cluster contents and directory sectors. \<open>Fat_Chains\<close>: chains of clusters. \<open>Fat_Files\<close>: what is created is
    read back, other files stay, removal gives the clusters back, the layout of a mounted volume, and what
    happens when the volume is full. \<open>Mkfs\<close>: the image builder \<open>mkfs/src/main.rs\<close>, and that the kernel mounts and
    reads what it builds, with the swap area behind the volume.

  \<^bold>\<open>Interfaces.\<close> Contracts are locales, interpreted on the model: the scheduling policies and the page
  replacers on all registered policies, the bounded queue on both input rings, the slot and frame pools
  on \<open>swap.rs\<close> and the frame allocator, the free-list walk on the heap, and \<open>invariant\<close> on the
  descriptor calls, nested locks and the semaphore.

  \<^bold>\<open>Bounds and fuel.\<close> Structural recursion follows the fixed depths of the code (four levels of page
  tables, twenty words of a frame, the two laps of the clock, which is proved to be enough). \<open>init_region\<close>, the heap's walks and
  \<open>is_user_accessible\<close> are partial functions in the option monad, where not returning is \<open>None\<close>, and the
  theorems about them show that they return. Thirty-two rounds drain the pending signals, one for each bit.

  \<^bold>\<open>Limits.\<close> The descriptor calls leave out the one way to end a task that does not close its descriptors, the
  kill by a signal in the scheduler; \<open>Descriptors\<close> shows what it does to the counts. Copy on write is correct while
  a frame is free; \<open>Swapping\<close> shows what goes wrong when the fault has to evict.

  \<^bold>\<open>Not modelled.\<close> The dispatcher of the system calls and the calls other than \<open>exec\<close> and \<open>pipe\<close>, the bodies of the kernel tasks,
  privileged instructions and ports (descriptor tables, interrupt controller,
  processor start-up, UART, display), the translation cache (each change is followed by an
  invalidation), console output, the shell, benchmarks, self-tests, the language model and the user
  programs. The status polling of the disk controller is a parameter of \<open>Ata\<close>.
\<close>

end
